(* ===== verification/Prelude.thy ===== *)
theory Prelude
  imports Main "HOL-Library.Word" "HOL-Library.Signed_Division" "HOL-Library.Multiset"
    "HOL-Library.Char_ord" "HOL-Library.List_Lexorder"
begin

text \<open>
  The vocabulary shared by all components: the parts of Go's language and standard library that
  the sources use (byte strings, \<^verbatim>\<open>strings\<close>, \<^verbatim>\<open>strconv\<close>, \<^verbatim>\<open>time\<close>, \<^verbatim>\<open>errors\<close>), the named
  collections of simplification rules, and generic lemmas on lists and maps.

  A Go string is a list of bytes, so \<^typ>\<open>string\<close> is used for it; a \<^verbatim>\<open>[]byte\<close> body is a list of
  8-bit words.  A \<^verbatim>\<open>time.Time\<close> is an \<^typ>\<open>int\<close>, the nanoseconds since the zero time, so the zero
  time is 0 and every real time is positive.
\<close>

section \<open>Shared types\<close>

type_synonym byte = "8 word"
type_synonym bytes = "byte list"
type_synonym time = int
type_synonym duration = int

text \<open>
  Go errors.  \<^verbatim>\<open>errors.Wrap\<close>, \<^verbatim>\<open>errors.WithStack\<close> and \<^verbatim>\<open>errors.Errorf("... %w")\<close> keep the wrapped
  error reachable for \<^verbatim>\<open>errors.Is\<close>, and \<^verbatim>\<open>errors.Join\<close> makes every joined error reachable; the only
  other observation the code makes is the comparison with \<^verbatim>\<open>nil\<close>.  An error is therefore the list of
  the leaf errors reachable from it: \<^verbatim>\<open>nil\<close> is the empty list, \<^verbatim>\<open>errors.Is\<close> is membership, wrapping is
  the identity and joining is concatenation.
\<close>

datatype errkind =
    ErrNotExist
  | ErrNotModified
  | ErrPreconditionFailed
  | ErrRangeNotSatisfiable
  | ErrStatsUnavailable
  | ErrCanceled
  | ErrClosedPipe
  | EOF
  | ErrBody
  | ErrHTTPStatus int
  | HTTPError int
  | ErrTransport
  | ErrOther string

type_synonym goerr = "errkind list"

definition errIs :: "goerr \<Rightarrow> errkind \<Rightarrow> bool" where
  "errIs e k \<longleftrightarrow> k \<in> set e"

definition errJoin :: "goerr list \<Rightarrow> goerr" where
  "errJoin es = concat es"

text \<open>
  The result of a call that may wait for another goroutine or panic.
\<close>

datatype 'a outcome = Blocked | Panic | Ret 'a

section \<open>Strings\<close>

text \<open>\<^verbatim>\<open>strings.CutPrefix\<close>: the rest of \<open>s\<close> after the prefix \<open>p\<close>.\<close>

fun CutPrefix :: "'a list \<Rightarrow> 'a list \<Rightarrow> 'a list option" where
  "CutPrefix [] s = Some s"
| "CutPrefix (x # xs) [] = None"
| "CutPrefix (x # xs) (y # ys) = (if x = y then CutPrefix xs ys else None)"

definition HasPrefix :: "string \<Rightarrow> string \<Rightarrow> bool" where
  "HasPrefix s p \<longleftrightarrow> CutPrefix p s \<noteq> None"

definition HasSuffix :: "string \<Rightarrow> string \<Rightarrow> bool" where
  "HasSuffix s p \<longleftrightarrow> CutPrefix (rev p) (rev s) \<noteq> None"

definition TrimPrefix :: "string \<Rightarrow> string \<Rightarrow> string" where
  "TrimPrefix s p = (case CutPrefix p s of None \<Rightarrow> s | Some r \<Rightarrow> r)"

text \<open>\<^verbatim>\<open>strings.Cut\<close> at a one-byte separator: the parts before and after its first occurrence.\<close>

fun Cut :: "char \<Rightarrow> string \<Rightarrow> (string \<times> string) option" where
  "Cut c [] = None"
| "Cut c (x # xs) =
     (if x = c then Some ([], xs)
      else case Cut c xs of None \<Rightarrow> None | Some (a, b) \<Rightarrow> Some (x # a, b))"

text \<open>\<^verbatim>\<open>strings.Split\<close> and \<^verbatim>\<open>strings.SplitSeq\<close> at a one-byte separator: never the empty list.\<close>

fun Split :: "char \<Rightarrow> string \<Rightarrow> string list" where
  "Split c [] = [[]]"
| "Split c (x # xs) =
     (if x = c then [] # Split c xs
      else case Split c xs of [] \<Rightarrow> [[x]] | y # ys \<Rightarrow> (x # y) # ys)"

text \<open>
  The UTF-8 encodings of the runes that \<^verbatim>\<open>unicode.IsSpace\<close> accepts: the six ASCII spaces, U+0085,
  U+00A0, U+1680, U+2000 to U+200A, U+2028, U+2029, U+202F, U+205F and U+3000.
\<close>

definition space_runes :: "string list" where
  "space_runes =
     [[CHR 0x09], [CHR 0x0A], [CHR 0x0B], [CHR 0x0C], [CHR 0x0D], [CHR 0x20],
      [CHR 0xC2, CHR 0x85], [CHR 0xC2, CHR 0xA0], [CHR 0xE1, CHR 0x9A, CHR 0x80],
      [CHR 0xE2, CHR 0x80, CHR 0x80], [CHR 0xE2, CHR 0x80, CHR 0x81],
      [CHR 0xE2, CHR 0x80, CHR 0x82], [CHR 0xE2, CHR 0x80, CHR 0x83],
      [CHR 0xE2, CHR 0x80, CHR 0x84], [CHR 0xE2, CHR 0x80, CHR 0x85],
      [CHR 0xE2, CHR 0x80, CHR 0x86], [CHR 0xE2, CHR 0x80, CHR 0x87],
      [CHR 0xE2, CHR 0x80, CHR 0x88], [CHR 0xE2, CHR 0x80, CHR 0x89],
      [CHR 0xE2, CHR 0x80, CHR 0x8A], [CHR 0xE2, CHR 0x80, CHR 0xA8],
      [CHR 0xE2, CHR 0x80, CHR 0xA9], [CHR 0xE2, CHR 0x80, CHR 0xAF],
      [CHR 0xE2, CHR 0x81, CHR 0x9F], [CHR 0xE3, CHR 0x80, CHR 0x80]]"

fun cut_any :: "'a list list \<Rightarrow> 'a list \<Rightarrow> 'a list option" where
  "cut_any [] s = None"
| "cut_any (p # ps) s =
     (if p = [] then cut_any ps s
      else case CutPrefix p s of None \<Rightarrow> cut_any ps s | Some r \<Rightarrow> Some r)"

lemma CutPrefix_Some: "CutPrefix p s = Some r \<longleftrightarrow> s = p @ r"
  by (induction p s rule: CutPrefix.induct) auto

lemma cut_any_shorter: "cut_any ps s = Some r \<Longrightarrow> length r < length s"
  by (induction ps s rule: cut_any.induct) (auto simp: CutPrefix_Some split: if_splits option.splits)

function trim_with :: "'a list list \<Rightarrow> 'a list \<Rightarrow> 'a list" where
  "trim_with ps s = (case cut_any ps s of None \<Rightarrow> s | Some r \<Rightarrow> trim_with ps r)"
  by pat_completeness auto
termination
  by (relation "measure (\<lambda>(ps, s). length s)") (auto simp: cut_any_shorter)

declare trim_with.simps [simp del]

text \<open>
  \<^verbatim>\<open>strings.TrimSpace\<close> removes leading and then trailing space runes.  A string that ends with the
  bytes of a space rune has that rune as its last rune, so the trailing end is trimmed on the
  reversed string with the reversed encodings.
\<close>

definition TrimSpace :: "string \<Rightarrow> string" where
  "TrimSpace s = rev (trim_with (map rev space_runes) (rev (trim_with space_runes s)))"

text \<open>A byte between two others.\<close>

abbreviation (input) inRange :: "char \<Rightarrow> char \<Rightarrow> char \<Rightarrow> bool" where
  "inRange lo hi c \<equiv> lo \<le> c \<and> c \<le> hi"

section \<open>Decimal integers\<close>

definition is_digit :: "char \<Rightarrow> bool" where
  "is_digit c \<longleftrightarrow> 48 \<le> (of_char c :: nat) \<and> (of_char c :: nat) \<le> 57"

definition digit_val :: "char \<Rightarrow> nat" where
  "digit_val c = of_char c - 48"

definition digit_char :: "nat \<Rightarrow> char" where
  "digit_char d = char_of (48 + d)"

fun digits_val :: "nat \<Rightarrow> string \<Rightarrow> nat option" where
  "digits_val acc [] = Some acc"
| "digits_val acc (c # cs) =
     (if is_digit c then digits_val (10 * acc + digit_val c) cs else None)"

abbreviation (input) max_int64 :: int where "max_int64 \<equiv> 9223372036854775807"
abbreviation (input) min_int64 :: int where "min_int64 \<equiv> - 9223372036854775808"

definition in_int64 :: "int \<Rightarrow> bool" where
  "in_int64 i \<longleftrightarrow> min_int64 \<le> i \<and> i \<le> max_int64"

text \<open>The wrap-around of \<^verbatim>\<open>int64\<close> arithmetic.\<close>

definition wrap64 :: "int \<Rightarrow> int" where
  "wrap64 i = sint (word_of_int i :: 64 word)"

text \<open>
  \<^verbatim>\<open>strconv.ParseInt(s, 10, 64)\<close>: an optional sign, then at least one decimal digit and nothing
  else; \<^const>\<open>None\<close> is any error (syntax or range).
\<close>

definition ParseInt :: "string \<Rightarrow> int option" where
  "ParseInt s =
     (let (neg, ds) =
        (case s of [] \<Rightarrow> (False, [])
         | c # cs \<Rightarrow> if c = CHR ''-'' then (True, cs) else if c = CHR ''+'' then (False, cs)
             else (False, s))
      in if ds = [] then None
         else case digits_val 0 ds of
            None \<Rightarrow> None
          | Some n \<Rightarrow> (let i = (if neg then - int n else int n)
                     in if in_int64 i then Some i else None))"

text \<open>\<^verbatim>\<open>strconv.FormatInt(i, 10)\<close>, \<^verbatim>\<open>strconv.Itoa\<close> and the verb \<^verbatim>\<open>%d\<close>.\<close>

fun show_nat :: "nat \<Rightarrow> string" where
  "show_nat n = (if n < 10 then [digit_char n] else show_nat (n div 10) @ [digit_char (n mod 10)])"

declare show_nat.simps [simp del]

definition FormatInt :: "int \<Rightarrow> string" where
  "FormatInt i = (if i < 0 then CHR ''-'' # show_nat (nat (- i)) else show_nat (nat i))"

section \<open>Time\<close>

text \<open>\<^verbatim>\<open>time.Time.Sub\<close> saturates at the range of a \<^verbatim>\<open>time.Duration\<close>.\<close>

definition timeSub :: "time \<Rightarrow> time \<Rightarrow> duration" where
  "timeSub a b = max min_int64 (min max_int64 (a - b))"

section \<open>Lemmas\<close>

named_theorems go_simps \<open>unfolding rules for the standard-library helpers\<close>

declare errIs_def [go_simps] errJoin_def [go_simps]

lemma HasPrefix_iff: "HasPrefix s p \<longleftrightarrow> (\<exists>r. s = p @ r)"
  by (auto simp: HasPrefix_def CutPrefix_Some)

lemma HasPrefix_append [simp]: "HasPrefix (p @ r) p"
  by (auto simp: HasPrefix_iff)

lemma HasSuffix_iff: "HasSuffix s p \<longleftrightarrow> (\<exists>r. s = r @ p)"
  by (auto simp: HasSuffix_def CutPrefix_Some rev_eq_append_conv) (metis rev_append rev_rev_ident)

lemma Cut_Some_iff: "Cut c s = Some (a, b) \<longleftrightarrow> s = a @ c # b \<and> c \<notin> set a"
proof
  show "Cut c s = Some (a, b) \<Longrightarrow> s = a @ c # b \<and> c \<notin> set a"
    by (induction s arbitrary: a) (auto split: option.splits if_splits)
  show "s = a @ c # b \<and> c \<notin> set a \<Longrightarrow> Cut c s = Some (a, b)"
    by (induction a arbitrary: s) auto
qed

lemma Cut_None_iff: "Cut c s = None \<longleftrightarrow> c \<notin> set s"
  by (induction c s rule: Cut.induct) (auto split: option.splits)

lemma Cut_append [simp]: "c \<notin> set a \<Longrightarrow> Cut c (a @ c # b) = Some (a, b)"
  by (simp add: Cut_Some_iff)

lemma Split_not_Nil [simp]: "Split c s \<noteq> []"
  by (cases s) (auto split: list.splits)

lemma Split_no_sep: "c \<notin> set s \<Longrightarrow> Split c s = [s]"
  by (induction s) auto

lemma Split_append_sep: "c \<notin> set a \<Longrightarrow> Split c (a @ c # b) = a # Split c b"
  by (induction a) auto

lemma wrap64_id: "in_int64 i \<Longrightarrow> wrap64 i = i"
  by (simp add: wrap64_def in_int64_def sint_sbintrunc' signed_take_bit_int_eq_self)

lemma in_int64_wrap64: "in_int64 (wrap64 i)"
  using sint_range_size [of "word_of_int i :: 64 word"]
  by (simp add: wrap64_def in_int64_def word_size)

subsection \<open>Trimming\<close>

lemma trim_with_id:
  assumes "\<And>p r. p \<in> set ps \<Longrightarrow> p \<noteq> [] \<Longrightarrow> s \<noteq> p @ r"
  shows "trim_with ps s = s"
proof -
  have "cut_any ps s = None"
    using assms by (induction ps) (auto simp: CutPrefix_Some split: option.splits)
  then show ?thesis by (simp add: trim_with.simps)
qed

lemma trim_with_hd_id:
  assumes "s = [] \<or> hd s \<notin> hd ` set ps"
  shows "trim_with ps s = s"
  using assms by (intro trim_with_id) (force simp: neq_Nil_conv)

definition not_space :: "char \<Rightarrow> bool" where
  "not_space c \<longleftrightarrow> c \<notin> hd ` set space_runes \<and> c \<notin> last ` set space_runes"

lemma TrimSpace_id:
  assumes "\<forall>c \<in> set s. not_space c"
  shows "TrimSpace s = s"
proof -
  have "trim_with space_runes s = s"
    using assms by (intro trim_with_hd_id) (cases s; auto simp: not_space_def)
  moreover have "trim_with (map rev space_runes) (rev s) = rev s"
  proof (intro trim_with_hd_id)
    have "hd ` set (map rev space_runes) = last ` set space_runes"
      by (simp add: image_image hd_rev)
    moreover have "rev s \<noteq> [] \<Longrightarrow> hd (rev s) \<in> set s"
      by (cases s rule: rev_cases) auto
    ultimately show "rev s = [] \<or> hd (rev s) \<notin> hd ` set (map rev space_runes)"
      using assms by (auto simp: not_space_def)
  qed
  ultimately show ?thesis by (simp add: TrimSpace_def)
qed

lemma TrimSpace_Nil [simp]: "TrimSpace [] = []"
  by (simp add: TrimSpace_id)

subsection \<open>Decimal round trip\<close>

lemma of_char_digit_char: "d < 10 \<Longrightarrow> of_char (digit_char d) = 48 + d"
  by (simp add: digit_char_def of_char_of)

lemma is_digit_digit_char [simp]: "d < 10 \<Longrightarrow> is_digit (digit_char d)"
  by (simp add: is_digit_def of_char_digit_char)

lemma digit_val_digit_char [simp]: "d < 10 \<Longrightarrow> digit_val (digit_char d) = d"
  by (simp add: digit_val_def of_char_digit_char)

lemma digits_val_append:
  "digits_val acc (xs @ ys) =
     (case digits_val acc xs of None \<Rightarrow> None | Some n \<Rightarrow> digits_val n ys)"
  by (induction xs arbitrary: acc) auto

lemma show_nat_not_Nil [simp]: "show_nat n \<noteq> []"
  by (subst show_nat.simps) simp

lemma show_nat_digits: "c \<in> set (show_nat n) \<Longrightarrow> is_digit c"
proof (induction n rule: show_nat.induct)
  case (1 n)
  then show ?case
    by (cases "n < 10") (auto simp: show_nat.simps [of n])
qed

lemma digits_val_show_nat: "digits_val 0 (show_nat n) = Some n"
proof (induction n rule: show_nat.induct)
  case (1 n)
  then show ?case
    by (cases "n < 10") (auto simp: show_nat.simps [of n] digits_val_append)
qed

lemma is_digit_not_sign: "is_digit c \<Longrightarrow> c \<noteq> CHR ''-'' \<and> c \<noteq> CHR ''+''"
  by (auto simp: is_digit_def)

lemma ParseInt_digits:
  assumes "s \<noteq> []" "\<forall>c \<in> set s. is_digit c" "digits_val 0 s = Some n" "in_int64 (int n)"
  shows "ParseInt s = Some (int n)"
proof -
  from assms(1) obtain c cs where s: "s = c # cs" by (cases s) auto
  with assms(2) have "c \<noteq> CHR ''-''" "c \<noteq> CHR ''+''"
    using is_digit_not_sign [of c] by simp_all
  then show ?thesis
    using assms(3,4) by (simp add: ParseInt_def s del: digits_val.simps)
qed

lemma ParseInt_FormatInt: "in_int64 i \<Longrightarrow> ParseInt (FormatInt i) = Some i"
proof (cases "i < 0")
  case True
  then show "in_int64 i \<Longrightarrow> ?thesis"
    by (simp add: FormatInt_def ParseInt_def digits_val_show_nat)
next
  case False
  then show "in_int64 i \<Longrightarrow> ?thesis"
    by (simp add: FormatInt_def ParseInt_digits digits_val_show_nat show_nat_digits)
qed

lemma ParseInt_in_int64: "ParseInt s = Some i \<Longrightarrow> in_int64 i"
  by (auto simp: ParseInt_def Let_def split: if_splits option.splits list.splits)

lemma ParseInt_Nil [simp]: "ParseInt [] = None"
  by (simp add: ParseInt_def)

lemma digit_not_space: "is_digit c \<Longrightarrow> not_space c"
  by (auto simp: is_digit_def not_space_def space_runes_def)

lemma FormatInt_nonneg_digits: "0 \<le> i \<Longrightarrow> c \<in> set (FormatInt i) \<Longrightarrow> is_digit c"
  by (simp add: FormatInt_def show_nat_digits)

lemma FormatInt_not_Nil [simp]: "FormatInt i \<noteq> []"
  by (simp add: FormatInt_def)

lemma show_nat_inject: "show_nat m = show_nat n \<longleftrightarrow> m = n"
  by (metis digits_val_show_nat option.inject)

lemma FormatInt_nonneg_inject: "0 \<le> i \<Longrightarrow> 0 \<le> j \<Longrightarrow> FormatInt i = FormatInt j \<longleftrightarrow> i = j"
  by (auto simp: FormatInt_def show_nat_inject)

lemma FormatInt_inject: "in_int64 i \<Longrightarrow> in_int64 j \<Longrightarrow> FormatInt i = FormatInt j \<longleftrightarrow> i = j"
  by (metis ParseInt_FormatInt option.inject)

end
