(* ===== verification/Preconditions.thy ===== *)
theory Preconditions
  imports Prelude
begin

text \<open>
  Conditional and range requests: \<^verbatim>\<open>client/preconditions.go\<close>.  The record of request options, the
  option constructors, the evaluation of \<^verbatim>\<open>If-Match\<close>/\<^verbatim>\<open>If-None-Match\<close>, the resolution of a byte-range
  specifier against an object, and the strong ETag format.  The lemmas show that a resolved range
  lies inside the object, that the client's own specifiers resolve to the window they name, that
  the matching of ETag lists is membership, and that formatting an ETag round-trips.
\<close>

section \<open>Model\<close>

record RequestOptions =
  oIfMatch :: string
  oIfNoneMatch :: string
  oRange :: string
  oIfRange :: string
  oETag :: string
  oETagSet :: bool

type_synonym RequestOption = "RequestOptions \<Rightarrow> RequestOptions"

definition IfMatch :: "string \<Rightarrow> RequestOption" where
  "IfMatch etag = (\<lambda>r. r\<lparr>oIfMatch := etag\<rparr>)"

definition IfNoneMatch :: "string \<Rightarrow> RequestOption" where
  "IfNoneMatch etag = (\<lambda>r. r\<lparr>oIfNoneMatch := etag\<rparr>)"

definition formatByteRange :: "int \<Rightarrow> int \<Rightarrow> string" where
  "formatByteRange start stop =
     (if stop < 0 then ''bytes='' @ FormatInt start @ ''-''
      else ''bytes='' @ FormatInt start @ ''-'' @ FormatInt (stop - 1))"

definition RangeOpt :: "int \<Rightarrow> int \<Rightarrow> RequestOption" where
  "RangeOpt start stop = (\<lambda>r. r\<lparr>oRange := formatByteRange start stop\<rparr>)"

definition IfRange :: "string \<Rightarrow> RequestOption" where
  "IfRange etag = (\<lambda>r. r\<lparr>oIfRange := etag\<rparr>)"

definition WithETag :: "string \<Rightarrow> RequestOption" where
  "WithETag etag = (\<lambda>r. r\<lparr>oETag := etag, oETagSet := True\<rparr>)"

definition zeroOptions :: RequestOptions where
  "zeroOptions = \<lparr>oIfMatch = '''', oIfNoneMatch = '''', oRange = '''', oIfRange = '''',
     oETag = '''', oETagSet = False\<rparr>"

definition NewRequestOptions :: "RequestOption list \<Rightarrow> RequestOptions" where
  "NewRequestOptions opts = fold (\<lambda>opt r. opt r) opts zeroOptions"

fun anyCandidate :: "string \<Rightarrow> string list \<Rightarrow> bool" where
  "anyCandidate etag [] = False"
| "anyCandidate etag (c # cs) =
     (let candidate = TrimSpace c
      in if candidate = ''*'' \<or> candidate = etag then True else anyCandidate etag cs)"

definition etagListMatches :: "string \<Rightarrow> string \<Rightarrow> bool" where
  "etagListMatches headerValue etag = anyCandidate etag (Split (CHR '','') headerValue)"

definition Check :: "RequestOptions \<Rightarrow> string \<Rightarrow> goerr" where
  "Check r etag =
     (if oIfMatch r \<noteq> '''' \<and> (etag = '''' \<or> \<not> etagListMatches (oIfMatch r) etag)
      then [ErrPreconditionFailed]
      else if oIfNoneMatch r \<noteq> '''' \<and> etag \<noteq> '''' \<and> etagListMatches (oIfNoneMatch r) etag
      then [ErrNotModified]
      else [])"

datatype RangeOutcome = RangeFull | RangePartial | RangeNotSatisfiable

definition IfRangeMisses :: "RequestOptions \<Rightarrow> string \<Rightarrow> bool" where
  "IfRangeMisses r etag \<longleftrightarrow> oRange r \<noteq> '''' \<and> oIfRange r \<noteq> '''' \<and> oIfRange r \<noteq> etag"

definition resolveByteRange :: "string \<Rightarrow> int \<Rightarrow> int \<times> int \<times> RangeOutcome" where
  "resolveByteRange spec0 sz =
     (case CutPrefix ''bytes='' spec0 of
        None \<Rightarrow> (0, sz, RangeFull)
      | Some rest \<Rightarrow>
        (let spec = TrimSpace rest in
         if spec = '''' \<or> CHR '','' \<in> set spec then (0, sz, RangeFull)
         else case Cut (CHR ''-'') spec of
            None \<Rightarrow> (0, sz, RangeFull)
          | Some (startStr0, endStr0) \<Rightarrow>
            (let startStr = TrimSpace startStr0; endStr = TrimSpace endStr0 in
             if startStr = '''' then
               (case ParseInt endStr of
                  None \<Rightarrow> (0, sz, RangeFull)
                | Some n \<Rightarrow>
                    if n \<le> 0 \<or> sz = 0 then (0, sz, RangeNotSatisfiable)
                    else (let n' = (if n > sz then sz else n)
                          in (sz - n', n', RangePartial)))
             else
               (case ParseInt startStr of
                  None \<Rightarrow> (0, sz, RangeFull)
                | Some start \<Rightarrow>
                    if start < 0 then (0, sz, RangeFull)
                    else if start \<ge> sz then (0, sz, RangeNotSatisfiable)
                    else if endStr = '''' then (start, sz - start, RangePartial)
                    else (case ParseInt endStr of
                        None \<Rightarrow> (0, sz, RangeFull)
                      | Some stop \<Rightarrow>
                          if stop < start then (0, sz, RangeFull)
                          else (let stop' = (if stop \<ge> sz then sz - 1 else stop)
                                in (start, stop' - start + 1, RangePartial)))))))"

definition ResolveRange :: "RequestOptions \<Rightarrow> int \<Rightarrow> string \<Rightarrow> int \<times> int \<times> RangeOutcome" where
  "ResolveRange r sz etag =
     (if oRange r = '''' \<or> IfRangeMisses r etag then (0, sz, RangeFull)
      else resolveByteRange (oRange r) sz)"

definition isRawETagChar :: "char \<Rightarrow> bool" where
  "isRawETagChar r \<longleftrightarrow>
     inRange (CHR ''a'') (CHR ''z'') r \<or> inRange (CHR ''A'') (CHR ''Z'') r \<or>
     inRange (CHR ''0'') (CHR ''9'') r \<or>
     r \<in> set ''._-:/+=''"

text \<open>
  The loop of \<^verbatim>\<open>ValidateRawETag\<close> ranges over runes and rejects every rune above \<^verbatim>\<open>MaxASCII\<close>; a byte
  of 128 or more only occurs inside such a rune (or as an invalid rune, U+FFFD), so the byte-wise
  test rejects exactly the same strings.
\<close>

definition ValidateRawETag :: "string \<Rightarrow> goerr" where
  "ValidateRawETag etag =
     (if etag = '''' then [ErrOther ''etag must not be empty'']
      else if \<exists>r \<in> set etag. (of_char r :: nat) > 127 \<or> \<not> isRawETagChar r
      then [ErrOther ''etag contains invalid character''] else [])"

definition FormatETag :: "string \<Rightarrow> string \<times> goerr" where
  "FormatETag etag =
     (let err = ValidateRawETag etag
      in if err \<noteq> [] then ('''', err) else (CHR 0x22 # etag @ [CHR 0x22], []))"

definition RawETagFromHeader :: "string \<Rightarrow> string \<times> goerr" where
  "RawETagFromHeader etag =
     (if length etag < 2 \<or> hd etag \<noteq> CHR 0x22 \<or> last etag \<noteq> CHR 0x22
      then ('''', [ErrOther ''etag header must be a strong quoted etag''])
      else (let raw = butlast (tl etag); err = ValidateRawETag raw
            in if err \<noteq> [] then ('''', err) else (raw, [])))"

section \<open>Options\<close>

lemmas option_defs = IfMatch_def IfNoneMatch_def RangeOpt_def IfRange_def WithETag_def
  zeroOptions_def NewRequestOptions_def

declare option_defs [go_simps]

lemma NewRequestOptions_Nil [simp]: "NewRequestOptions [] = zeroOptions"
  by (simp add: NewRequestOptions_def)

lemma NewRequestOptions_snoc [simp]: "NewRequestOptions (opts @ [f]) = f (NewRequestOptions opts)"
  by (simp add: NewRequestOptions_def)

lemma zeroOptions_sel [simp]:
  "oIfMatch zeroOptions = ''''" "oIfNoneMatch zeroOptions = ''''" "oRange zeroOptions = ''''"
  "oIfRange zeroOptions = ''''" "oETag zeroOptions = ''''" "oETagSet zeroOptions = False"
  by (simp_all add: zeroOptions_def)

section \<open>ETag lists\<close>

lemma anyCandidate_iff:
  "anyCandidate etag cs \<longleftrightarrow> (\<exists>c \<in> set cs. TrimSpace c = ''*'' \<or> TrimSpace c = etag)"
  by (induction cs) (auto simp: Let_def)

lemma etagListMatches_iff:
  "etagListMatches h etag \<longleftrightarrow>
     (\<exists>c \<in> set (Split (CHR '','') h). TrimSpace c = ''*'' \<or> TrimSpace c = etag)"
  by (simp add: etagListMatches_def anyCandidate_iff)

lemma Check_cases:
  "Check r etag = [] \<or> Check r etag = [ErrNotModified] \<or> Check r etag = [ErrPreconditionFailed]"
  by (simp add: Check_def)

lemma Check_zero [simp]: "oIfMatch r = '''' \<Longrightarrow> oIfNoneMatch r = '''' \<Longrightarrow> Check r etag = []"
  by (simp add: Check_def)

section \<open>Strong ETags\<close>

lemma FormatETag_ok:
  "FormatETag raw = (q, []) \<longleftrightarrow> ValidateRawETag raw = [] \<and> q = CHR 0x22 # raw @ [CHR 0x22]"
  by (auto simp: FormatETag_def Let_def)

lemma RawETag_Format:
  "FormatETag raw = (q, []) \<Longrightarrow> RawETagFromHeader q = (raw, [])"
  by (auto simp: FormatETag_ok RawETagFromHeader_def Let_def butlast_append)

lemma Format_RawETag:
  assumes "RawETagFromHeader q = (raw, [])"
  shows "FormatETag raw = (q, [])"
proof -
  from assms have len: "2 \<le> length q" and ends: "hd q = CHR 0x22" "last q = CHR 0x22"
    and raw: "raw = butlast (tl q)" and ok: "ValidateRawETag raw = []"
    by (auto simp: RawETagFromHeader_def Let_def not_less split: if_splits)
  from len have "q = hd q # butlast (tl q) @ [last q]"
    by (cases q) (auto simp: Suc_le_length_iff)
  with ends raw ok show ?thesis by (simp add: FormatETag_ok)
qed

lemma raw_etag_char_not_special:
  assumes "isRawETagChar c"
  shows "c \<noteq> CHR '',''" and "not_space c" and "c \<noteq> CHR ''*''" and "c \<noteq> CHR 0x22"
  using assms
  by (auto simp: isRawETagChar_def not_space_def space_runes_def less_eq_char_def)

section \<open>Byte ranges\<close>

lemma FormatInt_trim [simp]: "0 \<le> i \<Longrightarrow> TrimSpace (FormatInt i) = FormatInt i"
  by (intro TrimSpace_id) (auto dest: FormatInt_nonneg_digits digit_not_space)

lemma FormatInt_no_dash: "0 \<le> i \<Longrightarrow> CHR ''-'' \<notin> set (FormatInt i)"
  using FormatInt_nonneg_digits is_digit_not_sign by blast

lemma dash_not_space: "not_space CHR ''-''"
  by (auto simp: not_space_def space_runes_def)

lemma FormatInt_not_space: "c \<in> set (FormatInt i) \<Longrightarrow> not_space c \<and> c \<noteq> CHR '',''"
proof -
  assume "c \<in> set (FormatInt i)"
  then have "is_digit c \<or> c = CHR ''-''"
    by (auto simp: FormatInt_def show_nat_digits split: if_splits)
  then show ?thesis
    using digit_not_space dash_not_space by (auto simp: is_digit_def)
qed

text \<open>One step through the parser for any specifier of digits around the first dash.\<close>

lemma resolveByteRange_dash:
  assumes a: "0 \<le> start" "in_int64 start"
    and e: "\<forall>c \<in> set e. not_space c \<and> c \<noteq> CHR '',''"
  shows "resolveByteRange (''bytes='' @ FormatInt start @ ''-'' @ e) sz =
     (if start \<ge> sz then (0, sz, RangeNotSatisfiable)
      else if e = '''' then (start, sz - start, RangePartial)
      else case ParseInt e of
          None \<Rightarrow> (0, sz, RangeFull)
        | Some stop \<Rightarrow> if stop < start then (0, sz, RangeFull)
            else (start, (if stop \<ge> sz then sz - 1 else stop) - start + 1, RangePartial))"
proof -
  let ?spec = "FormatInt start @ CHR ''-'' # e"
  have pre: "CutPrefix ''bytes='' (''bytes='' @ FormatInt start @ ''-'' @ e) = Some ?spec"
    by (simp add: CutPrefix_Some)
  have trim: "TrimSpace ?spec = ?spec"
    using e dash_not_space by (intro TrimSpace_id) (auto dest: FormatInt_not_space)
  have comma: "CHR '','' \<notin> set ?spec"
    using e by (auto dest: FormatInt_not_space)
  have cut: "Cut (CHR ''-'') ?spec = Some (FormatInt start, e)"
    using FormatInt_no_dash [OF a(1)] by simp
  have e_trim: "TrimSpace e = e"
    using e by (intro TrimSpace_id) auto
  show ?thesis
    unfolding resolveByteRange_def pre
    using a comma by (simp add: trim cut e_trim ParseInt_FormatInt Let_def split: option.splits)
qed

lemma resolveByteRange_formatByteRange:
  assumes "0 \<le> start" "in_int64 start" "in_int64 stop"
  shows "resolveByteRange (formatByteRange start stop) sz =
     (if start \<ge> sz then (0, sz, RangeNotSatisfiable)
      else if stop < 0 then (start, sz - start, RangePartial)
      else if stop \<le> start then (0, sz, RangeFull)
      else (start, min stop sz - start, RangePartial))"
proof (cases "stop < 0")
  case True
  then show ?thesis
    using resolveByteRange_dash [OF assms(1,2), of "''''" sz]
    by (simp add: formatByteRange_def)
next
  case False
  then have "in_int64 (stop - 1)"
    using assms(3) by (simp add: in_int64_def)
  then show ?thesis
    using False assms(1) resolveByteRange_dash [OF assms(1,2), of "FormatInt (stop - 1)" sz]
    by (auto simp: formatByteRange_def ParseInt_FormatInt FormatInt_not_space)
qed

lemma resolveByteRange_cases:
  assumes "resolveByteRange spec sz = (start, len, out)" "0 \<le> sz"
  shows "out = RangePartial \<and> 0 \<le> start \<and> 0 < len \<and> start + len \<le> sz
       \<or> out \<noteq> RangePartial \<and> start = 0 \<and> len = sz"
  using assms
  by (auto simp: resolveByteRange_def Let_def split: option.splits if_splits)

lemma ResolveRange_cases:
  assumes "ResolveRange r sz etag = (start, len, out)" "0 \<le> sz"
  shows "out = RangePartial \<and> 0 \<le> start \<and> 0 < len \<and> start + len \<le> sz
       \<or> out \<noteq> RangePartial \<and> start = 0 \<and> len = sz"
  using assms resolveByteRange_cases [of "oRange r" sz start len out]
  by (auto simp: ResolveRange_def split: if_splits)

section \<open>Lists of ETags\<close>

text \<open>The header value that lists the given raw ETags, each quoted, separated by comma and space.\<close>

fun etagHeader :: "string list \<Rightarrow> string" where
  "etagHeader [] = []"
| "etagHeader [raw] = CHR 0x22 # raw @ [CHR 0x22]"
| "etagHeader (raw # raws) = (CHR 0x22 # raw @ [CHR 0x22]) @ '', '' @ etagHeader raws"

lemma quoted_no_comma:
  "ValidateRawETag raw = [] \<Longrightarrow> CHR '','' \<notin> set (CHR 0x22 # raw @ [CHR 0x22])"
  using raw_etag_char_not_special(1) by (auto simp: ValidateRawETag_def split: if_splits)

lemma quoted_not_space:
  "ValidateRawETag raw = [] \<Longrightarrow> \<forall>c \<in> set (CHR 0x22 # raw @ [CHR 0x22]). not_space c"
  using raw_etag_char_not_special(2)
  by (auto simp: ValidateRawETag_def not_space_def space_runes_def split: if_splits)

lemma TrimSpace_space_Cons:
  assumes "\<forall>c \<in> set s. not_space c"
  shows "TrimSpace (CHR '' '' # s) = s"
proof -
  have "trim_with space_runes (CHR '' '' # s) = trim_with space_runes s"
    by (subst trim_with.simps) (simp add: space_runes_def)
  then show ?thesis
    using TrimSpace_id [OF assms] by (simp add: TrimSpace_def)
qed

lemma Split_etagHeader:
  "raws \<noteq> [] \<Longrightarrow> \<forall>r \<in> set raws. ValidateRawETag r = [] \<Longrightarrow>
   map TrimSpace (Split (CHR '','') (CHR '' '' # etagHeader raws)) =
   map (\<lambda>r. CHR 0x22 # r @ [CHR 0x22]) raws \<and>
   map TrimSpace (Split (CHR '','') (etagHeader raws)) =
   map (\<lambda>r. CHR 0x22 # r @ [CHR 0x22]) raws"
proof (induction raws rule: etagHeader.induct)
  case 1
  then show ?case by simp
next
  case (2 r)
  let ?q = "CHR 0x22 # r @ [CHR 0x22]"
  have "CHR '','' \<notin> set ?q" "\<forall>c \<in> set ?q. not_space c"
    using 2 quoted_no_comma quoted_not_space by auto
  then show ?case
    using TrimSpace_space_Cons [of ?q] TrimSpace_id [of ?q]
      Split_no_sep [of "CHR '',''" ?q] Split_no_sep [of "CHR '',''" "CHR '' '' # ?q"]
    by simp
next
  case (3 r r2 rs)
  let ?q = "CHR 0x22 # r @ [CHR 0x22]"
  have q: "CHR '','' \<notin> set ?q" "\<forall>c \<in> set ?q. not_space c"
    using 3 quoted_no_comma quoted_not_space by auto
  have tail: "map TrimSpace (Split (CHR '','') (CHR '' '' # etagHeader (r2 # rs))) =
      map (\<lambda>r. CHR 0x22 # r @ [CHR 0x22]) (r2 # rs)"
    using 3 by simp
  have "Split (CHR '','') (?q @ CHR '','' # CHR '' '' # etagHeader (r2 # rs)) =
        ?q # Split (CHR '','') (CHR '' '' # etagHeader (r2 # rs))"
    and "Split (CHR '','') ((CHR '' '' # ?q) @ CHR '','' # CHR '' '' # etagHeader (r2 # rs)) =
        (CHR '' '' # ?q) # Split (CHR '','') (CHR '' '' # etagHeader (r2 # rs))"
    using q(1) by (intro Split_append_sep; simp)+
  then show ?case
    using tail TrimSpace_space_Cons [OF q(2)] TrimSpace_id [OF q(2)]
    by (simp del: Split.simps)
qed

lemma etagListMatches_etagHeader:
  assumes "raws \<noteq> []" "\<forall>r \<in> set raws. ValidateRawETag r = []"
  shows "etagListMatches (etagHeader raws) (CHR 0x22 # raw @ [CHR 0x22]) \<longleftrightarrow> raw \<in> set raws"
proof -
  have eq: "set (map TrimSpace (Split (CHR '','') (etagHeader raws))) =
      (\<lambda>r. CHR 0x22 # r @ [CHR 0x22]) ` set raws"
    using Split_etagHeader [OF assms] by (metis set_map)
  have "etagListMatches (etagHeader raws) q \<longleftrightarrow>
      (\<exists>t \<in> set (map TrimSpace (Split (CHR '','') (etagHeader raws))). t = ''*'' \<or> t = q)" for q
    by (simp add: etagListMatches_iff)
  then show ?thesis
    unfolding eq by auto
qed

section \<open>Properties\<close>

text \<open>
  A resolved range never leaves the object.  For an object of \<open>sz\<close> bytes, a partial answer is a
  nonempty window inside \<open>[0, sz)\<close>, and every other answer is the whole object.
\<close>

lemma resolved_range_bounds:
  assumes "ResolveRange r sz etag = (start, len, outc)" "0 \<le> sz"
  shows "if outc = RangePartial then 0 \<le> start \<and> 0 < len \<and> start + len \<le> sz
         else start = 0 \<and> len = sz"
  using ResolveRange_cases [OF assms] by (auto split: if_splits)

lemma resolve_suffix_eval: "resolveByteRange ''bytes=-3'' 10 = (7, 3, RangePartial)"
proof -
  have "TrimSpace ''-3'' = ''-3''" "TrimSpace ''3'' = ''3''"
    by (rule TrimSpace_id; simp add: not_space_def space_runes_def)+
  then show ?thesis
    by (simp add: resolveByteRange_def Let_def ParseInt_def is_digit_def digit_val_def in_int64_def)
qed

lemma resolved_range_bounds_witness:
  "(0::int) \<le> 10 \<and> ResolveRange (zeroOptions\<lparr>oRange := ''bytes=-3''\<rparr>) 10 '''' = (7, 3, RangePartial) \<and>
   (0::int) \<le> 7 \<and> (0::int) < 3 \<and> (7::int) + 3 \<le> 10"
proof -
  have r: "ResolveRange (zeroOptions\<lparr>oRange := ''bytes=-3''\<rparr>) 10 '''' = (7, 3, RangePartial)"
    by (simp add: ResolveRange_def IfRangeMisses_def resolve_suffix_eval)
  show ?thesis using resolved_range_bounds [OF r] r by simp
qed

text \<open>
  The specifiers the client writes mean what they say.  The option \<^verbatim>\<open>Range(start, end)\<close>, printed by
  \<^verbatim>\<open>formatByteRange\<close> and read back by \<^verbatim>\<open>ResolveRange\<close>, selects the bytes \<open>[start, end)\<close> clipped to the
  object, a negative end selects the rest, a start past the end of the object is not satisfiable,
  and an empty window falls back to the whole object.
\<close>

lemma own_range_roundtrip:
  assumes "0 \<le> start" "in_int64 start" "in_int64 stop"
  shows "ResolveRange (NewRequestOptions [RangeOpt start stop]) sz etag =
     (if start \<ge> sz then (0, sz, RangeNotSatisfiable)
      else if stop < 0 then (start, sz - start, RangePartial)
      else if stop \<le> start then (0, sz, RangeFull)
      else (start, min stop sz - start, RangePartial))"
proof -
  have "formatByteRange start stop \<noteq> []" by (simp add: formatByteRange_def)
  then show ?thesis
    using resolveByteRange_formatByteRange [OF assms, of sz]
    by (simp add: ResolveRange_def IfRangeMisses_def go_simps)
qed

lemma own_range_roundtrip_witness:
  "(0::int) \<le> 4 \<and> in_int64 4 \<and> in_int64 9 \<and>
   ResolveRange (NewRequestOptions [RangeOpt 4 9]) 6 '''' = (4, 2, RangePartial)"
  using own_range_roundtrip [of 4 9 6 "''''"] by (simp add: in_int64_def)

text \<open>
  The headers \<^verbatim>\<open>If-Match\<close> and \<^verbatim>\<open>If-None-Match\<close> with a list of strong ETags test membership: \<^verbatim>\<open>Check\<close> fails the
  precondition exactly when the object's ETag is not listed under \<^verbatim>\<open>If-Match\<close>, and otherwise reports
  \<^verbatim>\<open>not modified\<close> exactly when it is listed under \<^verbatim>\<open>If-None-Match\<close>.
\<close>

lemma check_lists:
  assumes "ms \<noteq> []" "ns \<noteq> []" "\<forall>r \<in> set (ms @ ns). ValidateRawETag r = []"
    and "FormatETag raw = (etag, [])"
  shows "Check (NewRequestOptions [IfMatch (etagHeader ms), IfNoneMatch (etagHeader ns)]) etag =
     (if raw \<notin> set ms then [ErrPreconditionFailed] else if raw \<in> set ns then [ErrNotModified] else [])"
proof -
  have q: "etag = CHR 0x22 # raw @ [CHR 0x22]" using assms(4) by (simp add: FormatETag_ok)
  have ne: "etagHeader xs \<noteq> []" if "xs \<noteq> []" for xs
    using that by (cases xs rule: etagHeader.cases) auto
  have "etagListMatches (etagHeader ms) etag \<longleftrightarrow> raw \<in> set ms" "etagListMatches (etagHeader ns) etag \<longleftrightarrow> raw \<in> set ns"
    using assms(1-3) etagListMatches_etagHeader q by auto
  then show ?thesis
    using assms(1,2) ne q by (simp add: Check_def go_simps)
qed

lemma check_lists_witness:
  "Check (NewRequestOptions [IfMatch (etagHeader [''a'', ''b'']), IfNoneMatch (etagHeader [''b''])])
     (CHR 0x22 # ''b'' @ [CHR 0x22]) = [ErrNotModified]"
proof -
  have "\<forall>r \<in> set ([''a'', ''b''] @ [''b'']). ValidateRawETag r = []"
    "FormatETag ''b'' = (CHR 0x22 # ''b'' @ [CHR 0x22], [])"
    by (simp_all add: FormatETag_def ValidateRawETag_def isRawETagChar_def less_eq_char_def)
  from check_lists [OF _ _ this] show ?thesis by simp
qed

text \<open>
  Formatting and reading a strong ETag are inverse.  A header value is the formatted form of a raw
  ETag exactly when that raw ETag is read from it.
\<close>

lemma etag_format_roundtrip:
  "FormatETag raw = (q, []) \<longleftrightarrow> RawETagFromHeader q = (raw, [])"
  using RawETag_Format Format_RawETag by blast

end
