(* ===== verification/Headers.thy ===== *)
theory Headers
  imports Preconditions
begin

text \<open>
  HTTP headers: \<^verbatim>\<open>internal/httputil/headers.go\<close> and the parts of \<^verbatim>\<open>net/http\<close> it uses.  An
  \<^verbatim>\<open>http.Header\<close> is a map from names to lists of values; \<^verbatim>\<open>Get\<close>, \<^verbatim>\<open>Set\<close> and \<^verbatim>\<open>Del\<close> canonicalise the
  name, and \<^verbatim>\<open>FilterHeaders\<close> copies a header without the skipped names.
\<close>

section \<open>Model\<close>

type_synonym header = "string \<rightharpoonup> string list"

definition isLower :: "char \<Rightarrow> bool" where "isLower c \<longleftrightarrow> inRange (CHR ''a'') (CHR ''z'') c"
definition isUpper :: "char \<Rightarrow> bool" where "isUpper c \<longleftrightarrow> inRange (CHR ''A'') (CHR ''Z'') c"

definition toUpper :: "char \<Rightarrow> char" where
  "toUpper c = (if isLower c then char_of ((of_char c :: nat) - 32) else c)"

definition toLower :: "char \<Rightarrow> char" where
  "toLower c = (if isUpper c then char_of ((of_char c :: nat) + 32) else c)"

definition validHeaderFieldByte :: "char \<Rightarrow> bool" where
  "validHeaderFieldByte c \<longleftrightarrow> isLower c \<or> isUpper c \<or> is_digit c \<or> c \<in> set ''!#$%&*+-.^_`|~'' \<or> c = CHR 0x27"

fun canonicalBytes :: "bool \<Rightarrow> string \<Rightarrow> string" where
  "canonicalBytes upper [] = []"
| "canonicalBytes upper (c # cs) =
     (if upper then toUpper c else toLower c) # canonicalBytes (c = CHR ''-'') cs"

text \<open>\<^verbatim>\<open>http.CanonicalHeaderKey\<close>: a name with a byte that is no token character is left alone.\<close>

definition CanonicalHeaderKey :: "string \<Rightarrow> string" where
  "CanonicalHeaderKey s = (if \<forall>c \<in> set s. validHeaderFieldByte c then canonicalBytes True s else s)"

definition hGet :: "header \<Rightarrow> string \<Rightarrow> string" where
  "hGet h k = (case h (CanonicalHeaderKey k) of None \<Rightarrow> '''' | Some [] \<Rightarrow> '''' | Some (v # vs) \<Rightarrow> v)"

definition hSet :: "header \<Rightarrow> string \<Rightarrow> string \<Rightarrow> header" where
  "hSet h k v = h(CanonicalHeaderKey k \<mapsto> [v])"

definition hDel :: "header \<Rightarrow> string \<Rightarrow> header" where
  "hDel h k = h(CanonicalHeaderKey k := None)"

definition TransportHeaders :: "string list" where
  "TransportHeaders = [''Content-Length'', ''Date'', ''Accept-Encoding'', ''User-Agent'',
     ''Transfer-Encoding'', ''Time-To-Live'', ''If-Match'', ''If-None-Match'', ''Range'',
     ''If-Range'', ''Content-Range'']"

definition HopByHopHeaders :: "string list" where
  "HopByHopHeaders = [''Connection'', ''Keep-Alive'', ''Proxy-Authenticate'', ''Proxy-Authorization'',
     ''Te'', ''Trailers'', ''Transfer-Encoding'', ''Upgrade'', ''Host'']"

definition FilterHeaders :: "header \<Rightarrow> string list \<Rightarrow> header" where
  "FilterHeaders h skip =
     (let skipSet = set (map CanonicalHeaderKey skip)
      in (\<lambda>key. if CanonicalHeaderKey key \<in> skipSet then None else h key))"

definition ETagKey :: string where "ETagKey = ''ETag''"

section \<open>Lemmas\<close>

lemmas canonical_eval = CanonicalHeaderKey_def validHeaderFieldByte_def isLower_def isUpper_def
  toUpper_def toLower_def is_digit_def less_eq_char_def char_of_def bit_0

lemma canonical_names [simp]:
  "CanonicalHeaderKey ''ETag'' = ''Etag''"
  "CanonicalHeaderKey ''Content-Length'' = ''Content-Length''"
  "CanonicalHeaderKey ''Content-Range'' = ''Content-Range''"
  "CanonicalHeaderKey ''Last-Modified'' = ''Last-Modified''"
  "CanonicalHeaderKey ''Accept-Ranges'' = ''Accept-Ranges''"
  by (simp_all add: canonical_eval)

lemma canonical_ETagKey [simp]: "CanonicalHeaderKey ETagKey = ''Etag''"
  by (simp add: ETagKey_def)

lemma hGet_hSet: "hGet (hSet h k v) k' = (if CanonicalHeaderKey k = CanonicalHeaderKey k' then v else hGet h k')"
  by (simp add: hGet_def hSet_def)

lemma hGet_hDel: "hGet (hDel h k) k' = (if CanonicalHeaderKey k = CanonicalHeaderKey k' then '''' else hGet h k')"
  by (simp add: hGet_def hDel_def)

lemma transport_etag [simp]: "''Etag'' \<notin> CanonicalHeaderKey ` set TransportHeaders"
  "''Last-Modified'' \<notin> CanonicalHeaderKey ` set TransportHeaders"
  "''Content-Range'' \<in> CanonicalHeaderKey ` set TransportHeaders"
  by (simp_all add: TransportHeaders_def canonical_eval)

end
