(* ===== verification/Keys.thy ===== *)
theory Keys
  imports Prelude
begin

text \<open>
  Cache keys and namespaces: \<^verbatim>\<open>client/key.go\<close> and \<^verbatim>\<open>client/namespace.go\<close>.  A key is the 32 bytes of a
  SHA-256 digest; the digest function is the argument \<open>sha256\<close> of the definitions that use it.
\<close>

section \<open>Model\<close>

type_synonym Key = bytes
type_synonym Namespace = string

definition hexDigit :: "nat \<Rightarrow> char" where
  "hexDigit d = (if d < 10 then char_of (48 + d) else char_of (87 + d))"

definition hexVal :: "char \<Rightarrow> nat option" where
  "hexVal c =
     (let n = (of_char c :: nat)
      in if 48 \<le> n \<and> n \<le> 57 then Some (n - 48)
         else if 97 \<le> n \<and> n \<le> 102 then Some (n - 87)
         else if 65 \<le> n \<and> n \<le> 70 then Some (n - 55) else None)"

fun hexEncode :: "bytes \<Rightarrow> string" where
  "hexEncode [] = []"
| "hexEncode (b # bs) = hexDigit (unat b div 16) # hexDigit (unat b mod 16) # hexEncode bs"

fun hexDecode :: "string \<Rightarrow> bytes option" where
  "hexDecode [] = Some []"
| "hexDecode [c] = None"
| "hexDecode (c # d # cs) =
     (case (hexVal c, hexVal d, hexDecode cs) of
        (Some x, Some y, Some bs) \<Rightarrow> Some (of_nat (16 * x + y) # bs)
      | _ \<Rightarrow> None)"

definition NewKey :: "(string \<Rightarrow> bytes) \<Rightarrow> string \<Rightarrow> Key" where
  "NewKey sha256 s = sha256 s"

definition KeyString :: "Key \<Rightarrow> string" where
  "KeyString k = hexEncode k"

definition KeyUnmarshalText :: "(string \<Rightarrow> bytes) \<Rightarrow> string \<Rightarrow> Key" where
  "KeyUnmarshalText sha256 txt =
     (if length txt = 64
      then (case hexDecode txt of
              Some bs \<Rightarrow> if length bs = 32 then bs else NewKey sha256 txt
            | None \<Rightarrow> NewKey sha256 txt)
      else NewKey sha256 txt)"

definition ParseKey :: "(string \<Rightarrow> bytes) \<Rightarrow> string \<Rightarrow> Key \<times> goerr" where
  "ParseKey sha256 key = (KeyUnmarshalText sha256 key, [])"

definition nsHead :: "char \<Rightarrow> bool" where
  "nsHead c \<longleftrightarrow> inRange (CHR ''a'') (CHR ''z'') c \<or> inRange (CHR ''A'') (CHR ''Z'') c \<or> is_digit c"

definition namespaceRe :: "string \<Rightarrow> bool" where
  "namespaceRe s \<longleftrightarrow>
     (case s of [] \<Rightarrow> False
      | c # cs \<Rightarrow> nsHead c \<and> (\<forall>d \<in> set cs. nsHead d \<or> d = CHR ''_'' \<or> d = CHR ''-''))"

definition ValidateNamespace :: "string \<Rightarrow> goerr" where
  "ValidateNamespace name = (if \<not> namespaceRe name then [ErrOther ''invalid namespace''] else [])"

definition ParseNamespace :: "string \<Rightarrow> Namespace \<times> goerr" where
  "ParseNamespace name =
     (let err = ValidateNamespace name in if err \<noteq> [] then ('''', err) else (name, []))"

section \<open>Lemmas\<close>

lemma hexVal_hexDigit: "d < 16 \<Longrightarrow> hexVal (hexDigit d) = Some d"
  by (auto simp: hexVal_def hexDigit_def of_char_of)

lemma length_hexEncode [simp]: "length (hexEncode bs) = 2 * length bs"
  by (induction bs) auto

lemma hexDecode_hexEncode [simp]: "hexDecode (hexEncode bs) = Some bs"
proof (induction bs)
  case (Cons b bs)
  have b: "unat b < 256" using unsigned_less [of b] by simp
  then have "unat b div 16 < 16" by simp
  then have h: "hexVal (hexDigit (unat b div 16)) = Some (unat b div 16)"
    "hexVal (hexDigit (unat b mod 16)) = Some (unat b mod 16)"
    by (simp_all add: hexVal_hexDigit)
  have "of_nat (16 * (unat b div 16) + unat b mod 16) = b"
    by (simp only: mult_div_mod_eq of_nat_unat ucast_id)
  then show ?case
    using Cons h by (simp del: of_nat_add of_nat_mult)
qed simp

lemma length_KeyUnmarshalText:
  assumes "\<And>s. length (sha256 s) = 32"
  shows "length (KeyUnmarshalText sha256 txt) = 32"
  using assms by (auto simp: KeyUnmarshalText_def NewKey_def split: option.splits)

lemma ParseKey_KeyString: "length k = 32 \<Longrightarrow> ParseKey sha256 (KeyString k) = (k, [])"
  by (simp add: ParseKey_def KeyUnmarshalText_def KeyString_def)

lemma namespace_chars:
  assumes "ParseNamespace name = (ns, [])" "c \<in> set ns"
  shows "c \<noteq> CHR ''/'' \<and> c \<noteq> CHR ''.''"
proof -
  from assms have "namespaceRe ns"
    by (auto simp: ParseNamespace_def ValidateNamespace_def Let_def split: if_splits)
  with assms(2) have "nsHead c \<or> c = CHR ''_'' \<or> c = CHR ''-''"
    by (auto simp: namespaceRe_def split: list.splits)
  then show ?thesis
    by (auto simp: nsHead_def is_digit_def less_eq_char_def)
qed

section \<open>Properties\<close>

text \<open>
  A printed key parses back to itself, whatever the digest function is: the 64 hexadecimal digits
  of \<^verbatim>\<open>Key.String\<close> are never taken for a name to be hashed.
\<close>

lemma key_roundtrip:
  assumes "length k = 32"
  shows "ParseKey sha256 (KeyString k) = (k, [])"
  using assms by (rule ParseKey_KeyString)

lemma key_roundtrip_witness:
  "length (replicate 32 (171 :: byte)) = 32 \<and>
   ParseKey (\<lambda>s. []) (KeyString (replicate 32 171)) = (replicate 32 171, [])"
  using key_roundtrip [of "replicate 32 171" "\<lambda>s. []"] by simp

text \<open>
  A name accepted as a namespace has neither a path separator nor a dot, so it is one path
  component below the cache root and never \<open>.\<close> or \<open>..\<close>.
\<close>

lemma namespace_one_component:
  assumes "ParseNamespace name = (ns, [])"
  shows "ns = name \<and> ns \<noteq> '''' \<and> CHR ''/'' \<notin> set ns \<and> CHR ''.'' \<notin> set ns"
proof -
  have "ns = name \<and> namespaceRe ns"
    using assms by (auto simp: ParseNamespace_def ValidateNamespace_def Let_def split: if_splits)
  then show ?thesis
    using namespace_chars [OF assms] by (auto simp: namespaceRe_def split: list.splits)
qed

lemma namespace_one_component_witness:
  "ParseNamespace ''git-lfs'' = (''git-lfs'', []) \<and> CHR ''/'' \<notin> set ''git-lfs''"
proof -
  have p: "ParseNamespace ''git-lfs'' = (''git-lfs'', [])"
    by (simp add: ParseNamespace_def ValidateNamespace_def namespaceRe_def nsHead_def less_eq_char_def)
  show ?thesis using namespace_one_component [OF p] p by blast
qed

end
