(* ===== verification/StreamBuffer.thy ===== *)
theory StreamBuffer
  imports Prelude
begin

text \<open>
  The reordering buffer between the parallel chunk fetchers and the sequential reader:
  \<^verbatim>\<open>client/stream_buffer.go\<close>.  A ring of chunk-sized pages holds written bytes until the reader has
  passed them.  Every method runs under the mutex, so a method call is one atomic step; a call that
  would wait on the condition variable is \<open>Blocked\<close> and is tried again after another step.  The
  concurrent execution of fetchers and reader is the inductive predicate \<open>sb_run\<close>, whose ghost
  arguments are the offsets written so far and the bytes emitted so far.

  The lemmas show that the interval bookkeeping computes the least unwritten offset, that the ring
  never overwrites an unread byte, and so that the reader receives exactly the written bytes in
  offset order and sees \<^const>\<open>EOF\<close> only when nothing is missing.
\<close>

section \<open>Model\<close>

record streamBuffer =
  chunkSize :: nat
  pageCount :: nat
  pages :: "bytes option list"
  pending :: "(nat \<times> nat) list"
  frontier :: nat
  readOff :: nat
  closed :: bool
  err :: goerr
  rclosed :: bool

definition newStreamBuffer :: "nat \<Rightarrow> int \<Rightarrow> streamBuffer" where
  "newStreamBuffer cs concurrency =
     (let n = nat (2 * max concurrency 1)
      in \<lparr>chunkSize = cs, pageCount = n, pages = replicate n None, pending = [],
          frontier = 0, readOff = 0, closed = False, err = [], rclosed = False\<rparr>)"

fun mergeIntervals :: "(nat \<times> nat) list \<Rightarrow> (nat \<times> nat) list" where
  "mergeIntervals [] = []"
| "mergeIntervals [iv] = [iv]"
| "mergeIntervals ((a, b) # (c, d) # ivs) =
     (if c \<le> b then mergeIntervals ((a, max b d) # ivs)
      else (a, b) # mergeIntervals ((c, d) # ivs))"

fun advanceFrontier :: "nat \<Rightarrow> (nat \<times> nat) list \<Rightarrow> nat \<times> (nat \<times> nat) list" where
  "advanceFrontier fr [] = (fr, [])"
| "advanceFrontier fr ((a, b) # ivs) =
     (if a \<le> fr then advanceFrontier (max fr b) ivs else (fr, (a, b) # ivs))"

definition extendLocked :: "nat \<Rightarrow> nat \<Rightarrow> streamBuffer \<Rightarrow> streamBuffer" where
  "extendLocked start stop s =
     (if start = frontier s \<and> pending s = [] then s\<lparr>frontier := stop\<rparr>
      else (let ivs = mergeIntervals (sort_key fst (pending s @ [(start, stop)]));
                (fr, rest) = advanceFrontier (frontier s) ivs
            in s\<lparr>frontier := fr, pending := rest\<rparr>))"

text \<open>The builtin \<^verbatim>\<open>copy(page[i:], src)\<close>: the page keeps its length.\<close>

definition copyAt :: "'a list \<Rightarrow> nat \<Rightarrow> 'a list \<Rightarrow> 'a list" where
  "copyAt page i src = take i page @ take (length page - i) src @ drop (i + length src) page"

definition writeSome :: "streamBuffer \<Rightarrow> bytes \<Rightarrow> nat \<Rightarrow> ((nat \<times> goerr) \<times> streamBuffer) outcome" where
  "writeSome s p off =
     (if chunkSize s = 0 then Panic
      else if off div chunkSize s \<ge> readOff s div chunkSize s + pageCount s then
        (if rclosed s \<or> closed s then Ret ((0, [ErrClosedPipe]), s) else Blocked)
      else if rclosed s \<or> closed s then Ret ((0, [ErrClosedPipe]), s)
      else (let n = min (length p) (chunkSize s - off mod chunkSize s);
                slot = (off div chunkSize s) mod pageCount s;
                page = (case pages s ! slot of None \<Rightarrow> replicate (chunkSize s) 0 | Some pg \<Rightarrow> pg);
                s' = s\<lparr>pages := (pages s)[slot := Some (copyAt page (off mod chunkSize s) (take n p))]\<rparr>
            in Ret ((n, []), extendLocked off (off + n) s')))"

text \<open>
  \<^verbatim>\<open>WriteAt\<close> runs \<^verbatim>\<open>writeSome\<close> until the bytes are used up or it fails.  This is its run without
  interference; when it blocks, the rest of the call is what remains to be written.
\<close>

datatype writeResult =
    Wrote nat goerr
  | WaitingAt bytes nat nat
  | WritePanic

function WriteAt :: "streamBuffer \<Rightarrow> bytes \<Rightarrow> nat \<Rightarrow> nat \<Rightarrow> writeResult \<times> streamBuffer" where
  "WriteAt s p off written =
     (if p = [] then (Wrote written [], s)
      else case writeSome s p off of
          Blocked \<Rightarrow> (WaitingAt p off written, s)
        | Panic \<Rightarrow> (WritePanic, s)
        | Ret ((n, e), s') \<Rightarrow>
            if e \<noteq> [] then (Wrote (written + n) e, s')
            else WriteAt s' (drop n p) (off + n) (written + n))"
  by pat_completeness auto
termination
proof (relation "measure (\<lambda>(s, p, off, written). length p)")
  fix s p off written r ne s' n and e :: goerr
  assume "p \<noteq> []" "writeSome s p off = Ret r" "(ne, s') = r" "(n, e) = ne" "\<not> e \<noteq> []"
  then have "0 < n"
    by (auto simp: writeSome_def Let_def split: if_splits)
  with \<open>p \<noteq> []\<close> show "((s', drop n p, off + n, written + n), (s, p, off, written))
      \<in> measure (\<lambda>(s, p, off, written). length p)"
    by simp
qed simp

definition Read :: "streamBuffer \<Rightarrow> nat \<Rightarrow> ((bytes \<times> goerr) \<times> streamBuffer) outcome" where
  "Read s plen =
     (if rclosed s then Ret (([], [ErrClosedPipe]), s)
      else if \<not> readOff s < frontier s then
        (if closed s then (if err s \<noteq> [] then Ret (([], err s), s) else Ret (([], [EOF]), s))
         else Blocked)
      else if chunkSize s = 0 then Panic
      else (let n = min plen (min (frontier s - readOff s) (chunkSize s - readOff s mod chunkSize s));
                slot = (readOff s div chunkSize s) mod pageCount s
            in case pages s ! slot of
                 None \<Rightarrow> Panic
               | Some pg \<Rightarrow>
                   Ret ((take n (drop (readOff s mod chunkSize s) pg), []),
                        s\<lparr>readOff := readOff s + n\<rparr>)))"

definition closeWrite :: "goerr \<Rightarrow> streamBuffer \<Rightarrow> streamBuffer" where
  "closeWrite e0 s =
     (let e = (if e0 = [] \<and> pending s \<noteq> [] then [ErrOther ''stream buffer: write coverage gap''] else e0)
      in s\<lparr>closed := True, err := (if err s = [] then e else err s)\<rparr>)"

definition CloseRead :: "streamBuffer \<Rightarrow> streamBuffer" where
  "CloseRead s = s\<lparr>rclosed := True\<rparr>"

text \<open>
  The executions of a buffer that receives the object with content \<open>f\<close>: fetchers write pieces of
  \<open>f\<close> at offsets nobody has written, the reader reads, either side closes, in any interleaving.
\<close>

inductive sb_run :: "(nat \<Rightarrow> byte) \<Rightarrow> streamBuffer \<Rightarrow> nat set \<Rightarrow> bytes \<Rightarrow> bool" for f where
  sb_new: "0 < cs \<Longrightarrow> sb_run f (newStreamBuffer cs concurrency) {} []"
| sb_write: "sb_run f s W out \<Longrightarrow> writeSome s p off = Ret ((n, e), s') \<Longrightarrow> p \<noteq> [] \<Longrightarrow>
     (\<forall>i < length p. p ! i = f (off + i)) \<Longrightarrow> {off..<off + length p} \<inter> W = {} \<Longrightarrow>
     sb_run f s' (W \<union> {off..<off + n}) out"
| sb_read: "sb_run f s W out \<Longrightarrow> Read s plen = Ret ((bs, e), s') \<Longrightarrow> sb_run f s' W (out @ bs)"
| sb_closeWrite: "sb_run f s W out \<Longrightarrow> sb_run f (closeWrite e s) W out"
| sb_close: "sb_run f s W out \<Longrightarrow> sb_run f (CloseRead s) W out"

section \<open>Interval bookkeeping\<close>

definition cover :: "(nat \<times> nat) list \<Rightarrow> nat set" where
  "cover ivs = (\<Union>(a, b) \<in> set ivs. {a..<b})"

lemma cover_simps [simp]:
  "cover [] = {}" "cover ((a, b) # ivs) = {a..<b} \<union> cover ivs"
  "cover (xs @ ys) = cover xs \<union> cover ys"
  by (auto simp: cover_def)

lemma cover_sort_key [simp]: "cover (sort_key k ivs) = cover ivs"
  by (simp add: cover_def)

text \<open>Intervals in ascending order with a gap before each.\<close>

definition separated :: "(nat \<times> nat) list \<Rightarrow> bool" where
  "separated ivs \<longleftrightarrow> sorted_wrt (\<lambda>(a, b) (c, d). b < c) ivs \<and> (\<forall>(a, b) \<in> set ivs. a < b)"

lemma separated_Nil [simp]: "separated []"
  by (simp add: separated_def)

lemma separated_Cons:
  "separated ((a, b) # ivs) \<longleftrightarrow> a < b \<and> (\<forall>(c, d) \<in> set ivs. b < c) \<and> separated ivs"
  by (auto simp: separated_def)

lemma mergeIntervals_first: "x \<in> set (mergeIntervals ((a, b) # ivs)) \<Longrightarrow>
    sorted (map fst ((a, b) # ivs)) \<Longrightarrow> a \<le> fst x"
  by (induction "(a, b) # ivs" arbitrary: a b ivs rule: mergeIntervals.induct)
     (auto split: if_splits)

lemma mergeIntervals_cover:
  "sorted (map fst ivs) \<Longrightarrow> \<forall>(a, b) \<in> set ivs. a < b \<Longrightarrow>
   cover (mergeIntervals ivs) = cover ivs"
  by (induction ivs rule: mergeIntervals.induct) (auto simp: max_def)

lemma mergeIntervals_separated:
  "sorted (map fst ivs) \<Longrightarrow> \<forall>(a, b) \<in> set ivs. a < b \<Longrightarrow> separated (mergeIntervals ivs)"
proof (induction ivs rule: mergeIntervals.induct)
  case (3 a b c d ivs)
  show ?case
  proof (cases "c \<le> b")
    case True
    with 3 show ?thesis by auto
  next
    case False
    with 3 have "separated (mergeIntervals ((c, d) # ivs))" by auto
    moreover have "\<forall>(c', d') \<in> set (mergeIntervals ((c, d) # ivs)). b < c'"
      using mergeIntervals_first [of _ c d ivs] 3(3) False by force
    ultimately show ?thesis
      using 3(4) False by (simp add: separated_Cons)
  qed
qed (auto simp: separated_def)

lemma advanceFrontier_inv:
  assumes "separated ivs" "advanceFrontier fr ivs = (fr', rest)"
  shows "{..<fr'} \<union> cover rest = {..<fr} \<union> cover ivs \<and> separated rest \<and>
         (\<forall>(a, b) \<in> set rest. fr' < a) \<and> fr \<le> fr'"
  using assms
proof (induction fr ivs rule: advanceFrontier.induct)
  case (2 fr a b ivs)
  show ?case
  proof (cases "a \<le> fr")
    case True
    with 2 have "{..<fr'} \<union> cover rest = {..<max fr b} \<union> cover ivs" "separated rest"
      "\<forall>(a, b) \<in> set rest. fr' < a" "max fr b \<le> fr'"
      by (auto simp: separated_Cons)
    moreover have "{..<max fr b} = {..<fr} \<union> {a..<b}"
      using True by auto
    ultimately show ?thesis by auto
  next
    case False
    with 2(2,3) show ?thesis by (fastforce simp: separated_Cons)
  qed
qed auto

text \<open>What the buffer knows about the set \<open>W\<close> of written offsets.\<close>

definition tracks :: "nat set \<Rightarrow> streamBuffer \<Rightarrow> bool" where
  "tracks W s \<longleftrightarrow> W = {..<frontier s} \<union> cover (pending s) \<and> separated (pending s) \<and>
     (\<forall>(a, b) \<in> set (pending s). frontier s < a)"

lemma tracks_frontier: "tracks W s \<Longrightarrow> {..<frontier s} \<subseteq> W \<and> frontier s \<notin> W"
  by (force simp: tracks_def cover_def)

lemma tracks_extendLocked:
  assumes "tracks W s" "start < stop"
  shows "tracks (W \<union> {start..<stop}) (extendLocked start stop s)"
proof (cases "start = frontier s \<and> pending s = []")
  case True
  with assms show ?thesis
    by (auto simp: tracks_def extendLocked_def)
next
  case False
  let ?ps = "sort_key fst (pending s @ [(start, stop)])"
  obtain fr rest where adv: "advanceFrontier (frontier s) (mergeIntervals ?ps) = (fr, rest)"
    by fastforce
  have ne: "\<forall>(a, b) \<in> set ?ps. a < b"
    using assms by (auto simp: tracks_def separated_def)
  have srt: "sorted (map fst ?ps)" by (rule sorted_sort_key)
  have "cover (mergeIntervals ?ps) = cover (pending s) \<union> {start..<stop}"
    using mergeIntervals_cover [OF srt ne] by simp
  then have "{..<fr} \<union> cover rest = W \<union> {start..<stop}" "separated rest"
    "\<forall>(a, b) \<in> set rest. fr < a"
    using advanceFrontier_inv [OF mergeIntervals_separated [OF srt ne] adv] assms(1)
    by (auto simp: tracks_def)
  then show ?thesis
    using False adv by (auto simp: tracks_def extendLocked_def)
qed

lemma extendLocked_sel [simp]:
  "chunkSize (extendLocked a b s) = chunkSize s" "pageCount (extendLocked a b s) = pageCount s"
  "pages (extendLocked a b s) = pages s" "readOff (extendLocked a b s) = readOff s"
  "closed (extendLocked a b s) = closed s" "rclosed (extendLocked a b s) = rclosed s"
  "err (extendLocked a b s) = err s"
  by (simp_all add: extendLocked_def Let_def split: prod.splits)

section \<open>The ring of pages\<close>

lemma mod_window_inj:
  fixes x y m n :: nat
  assumes "x mod n = y mod n" "m \<le> x" "x < m + n" "m \<le> y" "y < m + n"
  shows "x = y"
proof (rule ccontr)
  assume "x \<noteq> y"
  then consider "x < y" | "y < x" by linarith
  then show False
  proof cases
    case 1
    then have "n dvd y - x" using assms(1) by (metis mod_eq_dvd_iff_nat less_imp_le)
    then have "n \<le> y - x" using 1 by (simp add: dvd_imp_le)
    then show False using assms by linarith
  next
    case 2
    then have "n dvd x - y" using assms(1) by (metis mod_eq_dvd_iff_nat less_imp_le)
    then have "n \<le> x - y" using 2 by (simp add: dvd_imp_le)
    then show False using assms by linarith
  qed
qed

lemma length_copyAt [simp]: "i + length src \<le> length page \<Longrightarrow> length (copyAt page i src) = length page"
  by (simp add: copyAt_def)

lemma nth_copyAt:
  assumes "i + length src \<le> length page" "j < length page"
  shows "copyAt page i src ! j = (if i \<le> j \<and> j < i + length src then src ! (j - i) else page ! j)"
  using assms by (auto simp: copyAt_def nth_append min_def)

text \<open>The offset \<open>x\<close> is buffered: its ring cell holds its byte.\<close>

definition stored :: "(nat \<Rightarrow> byte) \<Rightarrow> streamBuffer \<Rightarrow> nat \<Rightarrow> bool" where
  "stored f s x \<longleftrightarrow>
     (\<exists>pg. pages s ! ((x div chunkSize s) mod pageCount s) = Some pg \<and> pg ! (x mod chunkSize s) = f x)"

definition ring_ok :: "(nat \<Rightarrow> byte) \<Rightarrow> nat set \<Rightarrow> streamBuffer \<Rightarrow> bool" where
  "ring_ok f W s \<longleftrightarrow>
     0 < chunkSize s \<and> 0 < pageCount s \<and> length (pages s) = pageCount s \<and>
     (\<forall>pg. Some pg \<in> set (pages s) \<longrightarrow> length pg = chunkSize s) \<and>
     (\<forall>x \<in> W. x div chunkSize s < readOff s div chunkSize s + pageCount s) \<and>
     (\<forall>x \<in> W. readOff s \<le> x \<longrightarrow> stored f s x)"

definition sb_inv :: "(nat \<Rightarrow> byte) \<Rightarrow> streamBuffer \<Rightarrow> nat set \<Rightarrow> bytes \<Rightarrow> bool" where
  "sb_inv f s W out \<longleftrightarrow> tracks W s \<and> ring_ok f W s \<and> readOff s \<le> frontier s \<and>
     out = map f [0..<readOff s] \<and> (closed s \<and> err s = [] \<longrightarrow> pending s = [])"

lemma ring_ok_extendLocked: "ring_ok f W (extendLocked a b s) = ring_ok f W s"
  by (simp add: ring_ok_def stored_def)

lemma sb_inv_new: "0 < cs \<Longrightarrow> sb_inv f (newStreamBuffer cs concurrency) {} []"
  by (auto simp: sb_inv_def newStreamBuffer_def tracks_def ring_ok_def Let_def)

text \<open>A successful \<^verbatim>\<open>writeSome\<close> of a nonempty piece writes at least one byte, inside one page.\<close>

lemma writeSome_Ret:
  assumes "writeSome s p off = Ret ((n, e), s')" "p \<noteq> []"
  obtains (refused) "n = 0" "e = [ErrClosedPipe]" "s' = s"
  | (wrote) pg where "0 < n" "n \<le> length p" "off mod chunkSize s + n \<le> chunkSize s" "e = []"
      "\<not> closed s" "0 < chunkSize s"
      "off div chunkSize s < readOff s div chunkSize s + pageCount s"
      "pg = (case pages s ! ((off div chunkSize s) mod pageCount s) of
               None \<Rightarrow> replicate (chunkSize s) 0 | Some pg \<Rightarrow> pg)"
      "s' = extendLocked off (off + n) (s\<lparr>pages := (pages s)[(off div chunkSize s) mod pageCount s :=
               Some (copyAt pg (off mod chunkSize s) (take n p))]\<rparr>)"
proof (cases "closed s \<or> rclosed s")
  case True
  with assms refused show ?thesis
    by (auto simp: writeSome_def split: if_splits)
next
  case False
  have cs: "0 < chunkSize s" and win: "off div chunkSize s < readOff s div chunkSize s + pageCount s"
    using assms False by (auto simp: writeSome_def not_le split: if_splits)
  have n: "n = min (length p) (chunkSize s - off mod chunkSize s)" and e: "e = []"
    using assms(1) cs False win by (auto simp: writeSome_def Let_def)
  have "off mod chunkSize s < chunkSize s" using cs by simp
  then have "0 < n" "n \<le> length p" "off mod chunkSize s + n \<le> chunkSize s"
    using assms(2) by (auto simp: n)
  then show ?thesis
    using False cs win n e assms(1) by (intro wrote) (auto simp: writeSome_def Let_def)
qed

lemma div_mod_same_page:
  fixes off i c :: nat
  assumes "off mod c + i < c"
  shows "(off + i) div c = off div c" "(off + i) mod c = off mod c + i"
proof -
  have "off + i = c * (off div c) + (off mod c + i)" by simp
  with assms show "(off + i) div c = off div c" "(off + i) mod c = off mod c + i"
    by (metis div_less div_mult_self4 add.commute add_0 gr_implies_not0, metis mod_less mod_mult_self4)
qed

lemma ring_ok_write:
  assumes ring: "ring_ok f W s" and tr: "tracks W s" and ro: "readOff s \<le> frontier s"
    and p: "\<forall>i < length p. p ! i = f (off + i)" and disj: "{off..<off + length p} \<inter> W = {}"
    and n: "0 < n" "n \<le> length p" "off mod chunkSize s + n \<le> chunkSize s"
    and win: "off div chunkSize s < readOff s div chunkSize s + pageCount s"
    and pg: "pg = (case pages s ! ((off div chunkSize s) mod pageCount s) of
               None \<Rightarrow> replicate (chunkSize s) 0 | Some pg \<Rightarrow> pg)"
  shows "ring_ok f (W \<union> {off..<off + n}) (s\<lparr>pages := (pages s)[(off div chunkSize s) mod pageCount s :=
               Some (copyAt pg (off mod chunkSize s) (take n p))]\<rparr>)"
proof -
  let ?c = "chunkSize s" and ?N = "pageCount s"
  let ?slot = "(off div ?c) mod ?N"
  let ?new = "copyAt pg (off mod ?c) (take n p)"
  let ?s = "s\<lparr>pages := (pages s)[?slot := Some ?new]\<rparr>"
  have c: "0 < ?c" and N: "0 < ?N" and lenp: "length (pages s) = ?N"
    and lens: "\<And>pg. Some pg \<in> set (pages s) \<Longrightarrow> length pg = ?c"
    using ring by (auto simp: ring_ok_def)
  have slot: "?slot < length (pages s)" using N lenp by simp
  have lenpg: "length pg = ?c"
    using lens [of pg] slot by (auto simp: pg split: option.split) (metis nth_mem)
  have fits: "off mod ?c + length (take n p) \<le> length pg" using n lenpg by simp
  have lennew: "length ?new = ?c" using length_copyAt [OF fits] lenpg by simp
  have off_ge: "readOff s \<le> off"
  proof -
    have "off \<in> {off..<off + length p}" using n by auto
    then have "off \<notin> W" using disj by blast
    then have "frontier s \<le> off"
      using tracks_frontier [OF tr] by (meson lessThan_iff not_le subsetD)
    with ro show ?thesis by simp
  qed
  have at: "stored f ?s x" if "x \<in> {off..<off + n}" for x
  proof -
    from that obtain i where i: "i < n" "x = off + i" by (metis atLeastLessThan_iff le_iff_add nat_add_left_cancel_less)
    have "off mod ?c + i < ?c" using n i by simp
    note dm = div_mod_same_page [OF this]
    have "?new ! (x mod ?c) = take n p ! i"
      using i dm n nth_copyAt [OF fits, of "x mod ?c"] lenpg by simp
    then show ?thesis
      using dm i n p slot by (simp add: stored_def)
  qed
  have keep: "stored f ?s x" if x: "x \<in> W" "readOff s \<le> x" for x
  proof -
    obtain old where old: "pages s ! ((x div ?c) mod ?N) = Some old" "old ! (x mod ?c) = f x"
      using ring x by (auto simp: ring_ok_def stored_def)
    show ?thesis
    proof (cases "(x div ?c) mod ?N = ?slot")
      case False
      then show ?thesis using old by (simp add: stored_def)
    next
      case True
      have "x div ?c = off div ?c"
        using mod_window_inj [OF True, of "readOff s div ?c"] ring x win off_ge
        by (auto simp: ring_ok_def div_le_mono)
      moreover have "x \<notin> {off..<off + n}" using x(1) disj n by (auto simp: disjoint_iff)
      ultimately have out: "\<not> (off mod ?c \<le> x mod ?c \<and> x mod ?c < off mod ?c + n)"
        by (metis add_left_cancel add_less_cancel_left atLeastLessThan_iff div_mult_mod_eq
            group_cancel.add1 le_iff_add linorder_not_less)
      have "?new ! (x mod ?c) = old ! (x mod ?c)"
        using nth_copyAt [OF fits, of "x mod ?c"] out old True lenpg c n by (simp add: pg)
      then show ?thesis using old True slot by (simp add: stored_def)
    qed
  qed
  have "\<forall>x \<in> {off..<off + n}. x div ?c < readOff s div ?c + ?N"
  proof
    fix x assume "x \<in> {off..<off + n}"
    then obtain i where i: "i < n" "x = off + i"
      by (metis atLeastLessThan_iff le_iff_add nat_add_left_cancel_less)
    have "off mod ?c + i < ?c" using n i by simp
    then show "x div ?c < readOff s div ?c + ?N"
      using div_mod_same_page(1) win i by simp
  qed
  moreover have "\<forall>pg. Some pg \<in> set (pages ?s) \<longrightarrow> length pg = ?c"
    using lens lennew by (auto dest: set_update_subset_insert [THEN subsetD])
  ultimately show ?thesis
    using ring at keep by (auto simp: ring_ok_def)
qed

section \<open>Every execution keeps the invariant\<close>

lemma sb_inv_write:
  assumes inv: "sb_inv f s W out" and w: "writeSome s p off = Ret ((n, e), s')" "p \<noteq> []"
    and p: "\<forall>i < length p. p ! i = f (off + i)" and disj: "{off..<off + length p} \<inter> W = {}"
  shows "sb_inv f s' (W \<union> {off..<off + n}) out"
  using w
proof (cases rule: writeSome_Ret)
  case refused
  with inv show ?thesis by simp
next
  case (wrote pg)
  let ?t = "s\<lparr>pages := (pages s)[(off div chunkSize s) mod pageCount s :=
               Some (copyAt pg (off mod chunkSize s) (take n p))]\<rparr>"
  have tr: "tracks W s" and ring: "ring_ok f W s" and ro: "readOff s \<le> frontier s"
    using inv by (auto simp: sb_inv_def)
  have "ring_ok f (W \<union> {off..<off + n}) ?t"
    by (rule ring_ok_write [OF ring tr ro p disj]) (use wrote in auto)
  then have r: "ring_ok f (W \<union> {off..<off + n}) s'"
    by (simp only: wrote(9) ring_ok_extendLocked)
  have "tracks W ?t" using tr by (simp add: tracks_def)
  then have t: "tracks (W \<union> {off..<off + n}) s'"
    using tracks_extendLocked [of W ?t off "off + n"] wrote(1) by (simp only: wrote(9))
  have "frontier s \<le> frontier s'"
  proof (rule ccontr)
    assume "\<not> ?thesis"
    then have "frontier s' \<in> W" using tracks_frontier [OF tr] by auto
    then show False using tracks_frontier [OF t] by blast
  qed
  moreover have "readOff s' = readOff s" "\<not> closed s'"
    using wrote(5) by (simp_all add: wrote(9))
  ultimately show ?thesis
    using r t ro inv by (simp add: sb_inv_def)
qed

lemma Read_Ret:
  assumes "Read s plen = Ret ((bs, e), s')"
  obtains (stopped) "bs = []" "s' = s" "e \<noteq> []"
      "e = [EOF] \<Longrightarrow> rclosed s \<or> closed s \<and> \<not> readOff s < frontier s \<and> (err s = [] \<or> err s = [EOF])"
  | (got) pg n where "readOff s < frontier s" "e = []"
      "n = min plen (min (frontier s - readOff s) (chunkSize s - readOff s mod chunkSize s))"
      "pages s ! ((readOff s div chunkSize s) mod pageCount s) = Some pg"
      "bs = take n (drop (readOff s mod chunkSize s) pg)" "s' = s\<lparr>readOff := readOff s + n\<rparr>"
proof (cases "rclosed s \<or> \<not> readOff s < frontier s")
  case True
  with assms show ?thesis
    by (intro stopped) (auto simp: Read_def split: if_splits)
next
  case False
  let ?n = "min plen (min (frontier s - readOff s) (chunkSize s - readOff s mod chunkSize s))"
  from False assms obtain pg where
    "pages s ! ((readOff s div chunkSize s) mod pageCount s) = Some pg"
    "bs = take ?n (drop (readOff s mod chunkSize s) pg)" "e = []" "s' = s\<lparr>readOff := readOff s + ?n\<rparr>"
    by (auto simp: Read_def Let_def split: if_splits option.splits)
  with False show ?thesis by (intro got [of ?n pg]) simp_all
qed

lemma sb_inv_read:
  assumes inv: "sb_inv f s W out" and r: "Read s plen = Ret ((bs, e), s')"
  shows "sb_inv f s' W (out @ bs)"
  using r
proof (cases rule: Read_Ret)
  case stopped
  with inv show ?thesis by simp
next
  case (got pg n)
  let ?c = "chunkSize s"
  have ring: "ring_ok f W s" and tr: "tracks W s" using inv by (auto simp: sb_inv_def)
  have c: "0 < ?c" using ring by (simp add: ring_ok_def)
  have lenpg: "length pg = ?c"
    using ring got(4) by (auto simp: ring_ok_def) (metis mod_less_divisor nth_mem)
  have n: "readOff s mod ?c + n \<le> ?c" "readOff s + n \<le> frontier s"
    using got(1,3) mod_less_divisor [OF c, of "readOff s"] by linarith+
  have byte: "pg ! (readOff s mod ?c + i) = f (readOff s + i)" if i: "i < n" for i
  proof -
    have "readOff s + i \<in> W" using i n tracks_frontier [OF tr] by auto
    then have "stored f s (readOff s + i)" using ring by (auto simp: ring_ok_def)
    then show ?thesis
      using got(4) div_mod_same_page [of "readOff s" ?c i] i n by (auto simp: stored_def)
  qed
  have "length bs = n" using got(5) n lenpg by simp
  moreover have "\<forall>i < n. bs ! i = f (readOff s + i)" using got(5) n lenpg byte by simp
  ultimately have "bs = map f [readOff s..<readOff s + n]"
    by (intro nth_equalityI) simp_all
  then have "out @ bs = map f [0..<readOff s + n]"
    using inv upt_add_eq_append [of 0 "readOff s" n] by (simp add: sb_inv_def)
  moreover have "readOff s div ?c \<le> (readOff s + n) div ?c" by (simp add: div_le_mono)
  then have "ring_ok f W (s\<lparr>readOff := readOff s + n\<rparr>)"
    using ring by (fastforce simp: ring_ok_def stored_def)
  ultimately show ?thesis
    using inv got(6) n(2) by (simp add: sb_inv_def tracks_def)
qed

lemma sb_run_inv: "sb_run f s W out \<Longrightarrow> sb_inv f s W out"
proof (induction rule: sb_run.induct)
  case (sb_new cs concurrency)
  then show ?case by (rule sb_inv_new)
next
  case (sb_write s W out p off n e s')
  then show ?case by (blast intro: sb_inv_write)
next
  case (sb_read s W out plen bs e s')
  then show ?case by (blast intro: sb_inv_read)
next
  case (sb_closeWrite s W out e)
  then show ?case
    by (auto simp: sb_inv_def closeWrite_def Let_def tracks_def ring_ok_def stored_def split: if_splits)
next
  case (sb_close s W out)
  then show ?case
    by (auto simp: sb_inv_def CloseRead_def tracks_def ring_ok_def stored_def)
qed

lemma sb_run_no_panic:
  assumes "sb_run f s W out"
  shows "writeSome s p off \<noteq> Panic" "Read s plen \<noteq> Panic"
proof -
  have inv: "sb_inv f s W out" using assms by (rule sb_run_inv)
  then show "writeSome s p off \<noteq> Panic"
    by (auto simp: sb_inv_def ring_ok_def writeSome_def Let_def)
  have "stored f s (readOff s)" if "readOff s < frontier s"
    using that inv tracks_frontier [of W s] by (auto simp: sb_inv_def ring_ok_def)
  then show "Read s plen \<noteq> Panic"
    using inv by (auto simp: Read_def Let_def sb_inv_def ring_ok_def stored_def split: option.splits)
qed

section \<open>Whole calls\<close>

declare WriteAt.simps [simp del]

lemma WriteAt_Nil [simp]: "WriteAt s [] off written = (Wrote written [], s)"
  by (simp add: WriteAt.simps)

text \<open>\<^verbatim>\<open>WriteAt\<close> is a sequence of \<^verbatim>\<open>writeSome\<close> steps that fills the offsets from left to right.\<close>

lemma WriteAt_run:
  assumes "sb_run f s W out" "WriteAt s p off written = (r, s')"
    "\<forall>i < length p. p ! i = f (off + i)" "{off..<off + length p} \<inter> W = {}"
  shows "\<exists>n \<le> length p. sb_run f s' (W \<union> {off..<off + n}) out \<and>
     (case r of
        Wrote m e \<Rightarrow> m = written + n \<and> (e = [] \<longrightarrow> n = length p)
      | WaitingAt rest o' w \<Rightarrow> rest = drop n p \<and> o' = off + n \<and> w = written + n
      | WritePanic \<Rightarrow> False)"
  using assms
proof (induction s p off written arbitrary: W rule: WriteAt.induct)
  case (1 s p off written)
  show ?case
  proof (cases "p = []")
    case True
    with "1.prems" show ?thesis by auto
  next
    case False
    consider (blocked) "writeSome s p off = Blocked" | (ret) n e t where "writeSome s p off = Ret ((n, e), t)"
      using sb_run_no_panic(1) [OF "1.prems"(1), of p off] by (cases "writeSome s p off") auto
    then show ?thesis
    proof cases
      case blocked
      with False "1.prems" show ?thesis by (auto simp: WriteAt.simps [of s p off written])
    next
      case (ret n e t)
      have run: "sb_run f t (W \<union> {off..<off + n}) out"
        using sb_write [OF "1.prems"(1) ret False "1.prems"(3,4)] .
      from ret False show ?thesis
      proof (cases rule: writeSome_Ret)
        case refused
        with ret run False "1.prems"(2) show ?thesis by (auto simp: WriteAt.simps [of s p off written])
      next
        case (wrote pg)
        have rec: "WriteAt t (drop n p) (off + n) (written + n) = (r, s')"
          using "1.prems"(2) False ret \<open>e = []\<close> by (simp add: WriteAt.simps [of s p off written])
        have "{off + n..<off + n + length (drop n p)} \<inter> (W \<union> {off..<off + n}) = {}"
          using "1.prems"(4) \<open>n \<le> length p\<close> by (fastforce simp: disjoint_iff)
        moreover have "\<forall>i < length (drop n p). drop n p ! i = f (off + n + i)"
          using "1.prems"(3) \<open>n \<le> length p\<close> by (simp add: add.assoc)
        ultimately obtain m where m: "m \<le> length (drop n p)"
          "sb_run f s' (W \<union> {off..<off + n} \<union> {off + n..<off + n + m}) out"
          "case r of Wrote k e \<Rightarrow> k = written + n + m \<and> (e = [] \<longrightarrow> m = length (drop n p))
           | WaitingAt rest o' w \<Rightarrow> rest = drop m (drop n p) \<and> o' = off + n + m \<and> w = written + n + m
           | WritePanic \<Rightarrow> False"
          using "1.IH" [OF False ret refl refl _ run rec] \<open>e = []\<close> by blast
        have "W \<union> {off..<off + n} \<union> {off + n..<off + n + m} = W \<union> {off..<off + (n + m)}" by auto
        with m \<open>n \<le> length p\<close> show ?thesis
          by (intro exI [of _ "n + m"]) (auto simp: add.commute add.left_commute split: writeResult.splits)
      qed
    qed
  qed
qed

lemma writeSome_unblocked:
  assumes "0 < chunkSize s" "off div chunkSize s < readOff s div chunkSize s + pageCount s"
  shows "writeSome s p off \<noteq> Blocked"
  using assms by (auto simp: writeSome_def Let_def)

section \<open>Properties\<close>

text \<open>
  C2: in every interleaving of fetchers and reader, the bytes the reader has received are the first
  bytes of the object in order, however the chunk writes were ordered, and the frontier is the least
  offset not yet written.
\<close>

theorem stream_in_order:
  assumes "sb_run f s W outp"
  shows "outp = map f [0..<length outp] \<and> {..<length outp} \<subseteq> W \<and>
         frontier s = (LEAST x. x \<notin> W)"
proof -
  have inv: "sb_inv f s W outp" using assms by (rule sb_run_inv)
  then have fr: "{..<frontier s} \<subseteq> W \<and> frontier s \<notin> W"
    by (intro tracks_frontier) (simp add: sb_inv_def)
  then have "frontier s = (LEAST x. x \<notin> W)"
    by (intro Least_equality [symmetric]) (auto simp: not_less [symmetric])
  moreover have "length outp = readOff s" "readOff s \<le> frontier s" "outp = map f [0..<readOff s]"
    using inv by (auto simp: sb_inv_def)
  ultimately show ?thesis using fr by (metis lessThan_subset_iff subset_trans)
qed

lemma two_writes_run:
  "\<exists>s W. sb_run f s W [f 0, f 1, f 2]"
proof -
  let ?s0 = "newStreamBuffer 2 1"
  let ?s1 = "?s0\<lparr>pages := [None, Some [f 2, 0]], pending := [(2, 3)]\<rparr>"
  let ?s2 = "?s0\<lparr>pages := [Some [f 0, f 1], Some [f 2, 0]], frontier := 3\<rparr>"
  have "sb_run f ?s0 {} []" by (rule sb_new) simp
  moreover have "writeSome ?s0 [f 2] 2 = Ret ((1, []), ?s1)"
    by (simp add: writeSome_def newStreamBuffer_def Let_def copyAt_def extendLocked_def numeral_2_eq_2)
  ultimately have r1: "sb_run f ?s1 {2..<3} []"
    using sb_write [of f ?s0 "{}" "[]" "[f 2]" 2 1 "[]" ?s1] by simp
  have "writeSome ?s1 [f 0, f 1] 0 = Ret ((2, []), ?s2)"
    by (simp add: writeSome_def newStreamBuffer_def Let_def copyAt_def extendLocked_def numeral_2_eq_2)
  then have r2: "sb_run f ?s2 ({2..<3} \<union> {0..<2}) []"
    using sb_write [OF r1, of "[f 0, f 1]" 0 2 "[]" ?s2] by (auto simp: less_Suc_eq numeral_2_eq_2)
  have "Read ?s2 8 = Ret (([f 0, f 1], []), ?s2\<lparr>readOff := 2\<rparr>)"
    by (simp add: Read_def newStreamBuffer_def Let_def)
  note r3 = sb_read [OF r2 this]
  have "Read (?s2\<lparr>readOff := 2\<rparr>) 8 = Ret (([f 2], []), ?s2\<lparr>readOff := 3\<rparr>)"
    by (simp add: Read_def newStreamBuffer_def Let_def)
  from sb_read [OF r3 this] show ?thesis by auto
qed

theorem stream_in_order_witness:
  "\<exists>s W. sb_run (\<lambda>i. of_nat i) s W [0, 1, 2] \<and> [0, 1, 2 :: byte] = map (\<lambda>i. of_nat i) [0..<3] \<and>
     frontier s = (LEAST x. x \<notin> W)"
proof -
  obtain s W where r: "sb_run (\<lambda>i. of_nat i :: byte) s W [0, 1, 2]"
    using two_writes_run [of "\<lambda>i. of_nat i"] by auto
  show ?thesis using stream_in_order [OF r] r by (intro exI [of _ s] exI [of _ W]) (simp add: eval_nat_numeral)
qed

text \<open>
  C3: the reader sees a clean end of the stream only when nothing is missing.  If \<^verbatim>\<open>Read\<close> returns
  \<^verbatim>\<open>io.EOF\<close> without the download having failed with that error, all written bytes have been delivered
  and they are a gap-free prefix.
\<close>

theorem eof_complete:
  assumes "sb_run f s W outp" "Read s plen = Ret ((bs, [EOF]), s')" "err s = []" "\<not> rclosed s"
  shows "W = {..<length outp} \<and> outp = map f [0..<length outp]"
proof -
  have inv: "sb_inv f s W outp" using assms(1) by (rule sb_run_inv)
  have "closed s" "\<not> readOff s < frontier s"
    using assms(2,4) by (auto elim!: Read_Ret)
  then have "pending s = []" "readOff s = frontier s"
    using inv assms(3) by (auto simp: sb_inv_def)
  then show ?thesis using inv by (auto simp: sb_inv_def tracks_def)
qed

theorem eof_complete_witness:
  "Read (closeWrite [] (newStreamBuffer 2 1)) 8 = Ret (([], [EOF]), closeWrite [] (newStreamBuffer 2 1)) \<and>
   ({} :: nat set) = {..<length ([] :: bytes)}"
proof -
  have run: "sb_run (\<lambda>_. 0) (closeWrite [] (newStreamBuffer 2 1)) {} []"
    using sb_new [of 2 "\<lambda>_. 0" 1] by (intro sb_closeWrite) simp
  have rd: "Read (closeWrite [] (newStreamBuffer 2 1)) 8 = Ret (([], [EOF]), closeWrite [] (newStreamBuffer 2 1))"
    by (simp add: Read_def closeWrite_def newStreamBuffer_def Let_def)
  show ?thesis
    using eof_complete [OF run rd] rd by (simp add: closeWrite_def newStreamBuffer_def Let_def)
qed

text \<open>
  C4: memory stays bounded and no call panics.  In every interleaving the buffer holds at most
  \<open>pageCount\<close> pages of \<open>chunkSize\<close> bytes, and neither \<^verbatim>\<open>writeSome\<close> nor \<^verbatim>\<open>Read\<close> indexes a missing page.
\<close>

theorem buffer_bounded:
  assumes "sb_run f s W outp"
  shows "length (concat (map (case_option [] id) (pages s))) \<le> pageCount s * chunkSize s \<and>
         writeSome s p off \<noteq> Panic \<and> Read s plen \<noteq> Panic"
proof -
  have "ring_ok f W s" using sb_run_inv [OF assms] by (simp add: sb_inv_def)
  then have len: "length (pages s) = pageCount s" "\<forall>pg \<in> set (pages s). length (case_option [] id pg) \<le> chunkSize s"
    by (auto simp: ring_ok_def split: option.split)
  have "length (concat (map (case_option [] id) ps)) \<le> length ps * c"
    if "\<forall>pg \<in> set ps. length (case_option [] id pg) \<le> c" for ps :: "bytes option list" and c
    using that by (induction ps) (auto simp: add_mono)
  then show ?thesis
    using len sb_run_no_panic [OF assms] by metis
qed

theorem buffer_bounded_witness:
  "sb_run (\<lambda>_. 0) (newStreamBuffer 4 3) {} [] \<and> Read (newStreamBuffer 4 3) 1 \<noteq> Panic"
proof -
  have r: "sb_run (\<lambda>_. 0) (newStreamBuffer 4 3) {} []" by (rule sb_new) simp
  then show ?thesis using buffer_bounded [OF r] by blast
qed

end
