(* ===== verification/ParallelGet.thy ===== *)
theory ParallelGet
  imports Headers Keys StreamBuffer
begin

text \<open>
  The parallel ranged download: \<^verbatim>\<open>client/parallel_get.go\<close>.  The reader is any \<^verbatim>\<open>RangeReader\<close>, so its
  \<^verbatim>\<open>Open\<close> is the argument \<open>op\<close> of the definitions, a function on the reader's own state; the
  destination is any \<^verbatim>\<open>io.WriterAt\<close>, the argument \<open>wr\<close>.  A response body is the blocks its \<^verbatim>\<open>Read\<close>
  calls return, followed by an error or a clean end.  The argument \<open>live\<close> tells for each attempt
  whether the wait before the next one completes before the context is cancelled.

  The workers of the error group fetch whole chunks concurrently; a chunk is one step here and
  \<open>order\<close> is the order in which the chunks are fetched, so a statement for every order is a
  statement for every schedule at the granularity of chunks.  The dispatch gate that bounds this
  schedule is modelled with its ring of flags.

  Two interfaces carry the proofs: \<open>writer_at\<close> for the destination and \<open>pinned_reader\<close> for a reader
  whose responses carry the bytes of the version their ETag names.
\<close>

section \<open>Model: responses and destinations\<close>

record body =
  bBlocks :: "bytes list"
  bErr :: goerr
  bCloseErr :: goerr

type_synonym 'c opener = "'c \<Rightarrow> Key \<Rightarrow> RequestOption list \<Rightarrow> (body \<times> header \<times> goerr) \<times> 'c"
type_synonym 'd writer = "'d \<Rightarrow> bytes \<Rightarrow> nat \<Rightarrow> (nat \<times> goerr) \<times> 'd"

text \<open>
  \<^verbatim>\<open>io.Copy\<close> from the body, through an \<^verbatim>\<open>io.LimitReader\<close> when \<open>lim\<close> is given, to an
  \<^verbatim>\<open>io.OffsetWriter\<close> at \<open>off\<close>.  The result is the number of bytes written, the error, whether the
  error came from the body, and the blocks not read.
\<close>

function ioCopy :: "'d writer \<Rightarrow> 'd \<Rightarrow> nat \<Rightarrow> nat option \<Rightarrow> bytes list \<Rightarrow> goerr \<Rightarrow> nat
    \<Rightarrow> (nat \<times> goerr \<times> bool \<times> bytes list) \<times> 'd" where
  "ioCopy wr d off lim blocks re n =
     (if lim = Some 0 then ((n, [], False, blocks), d)
      else case blocks of
        [] \<Rightarrow> ((n, re, re \<noteq> [], []), d)
      | b # bs \<Rightarrow>
          (let b' = (case lim of None \<Rightarrow> b | Some k \<Rightarrow> take k b);
               rest = drop (length b') b
           in if b' = [] then ioCopy wr d off lim bs re n
              else case wr d b' off of ((nw, ew), d') \<Rightarrow>
                if ew \<noteq> [] then ((n + nw, ew, False, rest # bs), d')
                else if nw \<noteq> length b' then ((n + nw, [ErrOther ''short write''], False, rest # bs), d')
                else ioCopy wr d' (off + nw) (map_option (\<lambda>k. k - nw) lim)
                       (if rest = [] then bs else rest # bs) re (n + nw)))"
  by pat_completeness auto
termination
proof (relation "measure (\<lambda>(wr, d, off, lim, blocks, re, n). sum_list (map (\<lambda>b. length b + 1) blocks))",
       goal_cases)
  case 1
  then show ?case by simp
next
  case (2 wr d off lim blocks re n b bs b' rest)
  then show ?case by simp
next
  case 3
  then show ?case by (auto split: option.splits)
qed

declare ioCopy.simps [simp del]

definition overlong :: "bytes list \<Rightarrow> bool" where
  "overlong blocks \<longleftrightarrow> (\<exists>b \<in> set blocks. b \<noteq> [])"

definition writeChunkAt :: "'d writer \<Rightarrow> 'd \<Rightarrow> int \<Rightarrow> int \<Rightarrow> body \<Rightarrow> (int \<times> goerr) \<times> 'd" where
  "writeChunkAt wr d off len src =
     (if len < 0 then
        (case ioCopy wr d (nat off) None (bBlocks src) (bErr src) 0 of
           ((n, e, _, _), d') \<Rightarrow> ((int n, errJoin [e, bCloseErr src]), d'))
      else
        (case ioCopy wr d (nat off) (Some (nat len)) (bBlocks src) (bErr src) 0 of
           ((n, e, fromBody, rest), d') \<Rightarrow>
             if e \<noteq> [] then
               ((int n, errJoin [if fromBody then ErrBody # e else e, bCloseErr src]), d')
             else if int n \<noteq> len then
               ((int n, errJoin [[ErrBody, ErrOther ''chunk: short body''], bCloseErr src]), d')
             else if overlong rest then
               ((int n, errJoin [[ErrOther ''chunk: read more than expected''], bCloseErr src]), d')
             else ((int n, bCloseErr src), d')))"

section \<open>Model: opening and resuming chunks\<close>

definition chunkRetryAttempts :: nat where "chunkRetryAttempts = 4"
definition chunkResumeAttempts :: nat where "chunkResumeAttempts = 3"

fun statusOf :: "goerr \<Rightarrow> int option" where
  "statusOf [] = None"
| "statusOf (ErrHTTPStatus c # es) = Some c"
| "statusOf (e # es) = statusOf es"

definition resumable :: "goerr \<Rightarrow> bool" where
  "resumable e =
     (if ErrBody \<in> set e then True
      else if errIs e ErrPreconditionFailed then False
      else case statusOf e of Some code \<Rightarrow> code \<ge> 500 | None \<Rightarrow> ErrTransport \<in> set e)"

definition parseContentRangeTotal :: "string \<Rightarrow> int option" where
  "parseContentRangeTotal cr = (case Cut (CHR ''/'') cr of None \<Rightarrow> None | Some (_, sz) \<Rightarrow> ParseInt sz)"

text \<open>The argument \<open>left\<close> is the number of attempts that remain after this one.\<close>

fun openFirst :: "'c opener \<Rightarrow> (nat \<Rightarrow> bool) \<Rightarrow> Key \<Rightarrow> int \<Rightarrow> nat \<Rightarrow> nat \<Rightarrow> 'c
    \<Rightarrow> (body \<times> header \<times> goerr) \<times> 'c" where
  "openFirst op live key cs left attempt c =
     (case op c key [RangeOpt 0 cs] of ((rc, h, e), c') \<Rightarrow>
        (case left of
           0 \<Rightarrow> ((rc, h, e), c')
         | Suc left' \<Rightarrow>
             if e = [] \<or> \<not> resumable e \<or> \<not> live attempt then ((rc, h, e), c')
             else openFirst op live key cs left' (Suc attempt) c'))"

text \<open>
  A nil \<^verbatim>\<open>rc\<close> without error (the object is empty) is \<^const>\<open>None\<close> in the first component.
\<close>

definition discoverFirstChunk :: "'c opener \<Rightarrow> (nat \<Rightarrow> bool) \<Rightarrow> Key \<Rightarrow> int \<Rightarrow> 'c
    \<Rightarrow> (body option \<times> header \<times> string \<times> int option \<times> goerr) \<times> 'c" where
  "discoverFirstChunk op live key cs c =
     (case openFirst op live key cs chunkResumeAttempts 0 c of ((rc, h, e), c') \<Rightarrow>
        if errIs e ErrRangeNotSatisfiable then ((None, h, '''', None, []), c')
        else if e \<noteq> [] then ((None, Map.empty, '''', None, e), c')
        else ((Some rc, h, hGet h ETagKey, parseContentRangeTotal (hGet h ''Content-Range''), []), c'))"

fun openChunkLoop :: "'c opener \<Rightarrow> Key \<Rightarrow> string \<Rightarrow> int \<Rightarrow> int \<Rightarrow> nat \<Rightarrow> 'c
    \<Rightarrow> (goerr + body) \<times> 'c" where
  "openChunkLoop op key etag start stop left c =
     (case op c key [RangeOpt start stop, IfMatch etag] of ((b, h, e), c') \<Rightarrow>
        if errIs e ErrPreconditionFailed then (Inl e, c')
        else if e \<noteq> [] then (Inl e, c')
        else if \<not> HasPrefix (hGet h ''Content-Range'') (''bytes '' @ FormatInt start @ ''-'') then
          (case left of
             Suc left' \<Rightarrow>
               if bCloseErr b \<noteq> [] then (Inl (bCloseErr b), c')
               else openChunkLoop op key etag start stop left' c'
           | 0 \<Rightarrow> (Inl (errJoin [[ErrOther ''server ignored range''], bCloseErr b]), c'))
        else if hGet h ETagKey \<noteq> etag then
          (Inl (errJoin [[ErrOther ''object changed during read''], bCloseErr b]), c')
        else (Inr b, c'))"

definition openChunk :: "'c opener \<Rightarrow> Key \<Rightarrow> string \<Rightarrow> int \<Rightarrow> int \<Rightarrow> 'c \<Rightarrow> (goerr + body) \<times> 'c" where
  "openChunk op key etag start stop c = openChunkLoop op key etag start stop (chunkRetryAttempts - 1) c"

fun fetchLoop :: "'c opener \<Rightarrow> 'd writer \<Rightarrow> (nat \<Rightarrow> bool) \<Rightarrow> Key \<Rightarrow> string \<Rightarrow> int \<Rightarrow> nat \<Rightarrow> nat
    \<Rightarrow> int \<Rightarrow> body option \<Rightarrow> 'c \<Rightarrow> 'd \<Rightarrow> goerr \<times> 'c \<times> 'd" where
  "fetchLoop op wr live key etag stop left attempt start bd c d =
     (let (opened, c') = (case bd of Some b \<Rightarrow> (Inr b, c) | None \<Rightarrow> openChunk op key etag start stop c);
          (e, start', d') =
            (case opened of
               Inl e \<Rightarrow> (e, start, d)
             | Inr b \<Rightarrow> (case writeChunkAt wr d start (stop - start) b of ((n, e), d') \<Rightarrow> (e, start + n, d')))
      in if e = [] then ([], c', d')
         else case left of
             0 \<Rightarrow> (e, c', d')
           | Suc left' \<Rightarrow>
               if \<not> resumable e \<or> \<not> live attempt then (e, c', d')
               else fetchLoop op wr live key etag stop left' (Suc attempt) start' None c' d')"

declare openFirst.simps [simp del] openChunkLoop.simps [simp del] fetchLoop.simps [simp del]

definition fetchChunk :: "'c opener \<Rightarrow> 'd writer \<Rightarrow> (nat \<Rightarrow> bool) \<Rightarrow> Key \<Rightarrow> string \<Rightarrow> int \<Rightarrow> int
    \<Rightarrow> body option \<Rightarrow> 'c \<Rightarrow> 'd \<Rightarrow> goerr \<times> 'c \<times> 'd" where
  "fetchChunk op wr live key etag start stop bd c d =
     fetchLoop op wr live key etag stop chunkResumeAttempts 0 start bd c d"

definition fullRead :: "'c opener \<Rightarrow> 'd writer \<Rightarrow> Key \<Rightarrow> 'c \<Rightarrow> 'd \<Rightarrow> goerr \<times> 'c \<times> 'd" where
  "fullRead op wr key c d =
     (case op c key [] of ((rc, h, e), c') \<Rightarrow>
        if e \<noteq> [] then (e, c', d)
        else (case writeChunkAt wr d 0 (- 1) rc of ((_, e'), d') \<Rightarrow> (e', c', d')))"

section \<open>Model: the download\<close>

definition maxParallelGetConcurrency :: int where "maxParallelGetConcurrency = 1024"

definition validateParallelParams :: "int \<Rightarrow> int \<Rightarrow> goerr" where
  "validateParallelParams cs concurrency =
     (if cs \<le> 0 then [ErrOther ''chunk size must be positive'']
      else if concurrency > maxParallelGetConcurrency then [ErrOther ''concurrency exceeds maximum'']
      else if cs > max_int64 div (2 * concurrency) then [ErrOther ''overflows the buffer window'']
      else [])"

definition chunkStop :: "int \<Rightarrow> int \<Rightarrow> nat \<Rightarrow> int" where
  "chunkStop cs tot seq = min (wrap64 (int seq * cs + cs)) tot"

fun runChunks :: "'c opener \<Rightarrow> 'd writer \<Rightarrow> (nat \<Rightarrow> bool) \<Rightarrow> Key \<Rightarrow> string \<Rightarrow> int \<Rightarrow> int \<Rightarrow> body
    \<Rightarrow> nat list \<Rightarrow> 'c \<Rightarrow> 'd \<Rightarrow> goerr \<times> 'c \<times> 'd" where
  "runChunks op wr live key etag cs tot rc [] c d = ([], c, d)"
| "runChunks op wr live key etag cs tot rc (seq # seqs) c d =
     (case fetchChunk op wr live key etag (int seq * cs) (chunkStop cs tot seq)
             (if seq = 0 then Some rc else None) c d of
        (e, c', d') \<Rightarrow> if e \<noteq> [] then (e, c', d')
                     else runChunks op wr live key etag cs tot rc seqs c' d')"

definition numChunks :: "int \<Rightarrow> int \<Rightarrow> nat" where
  "numChunks cs tot = nat (1 + (tot - 1) div cs)"

definition ParallelGet :: "'c opener \<Rightarrow> 'd writer \<Rightarrow> (nat \<Rightarrow> bool) \<Rightarrow> (nat \<Rightarrow> nat list) \<Rightarrow> Key \<Rightarrow> int
    \<Rightarrow> int \<Rightarrow> 'c \<Rightarrow> 'd \<Rightarrow> goerr \<times> 'c \<times> 'd" where
  "ParallelGet op wr live order key cs concurrency c d =
     (if max concurrency 1 = 1 then fullRead op wr key c d
      else if validateParallelParams cs concurrency \<noteq> [] then (validateParallelParams cs concurrency, c, d)
      else case discoverFirstChunk op live key cs c of ((rc, h, etag, tot, e), c') \<Rightarrow>
        if e \<noteq> [] then (e, c', d)
        else case rc of
            None \<Rightarrow> ([], c', d)
          | Some rc \<Rightarrow>
             (case tot of
                None \<Rightarrow> (case writeChunkAt wr d 0 (- 1) rc of ((_, e), d') \<Rightarrow> (e, c', d'))
              | Some tot \<Rightarrow>
                  if tot \<le> cs then
                    (if etag \<noteq> '''' then fetchChunk op wr live key etag 0 tot (Some rc) c' d
                     else (case writeChunkAt wr d 0 tot rc of ((_, e), d') \<Rightarrow> (e, c', d')))
                  else if etag = '''' then
                    (if bCloseErr rc \<noteq> [] then (bCloseErr rc, c', d) else fullRead op wr key c' d)
                  else runChunks op wr live key etag cs tot rc (order (numChunks cs tot)) c' d))"

section \<open>Writing at an offset\<close>

definition patch :: "(nat \<rightharpoonup> byte) \<Rightarrow> nat \<Rightarrow> bytes \<Rightarrow> (nat \<rightharpoonup> byte)" where
  "patch m off p = (\<lambda>i. if off \<le> i \<and> i < off + length p then Some (p ! (i - off)) else m i)"

lemma patch_Nil [simp]: "patch m off [] = m"
  by (rule ext) (auto simp: patch_def)

lemma ioCopy_limit [simp]: "ioCopy w d off (Some 0) blocks re n = ((n, [], False, blocks), d)"
  by (simp add: ioCopy.simps)

lemma ioCopy_Nil: "lim \<noteq> Some 0 \<Longrightarrow> ioCopy w d off lim [] re n = ((n, re, re \<noteq> [], []), d)"
  by (simp add: ioCopy.simps)

lemma patch_patch: "patch (patch m off p) (off + length p) q = patch m off (p @ q)"
  by (rule ext) (auto simp: patch_def nth_append)

text \<open>
  The destination: a write stores the bytes it reports as written, at their offset, and changes
  nothing else.
\<close>

locale writer_at =
  fixes wr :: "'d writer"
    and cont :: "'d \<Rightarrow> nat \<rightharpoonup> byte"
  assumes wr_stores: "wr d p off = ((n, e), d') \<Longrightarrow> cont d' = patch (cont d) off (take n p)"
    and wr_count: "wr d p off = ((n, e), d') \<Longrightarrow> n \<le> length p"
begin

lemma ioCopy_stores:
  assumes "ioCopy w d off lim blocks re n0 = ((n, e, fromBody, rest), d')" "w = wr"
  shows "\<exists>k. n = n0 + k \<and> k \<le> length (concat blocks) \<and> (\<forall>l. lim = Some l \<longrightarrow> k \<le> l) \<and>
     cont d' = patch (cont d) off (take k (concat blocks)) \<and>
     (e = [] \<longrightarrow> concat rest = drop k (concat blocks) \<and> (lim = Some k \<or> re = [] \<and> rest = []))"
  using assms
proof (induction w d off lim blocks re n0 rule: ioCopy.induct)
  case (1 w d off lim blocks re n0)
  note w = "1.prems"(2)
  show ?case
  proof (cases "lim = Some 0 \<or> blocks = []")
    case True
    with "1.prems" show ?thesis
      by (cases "lim = Some 0") (auto simp: ioCopy_Nil)
  next
    case False
    then obtain b bs where blocks: "blocks = b # bs" by (cases blocks) auto
    let ?b' = "case lim of None \<Rightarrow> b | Some k \<Rightarrow> take k b"
    let ?rest = "drop (length ?b') b"
    have b: "b = ?b' @ ?rest" by (cases lim) (auto simp: min_def)
    have lim: "\<forall>l. lim = Some l \<longrightarrow> length ?b' \<le> l" by auto
    show ?thesis
    proof (cases "?b' = []")
      case True
      then have "b = []" using False by (auto split: option.splits)
      moreover have "ioCopy w d off lim bs re n0 = ((n, e, fromBody, rest), d')"
        using "1.prems"(1) True False blocks by (simp add: ioCopy.simps [of w d off lim "b # bs" re n0])
      ultimately show ?thesis
        using "1.IH"(1) [OF _ blocks refl refl True _ w] False blocks by auto
    next
      case bne: False
      obtain nw ew d1 where wr: "wr d ?b' off = ((nw, ew), d1)" by (metis prod.exhaust)
      note st = wr_stores [OF wr] and cnt = wr_count [OF wr]
      have tk: "take nw (concat blocks) = take nw ?b'"
        using cnt by (subst blocks, subst b) simp
      show ?thesis
      proof (cases "ew \<noteq> [] \<or> nw \<noteq> length ?b'")
        case True
        then have "n = n0 + nw \<and> e \<noteq> [] \<and> d' = d1"
          using "1.prems" False bne wr blocks
          by (auto simp: ioCopy.simps [of wr d off lim "b # bs" re n0] Let_def split: if_splits)
        moreover have "nw \<le> length (concat blocks)"
          using cnt b blocks by (metis concat.simps(2) length_append trans_le_add1)
        ultimately show ?thesis
          using st tk cnt lim by (intro exI [of _ nw]) auto
      next
        case ok: False
        let ?blocks' = "if ?rest = [] then bs else ?rest # bs"
        have rec: "ioCopy wr d1 (off + nw) (map_option (\<lambda>k. k - nw) lim) ?blocks' re (n0 + nw)
            = ((n, e, fromBody, rest), d')"
          using "1.prems" False bne wr blocks ok
          by (simp add: ioCopy.simps [of wr d off lim "b # bs" re n0] Let_def)
        have cc: "concat blocks = ?b' @ concat ?blocks'"
          using arg_cong [OF b, of "\<lambda>x. x @ concat bs"] blocks by auto
        have wr': "w d ?b' off = ((nw, ew), d1)"
          and rec': "ioCopy w d1 (off + nw) (map_option (\<lambda>k. k - nw) lim) ?blocks' re (n0 + nw)
            = ((n, e, fromBody, rest), d')"
          using wr rec w by simp_all
        obtain k where k: "n = n0 + nw + k" "k \<le> length (concat ?blocks')"
          "\<forall>l. map_option (\<lambda>k. k - nw) lim = Some l \<longrightarrow> k \<le> l"
          "cont d' = patch (cont d1) (off + nw) (take k (concat ?blocks'))"
          "e = [] \<longrightarrow> concat rest = drop k (concat ?blocks') \<and>
             (map_option (\<lambda>k. k - nw) lim = Some k \<or> re = [] \<and> rest = [])"
          using "1.IH"(2) [OF _ blocks refl refl bne wr' [symmetric] refl _ _ rec' w] False ok by blast
        have "cont d' = patch (cont d) off (take (nw + k) (concat blocks))"
          using k(4) st ok cc patch_patch [of "cont d" off ?b' "take k (concat ?blocks')"] by simp
        then show ?thesis
          using k ok cc lim by (intro exI [of _ "nw + k"]) auto
      qed
    qed
  qed
qed

end

section \<open>Tiling\<close>

lemma chunkStop_eq:
  assumes "0 < cs" "int seq * cs < tot" "in_int64 (tot + cs)"
  shows "chunkStop cs tot seq = min (int seq * cs + cs) tot"
proof -
  have "0 \<le> int seq * cs" using assms(1) by simp
  then have "in_int64 (int seq * cs + cs)"
    using assms unfolding in_int64_def by linarith
  then show ?thesis
    by (simp add: chunkStop_def wrap64_id)
qed

lemma numChunks_iff:
  assumes "0 < cs" "0 < tot"
  shows "seq < numChunks cs tot \<longleftrightarrow> int seq * cs < tot"
proof -
  have "(tot - 1) div cs * cs \<le> tot - 1"
    using assms(1) div_mult_mod_eq [of "tot - 1" cs] pos_mod_sign [of cs "tot - 1"] by linarith
  moreover have "int seq \<le> (tot - 1) div cs \<Longrightarrow> int seq * cs \<le> (tot - 1) div cs * cs"
    using assms(1) by (simp add: mult_right_mono)
  moreover have "int seq * cs \<le> tot - 1 \<Longrightarrow> int seq \<le> (tot - 1) div cs"
    using zdiv_mono1 [of "int seq * cs" "tot - 1" cs] assms(1) by simp
  ultimately have "int seq * cs < tot \<longleftrightarrow> int seq \<le> (tot - 1) div cs" by linarith
  also have "\<dots> \<longleftrightarrow> seq < numChunks cs tot"
    using assms pos_imp_zdiv_nonneg_iff [of cs "tot - 1"] by (auto simp: numChunks_def)
  finally show ?thesis by simp
qed

lemma chunk_of:
  assumes "0 < cs" "in_int64 (tot + cs)" "int i < tot"
  shows "\<exists>seq < numChunks cs tot. int seq * cs \<le> int i \<and> int i < chunkStop cs tot seq"
proof -
  let ?seq = "nat (int i div cs)"
  have q: "int ?seq = int i div cs" using assms(1) by (simp add: pos_imp_zdiv_nonneg_iff)
  have le: "int ?seq * cs \<le> int i" "int i < int ?seq * cs + cs"
    using div_mult_mod_eq [of "int i" cs] pos_mod_sign [of cs "int i"] pos_mod_bound [of cs "int i"] assms(1)
    unfolding q by linarith+
  then have "int ?seq * cs < tot" using assms(3) by simp
  then show ?thesis
    using le assms numChunks_iff [of cs tot ?seq] chunkStop_eq [of cs ?seq tot]
    by (intro exI [of _ ?seq]) simp
qed

section \<open>One chunk\<close>

context writer_at
begin

lemma writeChunkAt_stores:
  assumes "writeChunkAt wr d off len src = ((n, e), d')" "0 \<le> len"
  shows "0 \<le> n \<and> n \<le> len \<and> nat n \<le> length (concat (bBlocks src)) \<and>
     cont d' = patch (cont d) (nat off) (take (nat n) (concat (bBlocks src))) \<and>
     (e = [] \<longrightarrow> n = len)"
proof -
  obtain m e0 fb rest d1 where c:
    "ioCopy wr d (nat off) (Some (nat len)) (bBlocks src) (bErr src) 0 = ((m, e0, fb, rest), d1)"
    by (metis prod.exhaust)
  then have n: "n = int m" "d' = d1" "e = [] \<Longrightarrow> n = len"
    using assms by (auto simp: writeChunkAt_def errJoin_def split: if_splits)
  have m: "m \<le> length (concat (bBlocks src))" "m \<le> nat len"
    "cont d1 = patch (cont d) (nat off) (take m (concat (bBlocks src)))"
    using ioCopy_stores [OF c] by auto
  show ?thesis using n m assms(2) by auto
qed

end

lemma openChunkLoop_Inl:
  "openChunkLoop op key etag start stop left c = (Inl e, c') \<Longrightarrow> e \<noteq> []"
proof (induction left arbitrary: c)
  case 0
  then show ?case
    by (auto simp: openChunkLoop.simps [of op key etag start stop 0] errIs_def errJoin_def
        split: if_splits prod.splits)
next
  case (Suc left)
  then show ?case
    by (auto simp: openChunkLoop.simps [of op key etag start stop "Suc left"] errIs_def errJoin_def
        split: if_splits prod.splits)
qed

text \<open>
  The reader: the versions of the object are \<open>vers\<close> and \<open>obj\<close> tells which one a strong ETag names.
  A response that names a version and a range starting at \<open>start\<close> carries bytes of that version from
  \<open>start\<close> on (as many as arrive before the body ends or breaks).  The answer to the discovery request
  starts at offset 0 and its \<^verbatim>\<open>Content-Range\<close> tells the length of the version, or it has none and is a
  whole version, and so is the answer to a request without a range.  The object may change between
  any two requests.
\<close>

locale pinned_reader =
  fixes op :: "'c opener"
    and key :: Key
    and obj :: "string \<Rightarrow> bytes option"
    and vers :: "bytes set"
  assumes pinned: "op c key opts = ((b, h, []), c') \<Longrightarrow> hGet h ETagKey = etag \<Longrightarrow> etag \<noteq> '''' \<Longrightarrow>
      0 \<le> start \<Longrightarrow> HasPrefix (hGet h ''Content-Range'') (''bytes '' @ FormatInt start @ ''-'') \<Longrightarrow>
      \<exists>content rest. obj etag = Some content \<and> drop (nat start) content = concat (bBlocks b) @ rest"
    and first_part: "op c key [RangeOpt 0 cs] = ((b, h, []), c') \<Longrightarrow>
      parseContentRangeTotal (hGet h ''Content-Range'') = Some tot \<Longrightarrow>
      \<exists>content rest. content \<in> vers \<and> int (length content) = tot \<and> content = concat (bBlocks b) @ rest \<and>
        (hGet h ETagKey \<noteq> '''' \<longrightarrow> obj (hGet h ETagKey) = Some content)"
    and first_whole: "op c key [RangeOpt 0 cs] = ((b, h, []), c') \<Longrightarrow>
      parseContentRangeTotal (hGet h ''Content-Range'') = None \<Longrightarrow> bErr b = [] \<Longrightarrow>
      concat (bBlocks b) \<in> vers"
    and whole: "op c key [] = ((b, h, []), c') \<Longrightarrow> bErr b = [] \<Longrightarrow> concat (bBlocks b) \<in> vers"
    and empty: "op c key [RangeOpt 0 cs] = ((b, h, e), c') \<Longrightarrow> errIs e ErrRangeNotSatisfiable \<Longrightarrow>
      [] \<in> vers"
begin

lemma openChunkLoop_pinned:
  assumes "openChunkLoop op key etag start stop left c = (Inr b, c')" "etag \<noteq> ''''" "0 \<le> start"
  shows "\<exists>content rest. obj etag = Some content \<and> drop (nat start) content = concat (bBlocks b) @ rest"
  using assms(1)
proof (induction left arbitrary: c)
  case 0
  obtain b1 h e c1 where o: "op c key [RangeOpt start stop, IfMatch etag] = ((b1, h, e), c1)"
    by (metis prod.exhaust)
  with 0 show ?case
    using pinned [of c _ b h c1 etag start] assms(2,3)
    by (auto simp: openChunkLoop.simps [of op key etag start stop 0] split: if_splits)
next
  case (Suc left)
  obtain b1 h e c1 where o: "op c key [RangeOpt start stop, IfMatch etag] = ((b1, h, e), c1)"
    by (metis prod.exhaust)
  with Suc show ?case
    using pinned [of c _ b h c1 etag start] assms(2,3)
    by (auto simp: openChunkLoop.simps [of op key etag start stop "Suc left"] split: if_splits)
qed

end

lemma patch_more:
  assumes "k + j \<le> length xs"
  shows "patch (patch m off (take k xs)) (off + k) (take j (drop k xs)) = patch m off (take (k + j) xs)"
  using assms patch_patch [of m off "take k xs" "take j (drop k xs)"] by (simp add: take_add)

locale pinned_download = writer_at wr cont + pinned_reader op key obj vers
  for wr :: "'d writer" and cont :: "'d \<Rightarrow> nat \<rightharpoonup> byte" and op :: "'c opener" and key :: Key
    and obj :: "string \<Rightarrow> bytes option" and vers :: "bytes set"
begin

text \<open>One response stores a prefix of the window, the whole window when it reports no error.\<close>

lemma fetch_attempt:
  assumes "writeChunkAt wr d start (stop - start) b = ((n, e), d1)" "0 \<le> start" "start \<le> stop"
    "drop (nat start) content = concat (bBlocks b) @ rest"
  shows "0 \<le> n" "n \<le> stop - start" "e = [] \<Longrightarrow> n = stop - start"
    "nat n \<le> length (drop (nat start) content)"
    "cont d1 = patch (cont d) (nat start) (take (nat n) (drop (nat start) content))"
  using writeChunkAt_stores [OF assms(1)] assms(2-4) by auto

text \<open>One attempt stores a prefix of the window; it ends the loop or leaves the rest to the next one.\<close>

lemma fetchLoop_step:
  assumes f: "fetchLoop op wr live key etag stop left attempt start bd c d = ([], c', d')"
    and obj: "obj etag = Some content" "etag \<noteq> ''''" and s: "0 \<le> start" "start \<le> stop"
    and bd: "\<And>b. bd = Some b \<Longrightarrow> \<exists>rest. drop (nat start) content = concat (bBlocks b) @ rest"
  shows "\<exists>k d1 c1. k \<le> nat (stop - start) \<and> k \<le> length (drop (nat start) content) \<and>
      cont d1 = patch (cont d) (nat start) (take k (drop (nat start) content)) \<and>
      (k = nat (stop - start) \<and> d' = d1 \<or>
       (\<exists>left'. left = Suc left' \<and>
          fetchLoop op wr live key etag stop left' (Suc attempt) (start + int k) None c1 d1 = ([], c', d')))"
proof -
  obtain op1 c1 where o: "(case bd of Some b \<Rightarrow> (Inr b, c) | None \<Rightarrow> openChunk op key etag start stop c) = (op1, c1)"
    by (metis prod.exhaust)
  show ?thesis
  proof (cases op1)
    case (Inl e)
    then have "e \<noteq> []" using o openChunkLoop_Inl [of op key etag start stop _ c e c1]
      by (auto simp: openChunk_def split: option.splits)
    then have "\<exists>left'. left = Suc left' \<and>
        fetchLoop op wr live key etag stop left' (Suc attempt) start None c1 d = ([], c', d')"
      using f o Inl by (auto simp: fetchLoop.simps [of _ _ _ _ _ _ left] split: nat.splits if_splits)
    then show ?thesis by (intro exI [of _ 0] exI [of _ d] exI [of _ c1]) simp
  next
    case (Inr b)
    obtain n e d1 where w: "writeChunkAt wr d start (stop - start) b = ((n, e), d1)"
      by (metis prod.exhaust)
    have "\<exists>rest. drop (nat start) content = concat (bBlocks b) @ rest"
      using o Inr bd openChunkLoop_pinned [of etag start stop _ c b c1] obj s(1)
      by (auto simp: openChunk_def split: option.splits)
    then obtain rest where "drop (nat start) content = concat (bBlocks b) @ rest" by blast
    note st = fetch_attempt [OF w s this]
    have "e = [] \<and> d' = d1 \<or> (\<exists>left'. left = Suc left' \<and>
        fetchLoop op wr live key etag stop left' (Suc attempt) (start + n) None c1 d1 = ([], c', d'))"
      using f o Inr w by (auto simp: fetchLoop.simps [of _ _ _ _ _ _ left] split: nat.splits if_splits)
    then show ?thesis
      using st by (intro exI [of _ "nat n"] exI [of _ d1] exI [of _ c1]) auto
  qed
qed

text \<open>A fetch that succeeds, after any number of broken responses, has stored exactly its window.\<close>

lemma fetchLoop_stores:
  assumes "fetchLoop op wr live key etag stop left attempt start bd c d = ([], c', d')"
    "obj etag = Some content" "etag \<noteq> ''''" "0 \<le> start" "start \<le> stop"
    "\<And>b. bd = Some b \<Longrightarrow> \<exists>rest. drop (nat start) content = concat (bBlocks b) @ rest"
  shows "cont d' = patch (cont d) (nat start) (take (nat (stop - start)) (drop (nat start) content)) \<and>
         nat (stop - start) \<le> length (drop (nat start) content)"
  using assms(1,4-6)
proof (induction left arbitrary: attempt start bd c d)
  case 0
  then show ?case using fetchLoop_step [OF 0(1) assms(2,3) 0(2-4)] by auto
next
  case (Suc left)
  obtain k d1 c1 where k: "k \<le> nat (stop - start)" "k \<le> length (drop (nat start) content)"
    "cont d1 = patch (cont d) (nat start) (take k (drop (nat start) content))"
    and cases: "k = nat (stop - start) \<and> d' = d1 \<or>
       fetchLoop op wr live key etag stop left (Suc attempt) (start + int k) None c1 d1 = ([], c', d')"
    using fetchLoop_step [OF Suc.prems(1) assms(2,3) Suc.prems(2-4)] by blast
  from cases show ?case
  proof
    assume "k = nat (stop - start) \<and> d' = d1"
    with k show ?thesis by simp
  next
    assume rec: "fetchLoop op wr live key etag stop left (Suc attempt) (start + int k) None c1 d1 = ([], c', d')"
    have drop: "drop (nat (start + int k)) content = drop k (drop (nat start) content)"
      using Suc.prems(2) by (simp add: nat_add_distrib add.commute)
    have rest: "nat (stop - (start + int k)) = nat (stop - start) - k" using k(1) by simp
    have IH: "cont d' = patch (cont d1) (nat start + k)
          (take (nat (stop - start) - k) (drop k (drop (nat start) content)))"
      "nat (stop - start) - k \<le> length (drop k (drop (nat start) content))"
      using Suc.IH [OF rec] Suc.prems(2,3) k(1) drop rest
      by (auto simp: nat_add_distrib le_nat_iff add.commute)
    have le: "k + (nat (stop - start) - k) \<le> length (drop (nat start) content)"
      using IH(2) k(2) unfolding length_drop by linarith
    show ?thesis
      using IH(1) k(1,3) patch_more [OF le] le by simp
  qed
qed

end

section \<open>The whole download\<close>

lemma ParallelGet_multi:
  assumes "max concurrency 1 \<noteq> 1" "validateParallelParams cs concurrency = []"
    "openFirst op live key cs chunkResumeAttempts 0 c = ((rc, h, e), c1)"
  shows "ParallelGet op wr live order key cs concurrency c d =
     (if errIs e ErrRangeNotSatisfiable then ([], c1, d)
      else if e \<noteq> [] then (e, c1, d)
      else case parseContentRangeTotal (hGet h ''Content-Range'') of
          None \<Rightarrow> (case writeChunkAt wr d 0 (- 1) rc of ((_, e), d') \<Rightarrow> (e, c1, d'))
        | Some tot \<Rightarrow>
            if tot \<le> cs then
              (if hGet h ETagKey \<noteq> '''' then fetchChunk op wr live key (hGet h ETagKey) 0 tot (Some rc) c1 d
               else (case writeChunkAt wr d 0 tot rc of ((_, e), d') \<Rightarrow> (e, c1, d')))
            else if hGet h ETagKey = '''' then
              (if bCloseErr rc \<noteq> [] then (bCloseErr rc, c1, d) else fullRead op wr key c1 d)
            else runChunks op wr live key (hGet h ETagKey) cs tot rc (order (numChunks cs tot)) c1 d)"
  unfolding ParallelGet_def discoverFirstChunk_def assms(2,3)
  by (subst if_not_P [OF assms(1)]) (simp cong: option.case_cong)

context writer_at
begin

lemma writeChunkAt_whole:
  assumes "writeChunkAt wr d off len src = ((n, []), d')" "len < 0"
  shows "bErr src = [] \<and> cont d' = patch (cont d) (nat off) (concat (bBlocks src))"
proof -
  obtain m e0 fb rest d1 where c:
    "ioCopy wr d (nat off) None (bBlocks src) (bErr src) 0 = ((m, e0, fb, rest), d1)"
    by (metis prod.exhaust)
  then have "e0 = []" "d' = d1"
    using assms by (auto simp: writeChunkAt_def errJoin_def)
  with ioCopy_stores [OF c] show ?thesis by auto
qed

end

context pinned_download
begin

lemma runChunks_stores:
  assumes "runChunks op wr live key etag cs tot rc order c d = ([], c', d')"
    "obj etag = Some content" "etag \<noteq> ''''" "0 \<le> cs" "content = concat (bBlocks rc) @ rest"
    "\<forall>seq \<in> set order. int seq * cs < chunkStop cs tot seq"
  shows "(\<forall>seq \<in> set order. chunkStop cs tot seq \<le> int (length content)) \<and>
     cont d' = (\<lambda>i. if \<exists>seq \<in> set order. int seq * cs \<le> int i \<and> int i < chunkStop cs tot seq
                   then Some (content ! i) else cont d i)"
  using assms(1,6)
proof (induction order arbitrary: c d)
  case Nil
  then show ?case by simp
next
  case (Cons seq seqs)
  let ?s = "int seq * cs" and ?e = "chunkStop cs tot seq"
  obtain c1 d1 where f: "fetchChunk op wr live key etag ?s ?e (if seq = 0 then Some rc else None) c d = ([], c1, d1)"
    and r: "runChunks op wr live key etag cs tot rc seqs c1 d1 = ([], c', d')"
    using Cons.prems(1) by (auto split: prod.splits if_splits)
  have s: "0 \<le> ?s" "?s \<le> ?e" using assms(4) Cons.prems(2) by auto
  have st: "cont d1 = patch (cont d) (nat ?s) (take (nat (?e - ?s)) (drop (nat ?s) content))"
    "nat (?e - ?s) \<le> length (drop (nat ?s) content)"
  proof -
    have "\<exists>rest. drop (nat ?s) content = concat (bBlocks b) @ rest"
      if "(if seq = 0 then Some rc else None) = Some b" for b
      using that assms(5) by (auto split: if_splits)
    from fetchLoop_stores [OF f [unfolded fetchChunk_def] assms(2,3) s this]
    show "cont d1 = patch (cont d) (nat ?s) (take (nat (?e - ?s)) (drop (nat ?s) content))"
      "nat (?e - ?s) \<le> length (drop (nat ?s) content)" by blast+
  qed
  then have e: "?e \<le> int (length content)" using s Cons.prems(2) by auto
  have "cont d1 = (\<lambda>i. if ?s \<le> int i \<and> int i < ?e then Some (content ! i) else cont d i)"
    unfolding st(1) using st(2) s by (intro ext) (auto simp: patch_def nth_take)
  then show ?case
    using Cons.IH [OF r] Cons.prems(2) e by (auto simp: fun_eq_iff)
qed

text \<open>Chunks fetched in any order store the whole version and nothing else.\<close>

lemma runChunks_all:
  assumes "runChunks op wr live key etag cs tot rc order c d = ([], c', d')"
    "obj etag = Some content" "etag \<noteq> ''''" "0 < cs" "content = concat (bBlocks rc) @ rest"
    "int (length content) = tot" "0 < tot" "in_int64 (tot + cs)" "set order = {..<numChunks cs tot}"
  shows "cont d' = patch (cont d) 0 content"
proof -
  have "\<forall>seq \<in> set order. int seq * cs < chunkStop cs tot seq"
    using assms by (auto simp: numChunks_iff chunkStop_eq)
  from runChunks_stores [OF assms(1-3) _ assms(5) this] assms(4)
  have "cont d' = (\<lambda>i. if \<exists>seq \<in> set order. int seq * cs \<le> int i \<and> int i < chunkStop cs tot seq
                   then Some (content ! i) else cont d i)" by simp
  moreover have "(\<exists>seq \<in> set order. int seq * cs \<le> int i \<and> int i < chunkStop cs tot seq) \<longleftrightarrow> i < length content" for i
  proof
    have "chunkStop cs tot seq \<le> tot" for seq by (simp add: chunkStop_def)
    then show "i < length content"
      if "\<exists>seq \<in> set order. int seq * cs \<le> int i \<and> int i < chunkStop cs tot seq"
      using that assms(6) by (meson less_le_trans of_nat_less_iff)
    show "\<exists>seq \<in> set order. int seq * cs \<le> int i \<and> int i < chunkStop cs tot seq" if "i < length content"
      using chunk_of [OF assms(4,8), of i] that assms(6,9) by fastforce
  qed
  ultimately show ?thesis by (auto simp: patch_def)
qed

lemma openFirst_answer:
  "openFirst op live key cs left attempt c = ((rc, h, e), c') \<Longrightarrow>
   \<exists>c0 c1. op c0 key [RangeOpt 0 cs] = ((rc, h, e), c1)"
proof (induction left arbitrary: attempt c)
  case 0
  then show ?case by (auto simp: openFirst.simps [of _ _ _ _ 0] split: prod.splits)
next
  case (Suc left)
  then show ?case by (auto simp: openFirst.simps [of _ _ _ _ "Suc left"] split: prod.splits if_splits)
qed

end

context pinned_download
begin

lemma fullRead_stores:
  assumes "fullRead op wr key c d = ([], c', d')"
  shows "\<exists>content \<in> vers. cont d' = patch (cont d) 0 content"
proof -
  obtain rc h e c1 where o: "op c key [] = ((rc, h, e), c1)" by (metis prod.exhaust)
  with assms obtain n where "e = []" and w: "writeChunkAt wr d 0 (- 1) rc = ((n, []), d')"
    by (auto simp: fullRead_def split: prod.splits if_splits)
  then show ?thesis
    using writeChunkAt_whole [OF w] whole o by auto
qed

text \<open>An object that fits in the first chunk.\<close>

lemma small_stores:
  assumes "content = concat (bBlocks rc) @ rest" "int (length content) = tot"
    and "(if etag \<noteq> '''' then fetchChunk op wr live key etag 0 tot (Some rc) c d
          else (case writeChunkAt wr d 0 tot rc of ((_, e), d') \<Rightarrow> (e, c, d'))) = ([], c', d')"
    and "etag \<noteq> '''' \<Longrightarrow> obj etag = Some content"
  shows "cont d' = patch (cont d) 0 content"
proof (cases "etag = ''''")
  case True
  then obtain n where w: "writeChunkAt wr d 0 tot rc = ((n, []), d')"
    using assms(3) by (auto split: prod.splits)
  show ?thesis
    using writeChunkAt_stores [OF w] assms(1,2) by (cases rest) auto
next
  case False
  then have f: "fetchLoop op wr live key etag tot chunkResumeAttempts 0 0 (Some rc) c d = ([], c', d')"
    using assms(3) by (simp add: fetchChunk_def)
  show ?thesis
    using fetchLoop_stores [OF f assms(4) [OF False] False] assms(1,2) by simp
qed


text \<open>A download that reports no error has written exactly one version of the object.\<close>

lemma ParallelGet_stores:
  assumes pg: "ParallelGet op wr live order key cs concurrency c d = ([], c', d')"
    and ord: "\<And>n. set (order n) = {..<n}"
    and len: "\<And>v. v \<in> vers \<Longrightarrow> in_int64 (int (length v) + cs)"
  shows "\<exists>content \<in> vers. cont d' = patch (cont d) 0 content"
proof (cases "max concurrency 1 = 1")
  case True
  then show ?thesis using pg fullRead_stores by (simp add: ParallelGet_def)
next
  case multi: False
  then have "validateParallelParams cs concurrency = []"
    using pg by (auto simp: ParallelGet_def split: if_splits)
  then have cs: "0 < cs" by (auto simp: validateParallelParams_def split: if_splits)
  obtain rc h e c1 where of: "openFirst op live key cs chunkResumeAttempts 0 c = ((rc, h, e), c1)"
    by (metis prod.exhaust)
  obtain c0 c2 where op: "op c0 key [RangeOpt 0 cs] = ((rc, h, e), c2)"
    using openFirst_answer [OF of] by blast
  note run = pg [unfolded ParallelGet_multi [OF multi \<open>validateParallelParams cs concurrency = []\<close> of]]
  consider (no_bytes) "errIs e ErrRangeNotSatisfiable"
    | (unranged) "e = []" "parseContentRangeTotal (hGet h ''Content-Range'') = None"
    | (ranged) tot where "e = []" "parseContentRangeTotal (hGet h ''Content-Range'') = Some tot"
    using run by (cases "parseContentRangeTotal (hGet h ''Content-Range'')") (auto split: if_splits)
  then show ?thesis
  proof cases
    case no_bytes
    then have "d' = d" using run by simp
    then show ?thesis using empty [OF op no_bytes] by force
  next
    case unranged
    then obtain n where w: "writeChunkAt wr d 0 (- 1) rc = ((n, []), d')"
      using run by (auto simp: errIs_def split: prod.splits)
    then show ?thesis
      using writeChunkAt_whole [OF w] first_whole op unranged by auto
  next
    case ranged
    obtain content rest where v: "content \<in> vers" "int (length content) = tot"
      "content = concat (bBlocks rc) @ rest" "hGet h ETagKey \<noteq> [] \<Longrightarrow> obj (hGet h ETagKey) = Some content"
      using first_part [OF op [unfolded ranged] ranged(2)] by blast
    consider (small) "tot \<le> cs" | (unpinned) "cs < tot" "hGet h ETagKey = []" | (chunked) "cs < tot" "hGet h ETagKey \<noteq> []"
      by linarith
    then show ?thesis
    proof cases
      case small
      then show ?thesis
        using run ranged v(1) small_stores [OF v(3,2) _ v(4), of live c1 d c' d'] by (auto simp: errIs_def)
    next
      case unpinned
      then show ?thesis
        using run ranged fullRead_stores by (auto simp: errIs_def split: if_splits)
    next
      case chunked
      then have "runChunks op wr live key (hGet h ETagKey) cs tot rc (order (numChunks cs tot)) c1 d = ([], c', d')"
        using run ranged by (simp add: errIs_def)
      from runChunks_all [OF this v(4) [OF chunked(2)] chunked(2) cs v(3,2)] show ?thesis
        using v(1,2) len [OF v(1)] ord chunked cs by auto
    qed
  qed
qed

end

end
