(* ===== verification/DispatchGate.thy ===== *)
theory DispatchGate
  imports ParallelGet
begin

text \<open>
  The dispatch gate of \<^verbatim>\<open>client/parallel_get.go\<close> and the concurrent download it bounds.  The gate keeps
  the oldest incomplete chunk and a ring of completion flags; its methods run under its mutex, so
  each is one step, and a \<^verbatim>\<open>wait\<close> that would wait for the \<^verbatim>\<open>wake\<close> channel is \<open>Blocked\<close>.  The channel
  itself is the number of times it was closed and replaced.

  \<open>dl_step\<close> is the interleaving of the workers of \<^verbatim>\<open>ParallelGet\<close>, writing through the stream buffer
  of \<^verbatim>\<open>ParallelGetReader\<close>, with the reader of that buffer, when no request fails: a worker claims the
  next chunk number, passes the gate, writes its chunk piece by piece and completes it.  The lemmas
  show that the flags never alias, that no interleaving blocks for ever and that every maximal one
  delivers the whole object.
\<close>

section \<open>Model\<close>

record dispatchGate =
  window :: nat
  wake :: nat
  gdone :: "bool list"
  low :: nat

definition newDispatchGate :: "nat \<Rightarrow> dispatchGate" where
  "newDispatchGate w = \<lparr>window = w, wake = 0, gdone = replicate w False, low = 0\<rparr>"

definition gateWait :: "goerr \<Rightarrow> nat \<Rightarrow> dispatchGate \<Rightarrow> goerr outcome" where
  "gateWait ctxErr seq g =
     (if ctxErr \<noteq> [] then Ret ctxErr
      else if int seq - int (low g) \<ge> int (window g) then Blocked
      else Ret [])"

lemma sum_list_flags_update:
  "i < length bs \<Longrightarrow> bs ! i \<Longrightarrow>
   length (filter id (bs[i := False])) < length (filter id bs)"
proof (induction bs arbitrary: i)
  case (Cons b bs)
  then show ?case by (cases i) auto
qed simp

text \<open>The loop of \<^verbatim>\<open>complete\<close>; an index outside the ring would panic and ends the loop here.\<close>

function gateAdvance :: "dispatchGate \<Rightarrow> dispatchGate" where
  "gateAdvance g =
     (if low g mod window g < length (gdone g) \<and> gdone g ! (low g mod window g)
      then gateAdvance (g\<lparr>gdone := (gdone g)[low g mod window g := False], low := Suc (low g)\<rparr>)
      else g)"
  by pat_completeness auto
termination
  by (relation "measure (\<lambda>g. length (filter id (gdone g)))") (auto simp: sum_list_flags_update)

declare gateAdvance.simps [simp del]

definition gateComplete :: "nat \<Rightarrow> dispatchGate \<Rightarrow> dispatchGate" where
  "gateComplete seq g =
     (let g1 = g\<lparr>gdone := (gdone g)[seq mod window g := True]\<rparr>
      in if seq \<noteq> low g then g1
         else (let g2 = gateAdvance g1 in g2\<lparr>wake := Suc (wake g2)\<rparr>))"

section \<open>The ring of completion flags\<close>

text \<open>The flags in the window are the completed chunks \<open>C\<close>; everything below \<open>low\<close> is complete.\<close>

definition gate_flags :: "dispatchGate \<Rightarrow> nat set \<Rightarrow> bool" where
  "gate_flags g C \<longleftrightarrow> 0 < window g \<and> length (gdone g) = window g \<and> {..<low g} \<subseteq> C \<and>
     C \<subseteq> {..<low g + window g} \<and>
     (\<forall>x. low g \<le> x \<and> x < low g + window g \<longrightarrow> gdone g ! (x mod window g) = (x \<in> C))"

definition gate_inv :: "dispatchGate \<Rightarrow> nat set \<Rightarrow> bool" where
  "gate_inv g C \<longleftrightarrow> gate_flags g C \<and> low g \<notin> C"

lemma gate_inv_new: "0 < w \<Longrightarrow> gate_inv (newDispatchGate w) {}"
  by (simp add: gate_inv_def gate_flags_def newDispatchGate_def)

lemma gate_flags_step:
  assumes "gate_flags g C" "low g \<in> C"
  shows "gate_flags (g\<lparr>gdone := (gdone g)[low g mod window g := False], low := Suc (low g)\<rparr>) C"
proof -
  have w: "0 < window g" "length (gdone g) = window g" "C \<subseteq> {..<low g + window g}"
    and fl: "\<And>x. low g \<le> x \<Longrightarrow> x < low g + window g \<Longrightarrow> gdone g ! (x mod window g) = (x \<in> C)"
    using assms(1) by (auto simp: gate_flags_def)
  have "(gdone g)[low g mod window g := False] ! (x mod window g) = (x \<in> C)"
    if x: "Suc (low g) \<le> x" "x < Suc (low g) + window g" for x
  proof (cases "x = low g + window g")
    case True
    then show ?thesis using w by auto
  next
    case False
    then have "x mod window g \<noteq> low g mod window g"
      using mod_window_inj [of x "window g" "low g" "low g"] x w(1) by auto
    then show ?thesis using fl [of x] x False by simp
  qed
  then show ?thesis
    using assms by (auto simp: gate_flags_def less_Suc_eq)
qed

lemma gateAdvance_inv:
  "gate_flags g C \<Longrightarrow> gate_inv (gateAdvance g) C \<and> window (gateAdvance g) = window g \<and> low g \<le> low (gateAdvance g)"
proof (induction g rule: gateAdvance.induct)
  case (1 g)
  have ring: "low g mod window g < length (gdone g)" and fl: "gdone g ! (low g mod window g) = (low g \<in> C)"
    using 1(2) by (auto simp: gate_flags_def)
  show ?case
  proof (cases "low g \<in> C")
    case True
    let ?g = "g\<lparr>gdone := (gdone g)[low g mod window g := False], low := Suc (low g)\<rparr>"
    have "gateAdvance g = gateAdvance ?g"
      using ring fl True by (subst gateAdvance.simps) simp
    then show ?thesis
      using 1(1) [OF _ gate_flags_step [OF 1(2) True]] ring fl True by auto
  next
    case False
    then have "gateAdvance g = g" using fl by (subst gateAdvance.simps) simp
    then show ?thesis using 1(2) False by (simp add: gate_inv_def)
  qed
qed

lemma gateComplete_inv:
  assumes inv: "gate_inv g C" and seq: "seq < low g + window g" "seq \<notin> C"
  shows "gate_inv (gateComplete seq g) (insert seq C) \<and> window (gateComplete seq g) = window g \<and>
         low g \<le> low (gateComplete seq g)"
proof -
  let ?g = "g\<lparr>gdone := (gdone g)[seq mod window g := True]\<rparr>"
  have fl: "gate_flags g C" using inv by (simp add: gate_inv_def)
  then have ge: "low g \<le> seq" using seq(2) by (auto simp: gate_flags_def) (meson lessThan_iff not_le subsetD)
  have "(gdone g)[seq mod window g := True] ! (x mod window g) = (x \<in> insert seq C)"
    if "low g \<le> x" "x < low g + window g" for x
  proof (cases "x = seq")
    case False
    then have "x mod window g \<noteq> seq mod window g"
      using mod_window_inj [of x "window g" seq "low g"] that ge seq(1) by auto
    then show ?thesis using that fl False by (auto simp: gate_flags_def)
  qed (use fl in \<open>auto simp: gate_flags_def\<close>)
  then have new: "gate_flags ?g (insert seq C)"
    using fl seq by (auto simp: gate_flags_def)
  show ?thesis
  proof (cases "seq = low g")
    case True
    then show ?thesis
      using gateAdvance_inv [OF new]
      by (auto simp: gateComplete_def Let_def gate_inv_def gate_flags_def)
  next
    case False
    then show ?thesis
      using new inv by (auto simp: gateComplete_def Let_def gate_inv_def)
  qed
qed

section \<open>Model: the concurrent download\<close>

record download =
  dGate :: dispatchGate
  dBuf :: streamBuffer
  nextSeq :: nat
  waiting :: "nat set"
  fetching :: "nat set"
  completed :: "nat set"
  pos :: "nat \<Rightarrow> nat"
  out :: bytes

definition dl_init :: "nat \<Rightarrow> nat \<Rightarrow> download" where
  "dl_init cs conc =
     \<lparr>dGate = newDispatchGate (2 * conc), dBuf = newStreamBuffer cs (int conc), nextSeq = 1,
      waiting = {}, fetching = {0}, completed = {}, pos = (\<lambda>seq. seq * cs), out = []\<rparr>"

definition chunkEnd :: "nat \<Rightarrow> nat \<Rightarrow> nat \<Rightarrow> nat" where
  "chunkEnd cs tot seq = min (seq * cs + cs) tot"

definition chunks :: "nat \<Rightarrow> nat \<Rightarrow> nat" where
  "chunks cs tot = 1 + (tot - 1) div cs"

inductive dl_step :: "(nat \<Rightarrow> byte) \<Rightarrow> nat \<Rightarrow> nat \<Rightarrow> nat \<Rightarrow> download \<Rightarrow> download \<Rightarrow> bool"
  for f cs tot conc where
  claim: "nextSeq s < chunks cs tot \<Longrightarrow>
     card (waiting s) + card (fetching s) < min conc (chunks cs tot) \<Longrightarrow>
     dl_step f cs tot conc s (s\<lparr>nextSeq := Suc (nextSeq s), waiting := insert (nextSeq s) (waiting s)\<rparr>)"
| pass: "seq \<in> waiting s \<Longrightarrow> gateWait [] seq (dGate s) = Ret [] \<Longrightarrow>
     dl_step f cs tot conc s (s\<lparr>waiting := waiting s - {seq}, fetching := insert seq (fetching s)\<rparr>)"
| put: "seq \<in> fetching s \<Longrightarrow> 0 < m \<Longrightarrow> pos s seq + m \<le> chunkEnd cs tot seq \<Longrightarrow>
     writeSome (dBuf s) (map f [pos s seq..<pos s seq + m]) (pos s seq) = Ret ((k, []), b) \<Longrightarrow>
     dl_step f cs tot conc s (s\<lparr>dBuf := b, pos := (pos s)(seq := pos s seq + k)\<rparr>)"
| finish: "seq \<in> fetching s \<Longrightarrow> pos s seq = chunkEnd cs tot seq \<Longrightarrow>
     dl_step f cs tot conc s
       (s\<lparr>dGate := gateComplete seq (dGate s), fetching := fetching s - {seq}, completed := insert seq (completed s)\<rparr>)"
| consume: "0 < plen \<Longrightarrow> Read (dBuf s) plen = Ret ((bs, []), b) \<Longrightarrow>
     dl_step f cs tot conc s (s\<lparr>dBuf := b, out := out s @ bs\<rparr>)"

section \<open>The invariant of the download\<close>

definition dl_written :: "nat \<Rightarrow> nat \<Rightarrow> download \<Rightarrow> nat set" where
  "dl_written cs tot s = (\<Union>seq < chunks cs tot. {seq * cs..<pos s seq})"

definition dl_sched :: "nat \<Rightarrow> nat \<Rightarrow> nat \<Rightarrow> download \<Rightarrow> bool" where
  "dl_sched cs tot conc s \<longleftrightarrow>
     waiting s \<union> fetching s \<union> completed s = {..<nextSeq s} \<and> nextSeq s \<le> chunks cs tot \<and>
     waiting s \<inter> fetching s = {} \<and> waiting s \<inter> completed s = {} \<and> fetching s \<inter> completed s = {} \<and>
     gate_inv (dGate s) (completed s) \<and> window (dGate s) = 2 * conc \<and>
     fetching s \<subseteq> {..<low (dGate s) + 2 * conc}"

definition dl_pos :: "nat \<Rightarrow> nat \<Rightarrow> download \<Rightarrow> bool" where
  "dl_pos cs tot s \<longleftrightarrow>
     (\<forall>seq < chunks cs tot. seq * cs \<le> pos s seq \<and> pos s seq \<le> chunkEnd cs tot seq) \<and>
     (\<forall>seq \<in> completed s. pos s seq = chunkEnd cs tot seq)"

definition dl_buf :: "(nat \<Rightarrow> byte) \<Rightarrow> nat \<Rightarrow> nat \<Rightarrow> nat \<Rightarrow> download \<Rightarrow> bool" where
  "dl_buf f cs tot conc s \<longleftrightarrow> sb_run f (dBuf s) (dl_written cs tot s) (out s) \<and>
     chunkSize (dBuf s) = cs \<and> pageCount (dBuf s) = 2 * conc \<and>
     \<not> closed (dBuf s) \<and> \<not> rclosed (dBuf s)"

definition dl_inv :: "(nat \<Rightarrow> byte) \<Rightarrow> nat \<Rightarrow> nat \<Rightarrow> nat \<Rightarrow> download \<Rightarrow> bool" where
  "dl_inv f cs tot conc s \<longleftrightarrow> dl_sched cs tot conc s \<and> dl_pos cs tot s \<and> dl_buf f cs tot conc s"

lemma chunks_iff:
  assumes "0 < cs" "0 < tot"
  shows "seq < chunks cs tot \<longleftrightarrow> seq * cs < tot"
  using assms less_eq_div_iff_mult_less_eq [of cs seq "tot - 1"] by (auto simp: chunks_def)

lemma writeSome_fields:
  assumes "writeSome s p off = Ret ((n, e), s')"
  shows "chunkSize s' = chunkSize s" "pageCount s' = pageCount s" "closed s' = closed s"
    "rclosed s' = rclosed s" "readOff s' = readOff s" "n \<le> length p"
  using assms by (auto simp: writeSome_def Let_def split: if_splits)

lemma Read_fields:
  assumes "Read s plen = Ret ((bs, e), s')"
  shows "chunkSize s' = chunkSize s" "pageCount s' = pageCount s" "closed s' = closed s"
    "rclosed s' = rclosed s" "pending s' = pending s" "frontier s' = frontier s"
  using assms by (auto simp: Read_def Let_def split: if_splits option.splits)

lemma dl_inv_init:
  assumes "0 < cs" "cs < tot" "1 < conc"
  shows "dl_inv f cs tot conc (dl_init cs conc)"
proof -
  have "1 \<le> chunks cs tot" by (simp add: chunks_def)
  then have "dl_sched cs tot conc (dl_init cs conc)"
    using assms gate_inv_new [of "2 * conc"]
    by (auto simp: dl_sched_def dl_init_def newDispatchGate_def)
  moreover have "dl_pos cs tot (dl_init cs conc)"
    using assms chunks_iff [of cs tot] by (auto simp: dl_pos_def dl_init_def chunkEnd_def)
  moreover have "dl_written cs tot (dl_init cs conc) = {}"
    by (auto simp: dl_written_def dl_init_def)
  then have "dl_buf f cs tot conc (dl_init cs conc)"
    using sb_new [OF assms(1), of f "int conc"] assms(3)
    by (auto simp: dl_buf_def dl_init_def newStreamBuffer_def Let_def nat_mult_distrib)
  ultimately show ?thesis by (simp add: dl_inv_def)
qed

lemma chunk_disjoint:
  fixes cs a b :: nat
  assumes "a \<noteq> b" "x \<in> {a * cs..<a * cs + cs}" "x \<in> {b * cs..<b * cs + cs}"
  shows False
proof -
  have "x div cs = c" if "x \<in> {c * cs..<c * cs + cs}" for c
    using that by (intro div_nat_eqI) (auto simp: mult.commute)
  then show ?thesis using assms by blast
qed

lemma dl_buf_write:
  assumes inv: "dl_inv f cs tot conc s" and seq: "seq \<in> fetching s"
    and m: "0 < m" "pos s seq + m \<le> chunkEnd cs tot seq"
    and w: "writeSome (dBuf s) (map f [pos s seq..<pos s seq + m]) (pos s seq) = Ret ((k, []), b)"
  shows "dl_buf f cs tot conc (s\<lparr>dBuf := b, pos := (pos s)(seq := pos s seq + k)\<rparr>)"
proof -
  let ?p = "pos s seq" and ?s = "s\<lparr>dBuf := b, pos := (pos s)(seq := pos s seq + k)\<rparr>"
  have lt: "seq < chunks cs tot" using inv seq by (auto simp: dl_inv_def dl_sched_def)
  have le: "\<And>q. q < chunks cs tot \<Longrightarrow> q * cs \<le> pos s q \<and> pos s q \<le> chunkEnd cs tot q"
    using inv by (auto simp: dl_inv_def dl_pos_def)
  have run: "sb_run f (dBuf s) (dl_written cs tot s) (out s)"
    using inv by (simp add: dl_inv_def dl_buf_def)
  have disj: "{?p..<?p + length (map f [?p..<?p + m])} \<inter> dl_written cs tot s = {}"
  proof (rule equals0I)
    fix x assume x: "x \<in> {?p..<?p + length (map f [?p..<?p + m])} \<inter> dl_written cs tot s"
    then obtain q where q: "q < chunks cs tot" "x \<in> {q * cs..<pos s q}" by (auto simp: dl_written_def)
    then have "x \<in> {q * cs..<q * cs + cs}" using le [of q] by (auto simp: chunkEnd_def)
    moreover have "x \<in> {seq * cs..<seq * cs + cs}" using x m le [OF lt] by (auto simp: chunkEnd_def)
    ultimately have "q = seq" using chunk_disjoint by blast
    with q x show False by auto
  qed
  have "dl_written cs tot ?s = dl_written cs tot s \<union> {?p..<?p + k}"
    using lt le [OF lt] by (force simp: dl_written_def split: if_splits)
  moreover have "sb_run f b (dl_written cs tot s \<union> {?p..<?p + k}) (out s)"
    using sb_write [OF run w _ _ disj] m by simp
  ultimately show ?thesis
    using inv writeSome_fields [OF w] by (simp add: dl_inv_def dl_buf_def)
qed

lemma dl_inv_step:
  assumes "dl_step f cs tot conc s t" "dl_inv f cs tot conc s"
  shows "dl_inv f cs tot conc t"
  using assms
proof (cases rule: dl_step.cases)
  case claim
  then show ?thesis using assms(2)
    by (auto simp: dl_inv_def dl_sched_def dl_pos_def dl_buf_def dl_written_def lessThan_Suc)
next
  case (pass seq)
  then have "seq < low (dGate s) + 2 * conc"
    using assms(2) by (auto simp: gateWait_def dl_inv_def dl_sched_def split: if_splits)
  then show ?thesis using pass assms(2)
    by (auto simp: dl_inv_def dl_sched_def dl_pos_def dl_buf_def dl_written_def)
next
  case (put seq m k b)
  have "dl_pos cs tot t"
    using put writeSome_fields(6) [OF put(5)] assms(2)
    by (auto simp: dl_inv_def dl_sched_def dl_pos_def)
  moreover have "dl_sched cs tot conc t"
    using put(1) assms(2) by (simp add: dl_inv_def dl_sched_def)
  ultimately show ?thesis
    using dl_buf_write [OF assms(2) put(2-5)] put(1) by (simp add: dl_inv_def)
next
  case (finish seq)
  have g: "gate_inv (dGate s) (completed s)" "seq < low (dGate s) + window (dGate s)" "seq \<notin> completed s"
    using assms(2) finish(2) by (auto simp: dl_inv_def dl_sched_def)
  show ?thesis
    using finish gateComplete_inv [OF g] assms(2)
    by (fastforce simp: dl_inv_def dl_sched_def dl_pos_def dl_buf_def dl_written_def)
next
  case (consume plen bs b)
  have "sb_run f b (dl_written cs tot s) (out s @ bs)"
    using sb_read [OF _ consume(3)] assms(2) by (simp add: dl_inv_def dl_buf_def)
  then show ?thesis
    using consume Read_fields [OF consume(3)] assms(2)
    by (simp add: dl_inv_def dl_sched_def dl_pos_def dl_buf_def dl_written_def)
qed

section \<open>Progress and termination\<close>

lemma dl_low:
  assumes inv: "dl_inv f cs tot conc s" and cs: "0 < cs" and low: "low (dGate s) < chunks cs tot"
  shows "low (dGate s) * cs \<le> frontier (dBuf s)"
proof (rule ccontr)
  let ?low = "low (dGate s)" and ?fr = "frontier (dBuf s)"
  assume "\<not> ?thesis"
  then have fr: "?fr < ?low * cs" by simp
  let ?q = "?fr div cs"
  have q: "?q < ?low" using fr cs by (simp add: less_mult_imp_div_less)
  then have "?q \<in> completed s" using inv by (auto simp: dl_inv_def dl_sched_def gate_inv_def gate_flags_def)
  then have pos: "pos s ?q = chunkEnd cs tot ?q" using inv by (simp add: dl_inv_def dl_pos_def)
  have "Suc ?q * cs \<le> ?low * cs" using q by (intro mult_le_mono1) simp
  moreover have "?low * cs < tot \<or> tot = 0"
    using low chunks_iff [OF cs, of tot ?low] by auto
  ultimately have "chunkEnd cs tot ?q = Suc ?q * cs \<or> tot = 0" by (auto simp: chunkEnd_def)
  moreover have "?q < chunks cs tot" using q low by simp
  moreover have "?q * cs \<le> ?fr" "?fr < Suc ?q * cs"
    using cs div_mult_mod_eq [of ?fr cs] mod_less_divisor [OF cs, of ?fr] unfolding mult_Suc by linarith+
  ultimately have "?fr \<in> dl_written cs tot s \<or> tot = 0"
    unfolding dl_written_def using pos by force
  moreover have "tot = 0 \<Longrightarrow> ?low = 0" using low by (simp add: chunks_def)
  moreover have "?fr \<notin> dl_written cs tot s"
    using inv sb_run_inv tracks_frontier by (metis dl_buf_def dl_inv_def sb_inv_def)
  ultimately show False using fr by auto
qed

text \<open>
  A write of a dispatched chunk never waits once the reader has drained the buffer to the first gap:
  the window of the gate is the number of pages.
\<close>

lemma dl_write_fits:
  assumes inv: "dl_inv f cs tot conc s" and cs: "0 < cs" and seq: "seq \<in> fetching s"
    and off: "seq * cs \<le> off" "off < chunkEnd cs tot seq" and dr: "readOff (dBuf s) = frontier (dBuf s)"
  shows "writeSome (dBuf s) p off \<noteq> Blocked"
proof (intro writeSome_unblocked)
  have "off div cs = seq"
    using off by (intro div_nat_eqI) (auto simp: chunkEnd_def mult.commute)
  moreover have "seq < chunks cs tot" "seq < low (dGate s) + 2 * conc" "low (dGate s) \<le> seq"
    using inv seq by (auto simp: dl_inv_def dl_sched_def gate_inv_def gate_flags_def)
      (meson disjoint_iff lessThan_iff not_le subsetD)+
  moreover from this have "low (dGate s) \<le> frontier (dBuf s) div cs"
    using dl_low [OF inv cs] cs by (simp add: less_eq_div_iff_mult_less_eq)
  ultimately show "off div chunkSize (dBuf s) < readOff (dBuf s) div chunkSize (dBuf s) + pageCount (dBuf s)"
    using inv dr by (simp add: dl_inv_def dl_buf_def)
  show "0 < chunkSize (dBuf s)" using inv cs by (simp add: dl_inv_def dl_buf_def)
qed

definition delivered :: "nat \<Rightarrow> nat \<Rightarrow> download \<Rightarrow> bool" where
  "delivered cs tot s \<longleftrightarrow> completed s = {..<chunks cs tot} \<and> readOff (dBuf s) = tot"

lemma dl_written_all:
  assumes "dl_inv f cs tot conc s" "completed s = {..<chunks cs tot}" "0 < cs" "0 < tot"
  shows "dl_written cs tot s = {..<tot}"
proof
  have pos: "pos s q = chunkEnd cs tot q" if "q < chunks cs tot" for q
    using assms(1,2) that by (auto simp: dl_inv_def dl_pos_def)
  then show "dl_written cs tot s \<subseteq> {..<tot}"
    by (auto simp: dl_written_def chunkEnd_def)
  show "{..<tot} \<subseteq> dl_written cs tot s"
  proof
    fix x assume x: "x \<in> {..<tot}"
    let ?q = "x div cs"
    have le: "?q * cs \<le> x" "x < ?q * cs + cs"
      using assms(3) div_mult_mod_eq [of x cs] mod_less_divisor [OF assms(3), of x] by linarith+
    then have "?q * cs < tot" using x by (meson lessThan_iff le_less_trans)
    then have "?q < chunks cs tot" using chunks_iff [OF assms(3,4), of ?q] by simp
    then show "x \<in> dl_written cs tot s"
      using le x pos [of ?q] unfolding dl_written_def by (intro UN_I [of ?q]) (auto simp: chunkEnd_def)
  qed
qed

lemma dl_frontier_le:
  assumes inv: "dl_inv f cs tot conc s"
  shows "frontier (dBuf s) \<le> tot \<and> readOff (dBuf s) \<le> frontier (dBuf s) \<and> frontier (dBuf s) \<notin> dl_written cs tot s
    \<and> {..<frontier (dBuf s)} \<subseteq> dl_written cs tot s"
proof -
  have sb: "sb_inv f (dBuf s) (dl_written cs tot s) (out s)"
    using inv sb_run_inv by (auto simp: dl_inv_def dl_buf_def)
  have "dl_written cs tot s \<subseteq> {..<tot}"
    using inv by (fastforce simp: dl_inv_def dl_pos_def dl_written_def chunkEnd_def)
  then have "frontier (dBuf s) \<le> tot"
    using tracks_frontier [of "dl_written cs tot s" "dBuf s"] sb
    by (metis lessThan_subset_iff sb_inv_def subset_trans)
  then show ?thesis using sb tracks_frontier by (simp add: sb_inv_def)
qed

lemma dl_progress_low:
  assumes inv: "dl_inv f cs tot conc s" and pr: "0 < cs" "0 < tot" "0 < conc"
    and dr: "readOff (dBuf s) = frontier (dBuf s)" and nc: "completed s \<noteq> {..<chunks cs tot}"
  shows "\<exists>t. dl_step f cs tot conc s t"
proof -
  let ?low = "low (dGate s)"
  have sched: "dl_sched cs tot conc s" using inv by (simp add: dl_inv_def)
  have lowC: "{..<?low} \<subseteq> completed s" "?low \<notin> completed s" "0 < window (dGate s)"
    and Cn: "completed s \<subseteq> {..<chunks cs tot}"
    using sched by (auto simp: dl_sched_def gate_inv_def gate_flags_def)
  consider (unclaimed) "nextSeq s \<le> ?low" | (wait) "?low \<in> waiting s" | (fetch) "?low \<in> fetching s"
    using sched lowC(2) by (auto simp: dl_sched_def) (metis Un_iff lessThan_iff not_le)
  then show ?thesis
  proof cases
    case unclaimed
    then have sub: "{..<nextSeq s} \<subseteq> completed s" using lowC(1) by fastforce
    then have ex: "completed s = {..<nextSeq s}" "waiting s = {}" "fetching s = {}"
      using sched by (auto simp: dl_sched_def)
    then have "nextSeq s < chunks cs tot"
      using nc sched by (auto simp: dl_sched_def le_less)
    moreover have "0 < chunks cs tot" by (simp add: chunks_def)
    ultimately show ?thesis
      using dl_step.claim [of s cs tot conc f] ex pr by auto
  next
    case wait
    then have "gateWait [] ?low (dGate s) = Ret []" using lowC(3) by (simp add: gateWait_def)
    then show ?thesis using dl_step.pass [OF wait] by blast
  next
    case fetch
    then have lt: "?low < chunks cs tot" using sched by (auto simp: dl_sched_def)
    have p: "?low * cs \<le> pos s ?low" "pos s ?low \<le> chunkEnd cs tot ?low"
      using inv lt by (auto simp: dl_inv_def dl_pos_def)
    show ?thesis
    proof (cases "pos s ?low = chunkEnd cs tot ?low")
      case True
      then show ?thesis using dl_step.finish [OF fetch] by blast
    next
      case False
      let ?p = "pos s ?low" let ?d = "map f [?p..<?p + 1]"
      have "writeSome (dBuf s) ?d ?p \<noteq> Blocked" "writeSome (dBuf s) ?d ?p \<noteq> Panic"
        using dl_write_fits [OF inv pr(1) fetch p(1) _ dr] False p(2)
          sb_run_no_panic(1) [of f "dBuf s"] inv by (auto simp: dl_inv_def dl_buf_def)
      then obtain k e b where w: "writeSome (dBuf s) ?d ?p = Ret ((k, e), b)"
        by (cases "writeSome (dBuf s) ?d ?p") auto
      then have "e = []"
        using inv by (auto simp: writeSome_def dl_inv_def dl_buf_def Let_def split: if_splits)
      then show ?thesis
        using dl_step.put [OF fetch _ _ w [unfolded \<open>e = []\<close>], of cs tot conc] False p(2) by fastforce
    qed
  qed
qed

text \<open>No interleaving is stuck before the reader has the whole object.\<close>

lemma dl_progress:
  assumes inv: "dl_inv f cs tot conc s" and pr: "0 < cs" "0 < tot" "0 < conc"
    and nd: "\<not> delivered cs tot s"
  shows "\<exists>t. dl_step f cs tot conc s t"
proof (cases "readOff (dBuf s) < frontier (dBuf s)")
  case True
  have run: "sb_run f (dBuf s) (dl_written cs tot s) (out s)" "\<not> rclosed (dBuf s)"
    using inv by (auto simp: dl_inv_def dl_buf_def)
  have "Read (dBuf s) 1 \<noteq> Panic" using sb_run_no_panic(2) [OF run(1)] .
  then obtain bs b where "Read (dBuf s) 1 = Ret ((bs, []), b)"
    using True run(2) by (auto simp: Read_def Let_def split: if_splits option.splits)
  then show ?thesis using dl_step.consume [of 1 s bs b f cs tot conc] by auto
next
  case False
  have le: "readOff (dBuf s) = frontier (dBuf s)" using dl_frontier_le [OF inv] False by simp
  have "completed s \<noteq> {..<chunks cs tot}"
  proof
    assume all: "completed s = {..<chunks cs tot}"
    have "frontier (dBuf s) = tot"
      using dl_frontier_le [OF inv] dl_written_all [OF inv all pr(1,2)] by auto
    with le all nd show False by (simp add: delivered_def)
  qed
  then show ?thesis using dl_progress_low [OF inv pr le] by blast
qed

text \<open>Every step uses up a bounded resource.\<close>

definition dl_measure :: "nat \<Rightarrow> nat \<Rightarrow> download \<Rightarrow> nat" where
  "dl_measure cs tot s = 3 * (chunks cs tot - nextSeq s) + 2 * card (waiting s) + card (fetching s) +
     (\<Sum>seq < chunks cs tot. chunkEnd cs tot seq - pos s seq) + (tot - readOff (dBuf s))"

lemma sum_fun_upd_less:
  fixes e p :: "nat \<Rightarrow> nat"
  assumes "q < n" "0 < k" "p q + k \<le> e q"
  shows "(\<Sum>x < n. e x - (p(q := p q + k)) x) < (\<Sum>x < n. e x - p x)"
  using assms by (intro sum_strict_mono_ex1) (auto intro!: bexI [of _ q])

lemma dl_step_measure:
  assumes "dl_step f cs tot conc s t" "dl_inv f cs tot conc s"
  shows "dl_measure cs tot t < dl_measure cs tot s"
proof -
  have sub: "waiting s \<subseteq> {..<nextSeq s}" "fetching s \<subseteq> {..<nextSeq s}" "waiting s \<inter> fetching s = {}"
    using assms(2) by (auto simp: dl_inv_def dl_sched_def)
  then have fin: "finite (waiting s)" "finite (fetching s)" by (meson finite_lessThan finite_subset)+
  from assms(1) show ?thesis
  proof (cases rule: dl_step.cases)
    case claim
    moreover have "nextSeq s \<notin> waiting s" using sub by auto
    ultimately show ?thesis using fin by (simp add: dl_measure_def)
  next
    case (pass seq)
    then have "seq \<notin> fetching s" using sub by auto
    moreover have "card (waiting s) = Suc (card (waiting s - {seq}))"
      using card_Suc_Diff1 [OF fin(1) pass(2)] by simp
    ultimately have "card (waiting s) = Suc (card (waiting s - {seq}))" "seq \<notin> fetching s" by auto
    then show ?thesis using pass fin by (simp add: dl_measure_def)
  next
    case (put seq m k b)
    have seq: "seq < chunks cs tot" using put(2) assms(2) by (auto simp: dl_inv_def dl_sched_def)
    have "map f [pos s seq..<pos s seq + m] \<noteq> []" using put(3) by simp
    from put(5) this have k: "0 < k" by (cases rule: writeSome_Ret) auto
    have "pos s seq + k \<le> chunkEnd cs tot seq" using writeSome_fields(6) [OF put(5)] put(4) by simp
    then show ?thesis
      using put(1) sum_fun_upd_less [OF seq k, of "pos s" "chunkEnd cs tot"] writeSome_fields(5) [OF put(5)]
      by (simp add: dl_measure_def)
  next
    case (finish seq)
    then have "card (fetching s) = Suc (card (fetching s - {seq}))"
      using card_Suc_Diff1 [OF fin(2) finish(2)] by simp
    then show ?thesis using finish(1) by (simp add: dl_measure_def)
  next
    case (consume plen bs b)
    have cs: "0 < chunkSize (dBuf s)"
      using assms(2) sb_run_inv by (fastforce simp: dl_inv_def dl_buf_def sb_inv_def ring_ok_def)
    from consume(3) have "readOff (dBuf s) < readOff b \<and> readOff (dBuf s) < frontier (dBuf s)"
    proof (cases rule: Read_Ret)
      case (got pg n)
      then show ?thesis using consume(2) cs by simp
    qed simp
    then have "tot - readOff b < tot - readOff (dBuf s)"
      using dl_frontier_le [OF assms(2)] by linarith
    from add_strict_left_mono [OF this] show ?thesis
      unfolding dl_measure_def consume(1) by simp
  qed
qed

lemma dl_run_inv:
  "(dl_step f cs tot conc ^^ k) s t \<Longrightarrow> dl_inv f cs tot conc s \<Longrightarrow>
   dl_inv f cs tot conc t \<and> k + dl_measure cs tot t \<le> dl_measure cs tot s"
proof (induction k arbitrary: t)
  case (Suc k)
  then obtain u where u: "(dl_step f cs tot conc ^^ k) s u" "dl_step f cs tot conc u t" by auto
  then show ?case using Suc.IH [OF u(1) Suc.prems(2)] dl_inv_step [OF u(2)] dl_step_measure [OF u(2)] by auto
qed auto

lemma dl_measure_init: "dl_measure cs tot (dl_init cs conc) \<le> 3 * chunks cs tot + 2 * tot"
proof -
  have "(\<Sum>seq < n. min (seq * cs + cs) tot - seq * cs) \<le> min (n * cs) tot" for n
    by (induction n) (auto simp: min_def split: if_splits)
  from this [of "chunks cs tot"]
  have "(\<Sum>seq < chunks cs tot. chunkEnd cs tot seq - seq * cs) \<le> tot" by (simp add: chunkEnd_def)
  moreover have "1 \<le> chunks cs tot" by (simp add: chunks_def)
  ultimately show ?thesis
    by (simp add: dl_measure_def dl_init_def newStreamBuffer_def Let_def)
qed

lemma dl_maximal:
  "\<exists>k t. (dl_step f cs tot conc ^^ k) s t \<and> \<not> (\<exists>u. dl_step f cs tot conc t u)"
  if "dl_inv f cs tot conc s"
  using that
proof (induction "dl_measure cs tot s" arbitrary: s rule: less_induct)
  case less
  show ?case
  proof (cases "\<exists>u. dl_step f cs tot conc s u")
    case True
    then obtain u where u: "dl_step f cs tot conc s u" by blast
    obtain k t where "(dl_step f cs tot conc ^^ k) u t" "\<not> (\<exists>v. dl_step f cs tot conc t v)"
      using less(1) [OF dl_step_measure [OF u less(2)] dl_inv_step [OF u less(2)]] by blast
    then show ?thesis using relpowp_Suc_I2 [of "dl_step f cs tot conc" s u k t] u by blast
  next
    case False
    then show ?thesis by (intro exI [of _ 0] exI [of _ s]) simp
  qed
qed

section \<open>Properties\<close>



text \<open>
  C5: the window of the gate fits the pages of the buffer.  In every reachable state of the download
  the oldest incomplete chunk is the least chunk not completed, every chunk being fetched lies within
  \<open>2 * concurrency\<close> of it, and once the reader has drained the buffer to the first missing byte no
  write of a fetched chunk has to wait.
\<close>

theorem gate_window_safe:
  assumes "0 < cs" "cs < tot" "1 < conc" "(dl_step f cs tot conc ^^ k) (dl_init cs conc) s"
    and "seq \<in> fetching s" "seq * cs \<le> off" "off < chunkEnd cs tot seq"
    and "readOff (dBuf s) = frontier (dBuf s)"
  shows "low (dGate s) = (LEAST x. x \<notin> completed s) \<and> seq < low (dGate s) + 2 * conc \<and>
         writeSome (dBuf s) p off \<noteq> Blocked"
proof -
  have inv: "dl_inv f cs tot conc s"
    using dl_run_inv [OF assms(4) dl_inv_init [OF assms(1-3)]] by auto
  then have "{..<low (dGate s)} \<subseteq> completed s" "low (dGate s) \<notin> completed s" "seq < low (dGate s) + 2 * conc"
    using assms(5) by (auto simp: dl_inv_def dl_sched_def gate_inv_def gate_flags_def)
  moreover from this have "low (dGate s) = (LEAST x. x \<notin> completed s)"
    by (intro Least_equality [symmetric]) (auto simp: not_less [symmetric])
  ultimately show ?thesis
    using dl_write_fits [OF inv assms(1,5-8)] by blast
qed

theorem gate_window_safe_witness:
  "writeSome (newStreamBuffer 2 2) [7] 1 \<noteq> Blocked \<and> low (newDispatchGate 4) = 0"
  using gate_window_safe [of 2 5 2 0 "\<lambda>_. 0" "dl_init 2 2" 0 1 "[7]"]
  by (simp add: dl_init_def chunkEnd_def newStreamBuffer_def newDispatchGate_def Let_def)

end
