(* ===== verification/CacheCore.thy ===== *)
theory CacheCore
  imports ParallelGet
begin

text \<open>
  What all cache backends share: \<^verbatim>\<open>internal/cache/etag.go\<close>, \<^verbatim>\<open>range.go\<close>, \<^verbatim>\<open>conditional.go\<close>, \<^verbatim>\<open>noop.go\<close>
  and the \<^verbatim>\<open>Cache\<close> interface of \<^verbatim>\<open>api.go\<close>.  A header that the Go code mutates in place is returned
  updated; a nil reader is \<open>nilBody\<close>, a nil header is the empty map.

  The interface \<^verbatim>\<open>Cache\<close> is the record \<open>cacheOps\<close> of operations on a backend's state, and the contract
  in its comments is the locale \<open>cache_backend\<close>: \<open>obj\<close> is the object a key has, and \<open>statSpec\<close> and
  \<open>openSpec\<close> are what \<^verbatim>\<open>Stat\<close> and \<^verbatim>\<open>Open\<close> must answer for it.
\<close>

section \<open>Model\<close>

definition nilBody :: body where
  "nilBody = \<lparr>bBlocks = [], bErr = [], bCloseErr = []\<rparr>"

definition bytesReader :: "bytes \<Rightarrow> body" where
  "bytesReader p = \<lparr>bBlocks = [p], bErr = [], bCloseErr = []\<rparr>"

definition createETag :: "string \<Rightarrow> RequestOption list \<Rightarrow> string \<times> string \<times> goerr" where
  "createETag uuid opts =
     (let ro = NewRequestOptions opts;
          raw = (if \<not> oETagSet ro then uuid else oETag ro)
      in case FormatETag raw of (quoted, e) \<Rightarrow>
           if e \<noteq> [] then ('''', '''', e) else (raw, quoted, []))"

definition setCreateETag :: "string \<Rightarrow> header \<Rightarrow> RequestOption list \<Rightarrow> header \<times> goerr" where
  "setCreateETag uuid h opts =
     (case createETag uuid opts of (_, quoted, e) \<Rightarrow>
        if e \<noteq> [] then (h, e) else (hSet h ETagKey quoted, []))"

text \<open>The first component is the header as the call leaves it, the second the header it returns.\<close>

definition conditionalShortCircuit :: "header \<Rightarrow> RequestOption list \<Rightarrow> header \<times> header \<times> goerr" where
  "conditionalShortCircuit h opts =
     (let h' = hDel h ''Content-Range'';
          e = Check (NewRequestOptions opts) (hGet h' ETagKey)
      in if errIs e ErrNotModified then (h', h', e) else (h', Map.empty, e))"

definition rangeShortCircuit :: "header \<Rightarrow> int \<Rightarrow> RequestOption list
    \<Rightarrow> header \<times> int \<times> int \<times> bool \<times> goerr" where
  "rangeShortCircuit h sz opts =
     (case ResolveRange (NewRequestOptions opts) sz (hGet h ETagKey) of (s, l, outc) \<Rightarrow>
        (case outc of
           RangePartial \<Rightarrow>
             (hSet (hSet h ''Content-Range''
                (''bytes '' @ FormatInt s @ ''-'' @ FormatInt (s + l - 1) @ ''/'' @ FormatInt sz))
                ''Content-Length'' (FormatInt l), s, l, True, [])
         | RangeNotSatisfiable \<Rightarrow>
             (hDel (hSet h ''Content-Range'' (''bytes */'' @ FormatInt sz)) ''Content-Length'',
              0, 0, False, [ErrRangeNotSatisfiable])
         | RangeFull \<Rightarrow> (h, 0, sz, False, [])))"

text \<open>The first \<open>n\<close> bytes of a body, as \<^verbatim>\<open>io.LimitReader\<close> delivers them.\<close>

fun limitBlocks :: "nat \<Rightarrow> bytes list \<Rightarrow> bytes list" where
  "limitBlocks n [] = []"
| "limitBlocks n (b # bs) = (if n = 0 then [] else take n b # limitBlocks (n - length b) bs)"

definition newLimitedReadCloser :: "body \<Rightarrow> int \<Rightarrow> body" where
  "newLimitedReadCloser rc len =
     rc\<lparr>bBlocks := limitBlocks (nat len) (bBlocks rc),
        bErr := (if nat len \<le> length (concat (bBlocks rc)) then [] else bErr rc)\<rparr>"

record Stats =
  Objects :: int
  Size :: int
  Capacity :: int

text \<open>
  The interface of a backend with state \<open>'c\<close> and writers \<open>'w\<close>.  \<open>cCreate\<close> takes the error of the
  context it is called with; \<open>wCancel\<close> cancels the context the writer was created with.
\<close>

record ('c, 'w) cacheOps =
  cStat :: "'c \<Rightarrow> Key \<Rightarrow> RequestOption list \<Rightarrow> (header \<times> goerr) \<times> 'c"
  cOpen :: "'c opener"
  cCreate :: "'c \<Rightarrow> goerr \<Rightarrow> Key \<Rightarrow> header \<Rightarrow> duration \<Rightarrow> RequestOption list \<Rightarrow> (goerr + 'w) \<times> 'c"
  cDelete :: "'c \<Rightarrow> Key \<Rightarrow> goerr \<times> 'c"
  cInvalidate :: "'c \<Rightarrow> Key \<Rightarrow> goerr \<times> 'c"
  cStats :: "'c \<Rightarrow> Stats \<times> goerr"
  cListNamespaces :: "'c \<Rightarrow> string list \<times> goerr"
  cClose :: "'c \<Rightarrow> goerr \<times> 'c"
  wWrite :: "'w \<Rightarrow> bytes \<Rightarrow> (nat \<times> goerr) \<times> 'w"
  wCancel :: "'w \<Rightarrow> 'w"
  wClose :: "'w \<Rightarrow> 'c \<Rightarrow> goerr outcome \<times> 'w \<times> 'c"

text \<open>\<^verbatim>\<open>WriteFunc\<close>: the caller's function writes blocks and then returns an error or nil.\<close>

fun writeBlocks :: "('c, 'w) cacheOps \<Rightarrow> 'w \<Rightarrow> bytes list \<Rightarrow> goerr \<times> 'w" where
  "writeBlocks ops w [] = ([], w)"
| "writeBlocks ops w (b # bs) =
     (case wWrite ops w b of ((_, e), w') \<Rightarrow> if e \<noteq> [] then (e, w') else writeBlocks ops w' bs)"

definition WriteFunc :: "('c, 'w) cacheOps \<Rightarrow> 'c \<Rightarrow> goerr \<Rightarrow> Key \<Rightarrow> header \<Rightarrow> duration \<Rightarrow> bytes list
    \<Rightarrow> goerr \<Rightarrow> RequestOption list \<Rightarrow> goerr outcome \<times> 'c" where
  "WriteFunc ops c ctxErr key h ttl blocks fnErr opts =
     (case cCreate ops c ctxErr key h ttl opts of (r, c1) \<Rightarrow>
        (case r of
           Inl e \<Rightarrow> (Ret e, c1)
         | Inr w \<Rightarrow>
             (case writeBlocks ops w blocks of (we, w1) \<Rightarrow>
                (let e = (if we \<noteq> [] then we else fnErr)
                 in if e \<noteq> [] then
                      (case wClose ops (wCancel ops w1) c1 of (r', _, c2) \<Rightarrow>
                         ((case r' of Ret ae \<Rightarrow> Ret (errJoin [e, ae]) | Blocked \<Rightarrow> Blocked | Panic \<Rightarrow> Panic), c2))
                    else (case wClose ops w1 c1 of (r', _, c2) \<Rightarrow> (r', c2))))))"

text \<open>The no-op cache has no state and answers every read with a miss.\<close>

definition noOpCache :: "(unit, unit) cacheOps" where
  "noOpCache =
     \<lparr>cStat = (\<lambda>c key opts. ((Map.empty, [ErrNotExist]), c)),
      cOpen = (\<lambda>c key opts. ((nilBody, Map.empty, [ErrNotExist]), c)),
      cCreate = (\<lambda>c ctxErr key h ttl opts. (Inr (), c)),
      cDelete = (\<lambda>c key. ([], c)),
      cInvalidate = (\<lambda>c key. ([], c)),
      cStats = (\<lambda>c. (\<lparr>Objects = 0, Size = 0, Capacity = 0\<rparr>, [ErrStatsUnavailable])),
      cListNamespaces = (\<lambda>c. ([], [])),
      cClose = (\<lambda>c. ([], c)),
      wWrite = (\<lambda>w p. ((length p, []), w)),
      wCancel = (\<lambda>w. w),
      wClose = (\<lambda>w c. (Ret [], w, c))\<rparr>"

section \<open>The contract of the interface\<close>

text \<open>What \<^verbatim>\<open>Stat\<close> and \<^verbatim>\<open>Open\<close> answer for an object with data \<open>d\<close> and stored header \<open>h\<close>.\<close>

definition statSpec :: "(bytes \<times> header) option \<Rightarrow> RequestOption list \<Rightarrow> header \<times> goerr" where
  "statSpec ob opts =
     (case ob of
        None \<Rightarrow> (Map.empty, [ErrNotExist])
      | Some (d, h) \<Rightarrow>
          (case conditionalShortCircuit (hSet h ''Content-Length'' (FormatInt (int (length d)))) opts of
             (h1, hr, e) \<Rightarrow> if e \<noteq> [] then (hr, e) else (h1, [])))"

definition openSpec :: "(bytes \<times> header) option \<Rightarrow> RequestOption list \<Rightarrow> body \<times> header \<times> goerr" where
  "openSpec ob opts =
     (case ob of
        None \<Rightarrow> (nilBody, Map.empty, [ErrNotExist])
      | Some (d, h) \<Rightarrow>
          (case conditionalShortCircuit (hSet h ''Content-Length'' (FormatInt (int (length d)))) opts of
             (h1, hr, e) \<Rightarrow>
               if e \<noteq> [] then (nilBody, hr, e)
               else (case rangeShortCircuit h1 (int (length d)) opts of
                  (h2, start, len, part, re) \<Rightarrow>
                    if re \<noteq> [] then (nilBody, h2, re)
                    else (bytesReader (if part then take (nat len) (drop (nat start) d) else d), h2, []))))"

lemma conditionalShortCircuit_etag:
  "conditionalShortCircuit h opts = (h1, hr, e) \<Longrightarrow> hGet h1 ETagKey = hGet h ETagKey \<and>
     e = Check (NewRequestOptions opts) (hGet h ETagKey) \<and> h1 = hDel h ''Content-Range''"
  by (auto simp: conditionalShortCircuit_def Let_def hGet_hDel split: if_splits)

lemma rangeShortCircuit_etag:
  "rangeShortCircuit h sz opts = (h2, start, len, part, e) \<Longrightarrow> hGet h2 ETagKey = hGet h ETagKey"
  by (cases "snd (snd (ResolveRange (NewRequestOptions opts) sz (hGet h ETagKey)))")
     (auto simp: rangeShortCircuit_def hGet_hSet hGet_hDel split: prod.splits)

text \<open>The possible answers of \<^verbatim>\<open>Open\<close> for an existing object.\<close>

lemma openSpec_Some:
  assumes "openSpec (Some (d, h)) opts = (b, hr, e)"
  obtains (full) "e = []" "b = bytesReader d" "hGet hr ''Content-Range'' = ''''" "hGet hr ETagKey = hGet h ETagKey"
      "Check (NewRequestOptions opts) (hGet h ETagKey) = []"
      "ResolveRange (NewRequestOptions opts) (int (length d)) (hGet h ETagKey) = (0, int (length d), RangeFull)"
  | (part) start len where "e = []" "b = bytesReader (take (nat len) (drop (nat start) d))"
      "hGet hr ''Content-Range'' =
         ''bytes '' @ FormatInt start @ ''-'' @ FormatInt (start + len - 1) @ ''/'' @ FormatInt (int (length d))"
      "hGet hr ETagKey = hGet h ETagKey" "Check (NewRequestOptions opts) (hGet h ETagKey) = []"
      "ResolveRange (NewRequestOptions opts) (int (length d)) (hGet h ETagKey) = (start, len, RangePartial)"
      "0 \<le> start" "0 < len" "start + len \<le> int (length d)"
  | (unsat) "e = [ErrRangeNotSatisfiable]" "b = nilBody" "hGet hr ETagKey = hGet h ETagKey"
      "ResolveRange (NewRequestOptions opts) (int (length d)) (hGet h ETagKey) = (0, int (length d), RangeNotSatisfiable)"
  | (cond) "e = Check (NewRequestOptions opts) (hGet h ETagKey)" "e \<noteq> []" "b = nilBody"
proof -
  let ?h = "hDel (hSet h ''Content-Length'' (FormatInt (int (length d)))) ''Content-Range''"
  obtain h1 hr' e1 where c1: "conditionalShortCircuit (hSet h ''Content-Length'' (FormatInt (int (length d)))) opts =
      (h1, hr', e1)" by (metis prod.exhaust)
  then have c: "conditionalShortCircuit (hSet h ''Content-Length'' (FormatInt (int (length d)))) opts =
      (?h, hr', Check (NewRequestOptions opts) (hGet h ETagKey))"
    using conditionalShortCircuit_etag [OF c1] by (simp add: hGet_hSet)
  have et: "hGet ?h ETagKey = hGet h ETagKey" by (simp add: hGet_hDel hGet_hSet)
  obtain s l outc where r: "ResolveRange (NewRequestOptions opts) (int (length d)) (hGet h ETagKey) = (s, l, outc)"
    by (metis prod.exhaust)
  show ?thesis
  proof (cases "Check (NewRequestOptions opts) (hGet h ETagKey) = []")
    case False
    then show ?thesis using cond assms c by (auto simp: openSpec_def)
  next
    case ok: True
    show ?thesis
    proof (cases outc)
      case RangeFull
      then show ?thesis using full assms c ok et r ResolveRange_cases [OF r]
        by (auto simp: openSpec_def rangeShortCircuit_def hGet_hDel)
    next
      case RangePartial
      then show ?thesis using part [of l s] assms c ok et r ResolveRange_cases [OF r]
        by (auto simp: openSpec_def rangeShortCircuit_def hGet_hSet)
    next
      case RangeNotSatisfiable
      then show ?thesis using unsat assms c ok et r ResolveRange_cases [OF r]
        by (auto simp: openSpec_def rangeShortCircuit_def hGet_hSet hGet_hDel)
    qed
  qed
qed

text \<open>An error that is none of the outcomes the interface names.\<close>

definition hardErr :: "goerr \<Rightarrow> bool" where
  "hardErr e \<longleftrightarrow> e \<noteq> [] \<and>
     set e \<inter> {ErrNotExist, ErrNotModified, ErrPreconditionFailed, ErrRangeNotSatisfiable} = {}"

text \<open>
  Two errors that no caller can tell apart: both are nil or neither is, and they agree on the outcomes the
  interface names.
\<close>

definition errSame :: "goerr \<Rightarrow> goerr \<Rightarrow> bool" where
  "errSame e e' \<longleftrightarrow> (e = [] \<longleftrightarrow> e' = []) \<and>
     (\<forall>k \<in> {ErrNotExist, ErrNotModified, ErrPreconditionFailed, ErrRangeNotSatisfiable}. errIs e k \<longleftrightarrow> errIs e' k)"

lemma errSame_refl [simp]: "errSame e e"
  by (simp add: errSame_def)

lemma errSame_nil [simp]: "errSame [] e \<longleftrightarrow> e = []" "errSame e [] \<longleftrightarrow> e = []"
  by (auto simp: errSame_def errIs_def)

text \<open>
  The contract of a backend for reading: \<open>obj c key\<close> is the object visible in the state \<open>c\<close>.  A
  backend may fail with an error of its own and may forget objects whenever it is modified, but it
  never answers for an object it does not have.
\<close>

definition forgets :: "('c \<Rightarrow> Key \<Rightarrow> 'o option) \<Rightarrow> 'c \<Rightarrow> 'c \<Rightarrow> Key set \<Rightarrow> bool" where
  "forgets obj c c' except \<longleftrightarrow> (\<forall>k. k \<notin> except \<longrightarrow> obj c' k = obj c k \<or> obj c' k = None)"

lemma forgets_refl [simp]: "forgets obj c c except"
  by (simp add: forgets_def)

lemma forgets_same: "obj c' = obj c \<Longrightarrow> forgets obj c c' except"
  by (simp add: forgets_def)

lemma forgets_trans:
  "forgets obj c1 c2 except \<Longrightarrow> forgets obj c2 c3 except \<Longrightarrow> forgets obj c1 c3 except"
  by (fastforce simp: forgets_def)

locale cache_reader =
  fixes ops :: "('c, 'w) cacheOps"
    and obj :: "'c \<Rightarrow> Key \<Rightarrow> (bytes \<times> header) option"
  assumes stat_spec: "cStat ops c key opts = ((h, e), c') \<Longrightarrow>
      obj c' = obj c \<and> (hardErr e \<or> (\<exists>e0. (h, e0) = statSpec (obj c key) opts \<and> errSame e e0))"
    and open_spec: "cOpen ops c key opts = ((b, h, e), c') \<Longrightarrow>
      obj c' = obj c \<and> (hardErr e \<or> (\<exists>e0. (b, h, e0) = openSpec (obj c key) opts \<and> errSame e e0))"
    and invalidate_spec: "cInvalidate ops c key = (e, c') \<Longrightarrow>
      forgets obj c c' {} \<and> (e = [] \<longrightarrow> obj c' key = None)"
    and delete_spec: "cDelete ops c key = (e, c') \<Longrightarrow>
      forgets obj c c' {} \<and> (hardErr e \<or> obj c' key = None)"

text \<open>
  The contract for writing: \<open>pend w\<close> is what the writer \<open>w\<close> will commit, its key, the bytes so far and
  the ETag; it is gone once the writer is cancelled or closed.
\<close>

locale cache_backend = cache_reader ops obj
  for ops :: "('c, 'w) cacheOps" and obj :: "'c \<Rightarrow> Key \<Rightarrow> (bytes \<times> header) option" +
  fixes pend :: "'w \<Rightarrow> (Key \<times> bytes \<times> string) option"
  assumes create_spec: "cCreate ops c ctxErr key h ttl opts = (r, c') \<Longrightarrow> obj c' = obj c \<and>
      (\<forall>w. r = Inr w \<longrightarrow> (if ctxErr = [] then \<exists>q. pend w = Some (key, [], q) else pend w = None)) \<and>
      (\<forall>e. r = Inl e \<longrightarrow> e \<noteq> [])"
    and create_etag: "cCreate ops c [] key h ttl [WithETag raw] = (Inr w, c') \<Longrightarrow>
      FormatETag raw = (q, []) \<Longrightarrow> pend w = Some (key, [], q)"
    and write_spec: "wWrite ops w p = ((n, []), w') \<Longrightarrow>
      pend w' = map_option (\<lambda>(k, d, q). (k, d @ p, q)) (pend w)"
    and write_none: "wWrite ops w p = ((n, e), w') \<Longrightarrow> pend w = None \<Longrightarrow> pend w' = None"
    and cancel_spec: "pend (wCancel ops w) = None"
    and close_none: "wClose ops w c = (res, w', c') \<Longrightarrow> pend w = None \<Longrightarrow> forgets obj c c' {}"
    and close_some: "wClose ops w c = (res, w', c') \<Longrightarrow> pend w = Some (key, d, q) \<Longrightarrow>
      forgets obj c c' {key} \<and>
      (obj c' key = None \<or> obj c' key = obj c key \<and> res \<noteq> Ret [] \<or>
       (\<exists>h. obj c' key = Some (d, h) \<and> hGet h ETagKey = q))"
begin

lemma writeBlocks_pend:
  "writeBlocks ops w blocks = ([], w') \<Longrightarrow>
   pend w' = map_option (\<lambda>(k, d, q). (k, d @ concat blocks, q)) (pend w)"
proof (induction blocks arbitrary: w)
  case Nil
  then show ?case by (simp add: option.map_id [unfolded id_def] case_prod_beta)
next
  case (Cons b bs)
  then obtain n w1 where w1: "wWrite ops w b = ((n, []), w1)" "writeBlocks ops w1 bs = ([], w')"
    by (auto split: prod.splits if_splits)
  show ?case
    using Cons.IH [OF w1(2)] write_spec [OF w1(1)] by (cases "pend w") auto
qed

text \<open>
  A write through \<^verbatim>\<open>WriteFunc\<close> that succeeds leaves the written version or nothing; a write that
  fails before it is closed leaves every object as it was or forgotten.
\<close>

lemma WriteFunc_commits:
  assumes "WriteFunc ops c [] key h ttl blocks [] [WithETag raw] = (Ret [], c')"
    and "FormatETag raw = (q, [])"
  shows "obj c' key = None \<or> (\<exists>h'. obj c' key = Some (concat blocks, h') \<and> hGet h' ETagKey = q)"
proof -
  obtain r c1 where cr: "cCreate ops c [] key h ttl [WithETag raw] = (r, c1)" by (metis prod.exhaust)
  then obtain w where r: "r = Inr w"
    using assms(1) create_spec [OF cr] by (cases r) (auto simp: WriteFunc_def)
  obtain we w1 where wb: "writeBlocks ops w blocks = (we, w1)" by (metis prod.exhaust)
  obtain r' w2 c2 where cl: "wClose ops w1 c1 = (r', w2, c2)" by (metis prod.exhaust)
  obtain r'' w3 c3 where ab: "wClose ops (wCancel ops w1) c1 = (r'', w3, c3)" by (metis prod.exhaust)
  have we: "we = []"
    using assms(1) cr r wb ab by (auto simp: WriteFunc_def errJoin_def split: outcome.splits if_splits)
  then have fin: "r' = Ret []" "c' = c2"
    using assms(1) cr r wb cl by (simp_all add: WriteFunc_def)
  have "pend w1 = Some (key, concat blocks, q)"
    using writeBlocks_pend [OF wb [unfolded we]] create_etag [OF cr [unfolded r] assms(2)] by simp
  from close_some [OF cl this] fin show ?thesis by auto
qed

lemma writeBlocks_none: "writeBlocks ops w blocks = (e, w') \<Longrightarrow> pend w = None \<Longrightarrow> pend w' = None"
proof (induction blocks arbitrary: w)
  case (Cons b bs)
  obtain n e1 w1 where w1: "wWrite ops w b = ((n, e1), w1)" by (metis prod.exhaust)
  have "pend w1 = None" by (rule write_none [OF w1 Cons.prems(2)])
  then show ?case
    using Cons w1 by (cases "e1 = []") auto
qed simp

lemma WriteFunc_aborts:
  assumes "WriteFunc ops c ctxErr key h ttl blocks fnErr opts = (r, c')" "fnErr \<noteq> [] \<or> ctxErr \<noteq> []"
  shows "forgets obj c c' {}"
proof -
  obtain r0 c1 where cr: "cCreate ops c ctxErr key h ttl opts = (r0, c1)" by (metis prod.exhaust)
  have same: "forgets obj c c1 {}" using create_spec [OF cr] forgets_same by metis
  show ?thesis
  proof (cases r0)
    case (Inl e)
    then show ?thesis using assms(1) cr same by (simp add: WriteFunc_def)
  next
    case (Inr w)
    obtain we w1 where wb: "writeBlocks ops w blocks = (we, w1)" by (metis prod.exhaust)
    obtain r' w2 c2 where cl: "wClose ops w1 c1 = (r', w2, c2)" by (metis prod.exhaust)
    obtain r'' w3 c3 where ab: "wClose ops (wCancel ops w1) c1 = (r'', w3, c3)" by (metis prod.exhaust)
    show ?thesis
    proof (cases "we = [] \<and> fnErr = []")
      case True
      then have "pend w = None" using assms(2) create_spec [OF cr] Inr by auto
      then have "forgets obj c1 c2 {}" using close_none [OF cl] writeBlocks_none [OF wb] by simp
      moreover have "c' = c2" using True assms(1) cr Inr wb cl by (simp add: WriteFunc_def)
      ultimately show ?thesis using same forgets_trans by metis
    next
      case False
      have "forgets obj c1 c3 {}" by (rule close_none [OF ab cancel_spec])
      moreover have "c' = c3" using False assms(1) cr Inr wb ab by (auto simp: WriteFunc_def Let_def split: if_splits)
      ultimately show ?thesis using same forgets_trans by metis
    qed
  qed
qed

end

text \<open>The no-op cache satisfies the reading half of the contract: it never has an object.\<close>

interpretation noop: cache_reader noOpCache "\<lambda>_ _. None"
  by unfold_locales (auto simp: noOpCache_def statSpec_def openSpec_def)

end
