(* ===== verification/Memory.thy ===== *)
theory Memory
  imports CacheCore
begin

text \<open>
  The in-memory cache: \<^verbatim>\<open>internal/cache/memory.go\<close>.  The state that all namespaced views of a cache
  share (the entries and the size counter) is \<open>memStore\<close>; a view has its configuration, its namespace
  and whether it still holds the map (\<^verbatim>\<open>Close\<close> sets the map of that view to nil).  A nested Go map is
  ranged over in an unspecified order, so \<^verbatim>\<open>evictOldest\<close> takes the \<open>order\<close> in which the entries are
  visited.  The current time, the UUID and the formatting of the time are arguments.

  The lemmas show the accounting of sizes with its exact error, the size limit, the order of
  eviction, that cancelled writes have no effect, and the contract of the \<^verbatim>\<open>Cache\<close> interface.
\<close>

section \<open>Model\<close>

record MemoryConfig =
  LimitMB :: int
  MaxTTL :: duration

record memoryEntry =
  mData :: bytes
  mExpiresAt :: time
  mHeaders :: header

record memStore =
  entries :: "Namespace \<rightharpoonup> (Key \<rightharpoonup> memoryEntry)"
  currentSize :: int

record memView =
  mConfig :: MemoryConfig
  mNamespace :: Namespace
  mOpen :: bool

definition NewMemory :: "MemoryConfig \<Rightarrow> memView \<times> memStore" where
  "NewMemory config =
     (\<lparr>mConfig = config, mNamespace = '''', mOpen = True\<rparr>, \<lparr>entries = Map.empty, currentSize = 0\<rparr>)"

text \<open>The entry a view finds for a key at time \<open>now\<close>, as \<^verbatim>\<open>Stat\<close> and \<^verbatim>\<open>Open\<close> look it up.\<close>

definition memFind :: "memView \<Rightarrow> memStore \<Rightarrow> time \<Rightarrow> Key \<Rightarrow> memoryEntry option" where
  "memFind v s now key =
     (if \<not> mOpen v then None
      else case entries s (mNamespace v) of
          None \<Rightarrow> None
        | Some nsEntries \<Rightarrow>
           (case nsEntries key of
              None \<Rightarrow> None
            | Some entry \<Rightarrow> if now > mExpiresAt entry then None else Some entry))"

definition MemStat :: "memView \<Rightarrow> memStore \<Rightarrow> time \<Rightarrow> Key \<Rightarrow> RequestOption list \<Rightarrow> header \<times> goerr" where
  "MemStat v s now key opts =
     (case memFind v s now key of
        None \<Rightarrow> (Map.empty, [ErrNotExist])
      | Some entry \<Rightarrow>
          (let h = hSet (mHeaders entry) ''Content-Length'' (FormatInt (int (length (mData entry))))
           in case conditionalShortCircuit h opts of (h1, hr, e) \<Rightarrow>
                if e \<noteq> [] then (hr, e) else (h1, [])))"

definition MemOpen :: "memView \<Rightarrow> memStore \<Rightarrow> time \<Rightarrow> Key \<Rightarrow> RequestOption list
    \<Rightarrow> body \<times> header \<times> goerr" where
  "MemOpen v s now key opts =
     (case memFind v s now key of
        None \<Rightarrow> (nilBody, Map.empty, [ErrNotExist])
      | Some entry \<Rightarrow>
          (let h = hSet (mHeaders entry) ''Content-Length'' (FormatInt (int (length (mData entry))))
           in case conditionalShortCircuit h opts of (h1, hr, e) \<Rightarrow>
                if e \<noteq> [] then (nilBody, hr, e)
                else (case rangeShortCircuit h1 (int (length (mData entry))) opts of
                   (h2, start, len, part, re) \<Rightarrow>
                     if re \<noteq> [] then (nilBody, h2, re)
                     else (bytesReader (if part then take (nat len) (drop (nat start) (mData entry))
                                        else mData entry), h2, []))))"

record memoryWriter =
  mwNamespace :: Namespace
  mwKey :: Key
  mwBuf :: bytes
  mwExpiresAt :: time
  mwHeaders :: header
  mwClosed :: bool
  mwCtxErr :: goerr

definition MemCreate :: "(time \<Rightarrow> string) \<Rightarrow> string \<Rightarrow> memView \<Rightarrow> time \<Rightarrow> goerr \<Rightarrow> Key \<Rightarrow> header \<Rightarrow> duration
    \<Rightarrow> RequestOption list \<Rightarrow> goerr + memoryWriter" where
  "MemCreate httpTime uuid v now ctxErr key h ttl0 opts =
     (let ttl = (if ttl0 = 0 then MaxTTL (mConfig v) else ttl0);
          h1 = FilterHeaders h TransportHeaders;
          h2 = (if hGet h1 ''Last-Modified'' = '''' then hSet h1 ''Last-Modified'' (httpTime now) else h1)
      in case setCreateETag uuid h2 opts of (h3, e) \<Rightarrow>
           if e \<noteq> [] then Inl e
           else Inr \<lparr>mwNamespace = mNamespace v, mwKey = key, mwBuf = [], mwExpiresAt = now + ttl,
                     mwHeaders = h3, mwClosed = False, mwCtxErr = ctxErr\<rparr>)"

definition removeEntry :: "memStore \<Rightarrow> Namespace \<Rightarrow> Key \<Rightarrow> memStore" where
  "removeEntry s ns key =
     (case entries s ns of
        None \<Rightarrow> s
      | Some nsEntries \<Rightarrow> s\<lparr>entries := (entries s)(ns \<mapsto> nsEntries(key := None))\<rparr>)"

definition MemDelete :: "memView \<Rightarrow> memStore \<Rightarrow> Key \<Rightarrow> goerr \<times> memStore" where
  "MemDelete v s key =
     (if \<not> mOpen v then ([ErrNotExist], s)
      else case entries s (mNamespace v) of
          None \<Rightarrow> ([ErrNotExist], s)
        | Some nsEntries \<Rightarrow>
           (case nsEntries key of
              None \<Rightarrow> ([ErrNotExist], s)
            | Some entry \<Rightarrow>
                ([], removeEntry (s\<lparr>currentSize := currentSize s - int (length (mData entry))\<rparr>) (mNamespace v) key)))"

definition MemInvalidate :: "memView \<Rightarrow> memStore \<Rightarrow> Key \<Rightarrow> goerr \<times> memStore" where
  "MemInvalidate v s key =
     (case MemDelete v s key of (e, s') \<Rightarrow> if errIs e ErrNotExist then ([], s') else (e, s'))"

definition MemClose :: "memView \<Rightarrow> goerr \<times> memView" where
  "MemClose v = ([], v\<lparr>mOpen := False\<rparr>)"

text \<open>The entries in the order \<open>order\<close> in which the two loops of \<^verbatim>\<open>evictOldest\<close> visit them.\<close>

definition lookupEntry :: "memStore \<Rightarrow> Namespace \<times> Key \<Rightarrow> memoryEntry option" where
  "lookupEntry s p = (case entries s (fst p) of None \<Rightarrow> None | Some m \<Rightarrow> m (snd p))"

definition MemStats :: "memView \<Rightarrow> memStore \<Rightarrow> (Namespace \<times> Key) list \<Rightarrow> Stats \<times> goerr" where
  "MemStats v s order =
     (\<lparr>Objects = (if mOpen v then int (length (filter (\<lambda>p. lookupEntry s p \<noteq> None) order)) else 0),
       Size = currentSize s, Capacity = LimitMB (mConfig v) * 1024 * 1024\<rparr>, [])"

record entryInfo =
  iNamespace :: Namespace
  iKey :: Key
  iSize :: int
  iExpiresAt :: time

fun entryInfos :: "memStore \<Rightarrow> (Namespace \<times> Key) list \<Rightarrow> entryInfo list" where
  "entryInfos s [] = []"
| "entryInfos s ((ns, k) # ps) =
     (case lookupEntry s (ns, k) of
        None \<Rightarrow> entryInfos s ps
      | Some e \<Rightarrow> \<lparr>iNamespace = ns, iKey = k, iSize = int (length (mData e)), iExpiresAt = mExpiresAt e\<rparr>
                  # entryInfos s ps)"

text \<open>
  The exchange sort of \<^verbatim>\<open>evictOldest\<close>: the inner loop compares the element at \<open>i\<close> with every later one
  and swaps when it expires after it; the outer loop repeats this for every \<open>i\<close>.
\<close>

fun exchangePass :: "entryInfo \<Rightarrow> entryInfo list \<Rightarrow> entryInfo \<times> entryInfo list" where
  "exchangePass x [] = (x, [])"
| "exchangePass x (y # ys) =
     (if iExpiresAt x > iExpiresAt y
      then (case exchangePass y ys of (m, r) \<Rightarrow> (m, x # r))
      else (case exchangePass x ys of (m, r) \<Rightarrow> (m, y # r)))"

lemma length_exchangePass: "length (snd (exchangePass x ys)) = length ys"
  by (induction x ys rule: exchangePass.induct) (auto split: prod.splits)

function exchangeSort :: "entryInfo list \<Rightarrow> entryInfo list" where
  "exchangeSort [] = []"
| "exchangeSort (x # xs) = fst (exchangePass x xs) # exchangeSort (snd (exchangePass x xs))"
  by pat_completeness auto
termination
  by (relation "measure length") (auto simp: length_exchangePass)

fun evictLoop :: "int \<Rightarrow> int \<Rightarrow> entryInfo list \<Rightarrow> memStore \<Rightarrow> memStore" where
  "evictLoop needed freed [] s = s"
| "evictLoop needed freed (e # es) s =
     (if freed \<ge> needed then s
      else evictLoop needed (freed + iSize e) es
             (removeEntry (s\<lparr>currentSize := currentSize s - iSize e\<rparr>) (iNamespace e) (iKey e)))"

definition evictOldest :: "(Namespace \<times> Key) list \<Rightarrow> int \<Rightarrow> memStore \<Rightarrow> memStore" where
  "evictOldest order neededSpace s = evictLoop neededSpace 0 (exchangeSort (entryInfos s order)) s"

definition MemWrite :: "memoryWriter \<Rightarrow> bytes \<Rightarrow> (nat \<times> goerr) \<times> memoryWriter" where
  "MemWrite w p =
     (if mwClosed w then ((0, [ErrOther ''writer closed'']), w)
      else ((length p, []), w\<lparr>mwBuf := mwBuf w @ p\<rparr>))"

text \<open>
  \<^verbatim>\<open>memoryWriter.Close\<close>; assigning into the nil map of a closed view panics.  The namespace map is
  fetched before the eviction and assigned to after it: eviction deletes keys in place and leaves the
  namespace maps, so the final assignment is an update of the same map.
\<close>

definition MemWriterClose :: "(memStore \<Rightarrow> (Namespace \<times> Key) list) \<Rightarrow> memView \<Rightarrow> memoryWriter \<Rightarrow> memStore
    \<Rightarrow> goerr outcome \<times> memoryWriter \<times> memStore" where
  "MemWriterClose order v w s =
     (if mwClosed w then (Ret [], w, s)
      else (let w1 = w\<lparr>mwClosed := True\<rparr>
       in if mwCtxErr w \<noteq> [] then (Ret (mwCtxErr w), w1, s)
          else if \<not> mOpen v then (Panic, w1, s)
          else (let newSize = int (length (mwBuf w));
                    limitBytes = LimitMB (mConfig v) * 1024 * 1024;
                    s1 = (case entries s (mwNamespace w) of
                            None \<Rightarrow> s\<lparr>entries := (entries s)(mwNamespace w \<mapsto> Map.empty)\<rparr> | Some _ \<Rightarrow> s);
                    oldSize = (case lookupEntry s1 (mwNamespace w, mwKey w) of
                                 None \<Rightarrow> 0 | Some old \<Rightarrow> int (length (mData old)));
                    neededSpace = currentSize s1 - oldSize + newSize - limitBytes;
                    s2 = (if limitBytes > 0 \<and> neededSpace > 0 then evictOldest (order s1) neededSpace s1 else s1);
                    entry = \<lparr>mData = mwBuf w, mExpiresAt = mwExpiresAt w, mHeaders = mwHeaders w\<rparr>;
                    nsEntries = (case entries s2 (mwNamespace w) of None \<Rightarrow> Map.empty | Some m \<Rightarrow> m)
                in (Ret [], w1\<lparr>mwBuf := []\<rparr>,
                    s2\<lparr>currentSize := currentSize s2 - oldSize + newSize,
                       entries := (entries s2)(mwNamespace w \<mapsto> nsEntries(mwKey w \<mapsto> entry))\<rparr>))))"

definition MemCancel :: "memoryWriter \<Rightarrow> memoryWriter" where
  "MemCancel w = w\<lparr>mwCtxErr := (if mwCtxErr w = [] then [ErrCanceled] else mwCtxErr w)\<rparr>"

definition MemAbort :: "(memStore \<Rightarrow> (Namespace \<times> Key) list) \<Rightarrow> memView \<Rightarrow> memoryWriter \<Rightarrow> memStore
    \<Rightarrow> goerr outcome \<times> memoryWriter \<times> memStore" where
  "MemAbort order v w s = MemWriterClose order v (MemCancel w) s"

definition MemNamespace :: "memView \<Rightarrow> Namespace \<Rightarrow> memView" where
  "MemNamespace v ns = v\<lparr>mNamespace := ns\<rparr>"

definition MemListNamespaces :: "memView \<Rightarrow> memStore \<Rightarrow> Namespace list \<Rightarrow> Namespace list \<times> goerr" where
  "MemListNamespaces v s nsOrder =
     (if mOpen v then filter (\<lambda>ns. ns \<noteq> '''' \<and> entries s ns \<noteq> None) nsOrder else [], [])"

section \<open>The exchange sort\<close>

lemma exchangePass_mset:
  "exchangePass x ys = (m, r) \<Longrightarrow> add_mset m (mset r) = add_mset x (mset ys)"
  by (induction x ys arbitrary: m r rule: exchangePass.induct) (auto split: prod.splits if_splits)

lemma exchangePass_least:
  "exchangePass x ys = (m, r) \<Longrightarrow> (\<forall>z \<in> set r. iExpiresAt m \<le> iExpiresAt z) \<and> iExpiresAt m \<le> iExpiresAt x"
  by (induction x ys arbitrary: m r rule: exchangePass.induct) (fastforce split: prod.splits if_splits)+

lemma exchangeSort_mset: "mset (exchangeSort es) = mset es"
proof (induction es rule: exchangeSort.induct)
  case (2 x xs)
  then show ?case using exchangePass_mset [of x xs] by (metis exchangeSort.simps(2) mset.simps(2) prod.collapse)
qed simp

lemma exchangeSort_sorted: "sorted (map iExpiresAt (exchangeSort es))"
proof (induction es rule: exchangeSort.induct)
  case (2 x xs)
  have "set (exchangeSort (snd (exchangePass x xs))) = set (snd (exchangePass x xs))"
    by (metis exchangeSort_mset mset_eq_setD)
  then show ?case using 2 exchangePass_least [of x xs] by (auto simp: prod_eq_iff)
qed simp

section \<open>Sizes\<close>

definition present :: "memStore \<Rightarrow> (Namespace \<times> Key) set" where
  "present s = {p. lookupEntry s p \<noteq> None}"

definition entrySize :: "memStore \<Rightarrow> Namespace \<times> Key \<Rightarrow> int" where
  "entrySize s p = (case lookupEntry s p of None \<Rightarrow> 0 | Some e \<Rightarrow> int (length (mData e)))"

text \<open>The bytes the cache really holds, and the statement that the counter equals them.\<close>

definition heldBytes :: "memStore \<Rightarrow> int" where
  "heldBytes s = (\<Sum>p \<in> present s. entrySize s p)"

definition mem_ok :: "memStore \<Rightarrow> bool" where
  "mem_ok s \<longleftrightarrow> finite (present s) \<and> currentSize s = heldBytes s"

definition enumerates :: "(Namespace \<times> Key) list \<Rightarrow> memStore \<Rightarrow> bool" where
  "enumerates order s \<longleftrightarrow> distinct order \<and> set order = present s"

lemma lookup_removeEntry:
  "lookupEntry (removeEntry s ns k) p = (if p = (ns, k) then None else lookupEntry s p)"
  by (cases p) (auto simp: lookupEntry_def removeEntry_def split: option.splits)

lemma removeEntry_size [simp]: "currentSize (removeEntry s ns k) = currentSize s"
  by (simp add: removeEntry_def split: option.splits)

lemma entries_removeEntry: "entries (removeEntry s ns k) n = None \<longleftrightarrow> entries s n = None"
  by (auto simp: removeEntry_def split: option.splits)

lemma lookup_currentSize [simp]: "lookupEntry (s\<lparr>currentSize := n\<rparr>) p = lookupEntry s p"
  by (simp add: lookupEntry_def)

lemma heldBytes_cong: "(\<And>p. lookupEntry s' p = lookupEntry s p) \<Longrightarrow> heldBytes s' = heldBytes s"
  by (simp add: heldBytes_def present_def entrySize_def)

lemma heldBytes_restrict:
  assumes "finite (present s)" "\<And>p. lookupEntry s' p = (if p \<in> R then None else lookupEntry s p)" "R \<subseteq> present s"
  shows "heldBytes s' = heldBytes s - (\<Sum>p \<in> R. entrySize s p)" "present s' = present s - R"
proof -
  show pr: "present s' = present s - R" using assms(2) by (auto simp: present_def)
  have "heldBytes s' = (\<Sum>p \<in> present s - R. entrySize s p)"
    using assms(2) by (simp add: heldBytes_def pr entrySize_def)
  then show "heldBytes s' = heldBytes s - (\<Sum>p \<in> R. entrySize s p)"
    using sum.subset_diff [OF assms(3,1), of "entrySize s"] by (simp add: heldBytes_def)
qed

lemma heldBytes_update:
  assumes "finite (present s)"
    and "\<And>p. lookupEntry s' p = (if p = q then Some e else lookupEntry s p)"
  shows "heldBytes s' = heldBytes s - entrySize s q + int (length (mData e))"
    "present s' = insert q (present s)"
proof -
  show pr: "present s' = insert q (present s)" using assms(2) by (auto simp: present_def)
  have fin: "finite (present s - {q})" using assms(1) by simp
  have rest: "(\<Sum>p \<in> present s - {q}. entrySize s' p) = (\<Sum>p \<in> present s - {q}. entrySize s p)"
    using assms(2) by (intro sum.cong) (auto simp: entrySize_def)
  have "heldBytes s' = entrySize s' q + (\<Sum>p \<in> present s - {q}. entrySize s' p)"
    using fin by (simp add: heldBytes_def pr sum.insert_remove assms(1))
  moreover have "heldBytes s = entrySize s q + (\<Sum>p \<in> present s - {q}. entrySize s p)"
  proof (cases "q \<in> present s")
    case True
    then show ?thesis using sum.remove [OF assms(1) True] by (simp add: heldBytes_def)
  next
    case False
    then show ?thesis by (auto simp: heldBytes_def entrySize_def present_def split: option.splits)
  qed
  moreover have "entrySize s' q = int (length (mData e))" using assms(2) by (simp add: entrySize_def)
  ultimately show "heldBytes s' = heldBytes s - entrySize s q + int (length (mData e))"
    using rest by simp
qed

section \<open>Eviction\<close>

definition infoId :: "entryInfo \<Rightarrow> Namespace \<times> Key" where
  "infoId e = (iNamespace e, iKey e)"

text \<open>The list describes entries of the store, each once.\<close>

definition describes :: "entryInfo list \<Rightarrow> memStore \<Rightarrow> bool" where
  "describes es s \<longleftrightarrow> distinct (map infoId es) \<and>
     (\<forall>e \<in> set es. \<exists>m. lookupEntry s (infoId e) = Some m \<and> iSize e = int (length (mData m)) \<and>
        iExpiresAt e = mExpiresAt m)"

lemma entryInfos_describes:
  "distinct order \<Longrightarrow> describes (entryInfos s order) s \<and> set (map infoId (entryInfos s order)) = set order \<inter> present s"
proof (induction s order rule: entryInfos.induct)
  case (2 s ns k ps)
  then show ?case
    by (cases "lookupEntry s (ns, k)") (auto simp: describes_def infoId_def present_def)
qed (simp add: describes_def)

lemma describes_mset: "mset es' = mset es \<Longrightarrow> describes es s \<Longrightarrow> describes es' s"
proof -
  assume "mset es' = mset es" "describes es s"
  moreover from this have "mset (map infoId es') = mset (map infoId es)" "set es' = set es"
    by (auto dest: mset_eq_setD)
  ultimately show ?thesis
    unfolding describes_def using mset_eq_imp_distinct_iff by metis
qed

lemma describes_removeEntry:
  "describes (e # es) s \<Longrightarrow> describes es (removeEntry (s\<lparr>currentSize := n\<rparr>) (iNamespace e) (iKey e))"
proof -
  assume d: "describes (e # es) s"
  then have "infoId e \<notin> infoId ` set es" by (simp add: describes_def)
  then have "\<forall>x \<in> set es. infoId x \<noteq> (iNamespace e, iKey e)" by (metis image_eqI infoId_def)
  with d show ?thesis by (auto simp: describes_def lookup_removeEntry)
qed

lemma evictLoop_prefix:
  assumes "describes es s"
  shows "\<exists>n \<le> length es.
     (\<forall>p. lookupEntry (evictLoop needed freed es s) p =
        (if p \<in> infoId ` set (take n es) then None else lookupEntry s p)) \<and>
     currentSize (evictLoop needed freed es s) = currentSize s - sum_list (map iSize (take n es)) \<and>
     (freed + sum_list (map iSize (take n es)) \<ge> needed \<or> n = length es) \<and>
     (\<forall>ns. entries (evictLoop needed freed es s) ns = None \<longleftrightarrow> entries s ns = None)"
  using assms
proof (induction needed freed es s rule: evictLoop.induct)
  case (1 needed freed s)
  then show ?case by simp
next
  case (2 needed freed e es s)
  let ?s = "removeEntry (s\<lparr>currentSize := currentSize s - iSize e\<rparr>) (iNamespace e) (iKey e)"
  show ?case
  proof (cases "freed \<ge> needed")
    case True
    then show ?thesis by (intro exI [of _ 0]) simp
  next
    case False
    then obtain n where n: "n \<le> length es"
      "\<forall>p. lookupEntry (evictLoop needed (freed + iSize e) es ?s) p =
        (if p \<in> infoId ` set (take n es) then None else lookupEntry ?s p)"
      "currentSize (evictLoop needed (freed + iSize e) es ?s) = currentSize ?s - sum_list (map iSize (take n es))"
      "freed + iSize e + sum_list (map iSize (take n es)) \<ge> needed \<or> n = length es"
      "\<forall>ns. entries (evictLoop needed (freed + iSize e) es ?s) ns = None \<longleftrightarrow> entries ?s ns = None"
      using 2(1) [OF False describes_removeEntry [OF 2(2)]] by blast
    then show ?thesis using False
      by (intro exI [of _ "Suc n"]) (auto simp: lookup_removeEntry entries_removeEntry infoId_def)
  qed
qed

text \<open>
  \<^verbatim>\<open>evictOldest\<close> removes a set \<open>R\<close> of entries, those that expire first, keeps the counter in step, and
  frees the space that is asked for or everything.
\<close>

lemma evictOldest_spec:
  assumes order: "enumerates order s" and fin: "finite (present s)"
  obtains R where "R \<subseteq> present s"
    "\<And>p. lookupEntry (evictOldest order needed s) p = (if p \<in> R then None else lookupEntry s p)"
    "currentSize (evictOldest order needed s) = currentSize s - (\<Sum>p \<in> R. entrySize s p)"
    "(\<Sum>p \<in> R. entrySize s p) \<ge> needed \<or> R = present s"
    "\<And>ns. entries (evictOldest order needed s) ns = None \<longleftrightarrow> entries s ns = None"
    "\<And>p q e f. p \<in> R \<Longrightarrow> q \<notin> R \<Longrightarrow> lookupEntry s p = Some e \<Longrightarrow> lookupEntry s q = Some f \<Longrightarrow>
       mExpiresAt e \<le> mExpiresAt f"
proof -
  let ?es = "exchangeSort (entryInfos s order)"
  have d0: "describes (entryInfos s order) s" "infoId ` set (entryInfos s order) = present s"
    using entryInfos_describes [of order s] order by (auto simp: enumerates_def)
  have d: "describes ?es s" by (rule describes_mset [OF exchangeSort_mset d0(1)])
  have all: "infoId ` set ?es = present s" using d0(2) by (metis exchangeSort_mset mset_eq_setD)
  obtain n where n: "n \<le> length ?es"
    "\<forall>p. lookupEntry (evictLoop needed 0 ?es s) p = (if p \<in> infoId ` set (take n ?es) then None else lookupEntry s p)"
    "currentSize (evictLoop needed 0 ?es s) = currentSize s - sum_list (map iSize (take n ?es))"
    "sum_list (map iSize (take n ?es)) \<ge> needed \<or> n = length ?es"
    "\<forall>ns. entries (evictLoop needed 0 ?es s) ns = None \<longleftrightarrow> entries s ns = None"
    using evictLoop_prefix [OF d, of needed 0] by auto
  let ?R = "infoId ` set (take n ?es)"
  have dist: "distinct (map infoId (take n ?es))"
    using d by (metis describes_def distinct_take take_map)
  have sub: "?R \<subseteq> present s" using all set_take_subset [of n ?es] by blast
  have "sum_list (map iSize (take n ?es)) = sum_list (map (entrySize s \<circ> infoId) (take n ?es))"
    using d by (intro arg_cong [of _ _ sum_list] map_cong refl)
      (auto simp: describes_def entrySize_def dest!: in_set_takeD split: option.splits)
  also have "\<dots> = (\<Sum>p \<in> ?R. entrySize s p)"
    using sum.distinct_set_conv_list [OF dist, of "entrySize s"] by (simp add: comp_def)
  finally have sum: "sum_list (map iSize (take n ?es)) = (\<Sum>p \<in> ?R. entrySize s p)" .
  have exp: "mExpiresAt e \<le> mExpiresAt f"
    if a: "p \<in> ?R" "q \<notin> ?R" "lookupEntry s p = Some e" "lookupEntry s q = Some f" for p q e f
  proof -
    have "sorted (map iExpiresAt (take n ?es) @ map iExpiresAt (drop n ?es))"
      using exchangeSort_sorted [of "entryInfos s order"] by (metis append_take_drop_id map_append)
    then have le: "\<forall>x \<in> set (take n ?es). \<forall>y \<in> set (drop n ?es). iExpiresAt x \<le> iExpiresAt y"
      by (auto simp: sorted_append)
    have "q \<in> infoId ` set ?es" using a(4) all by (auto simp: present_def)
    then have "q \<in> infoId ` set (drop n ?es)" using a(2)
      by (metis (no_types, lifting) Un_iff append_take_drop_id image_Un set_append)
    then obtain x y where "x \<in> set (take n ?es)" "p = infoId x" "y \<in> set (drop n ?es)" "q = infoId y"
      using a(1) by blast
    moreover from this have "iExpiresAt x = mExpiresAt e" "iExpiresAt y = mExpiresAt f"
      using d a(3,4) by (force simp: describes_def dest: in_set_takeD in_set_dropD)+
    ultimately show ?thesis using le by force
  qed
  show ?thesis
    using that [of ?R] sub n sum exp all by (auto simp: evictOldest_def)
qed

section \<open>Commit\<close>

definition memLimit :: "memView \<Rightarrow> int" where
  "memLimit v = LimitMB (mConfig v) * 1024 * 1024"

text \<open>The iteration order is an enumeration of the entries, whichever it is.\<close>

definition order_ok :: "(memStore \<Rightarrow> (Namespace \<times> Key) list) \<Rightarrow> memStore \<Rightarrow> bool" where
  "order_ok order s \<longleftrightarrow> (\<forall>t. (\<forall>p. lookupEntry t p = lookupEntry s p) \<longrightarrow> enumerates (order t) t)"

lemma MemWriterClose_commit:
  assumes w: "\<not> mwClosed w" "mwCtxErr w = []" "mOpen v" and ord: "order_ok order s" and fin: "finite (present s)"
  obtains R w' s' where "MemWriterClose order v w s = (Ret [], w', s')" "R \<subseteq> present s"
    "\<And>p. lookupEntry s' p =
       (if p = (mwNamespace w, mwKey w)
        then Some \<lparr>mData = mwBuf w, mExpiresAt = mwExpiresAt w, mHeaders = mwHeaders w\<rparr>
        else if p \<in> R then None else lookupEntry s p)"
    "currentSize s' = currentSize s - (\<Sum>p \<in> R. entrySize s p)
       - entrySize s (mwNamespace w, mwKey w) + int (length (mwBuf w))"
    "0 < memLimit v \<Longrightarrow>
       (\<Sum>p \<in> R. entrySize s p) \<ge> currentSize s - entrySize s (mwNamespace w, mwKey w) + int (length (mwBuf w)) - memLimit v
       \<or> R = present s"
    "\<And>p q e f. p \<in> R \<Longrightarrow> q \<notin> R \<Longrightarrow> lookupEntry s p = Some e \<Longrightarrow> lookupEntry s q = Some f \<Longrightarrow>
       mExpiresAt e \<le> mExpiresAt f"
    "memLimit v \<le> 0 \<or> currentSize s - entrySize s (mwNamespace w, mwKey w) + int (length (mwBuf w)) \<le> memLimit v \<Longrightarrow> R = {}"
proof -
  let ?ns = "mwNamespace w" and ?q = "(mwNamespace w, mwKey w)"
  let ?s1 = "case entries s ?ns of None \<Rightarrow> s\<lparr>entries := (entries s)(?ns \<mapsto> Map.empty)\<rparr> | Some _ \<Rightarrow> s"
  let ?need = "currentSize s - entrySize s ?q + int (length (mwBuf w)) - memLimit v"
  have l1: "lookupEntry ?s1 p = lookupEntry s p" for p
    by (cases p) (auto simp: lookupEntry_def split: option.splits)
  have c1: "currentSize ?s1 = currentSize s" by (simp split: option.splits)
  have e1: "entries ?s1 ?ns \<noteq> None" by (simp split: option.splits)
  have fin1: "finite (present ?s1)" "present ?s1 = present s" using fin by (simp_all add: present_def l1)
  have es1: "entrySize ?s1 p = entrySize s p" for p by (simp add: entrySize_def l1)
  have en: "enumerates (order ?s1) ?s1" using ord l1 by (simp add: order_ok_def)
  define s2 where "s2 = (if 0 < memLimit v \<and> 0 < ?need then evictOldest (order ?s1) ?need ?s1 else ?s1)"
  obtain R where R: "R \<subseteq> present s"
    "\<And>p. lookupEntry s2 p = (if p \<in> R then None else lookupEntry s p)"
    "currentSize s2 = currentSize s - (\<Sum>p \<in> R. entrySize s p)"
    "0 < memLimit v \<Longrightarrow> (\<Sum>p \<in> R. entrySize s p) \<ge> ?need \<or> R = present s" "entries s2 ?ns \<noteq> None"
    "\<And>p q e f. p \<in> R \<Longrightarrow> q \<notin> R \<Longrightarrow> lookupEntry s p = Some e \<Longrightarrow> lookupEntry s q = Some f \<Longrightarrow>
       mExpiresAt e \<le> mExpiresAt f"
    "memLimit v \<le> 0 \<or> ?need \<le> 0 \<Longrightarrow> R = {}"
  proof (cases "0 < memLimit v \<and> 0 < ?need")
    case True
    then have s2: "s2 = evictOldest (order ?s1) ?need ?s1" unfolding s2_def by (rule if_P)
    show ?thesis
    proof (rule evictOldest_spec [OF en fin1(1), of ?need], goal_cases)
      case (1 R)
      show ?case
        by (rule that [of R]) (use 1 True e1 in \<open>simp_all add: s2 l1 c1 es1 fin1(2)\<close>)
    qed
  next
    case False
    then have "s2 = ?s1" unfolding s2_def by (rule if_not_P)
    then show ?thesis using that [of "{}"] l1 c1 e1 False by auto
  qed
  let ?new = "\<lparr>mData = mwBuf w, mExpiresAt = mwExpiresAt w, mHeaders = mwHeaders w\<rparr>"
  let ?m = "case entries s2 ?ns of None \<Rightarrow> Map.empty | Some m \<Rightarrow> m"
  let ?s' = "s2\<lparr>currentSize := currentSize s2 - entrySize s ?q + int (length (mwBuf w)),
                entries := (entries s2)(?ns \<mapsto> ?m(mwKey w \<mapsto> ?new))\<rparr>"
  have old: "(case lookupEntry ?s1 ?q of None \<Rightarrow> 0 | Some old \<Rightarrow> int (length (mData old))) = entrySize s ?q"
    by (simp add: l1 entrySize_def)
  have run: "MemWriterClose order v w s = (Ret [], w\<lparr>mwClosed := True, mwBuf := []\<rparr>, ?s')"
    using w unfolding MemWriterClose_def Let_def old c1 s2_def memLimit_def by simp
  have lk: "lookupEntry ?s' p = (if p = ?q then Some ?new else lookupEntry s2 p)" for p
    using R(5) by (cases p) (auto simp: lookupEntry_def split: option.splits)
  show ?thesis
  proof (rule that [OF run R(1)], goal_cases)
    case (1 p) show ?case by (simp only: lk R(2))
  next
    case 2 show ?case by (simp add: R(3))
  next
    case 3 then show ?case using R(4) by simp
  next
    case 4 then show ?case using R(6) by blast
  next
    case 5 then show ?case using R(7) by auto
  qed
qed

lemma entrySize_nonneg [simp]: "0 \<le> entrySize s p"
  by (simp add: entrySize_def split: option.splits)

lemma sum_entrySize_nonneg: "0 \<le> (\<Sum>p \<in> R. entrySize s p)"
  by (simp add: sum_nonneg)

text \<open>What a commit does to the bytes held and to the counter, in terms of the evicted entries.\<close>

lemma commit_sizes:
  assumes ok: "mem_ok s" and R: "R \<subseteq> present s"
    and lk: "\<And>p. lookupEntry s' p = (if p = q then Some e else if p \<in> R then None else lookupEntry s p)"
    and cur: "currentSize s' = currentSize s - (\<Sum>p \<in> R. entrySize s p) - entrySize s q + int (length (mData e))"
  shows "finite (present s')"
    and "heldBytes s' = heldBytes s - (\<Sum>p \<in> R. entrySize s p) - (if q \<in> R then 0 else entrySize s q) + int (length (mData e))"
    and "currentSize s' = heldBytes s' - (if q \<in> R then entrySize s q else 0)"
proof -
  define t where "t = \<lparr>entries = (\<lambda>ns. Some (\<lambda>k. if (ns, k) \<in> R then None else lookupEntry s (ns, k))), currentSize = 0\<rparr>"
  have lt: "lookupEntry t p = (if p \<in> R then None else lookupEntry s p)" for p
    by (simp add: t_def lookupEntry_def [of "\<lparr>entries = _, currentSize = _\<rparr>"])
  have fin: "finite (present s)" using ok by (simp add: mem_ok_def)
  note ht = heldBytes_restrict [OF fin lt R]
  have lk': "lookupEntry s' p = (if p = q then Some e else lookupEntry t p)" for p
    by (simp only: lk lt)
  have fint: "finite (present t)" using ht(2) fin by simp
  note hs = heldBytes_update [OF fint lk']
  have "entrySize t q = (if q \<in> R then 0 else entrySize s q)" by (simp add: entrySize_def lt)
  then show held: "heldBytes s' = heldBytes s - (\<Sum>p \<in> R. entrySize s p) - (if q \<in> R then 0 else entrySize s q) + int (length (mData e))"
    using ht(1) hs(1) by simp
  show "finite (present s')" using hs(2) fint by simp
  show "currentSize s' = heldBytes s' - (if q \<in> R then entrySize s q else 0)"
    using held cur ok by (simp add: mem_ok_def)
qed

section \<open>Properties\<close>

text \<open>
  The size counter of the memory cache.  Starting from a counter that equals the bytes held, the
  commit of a writer leaves the counter equal to the bytes held, except when it replaces an entry and
  has to evict: then the counter may be too small by the size of the replaced entry, because that
  entry can itself be evicted and is subtracted a second time.
\<close>

lemma memory_counter:
  assumes "mem_ok s" "order_ok order s" "\<not> mwClosed w" "mwCtxErr w = []" "mOpen v"
    and "MemWriterClose order v w s = (r, w', s')"
  shows "r = Ret [] \<and> finite (present s') \<and>
     (currentSize s' = heldBytes s' \<or>
      0 < memLimit v \<and> lookupEntry s (mwNamespace w, mwKey w) \<noteq> None \<and>
      memLimit v < currentSize s - entrySize s (mwNamespace w, mwKey w) + int (length (mwBuf w)) \<and>
      currentSize s' = heldBytes s' - entrySize s (mwNamespace w, mwKey w))"
proof -
  let ?q = "(mwNamespace w, mwKey w)"
  have fin: "finite (present s)" using assms(1) by (simp add: mem_ok_def)
  show ?thesis
  proof (rule MemWriterClose_commit [OF assms(3-5,2) fin], goal_cases)
    case (1 R w1 s1)
    then have eq: "r = Ret []" "s' = s1" using assms(6) by auto
    have "currentSize s1 = currentSize s - (\<Sum>p \<in> R. entrySize s p) - entrySize s ?q
        + int (length (mData \<lparr>mData = mwBuf w, mExpiresAt = mwExpiresAt w, mHeaders = mwHeaders w\<rparr>))"
      using 1(4) by simp
    note sz = commit_sizes [OF assms(1) 1(2,3) this]
    have "?q \<in> R \<Longrightarrow> \<not> (memLimit v \<le> 0 \<or>
        currentSize s - entrySize s ?q + int (length (mwBuf w)) \<le> memLimit v)" using 1(7) by blast
    moreover have "?q \<in> R \<Longrightarrow> lookupEntry s ?q \<noteq> None" using 1(2) by (auto simp: present_def)
    ultimately show ?case
      using sz(1,3) eq by (cases "?q \<in> R") (simp_all add: not_le)
  qed
qed

text \<open>
  The size limit of the memory cache.  After a commit from an exact counter, the counter is at
  most the limit (or the size of the new object alone, when that is larger), and the bytes really
  held exceed this bound by at most the size of the replaced entry.
\<close>

lemma memory_limit:
  assumes "mem_ok s" "order_ok order s" "\<not> mwClosed w" "mwCtxErr w = []" "mOpen v" "0 < memLimit v"
    and "MemWriterClose order v w s = (r, w', s')"
  shows "currentSize s' \<le> max (memLimit v) (int (length (mwBuf w))) \<and>
     heldBytes s' \<le> max (memLimit v) (int (length (mwBuf w))) + entrySize s (mwNamespace w, mwKey w)"
proof -
  let ?q = "(mwNamespace w, mwKey w)"
  have fin: "finite (present s)" using assms(1) by (simp add: mem_ok_def)
  show ?thesis
  proof (rule MemWriterClose_commit [OF assms(3-5,2) fin], goal_cases)
    case (1 R w1 s1)
    then have eq: "s' = s1" using assms(7) by auto
    have "currentSize s1 = currentSize s - (\<Sum>p \<in> R. entrySize s p) - entrySize s ?q
        + int (length (mData \<lparr>mData = mwBuf w, mExpiresAt = mwExpiresAt w, mHeaders = mwHeaders w\<rparr>))"
      using 1(4) by simp
    note sz = commit_sizes [OF assms(1) 1(2,3) this]
    have "R = present s \<Longrightarrow> currentSize s = (\<Sum>p \<in> R. entrySize s p)"
      using assms(1) by (simp add: mem_ok_def heldBytes_def)
    then have "currentSize s1 \<le> max (memLimit v) (int (length (mwBuf w)))"
      using 1(4) 1(5) [OF assms(6)] entrySize_nonneg [of s ?q] by linarith
    moreover have "heldBytes s1 \<le> currentSize s1 + entrySize s ?q"
      using sz(3) entrySize_nonneg [of s ?q] by (cases "?q \<in> R") simp_all
    ultimately show ?case unfolding eq by linarith
  qed
qed

text \<open>
  Eviction takes the entries that expire first.  Whatever the iteration order of the maps, an entry
  removed by \<^verbatim>\<open>evictOldest\<close> expires no later than any entry it leaves, the counter is lowered by
  exactly the sizes removed, and enough space is freed or nothing is left.
\<close>

lemma evict_earliest:
  assumes "enumerates order s" "mem_ok s"
  shows "(\<forall>p q e f. lookupEntry s p = Some e \<longrightarrow> lookupEntry (evictOldest order needed s) p = None \<longrightarrow>
            lookupEntry (evictOldest order needed s) q = Some f \<longrightarrow> mExpiresAt e \<le> mExpiresAt f) \<and>
         mem_ok (evictOldest order needed s) \<and>
         (heldBytes (evictOldest order needed s) \<le> heldBytes s - needed \<or> present (evictOldest order needed s) = {})"
proof -
  have fin: "finite (present s)" using assms(2) by (simp add: mem_ok_def)
  show ?thesis
  proof (rule evictOldest_spec [OF assms(1) fin, of needed], goal_cases)
    case (1 R)
    note h = heldBytes_restrict [OF fin 1(2,1)]
    have "\<forall>p q e f. lookupEntry s p = Some e \<longrightarrow> lookupEntry (evictOldest order needed s) p = None \<longrightarrow>
            lookupEntry (evictOldest order needed s) q = Some f \<longrightarrow> mExpiresAt e \<le> mExpiresAt f"
      using 1(2,6) by (metis option.distinct(1))
    moreover have "mem_ok (evictOldest order needed s)"
      using h 1(3) assms(2) fin by (simp add: mem_ok_def)
    moreover have "heldBytes (evictOldest order needed s) \<le> heldBytes s - needed \<or> present (evictOldest order needed s) = {}"
      using h 1(4) by auto
    ultimately show ?case by blast
  qed
qed

text \<open>
  A store with two entries, used by the concrete instances below: the entry of the key \<open>[1]\<close>, which
  expires first, and the entry of the key \<open>[2]\<close>.
\<close>

definition twoEntries :: "nat \<Rightarrow> nat \<Rightarrow> memStore" where
  "twoEntries m n =
     \<lparr>entries = [''ns'' \<mapsto> [[1] \<mapsto> \<lparr>mData = replicate m 0, mExpiresAt = 10, mHeaders = Map.empty\<rparr>,
                            [2] \<mapsto> \<lparr>mData = replicate n 0, mExpiresAt = 20, mHeaders = Map.empty\<rparr>]],
      currentSize = int m + int n\<rparr>"

definition twoView :: memView where
  "twoView = \<lparr>mConfig = \<lparr>LimitMB = 1, MaxTTL = 100\<rparr>, mNamespace = ''ns'', mOpen = True\<rparr>"

definition twoWriter :: "nat \<Rightarrow> memoryWriter" where
  "twoWriter n = \<lparr>mwNamespace = ''ns'', mwKey = [1], mwBuf = replicate n 0, mwExpiresAt = 30,
     mwHeaders = Map.empty, mwClosed = False, mwCtxErr = []\<rparr>"

definition twoOrder :: "memStore \<Rightarrow> (Namespace \<times> Key) list" where
  "twoOrder s = [(''ns'', [2]), (''ns'', [1])]"

lemma twoEntries_lookup:
  "lookupEntry (twoEntries m n) p =
     (if p = (''ns'', [1]) then Some \<lparr>mData = replicate m 0, mExpiresAt = 10, mHeaders = Map.empty\<rparr>
      else if p = (''ns'', [2]) then Some \<lparr>mData = replicate n 0, mExpiresAt = 20, mHeaders = Map.empty\<rparr>
      else None)"
  by (cases p) (auto simp: lookupEntry_def twoEntries_def)

lemma twoEntries_present: "present (twoEntries m n) = {(''ns'', [1]), (''ns'', [2])}"
  by (auto simp: present_def twoEntries_lookup)

lemma twoEntries_ok: "mem_ok (twoEntries m n)" "order_ok twoOrder (twoEntries m n)"
  "enumerates (twoOrder s) (twoEntries m n)"
proof -
  show "mem_ok (twoEntries m n)"
    by (simp add: mem_ok_def heldBytes_def twoEntries_present entrySize_def twoEntries_lookup)
       (simp add: twoEntries_def)
  have "enumerates (twoOrder t) t'" if "\<forall>p. lookupEntry t' p = lookupEntry (twoEntries m n) p" for t t'
  proof -
    have "present t' = present (twoEntries m n)" using that unfolding present_def by metis
    then have "present t' = {(''ns'', [1]), (''ns'', [2])}" by (simp add: twoEntries_present)
    then show ?thesis by (auto simp: enumerates_def twoOrder_def)
  qed
  then show "order_ok twoOrder (twoEntries m n)" "enumerates (twoOrder s) (twoEntries m n)"
    by (auto simp: order_ok_def)
qed

lemma twoWriter_run: "\<exists>w' s'. MemWriterClose twoOrder twoView (twoWriter k) (twoEntries m n) = (Ret [], w', s')"
  by (rule MemWriterClose_commit [of "twoWriter k" twoView twoOrder "twoEntries m n"])
     (auto simp: twoEntries_ok twoEntries_present twoWriter_def twoView_def)

lemma memory_counter_witness:
  "\<exists>w' s'. MemWriterClose twoOrder twoView (twoWriter 3) (twoEntries 2 2) = (Ret [], w', s') \<and>
     currentSize s' = heldBytes s'"
proof -
  obtain w' s' where r: "MemWriterClose twoOrder twoView (twoWriter 3) (twoEntries 2 2) = (Ret [], w', s')"
    using twoWriter_run by blast
  have "\<not> memLimit twoView < currentSize (twoEntries 2 2) - entrySize (twoEntries 2 2) (''ns'', [1]) + 3"
    by (simp add: memLimit_def twoView_def entrySize_def twoEntries_lookup) (simp add: twoEntries_def)
  then have "currentSize s' = heldBytes s'"
    using memory_counter [OF twoEntries_ok(1,2) _ _ _ r] by (simp add: twoWriter_def twoView_def)
  with r show ?thesis by blast
qed

lemma memory_limit_witness:
  "\<exists>w' s'. MemWriterClose twoOrder twoView (twoWriter 3) (twoEntries 2 2) = (Ret [], w', s') \<and>
     currentSize s' \<le> 1048576 \<and> heldBytes s' \<le> 1048578"
proof -
  obtain w' s' where r: "MemWriterClose twoOrder twoView (twoWriter 3) (twoEntries 2 2) = (Ret [], w', s')"
    using twoWriter_run by blast
  have "currentSize s' \<le> max (memLimit twoView) 3 \<and>
      heldBytes s' \<le> max (memLimit twoView) 3 + entrySize (twoEntries 2 2) (''ns'', [1])"
    using memory_limit [OF twoEntries_ok(1,2) _ _ _ _ r] by (simp add: twoWriter_def twoView_def memLimit_def)
  then show ?thesis
    using r by (intro exI [of _ w'] exI [of _ s']) (simp add: memLimit_def twoView_def entrySize_def twoEntries_lookup)
qed

lemma evict_earliest_witness:
  "enumerates [(''ns'', [2]), (''ns'', [1])] (twoEntries 4 7) \<and> mem_ok (twoEntries 4 7) \<and>
   mem_ok (evictOldest [(''ns'', [2]), (''ns'', [1])] 3 (twoEntries 4 7))"
proof -
  have e: "enumerates [(''ns'', [2]), (''ns'', [1])] (twoEntries 4 7)"
    using twoEntries_ok(3) [of "twoEntries 4 7" 4 7] by (simp add: twoOrder_def)
  show ?thesis using evict_earliest [OF e twoEntries_ok(1), of 3] e twoEntries_ok(1) by blast
qed

lemma twoEntries_evict:
  assumes "0 < needed" "needed \<le> int m"
  shows "evictOldest (twoOrder t) needed (twoEntries m n) =
     removeEntry (twoEntries m n\<lparr>currentSize := int n\<rparr>) ''ns'' [1]"
proof -
  have "exchangeSort (entryInfos (twoEntries m n) (twoOrder t)) =
     [\<lparr>iNamespace = ''ns'', iKey = [1], iSize = int m, iExpiresAt = 10\<rparr>,
      \<lparr>iNamespace = ''ns'', iKey = [2], iSize = int n, iExpiresAt = 20\<rparr>]"
    by (simp add: twoOrder_def twoEntries_lookup)
  then show ?thesis
    using assms by (simp add: evictOldest_def) (simp add: twoEntries_def)
qed

lemma twoEntries_drift:
  assumes "1048576 < int n + int k" "int n + int k \<le> 1048576 + int m"
  shows "\<exists>w' s'. MemWriterClose twoOrder twoView (twoWriter k) (twoEntries m n) = (Ret [], w', s') \<and>
     heldBytes s' = int n + int k \<and> currentSize s' = int n + int k - int m"
proof -
  let ?s2 = "removeEntry (twoEntries m n\<lparr>currentSize := int n\<rparr>) ''ns'' [1]"
  let ?e = "\<lparr>mData = replicate k 0, mExpiresAt = 30, mHeaders = Map.empty\<rparr>"
  have ex: "entries (twoEntries m n) ''ns'' = Some [[1] \<mapsto> \<lparr>mData = replicate m 0, mExpiresAt = 10, mHeaders = Map.empty\<rparr>,
       [2] \<mapsto> \<lparr>mData = replicate n 0, mExpiresAt = 20, mHeaders = Map.empty\<rparr>]"
    and cur: "currentSize (twoEntries m n) = int m + int n" by (simp_all add: twoEntries_def)
  have ev: "evictOldest (twoOrder t) (int n + int k - 1048576) (twoEntries m n) = ?s2" for t
    using assms by (intro twoEntries_evict) auto
  have need: "int m + int n - int m + int k - 1048576 = int n + int k - 1048576" by simp
  have run: "\<exists>w' s'. MemWriterClose twoOrder twoView (twoWriter k) (twoEntries m n) = (Ret [], w', s') \<and>
      (\<forall>p. lookupEntry s' p = (if p = (''ns'', [1]) then Some ?e else lookupEntry ?s2 p)) \<and>
      currentSize s' = int n + int k - int m"
    using assms ex
    by (simp add: MemWriterClose_def twoWriter_def twoView_def twoEntries_lookup cur Let_def ev)
       (auto simp: lookupEntry_def removeEntry_def)
  then obtain w' s' where r: "MemWriterClose twoOrder twoView (twoWriter k) (twoEntries m n) = (Ret [], w', s')"
    "\<And>p. lookupEntry s' p = (if p = (''ns'', [1]) then Some ?e else lookupEntry ?s2 p)"
    "currentSize s' = int n + int k - int m" by blast
  have lk2: "lookupEntry ?s2 p = (if p \<in> {(''ns'', [1])} then None else lookupEntry (twoEntries m n) p)" for p
    by (simp add: lookup_removeEntry)
  have fin: "finite (present (twoEntries m n))" by (simp add: twoEntries_present)
  have h2: "heldBytes ?s2 = int n" "present ?s2 = {(''ns'', [2])}"
    using heldBytes_restrict [OF fin lk2] twoEntries_ok(1) [of m n] cur
    by (auto simp: mem_ok_def twoEntries_present entrySize_def twoEntries_lookup)
  have "finite (present ?s2)" by (simp add: h2(2))
  from heldBytes_update(1) [OF this r(2)] have "heldBytes s' = int n + int k"
    by (simp add: h2(1) entrySize_def lookup_removeEntry)
  with r show ?thesis by blast
qed

text \<open>
  The limit of the memory cache is exceeded.  With a limit of one megabyte, a cache that holds
  600000 and 400000 bytes and is counted exactly, replacing the first object by one of 700000 bytes
  evicts that object first and then subtracts it again: the cache ends up holding 1100000 bytes while
  its counter says 500000.
\<close>

lemma memory_limit_exceeded:
  "\<exists>w' s'. MemWriterClose twoOrder twoView (twoWriter 700000) (twoEntries 600000 400000) = (Ret [], w', s') \<and>
     memLimit twoView = 1048576 \<and> heldBytes s' = 1100000 \<and> currentSize s' = 500000"
  using twoEntries_drift [of 400000 700000 600000] by (simp add: memLimit_def twoView_def)

section \<open>The contract of the interface\<close>

text \<open>
  The memory cache as a backend: a view of the namespace \<open>ns\<close> with its store, clock, next UUID and
  iteration order.
\<close>

record memTier =
  tOpen :: bool
  tStore :: memStore
  tNow :: time
  tUuid :: string
  tOrder :: "memStore \<Rightarrow> (Namespace \<times> Key) list"

definition tierView :: "MemoryConfig \<Rightarrow> Namespace \<Rightarrow> memTier \<Rightarrow> memView" where
  "tierView config ns c = \<lparr>mConfig = config, mNamespace = ns, mOpen = tOpen c\<rparr>"

definition memoryOps :: "(time \<Rightarrow> string) \<Rightarrow> MemoryConfig \<Rightarrow> Namespace \<Rightarrow> (memTier, memoryWriter) cacheOps" where
  "memoryOps httpTime config ns =
     \<lparr>cStat = (\<lambda>c key opts. (MemStat (tierView config ns c) (tStore c) (tNow c) key opts, c)),
      cOpen = (\<lambda>c key opts. (MemOpen (tierView config ns c) (tStore c) (tNow c) key opts, c)),
      cCreate = (\<lambda>c ctxErr key h ttl opts.
        (MemCreate httpTime (tUuid c) (tierView config ns c) (tNow c) ctxErr key h ttl opts, c)),
      cDelete = (\<lambda>c key. case MemDelete (tierView config ns c) (tStore c) key of (e, s) \<Rightarrow> (e, c\<lparr>tStore := s\<rparr>)),
      cInvalidate = (\<lambda>c key. case MemInvalidate (tierView config ns c) (tStore c) key of (e, s) \<Rightarrow> (e, c\<lparr>tStore := s\<rparr>)),
      cStats = (\<lambda>c. MemStats (tierView config ns c) (tStore c) (tOrder c (tStore c))),
      cListNamespaces = (\<lambda>c. MemListNamespaces (tierView config ns c) (tStore c)
        (remdups (map fst (tOrder c (tStore c))))),
      cClose = (\<lambda>c. case MemClose (tierView config ns c) of (e, v) \<Rightarrow> (e, c\<lparr>tOpen := mOpen v\<rparr>)),
      wWrite = MemWrite,
      wCancel = MemCancel,
      wClose = (\<lambda>w c. case MemWriterClose (tOrder c) (tierView config ns c) w (tStore c) of
        (r, w', s) \<Rightarrow> (r, w', c\<lparr>tStore := s\<rparr>))\<rparr>"

definition memObj :: "MemoryConfig \<Rightarrow> Namespace \<Rightarrow> memTier \<Rightarrow> Key \<Rightarrow> (bytes \<times> header) option" where
  "memObj config ns c key =
     map_option (\<lambda>e. (mData e, mHeaders e)) (memFind (tierView config ns c) (tStore c) (tNow c) key)"

definition memPend :: "Namespace \<Rightarrow> memoryWriter \<Rightarrow> (Key \<times> bytes \<times> string) option" where
  "memPend ns w =
     (if mwClosed w \<or> mwCtxErr w \<noteq> [] \<or> mwNamespace w \<noteq> ns then None
      else Some (mwKey w, mwBuf w, hGet (mwHeaders w) ETagKey))"

lemma memFind_lookup:
  "memFind v s now key =
     (if \<not> mOpen v then None else case lookupEntry s (mNamespace v, key) of
        None \<Rightarrow> None | Some e \<Rightarrow> if now > mExpiresAt e then None else Some e)"
  by (simp add: memFind_def lookupEntry_def split: option.splits)

lemma MemStat_spec: "MemStat v s now key opts = statSpec (map_option (\<lambda>e. (mData e, mHeaders e)) (memFind v s now key)) opts"
  by (simp add: MemStat_def statSpec_def Let_def split: option.splits)

lemma MemOpen_spec: "MemOpen v s now key opts = openSpec (map_option (\<lambda>e. (mData e, mHeaders e)) (memFind v s now key)) opts"
  by (simp add: MemOpen_def openSpec_def Let_def split: option.splits)

lemma lookup_MemDelete:
  "MemDelete v s key = (e, s') \<Longrightarrow>
     (\<forall>p. lookupEntry s' p = (if mOpen v \<and> p = (mNamespace v, key) then None else lookupEntry s p)) \<and>
     (e = [] \<or> e = [ErrNotExist])"
  by (auto simp: MemDelete_def lookup_removeEntry split: if_splits option.splits) (auto simp: lookupEntry_def)

lemma evictLoop_forgets: "lookupEntry (evictLoop needed freed es s) p = lookupEntry s p \<or> lookupEntry (evictLoop needed freed es s) p = None"
  by (induction needed freed es s rule: evictLoop.induct) (auto simp: lookup_removeEntry split: if_splits)

lemma evictLoop_ns: "entries (evictLoop needed freed es s) n = None \<longleftrightarrow> entries s n = None"
  by (induction needed freed es s rule: evictLoop.induct) (auto simp: entries_removeEntry)

lemma MemWriterClose_live:
  assumes "\<not> mwClosed w" "mwCtxErr w = []" "mOpen v"
  shows "MemWriterClose order v w s =
     (let s1 = (case entries s (mwNamespace w) of
                  None \<Rightarrow> s\<lparr>entries := (entries s)(mwNamespace w \<mapsto> Map.empty)\<rparr> | Some _ \<Rightarrow> s);
          old = (case lookupEntry s1 (mwNamespace w, mwKey w) of
                   None \<Rightarrow> 0 | Some old \<Rightarrow> int (length (mData old)));
          need = currentSize s1 - old + int (length (mwBuf w)) - LimitMB (mConfig v) * 1024 * 1024;
          s2 = (if LimitMB (mConfig v) * 1024 * 1024 > 0 \<and> need > 0 then evictOldest (order s1) need s1 else s1)
      in (Ret [], w\<lparr>mwClosed := True, mwBuf := []\<rparr>,
          s2\<lparr>currentSize := currentSize s2 - old + int (length (mwBuf w)),
             entries := (entries s2)(mwNamespace w \<mapsto> (case entries s2 (mwNamespace w) of None \<Rightarrow> Map.empty | Some m \<Rightarrow> m)
               (mwKey w \<mapsto> \<lparr>mData = mwBuf w, mExpiresAt = mwExpiresAt w, mHeaders = mwHeaders w\<rparr>))\<rparr>))"
  using assms by (simp only: MemWriterClose_def Let_def not_True_eq_False if_False not_False_eq_True if_True simp_thms)

lemma MemWriterClose_skip:
  "mwClosed w \<or> mwCtxErr w \<noteq> [] \<or> \<not> mOpen v \<Longrightarrow> MemWriterClose order v w s =
     (if mwClosed w then (Ret [], w, s)
      else if mwCtxErr w \<noteq> [] then (Ret (mwCtxErr w), w\<lparr>mwClosed := True\<rparr>, s)
      else (Panic, w\<lparr>mwClosed := True\<rparr>, s))"
  by (auto simp: MemWriterClose_def Let_def)

text \<open>A commit forgets entries or stores the new one, for any iteration order whatsoever.\<close>

lemma MemWriterClose_lookup:
  assumes "MemWriterClose order v w s = (r, w', s')"
  shows "(r = Ret [] \<and> \<not> mwClosed w \<and> mwCtxErr w = [] \<and> mOpen v \<and>
      (\<forall>p. if p = (mwNamespace w, mwKey w)
           then lookupEntry s' p = Some \<lparr>mData = mwBuf w, mExpiresAt = mwExpiresAt w, mHeaders = mwHeaders w\<rparr>
           else lookupEntry s' p = lookupEntry s p \<or> lookupEntry s' p = None))
    \<or> (s' = s \<and> (mwClosed w \<or> mwCtxErr w \<noteq> [] \<or> r = Panic))"
proof (cases "mwClosed w \<or> mwCtxErr w \<noteq> [] \<or> \<not> mOpen v")
  case True
  then show ?thesis using assms by (auto simp: MemWriterClose_skip split: if_splits)
next
  case False
  then have live: "\<not> mwClosed w" "mwCtxErr w = []" "mOpen v" by auto
  let ?ns = "mwNamespace w"
  let ?s1 = "case entries s ?ns of None \<Rightarrow> s\<lparr>entries := (entries s)(?ns \<mapsto> Map.empty)\<rparr> | Some _ \<Rightarrow> s"
  have l1: "lookupEntry ?s1 p = lookupEntry s p" for p
    by (cases p) (auto simp: lookupEntry_def split: option.splits)
  have e1: "entries ?s1 ?ns \<noteq> None" by (simp split: option.splits)
  obtain s2 old where s2: "s2 = ?s1 \<or> (\<exists>n. s2 = evictOldest (order ?s1) n ?s1)"
    and s': "r = Ret []" "s' = s2\<lparr>currentSize := currentSize s2 - old + int (length (mwBuf w)),
       entries := (entries s2)(?ns \<mapsto> (case entries s2 ?ns of None \<Rightarrow> Map.empty | Some m \<Rightarrow> m)
         (mwKey w \<mapsto> \<lparr>mData = mwBuf w, mExpiresAt = mwExpiresAt w, mHeaders = mwHeaders w\<rparr>))\<rparr>"
  proof -
    let ?q = "(?ns, mwKey w)"
    let ?old = "case lookupEntry ?s1 ?q of None \<Rightarrow> 0 | Some old \<Rightarrow> int (length (mData old))"
    let ?lim = "LimitMB (mConfig v) * 1024 * 1024"
    let ?need = "currentSize ?s1 - ?old + int (length (mwBuf w)) - ?lim"
    let ?s2 = "if 0 < ?lim \<and> 0 < ?need then evictOldest (order ?s1) ?need ?s1 else ?s1"
    show ?thesis
    proof (rule that [of ?s2 ?old], goal_cases)
      case 1
      have "(if P then a else b) = b \<or> (\<exists>n. (if P then a else b) = evictOldest (order ?s1) n ?s1)"
        if "a = evictOldest (order ?s1) ?need ?s1" for P and a b :: memStore
        using that by (cases P) auto
      then show ?case by blast
    next
      case 2
      show ?case using assms unfolding MemWriterClose_live [OF live] Let_def by (simp only: prod.inject)
    next
      case 3
      show ?case using assms unfolding MemWriterClose_live [OF live] Let_def by (simp only: prod.inject)
    qed
  qed
  have l2: "lookupEntry s2 p = lookupEntry s p \<or> lookupEntry s2 p = None" for p
  proof -
    have "lookupEntry s2 p = lookupEntry ?s1 p \<or> lookupEntry s2 p = None"
      using s2 by (elim disjE exE) (simp_all add: evictOldest_def evictLoop_forgets)
    then show ?thesis by (simp only: l1)
  qed
  have e2: "entries s2 ?ns \<noteq> None"
    using s2 e1 by (elim disjE exE) (simp_all add: evictOldest_def evictLoop_ns)
  have "lookupEntry s' p = (if p = (?ns, mwKey w)
      then Some \<lparr>mData = mwBuf w, mExpiresAt = mwExpiresAt w, mHeaders = mwHeaders w\<rparr> else lookupEntry s2 p)" for p
    using e2 by (cases p) (auto simp: s'(2) lookupEntry_def split: option.splits)
  then show ?thesis using s'(1) False l2 by auto
qed

lemma MemCreate_writer:
  assumes "MemCreate httpTime uuid v now ctxErr key h ttl opts = Inr w"
  shows "mwNamespace w = mNamespace v \<and> mwKey w = key \<and> mwBuf w = [] \<and> \<not> mwClosed w \<and> mwCtxErr w = ctxErr \<and>
     mwExpiresAt w = now + (if ttl = 0 then MaxTTL (mConfig v) else ttl) \<and>
     FormatETag (if oETagSet (NewRequestOptions opts) then oETag (NewRequestOptions opts) else uuid) =
       (hGet (mwHeaders w) ETagKey, [])"
  using assms
  by (auto simp: MemCreate_def Let_def setCreateETag_def createETag_def hGet_hSet split: prod.splits if_splits)

lemma memObj_cong:
  "tOpen c' = tOpen c \<Longrightarrow> tNow c' = tNow c \<Longrightarrow> lookupEntry (tStore c') (ns, key) = lookupEntry (tStore c) (ns, key) \<Longrightarrow>
   memObj config ns c' key = memObj config ns c key"
  by (simp add: memObj_def memFind_lookup tierView_def)

lemma memObj_None: "lookupEntry (tStore c) (ns, key) = None \<Longrightarrow> memObj config ns c key = None"
  by (simp add: memObj_def memFind_lookup tierView_def)

lemma memObj_closed: "\<not> tOpen c \<Longrightarrow> memObj config ns c key = None"
  by (simp add: memObj_def memFind_lookup tierView_def)

lemma memObj_forget:
  "lookupEntry s (ns, k) = lookupEntry (tStore c) (ns, k) \<or> lookupEntry s (ns, k) = None \<Longrightarrow>
   memObj config ns (c\<lparr>tStore := s\<rparr>) k = memObj config ns c k \<or> memObj config ns (c\<lparr>tStore := s\<rparr>) k = None"
  using memObj_cong [of "c\<lparr>tStore := s\<rparr>" c ns k config] memObj_None [of "c\<lparr>tStore := s\<rparr>" ns k config] by auto

lemma memory_delete_law:
  assumes "MemDelete (tierView config ns c) (tStore c) key = (e, s)"
  shows "forgets (memObj config ns) c (c\<lparr>tStore := s\<rparr>) {} \<and> memObj config ns (c\<lparr>tStore := s\<rparr>) key = None \<and>
    (e = [] \<or> e = [ErrNotExist])"
proof -
  note l = lookup_MemDelete [OF assms]
  have "memObj config ns (c\<lparr>tStore := s\<rparr>) k = memObj config ns c k \<or> memObj config ns (c\<lparr>tStore := s\<rparr>) k = None" for k
    using l by (intro memObj_forget) metis
  moreover have "memObj config ns (c\<lparr>tStore := s\<rparr>) key = None"
    using l memObj_None [of "c\<lparr>tStore := s\<rparr>" ns key config] memObj_closed [of "c\<lparr>tStore := s\<rparr>" config ns key]
    by (cases "tOpen c") (auto simp: tierView_def)
  ultimately show ?thesis using l by (simp add: forgets_def)
qed

lemma memory_close_law:
  assumes "MemWriterClose (tOrder c) (tierView config ns c) w (tStore c) = (r, w', s)"
  shows "memPend ns w = None \<Longrightarrow> forgets (memObj config ns) c (c\<lparr>tStore := s\<rparr>) {}"
    and "memPend ns w = Some (key, d, q) \<Longrightarrow> forgets (memObj config ns) c (c\<lparr>tStore := s\<rparr>) {key} \<and>
      (memObj config ns (c\<lparr>tStore := s\<rparr>) key = None \<or>
       memObj config ns (c\<lparr>tStore := s\<rparr>) key = memObj config ns c key \<and> r \<noteq> Ret [] \<or>
       (\<exists>h. memObj config ns (c\<lparr>tStore := s\<rparr>) key = Some (d, h) \<and> hGet h ETagKey = q))"
proof -
  let ?c = "c\<lparr>tStore := s\<rparr>"
  note cases = MemWriterClose_lookup [OF assms]
  have other: "memObj config ns ?c k = memObj config ns c k \<or> memObj config ns ?c k = None"
    if "lookupEntry s (ns, k) = lookupEntry (tStore c) (ns, k) \<or> lookupEntry s (ns, k) = None" for k
    using that by (rule memObj_forget)
  show "forgets (memObj config ns) c ?c {}" if "memPend ns w = None"
  proof -
    have "lookupEntry s (ns, k) = lookupEntry (tStore c) (ns, k) \<or> lookupEntry s (ns, k) = None" for k
      using that cases unfolding memPend_def by (metis option.distinct(1) prod.inject)
    then show ?thesis using other by (simp add: forgets_def)
  qed
  assume p: "memPend ns w = Some (key, d, q)"
  then have w: "mwKey w = key" "mwBuf w = d" "hGet (mwHeaders w) ETagKey = q" "mwNamespace w = ns"
    "\<not> mwClosed w" "mwCtxErr w = []" by (auto simp: memPend_def split: if_splits)
  show "forgets (memObj config ns) c ?c {key} \<and>
      (memObj config ns ?c key = None \<or> memObj config ns ?c key = memObj config ns c key \<and> r \<noteq> Ret [] \<or>
       (\<exists>h. memObj config ns ?c key = Some (d, h) \<and> hGet h ETagKey = q))"
    using cases
  proof
    assume "s = tStore c \<and> (mwClosed w \<or> mwCtxErr w \<noteq> [] \<or> r = Panic)"
    then show ?thesis using w by (auto simp: forgets_def)
  next
    assume a: "r = Ret [] \<and> \<not> mwClosed w \<and> mwCtxErr w = [] \<and> mOpen (tierView config ns c) \<and>
      (\<forall>p. if p = (mwNamespace w, mwKey w)
           then lookupEntry s p = Some \<lparr>mData = mwBuf w, mExpiresAt = mwExpiresAt w, mHeaders = mwHeaders w\<rparr>
           else lookupEntry s p = lookupEntry (tStore c) p \<or> lookupEntry s p = None)"
    then have "lookupEntry s (ns, key) = Some \<lparr>mData = d, mExpiresAt = mwExpiresAt w, mHeaders = mwHeaders w\<rparr>"
      using w by auto
    then have "memObj config ns ?c key = None \<or> memObj config ns ?c key = Some (d, mwHeaders w)"
      by (simp add: memObj_def memFind_lookup tierView_def)
    moreover have "forgets (memObj config ns) c ?c {key}"
      using a w other by (auto simp: forgets_def split: if_splits)
    ultimately show ?thesis using w(3) by blast
  qed
qed

text \<open>The memory cache satisfies the contract, for every configuration and namespace.\<close>

interpretation mem: cache_backend "memoryOps httpTime config ns" "memObj config ns" "memPend ns"
  for httpTime config ns
proof (unfold_locales, goal_cases)
  case (1 c key opts h e c')
  then show ?case by (auto simp: memoryOps_def MemStat_spec memObj_def)
next
  case (2 c key opts b h e c')
  then show ?case by (auto simp: memoryOps_def MemOpen_spec memObj_def)
next
  case (3 c key e c')
  obtain e0 s where d: "MemDelete (tierView config ns c) (tStore c) key = (e0, s)" by (metis prod.exhaust)
  show ?case using 3 d memory_delete_law [OF d] by (auto simp: memoryOps_def MemInvalidate_def split: if_splits)
next
  case (4 c key e c')
  obtain e0 s where d: "MemDelete (tierView config ns c) (tStore c) key = (e0, s)" by (metis prod.exhaust)
  show ?case using 4 d memory_delete_law [OF d] by (auto simp: memoryOps_def)
next
  case (5 c ctxErr key h ttl opts r c')
  then have "e \<noteq> []" if "r = Inl e" for e
    using that by (auto simp: memoryOps_def MemCreate_def Let_def split: prod.splits if_splits)
  moreover have "if ctxErr = [] then \<exists>q. memPend ns w = Some (key, [], q) else memPend ns w = None" if "r = Inr w" for w
    using MemCreate_writer [of httpTime "tUuid c" "tierView config ns c" "tNow c" ctxErr key h ttl opts w] that 5
    by (auto simp: memoryOps_def memPend_def tierView_def)
  ultimately show ?case using 5 by (auto simp: memoryOps_def)
next
  case (6 c key h ttl raw w c' q)
  then have cr: "MemCreate httpTime (tUuid c) (tierView config ns c) (tNow c) [] key h ttl [WithETag raw] = Inr w"
    by (auto simp: memoryOps_def)
  show ?case using MemCreate_writer [OF cr] 6(2) by (auto simp: memPend_def tierView_def go_simps)
next
  case (7 w p n w')
  then show ?case by (auto simp: memoryOps_def MemWrite_def memPend_def split: if_splits)
next
  case (8 w p n e w')
  then show ?case by (auto simp: memoryOps_def MemWrite_def memPend_def split: if_splits)
next
  case (9 w)
  then show ?case by (auto simp: memoryOps_def MemCancel_def memPend_def)
next
  case (10 w c res w' c')
  obtain s where "MemWriterClose (tOrder c) (tierView config ns c) w (tStore c) = (res, w', s)" "c' = c\<lparr>tStore := s\<rparr>"
    using 10(1) by (auto simp: memoryOps_def split: prod.splits)
  with memory_close_law(1) [OF this(1) 10(2)] show ?case by simp
next
  case (11 w c res w' c' key d q)
  obtain s where "MemWriterClose (tOrder c) (tierView config ns c) w (tStore c) = (res, w', s)" "c' = c\<lparr>tStore := s\<rparr>"
    using 11(1) by (auto simp: memoryOps_def split: prod.splits)
  with memory_close_law(2) [OF this(1) 11(2)] show ?case by simp
qed

section \<open>Writing and reading back\<close>

lemma memoryOps_write [simp]: "wWrite (memoryOps httpTime config ns) = MemWrite"
  by (simp add: memoryOps_def)

lemma writeBlocks_memory:
  "writeBlocks (memoryOps httpTime config ns) w blocks = (e, w') \<Longrightarrow> \<not> mwClosed w \<Longrightarrow>
   e = [] \<and> w' = w\<lparr>mwBuf := mwBuf w @ concat blocks\<rparr>"
proof (induction blocks arbitrary: w)
  case (Cons b bs)
  then show ?case using Cons.IH [of "w\<lparr>mwBuf := mwBuf w @ b\<rparr>"] by (simp add: MemWrite_def)
qed simp

text \<open>
  What is written is what is read.  After \<^verbatim>\<open>Create\<close>, any sequence of writes and \<^verbatim>\<open>Close\<close>, an \<^verbatim>\<open>Open\<close> of
  the key until the entry expires returns exactly the bytes written, with the ETag of the writer and
  their length, and a range inside the object returns exactly its window; this holds whatever was
  evicted to make room and in whatever order.
\<close>

lemma memory_roundtrip:
  assumes "MemCreate httpTime uuid v now [] key h ttl opts = Inr w" "mOpen v"
    and "writeBlocks (memoryOps httpTime config ns) w blocks = (e, w1)"
    and "MemWriterClose order v w1 s = (r, w2, s')"
    and "now' \<le> now + (if ttl = 0 then MaxTTL (mConfig v) else ttl)"
    and "0 \<le> start" "start < stop" "stop \<le> int (length (concat blocks))" "in_int64 stop"
  shows "e = [] \<and> r = Ret [] \<and>
     (\<exists>h'. MemOpen v s' now' key [] = (bytesReader (concat blocks), h', []) \<and>
        hGet h' ETagKey = hGet (mwHeaders w) ETagKey \<and>
        hGet h' ''Content-Length'' = FormatInt (int (length (concat blocks)))) \<and>
     (\<exists>h'. MemOpen v s' now' key [RangeOpt start stop] =
        (bytesReader (take (nat (stop - start)) (drop (nat start) (concat blocks))), h', []))"
proof -
  note w = MemCreate_writer [OF assms(1)]
  have w1: "e = []" "w1 = w\<lparr>mwBuf := concat blocks\<rparr>"
    using writeBlocks_memory [OF assms(3)] w by auto
  let ?en = "\<lparr>mData = concat blocks, mExpiresAt = mwExpiresAt w, mHeaders = mwHeaders w\<rparr>"
  have live: "\<not> mwClosed w1" "mwCtxErr w1 = []" using w w1 by auto
  have "r = Ret []"
    using assms(4) unfolding MemWriterClose_live [OF live assms(2)] Let_def by (simp only: prod.inject)
  moreover from this live have "lookupEntry s' (mNamespace v, key) = Some ?en"
    using MemWriterClose_lookup [OF assms(4)] w w1(2) by auto
  ultimately have "r = Ret [] \<and> lookupEntry s' (mNamespace v, key) = Some ?en" by simp
  then have r: "r = Ret []" "memFind v s' now' key = Some ?en"
    using assms(2,5) w by (auto simp: memFind_lookup)
  have int64: "in_int64 start" using assms(6,7,9) by (simp add: in_int64_def)
  have full: "\<exists>h'. MemOpen v s' now' key [] = (bytesReader (concat blocks), h', []) \<and>
        hGet h' ETagKey = hGet (mwHeaders w) ETagKey \<and>
        hGet h' ''Content-Length'' = FormatInt (int (length (concat blocks)))"
    using r(2) by (simp add: MemOpen_def Let_def conditionalShortCircuit_def errIs_def rangeShortCircuit_def
        ResolveRange_def hGet_hSet hGet_hDel)
  have ne: "formatByteRange start stop \<noteq> []" by (simp add: formatByteRange_def)
  have "resolveByteRange (formatByteRange start stop) (int (length (concat blocks))) = (start, stop - start, RangePartial)"
    using resolveByteRange_formatByteRange [OF assms(6) int64 assms(9)] assms(6-8) by simp
  then have "\<exists>h'. MemOpen v s' now' key [RangeOpt start stop] =
        (bytesReader (take (nat (stop - start)) (drop (nat start) (concat blocks))), h', [])"
    using r(2) ne by (simp add: MemOpen_def Let_def conditionalShortCircuit_def errIs_def rangeShortCircuit_def
        ResolveRange_def IfRangeMisses_def go_simps Check_def)
  with full r(1) w1(1) show ?thesis by blast
qed

lemma memory_roundtrip_witness:
  "\<exists>w1 w2 s'.
     writeBlocks (memoryOps (\<lambda>_. ''now'') \<lparr>LimitMB = 1, MaxTTL = 100\<rparr> ''ns'')
       \<lparr>mwNamespace = ''ns'', mwKey = [5], mwBuf = [], mwExpiresAt = 101,
        mwHeaders = [''Etag'' \<mapsto> [[CHR 0x22, CHR ''a'', CHR 0x22]], ''Last-Modified'' \<mapsto> [''now'']],
        mwClosed = False, mwCtxErr = []\<rparr> [[7], [8, 9]] = ([], w1) \<and>
     MemWriterClose twoOrder twoView w1 (twoEntries 1 1) = (Ret [], w2, s') \<and>
     (\<exists>h. MemOpen twoView s' 50 [5] [RangeOpt 1 3] = (bytesReader [8, 9], h, []))"
proof -
  let ?w = "\<lparr>mwNamespace = ''ns'', mwKey = [5], mwBuf = [], mwExpiresAt = 101,
        mwHeaders = [''Etag'' \<mapsto> [[CHR 0x22, CHR ''a'', CHR 0x22]], ''Last-Modified'' \<mapsto> [''now'']],
        mwClosed = False, mwCtxErr = []\<rparr> :: memoryWriter"
  let ?ops = "memoryOps (\<lambda>_. ''now'') \<lparr>LimitMB = 1, MaxTTL = 100\<rparr> ''ns''"
  have fe: "FormatETag ''a'' = ([CHR 0x22, CHR ''a'', CHR 0x22], [])"
    by (simp add: FormatETag_def ValidateRawETag_def isRawETagChar_def less_eq_char_def)
  have cr: "MemCreate (\<lambda>_. ''now'') ''u'' twoView 1 [] [5] Map.empty 0 [WithETag ''a''] = Inr ?w"
    by (simp add: MemCreate_def Let_def setCreateETag_def createETag_def go_simps fe hSet_def hGet_def
        FilterHeaders_def twoView_def fun_upd_twist)
  obtain e w1 where wb: "writeBlocks ?ops ?w [[7], [8, 9]] = (e, w1)" by (metis prod.exhaust)
  obtain r w2 s' where cl: "MemWriterClose twoOrder twoView w1 (twoEntries 1 1) = (r, w2, s')" by (metis prod.exhaust)
  have "e = [] \<and> r = Ret [] \<and> (\<exists>h. MemOpen twoView s' 50 [5] [RangeOpt 1 3] =
      (bytesReader (take (nat (3 - 1)) (drop (nat 1) (concat [[7], [8, 9]]))), h, []))"
    using memory_roundtrip [OF cr _ wb cl, of 50 1 3] by (simp add: twoView_def in_int64_def)
  then show ?thesis using wb cl by auto
qed

text \<open>
  An aborted or cancelled write has no effect.  \<^verbatim>\<open>Abort\<close> leaves the store exactly as it was,
  and so does \<^verbatim>\<open>Close\<close> on a writer that was closed before or whose context is cancelled.
\<close>

lemma memory_abort_discards:
  "(case MemAbort order v w s of (r, w', s') \<Rightarrow> s' = s \<and> (if mwClosed w then r = Ret [] else r \<noteq> Ret [])) \<and>
   (case MemWriterClose order v w s of (r, w', s') \<Rightarrow> if mwClosed w then s' = s else if mwCtxErr w = [] then True else s' = s)"
proof -
  have "mwCtxErr (MemCancel w) \<noteq> []" "mwClosed (MemCancel w) = mwClosed w" by (auto simp: MemCancel_def)
  then show ?thesis
    using MemWriterClose_lookup [of order v w s]
    by (auto simp: MemAbort_def MemWriterClose_skip split: prod.splits)
qed

end
