(* ===== verification/MemoryDownload.thy ===== *)
theory MemoryDownload
  imports Memory
begin

text \<open>
  \<^verbatim>\<open>ParallelGet\<close> from a memory cache into a file (\<^verbatim>\<open>client/parallel_get.go\<close> over
  \<^verbatim>\<open>internal/cache/memory.go\<close>), the instance of the two interfaces of \<open>ParallelGet\<close>.  The cache may be
  modified between any two requests: request \<open>i\<close> sees the snapshot \<open>hist i\<close>.  A history is admissible
  when an ETag names one content, as it does for the ETags that \<^verbatim>\<open>createETag\<close> makes.
\<close>

section \<open>Model\<close>

text \<open>A file written with \<^verbatim>\<open>WriteAt\<close>: the bytes written so far, at their offsets.\<close>

definition fileWriteAt :: "(nat \<rightharpoonup> byte) writer" where
  "fileWriteAt d p off = ((length p, []), patch d off p)"

definition memReader :: "memView \<Rightarrow> (nat \<Rightarrow> memStore \<times> time) \<Rightarrow> nat opener" where
  "memReader v hist i key opts = (MemOpen v (fst (hist i)) (snd (hist i)) key opts, Suc i)"

definition entryIn :: "memView \<Rightarrow> (nat \<Rightarrow> memStore \<times> time) \<Rightarrow> Key \<Rightarrow> memoryEntry \<Rightarrow> bool" where
  "entryIn v hist key e \<longleftrightarrow> (\<exists>i. memFind v (fst (hist i)) (snd (hist i)) key = Some e)"

text \<open>Lengths are \<^verbatim>\<open>int\<close> values, and a strong ETag names one content of a key.\<close>

definition historyOk :: "memView \<Rightarrow> (nat \<Rightarrow> memStore \<times> time) \<Rightarrow> Key \<Rightarrow> bool" where
  "historyOk v hist key \<longleftrightarrow>
     (\<forall>e. entryIn v hist key e \<longrightarrow> in_int64 (int (length (mData e)))) \<and>
     (\<forall>e f. entryIn v hist key e \<longrightarrow> entryIn v hist key f \<longrightarrow>
        hGet (mHeaders e) ETagKey = hGet (mHeaders f) ETagKey \<longrightarrow> hGet (mHeaders e) ETagKey \<noteq> '''' \<longrightarrow>
        mData e = mData f)"

typedef memHistory = "{(v, hist, key). historyOk v hist key}"
proof -
  have "historyOk v (\<lambda>_. (\<lparr>entries = Map.empty, currentSize = 0\<rparr>, 0)) key" for v key
    by (simp add: historyOk_def entryIn_def memFind_def)
  then show ?thesis by blast
qed

definition hView :: "memHistory \<Rightarrow> memView" where "hView H = fst (Rep_memHistory H)"
definition hSnap :: "memHistory \<Rightarrow> nat \<Rightarrow> memStore \<times> time" where "hSnap H = fst (snd (Rep_memHistory H))"
definition hKey :: "memHistory \<Rightarrow> Key" where "hKey H = snd (snd (Rep_memHistory H))"

definition histObj :: "memHistory \<Rightarrow> string \<Rightarrow> bytes option" where
  "histObj H etag =
     (if \<exists>e. entryIn (hView H) (hSnap H) (hKey H) e \<and> hGet (mHeaders e) ETagKey = etag
      then Some (THE d. \<exists>e. entryIn (hView H) (hSnap H) (hKey H) e \<and> hGet (mHeaders e) ETagKey = etag \<and> mData e = d)
      else None)"

definition histVers :: "memHistory \<Rightarrow> bytes set" where
  "histVers H = {mData e | e. entryIn (hView H) (hSnap H) (hKey H) e}"

section \<open>The interfaces hold\<close>

lemma hist_ok: "historyOk (hView H) (hSnap H) (hKey H)"
  using Rep_memHistory [of H] by (auto simp: hView_def hSnap_def hKey_def)

lemma hist_ex: "historyOk v hist key \<Longrightarrow> \<exists>H. hView H = v \<and> hSnap H = hist \<and> hKey H = key"
  using Abs_memHistory_inverse [of "(v, hist, key)"]
  by (intro exI [of _ "Abs_memHistory (v, hist, key)"]) (simp add: hView_def hSnap_def hKey_def)

lemma histObj_Some:
  assumes "entryIn (hView H) (hSnap H) (hKey H) e" "hGet (mHeaders e) ETagKey \<noteq> ''''"
  shows "histObj H (hGet (mHeaders e) ETagKey) = Some (mData e)"
proof -
  let ?P = "\<lambda>d. \<exists>f. entryIn (hView H) (hSnap H) (hKey H) f \<and> hGet (mHeaders f) ETagKey = hGet (mHeaders e) ETagKey \<and> mData f = d"
  have uniq: "d = mData e" if "?P d" for d
    using that assms hist_ok [of H] unfolding historyOk_def by metis
  have "(THE d. ?P d) = mData e"
    by (rule the_equality) (use assms(1) uniq in blast)+
  then show ?thesis using assms(1) by (auto simp: histObj_def)
qed

text \<open>A response of the memory cache comes from one entry of the history.\<close>

lemma memReader_open:
  assumes "memReader v hist c key opts = ((b, h, e), c')" "e \<noteq> [ErrNotExist]"
  obtains en where "entryIn v hist key en" "openSpec (Some (mData en, mHeaders en)) opts = (b, h, e)"
  using assms
  by (cases "memFind v (fst (hist c)) (snd (hist c)) key")
     (auto simp: memReader_def MemOpen_spec entryIn_def openSpec_def [of None])

lemma content_range_start:
  assumes "HasPrefix (''bytes '' @ FormatInt s @ ''-'' @ rest) (''bytes '' @ FormatInt start @ ''-'')"
    "0 \<le> s" "0 \<le> start"
  shows "s = start"
proof -
  obtain r where "FormatInt s @ ''-'' @ rest = FormatInt start @ ''-'' @ r"
    using assms(1) by (auto simp: HasPrefix_iff)
  then have "Cut (CHR ''-'') (FormatInt s @ CHR ''-'' # rest) = Cut (CHR ''-'') (FormatInt start @ CHR ''-'' # r)"
    by simp
  then have "FormatInt s = FormatInt start"
    using FormatInt_no_dash assms(2,3) by simp
  then show ?thesis using FormatInt_nonneg_inject assms(2,3) by simp
qed

lemma content_range_total:
  assumes "0 \<le> s" "0 \<le> t" "0 \<le> sz" "in_int64 sz"
  shows "parseContentRangeTotal (''bytes '' @ FormatInt s @ ''-'' @ FormatInt t @ ''/'' @ FormatInt sz) = Some sz"
proof -
  have "CHR ''/'' \<notin> set (FormatInt i)" if "0 \<le> i" for i
    using FormatInt_nonneg_digits [OF that] by (fastforce simp: is_digit_def)
  then have "Cut (CHR ''/'') ((''bytes '' @ FormatInt s @ ''-'' @ FormatInt t) @ CHR ''/'' # FormatInt sz)
      = Some (''bytes '' @ FormatInt s @ ''-'' @ FormatInt t, FormatInt sz)"
    using assms by (intro Cut_append) simp
  then show ?thesis using assms by (simp add: parseContentRangeTotal_def ParseInt_FormatInt)
qed

lemma resolve_from_zero:
  assumes "ResolveRange (NewRequestOptions [RangeOpt 0 cs]) sz etag = (start, len, outc)" "0 \<le> sz"
  shows "outc = RangePartial \<Longrightarrow> start = 0" "outc = RangeNotSatisfiable \<Longrightarrow> sz = 0"
proof -
  let ?e = "if cs < 0 then [] else FormatInt (cs - 1)"
  have ne: "formatByteRange 0 cs \<noteq> []" by (simp add: formatByteRange_def)
  then have r: "resolveByteRange (formatByteRange 0 cs) sz = (start, len, outc)"
    using assms(1) by (simp add: ResolveRange_def IfRangeMisses_def go_simps)
  have "formatByteRange 0 cs = ''bytes='' @ FormatInt 0 @ ''-'' @ ?e" by (simp add: formatByteRange_def)
  moreover have "\<forall>c \<in> set ?e. not_space c \<and> c \<noteq> CHR '',''" by (auto dest: FormatInt_not_space)
  ultimately have "resolveByteRange (formatByteRange 0 cs) sz =
     (if 0 \<ge> sz then (0, sz, RangeNotSatisfiable)
      else if ?e = '''' then (0, sz - 0, RangePartial)
      else case ParseInt ?e of
          None \<Rightarrow> (0, sz, RangeFull)
        | Some stop \<Rightarrow> if stop < 0 then (0, sz, RangeFull)
            else (0, (if stop \<ge> sz then sz - 1 else stop) - 0 + 1, RangePartial))"
    using resolveByteRange_dash [of 0 ?e sz] by (simp add: in_int64_def)
  with r assms(2) show "outc = RangePartial \<Longrightarrow> start = 0" "outc = RangeNotSatisfiable \<Longrightarrow> sz = 0"
    by (auto split: if_splits option.splits)
qed

interpretation osfile: writer_at fileWriteAt "\<lambda>d. d"
  by unfold_locales (auto simp: fileWriteAt_def)

text \<open>The memory cache is a reader whose responses are pinned to versions.\<close>

interpretation memdl: pinned_download fileWriteAt "\<lambda>d. d" "memReader (hView H) (hSnap H)" "hKey H" "histObj H" "histVers H"
  for H
proof (unfold_locales, goal_cases)
  case (1 c opts b h c' etag start)
  then obtain en where en: "entryIn (hView H) (hSnap H) (hKey H) en" "openSpec (Some (mData en, mHeaders en)) opts = (b, h, [])"
    by (auto elim: memReader_open)
  from en(2) show ?case
  proof (cases rule: openSpec_Some)
    case full
    then show ?thesis using 1(5) by (auto simp: HasPrefix_iff)
  next
    case (part s l)
    have "s = start" using content_range_start [OF 1(5) [unfolded part(3)] part(7) 1(4)] .
    then have "drop (nat start) (mData en) = concat (bBlocks b) @ drop (nat l) (drop (nat start) (mData en))"
      using part(2) append_take_drop_id [of "nat l" "drop (nat start) (mData en)"]
      by (simp add: bytesReader_def del: append_take_drop_id drop_drop)
    then show ?thesis using histObj_Some [OF en(1)] part(4) 1(2,3) by auto
  qed (auto)
next
  case (2 c cs b h c' tot)
  then obtain en where en: "entryIn (hView H) (hSnap H) (hKey H) en"
    "openSpec (Some (mData en, mHeaders en)) [RangeOpt 0 cs] = (b, h, [])"
    by (auto elim: memReader_open)
  have len: "in_int64 (int (length (mData en)))" using hist_ok [of H] en(1) by (auto simp: historyOk_def)
  from en(2) show ?case
  proof (cases rule: openSpec_Some)
    case full
    then show ?thesis using 2(2) by (simp add: parseContentRangeTotal_def)
  next
    case (part s l)
    have "s = 0" using resolve_from_zero(1) [OF part(6)] by simp
    then have "mData en = concat (bBlocks b) @ drop (nat l) (mData en)" using part(2) by (simp add: bytesReader_def)
    moreover have "int (length (mData en)) = tot"
      using 2(2) part(3,7,8) content_range_total [of s "s + l - 1" "int (length (mData en))"] len by simp
    ultimately show ?thesis using en(1) histObj_Some [OF en(1)] part(4) by (auto simp: histVers_def)
  qed (auto)
next
  case (3 c cs b h c')
  then obtain en where en: "entryIn (hView H) (hSnap H) (hKey H) en"
    "openSpec (Some (mData en, mHeaders en)) [RangeOpt 0 cs] = (b, h, [])"
    by (auto elim: memReader_open)
  have len: "in_int64 (int (length (mData en)))" using hist_ok [of H] en(1) by (auto simp: historyOk_def)
  from en(2) show ?case
  proof (cases rule: openSpec_Some)
    case full
    then show ?thesis using en(1) by (auto simp: histVers_def bytesReader_def)
  next
    case (part s l)
    then show ?thesis using 3(2) content_range_total [of s "s + l - 1" "int (length (mData en))"] len by simp
  qed (auto)
next
  case (4 c b h c')
  then obtain en where en: "entryIn (hView H) (hSnap H) (hKey H) en"
    "openSpec (Some (mData en, mHeaders en)) [] = (b, h, [])"
    by (auto elim: memReader_open)
  from en(2) show ?case
    by (cases rule: openSpec_Some) (use en(1) in \<open>auto simp: histVers_def bytesReader_def ResolveRange_def\<close>)
next
  case (5 c cs b h e c')
  then have "e \<noteq> [ErrNotExist]" by (auto simp: errIs_def)
  then obtain en where en: "entryIn (hView H) (hSnap H) (hKey H) en"
    "openSpec (Some (mData en, mHeaders en)) [RangeOpt 0 cs] = (b, h, e)"
    using 5(1) by (auto elim: memReader_open)
  from en(2) show ?case
  proof (cases rule: openSpec_Some)
    case unsat
    then have "[] = mData en" using resolve_from_zero(2) [OF unsat(4)] by simp
    then show ?thesis using en(1) unfolding histVers_def by blast
  next
    case cond
    then show ?thesis using 5(2) Check_cases [of "NewRequestOptions [RangeOpt 0 cs]" "hGet (mHeaders en) ETagKey"]
      by (auto simp: errIs_def)
  qed (use 5(2) in \<open>auto simp: errIs_def\<close>)
qed

section \<open>Success on an unchanging object\<close>

lemma writeChunkAt_file:
  assumes "p \<noteq> []"
  shows "writeChunkAt fileWriteAt d off (int (length p)) (bytesReader p) = ((int (length p), []), patch d (nat off) p)"
proof -
  have "ioCopy fileWriteAt d (nat off) (Some (length p)) [p] [] 0 = ((length p, [], False, []), patch d (nat off) p)"
    using assms by (simp add: ioCopy.simps [of _ _ _ _ "[p]"] Let_def fileWriteAt_def)
  then show ?thesis by (simp add: writeChunkAt_def bytesReader_def overlong_def)
qed

lemma check_own_etag:
  assumes "FormatETag raw = (etag, [])"
  shows "Check (NewRequestOptions [RangeOpt start stop, IfMatch etag]) etag = []"
proof -
  have v: "ValidateRawETag raw = []" "etag = CHR 0x22 # raw @ [CHR 0x22]" using assms by (auto simp: FormatETag_ok)
  then have "etagListMatches (etagHeader [raw]) etag" using etagListMatches_etagHeader [of "[raw]" raw] by simp
  then show ?thesis using v by (simp add: Check_def go_simps)
qed

text \<open>The answer of a store with the entry \<open>en\<close> to the requests of a download.\<close>

lemma openSpec_chunk:
  assumes "0 \<le> start" "start < stop" "stop \<le> int (length d)" "in_int64 (int (length d))"
    "Check (NewRequestOptions opts) (hGet h ETagKey) = []" "oRange (NewRequestOptions opts) = formatByteRange start stop"
    "oIfRange (NewRequestOptions opts) = ''''"
  obtains hr where "openSpec (Some (d, h)) opts = (bytesReader (take (nat (stop - start)) (drop (nat start) d)), hr, [])"
    "hGet hr ETagKey = hGet h ETagKey"
    "hGet hr ''Content-Range'' =
       ''bytes '' @ FormatInt start @ ''-'' @ FormatInt (stop - 1) @ ''/'' @ FormatInt (int (length d))"
proof -
  obtain b hr e where o: "openSpec (Some (d, h)) opts = (b, hr, e)" by (metis prod.exhaust)
  have "in_int64 start" "in_int64 stop" using assms(1-4) by (auto simp: in_int64_def)
  then have r: "ResolveRange (NewRequestOptions opts) (int (length d)) (hGet h ETagKey) = (start, stop - start, RangePartial)"
    using resolveByteRange_formatByteRange [of start stop "int (length d)"] assms
    by (simp add: ResolveRange_def IfRangeMisses_def formatByteRange_def)
  from o show ?thesis
  proof (cases rule: openSpec_Some)
    case (part s l)
    then have "s = start" "l = stop - start" using r by auto
    then show ?thesis using that [of hr] part o by simp
  qed (use r assms(5) in auto)
qed

lemma fetchChunk_file:
  assumes en: "memFind v st now key = Some en" "hGet (mHeaders en) ETagKey = etag" "FormatETag raw = (etag, [])"
    "in_int64 (int (length (mData en)))"
    and rng: "0 \<le> start" "start < stop" "stop \<le> int (length (mData en))"
    and bd: "bd = None \<or> bd = Some (bytesReader (take (nat (stop - start)) (drop (nat start) (mData en))))"
  shows "fst (fetchChunk (memReader v (\<lambda>_. (st, now))) fileWriteAt live key etag start stop bd c d) = []"
proof -
  let ?op = "memReader v (\<lambda>_. (st, now))" and ?p = "take (nat (stop - start)) (drop (nat start) (mData en))"
  have "oRange (NewRequestOptions [RangeOpt start stop, IfMatch etag]) = formatByteRange start stop"
    "oIfRange (NewRequestOptions [RangeOpt start stop, IfMatch etag]) = ''''" by (simp_all add: go_simps)
  then obtain hr where o: "openSpec (Some (mData en, mHeaders en)) [RangeOpt start stop, IfMatch etag] = (bytesReader ?p, hr, [])"
    "hGet hr ETagKey = etag"
    "hGet hr ''Content-Range'' = ''bytes '' @ FormatInt start @ ''-'' @ FormatInt (stop - 1) @ ''/'' @ FormatInt (int (length (mData en)))"
    using openSpec_chunk [of start stop "mData en" "[RangeOpt start stop, IfMatch etag]" "mHeaders en"]
      rng en check_own_etag [OF en(3), of start stop] by metis
  have ch: "openChunk ?op key etag start stop c = (Inr (bytesReader ?p), Suc c)"
    using o en(1,2) by (simp add: openChunk_def openChunkLoop.simps [of ?op] memReader_def MemOpen_spec HasPrefix_iff errIs_def)
  have opened: "(case bd of Some b \<Rightarrow> (Inr b, c) | None \<Rightarrow> openChunk ?op key etag start stop c) =
      (Inr (bytesReader ?p), case bd of Some b \<Rightarrow> c | None \<Rightarrow> Suc c)"
    using bd ch by auto
  have len: "int (length ?p) = stop - start" using rng by auto
  have ne: "?p \<noteq> []"
  proof
    assume "?p = []"
    then have "int (length ?p) = 0" by (simp only: list.size of_nat_0)
    then show False using len rng by linarith
  qed
  have "writeChunkAt fileWriteAt d start (stop - start) (bytesReader ?p) = ((stop - start, []), patch d (nat start) ?p)"
    using writeChunkAt_file [OF ne, of d start] len by simp
  then show ?thesis
    unfolding fetchChunk_def by (subst fetchLoop.simps) (simp only: opened Let_def split_conv prod.case sum.case, simp)
qed

lemma runChunks_file:
  assumes "memFind v st now key = Some en" "hGet (mHeaders en) ETagKey = etag" "FormatETag raw = (etag, [])"
    "tot = int (length (mData en))" "0 < cs" "cs < tot" "in_int64 (tot + cs)" "\<forall>seq \<in> set order. seq < numChunks cs tot"
    "rc = bytesReader (take (nat cs) (mData en))"
  shows "fst (runChunks (memReader v (\<lambda>_. (st, now))) fileWriteAt live key etag cs tot rc order c d) = []"
  using assms(8)
proof (induction order arbitrary: c d)
  case (Cons seq seqs)
  have lt: "int seq * cs < tot" using Cons.prems numChunks_iff [of cs tot seq] assms(5,6) by auto
  have stop: "chunkStop cs tot seq = min (int seq * cs + cs) tot" by (rule chunkStop_eq [OF assms(5) lt assms(7)])
  have "in_int64 tot" using assms(5-7) by (simp add: in_int64_def)
  moreover have "seq = 0 \<Longrightarrow> rc = bytesReader (take (nat (chunkStop cs tot seq - int seq * cs)) (drop (nat (int seq * cs)) (mData en)))"
    using assms(5,6,9) stop by simp
  ultimately have f: "fst (fetchChunk (memReader v (\<lambda>_. (st, now))) fileWriteAt live key etag (int seq * cs) (chunkStop cs tot seq)
      (if seq = 0 then Some rc else None) c d) = []"
    using assms lt stop by (intro fetchChunk_file [OF assms(1-3)]) auto
  obtain c1 d1 where "fetchChunk (memReader v (\<lambda>_. (st, now))) fileWriteAt live key etag (int seq * cs) (chunkStop cs tot seq)
      (if seq = 0 then Some rc else None) c d = ([], c1, d1)" using f by (metis prod.collapse)
  then show ?case using Cons.IH [of c1 d1] Cons.prems by simp
qed simp

lemma download_one_version:
  assumes "historyOk v hist key" "\<And>n. set (order n) = {..<n}"
    and "\<And>e. entryIn v hist key e \<Longrightarrow> in_int64 (int (length (mData e)) + cs)"
    and "ParallelGet (memReader v hist) fileWriteAt live order key cs concurrency c Map.empty = ([], c', d')"
  shows "\<exists>e. entryIn v hist key e \<and> d' = (\<lambda>i. if i < length (mData e) then Some (mData e ! i) else None)"
proof -
  obtain H where H: "hView H = v" "hSnap H = hist" "hKey H = key" using hist_ex [OF assms(1)] by blast
  have "\<exists>content \<in> histVers H. d' = patch Map.empty 0 content"
    by (rule memdl.ParallelGet_stores [OF _ assms(2), of H live cs concurrency c Map.empty c' d'])
       (use assms(3,4) H in \<open>auto simp: histVers_def\<close>)
  then obtain e where "entryIn v hist key e" "d' = patch Map.empty 0 (mData e)"
    using H by (auto simp: histVers_def)
  then show ?thesis by (intro exI [of _ e]) (auto simp: patch_def)
qed

lemma download_succeeds:
  assumes "memFind v st now key = Some en" "FormatETag raw = (hGet (mHeaders en) ETagKey, [])"
    and "1 < concurrency" "validateParallelParams cs concurrency = []" "mData en \<noteq> []"
    and "in_int64 (int (length (mData en)) + cs)" "\<And>n. set (order n) = {..<n}"
  shows "\<exists>c'. ParallelGet (memReader v (\<lambda>_. (st, now))) fileWriteAt live order key cs concurrency c Map.empty =
     ([], c', \<lambda>i. if i < length (mData en) then Some (mData en ! i) else None)"
proof -
  let ?op = "memReader v (\<lambda>_. (st, now))" and ?d = "mData en" and ?etag = "hGet (mHeaders en) ETagKey"
  let ?tot = "int (length ?d)" and ?opts = "[RangeOpt 0 cs]"
  have cs: "0 < cs" using assms(4) by (auto simp: validateParallelParams_def split: if_splits)
  have len: "in_int64 ?tot" "0 < ?tot" using assms(5,6) cs by (auto simp: in_int64_def)
  have et: "?etag \<noteq> ''''" using assms(2) by (auto simp: FormatETag_ok)
  have opt: "oRange (NewRequestOptions ?opts) = formatByteRange 0 cs" "oIfRange (NewRequestOptions ?opts) = ''''"
    "Check (NewRequestOptions ?opts) ?etag = []" by (simp_all add: go_simps Check_def)
  have ir: "in_int64 0" "in_int64 cs" using assms(6) cs len by (auto simp: in_int64_def)
  have rr: "ResolveRange (NewRequestOptions ?opts) ?tot ?etag = (0, min cs ?tot, RangePartial)"
    using resolveByteRange_formatByteRange [OF _ ir, of ?tot] cs len opt
    by (simp add: ResolveRange_def IfRangeMisses_def formatByteRange_def)
  obtain b hr e where o: "openSpec (Some (?d, mHeaders en)) ?opts = (b, hr, e)" by (metis prod.exhaust)
  then have o': "e = []" "b = bytesReader (take (nat cs) ?d)" "hGet hr ETagKey = ?etag"
    "hGet hr ''Content-Range'' = ''bytes '' @ FormatInt 0 @ ''-'' @ FormatInt (min cs ?tot - 1) @ ''/'' @ FormatInt ?tot"
    by (cases rule: openSpec_Some; use rr opt(3) in \<open>simp add: min_def\<close>)+
  have tot: "parseContentRangeTotal (hGet hr ''Content-Range'') = Some ?tot"
    unfolding o'(4) using content_range_total [of 0 "min cs ?tot - 1" ?tot] cs len by simp
  have first: "openFirst ?op live key cs chunkResumeAttempts 0 c = ((b, hr, []), Suc c)"
    using assms(1) o o'(1) by (simp add: openFirst.simps [of ?op] memReader_def MemOpen_spec chunkResumeAttempts_def)
  have run: "fst (ParallelGet ?op fileWriteAt live order key cs concurrency c Map.empty) = []"
  proof (cases "?tot \<le> cs")
    case True
    then have "fst (fetchChunk ?op fileWriteAt live key ?etag 0 ?tot (Some b) (Suc c) Map.empty) = []"
      using o'(2) len by (intro fetchChunk_file [OF assms(1) refl assms(2)]) (auto simp: min_def)
    then show ?thesis
      using ParallelGet_multi [OF _ assms(4) first, of fileWriteAt order Map.empty] assms(3) True et o'(3) tot
      by (simp add: errIs_def)
  next
    case False
    then have "fst (runChunks ?op fileWriteAt live key ?etag cs ?tot b (order (numChunks cs ?tot)) (Suc c) Map.empty) = []"
      using assms(6,7) o'(2) cs by (intro runChunks_file [OF assms(1) refl assms(2) refl]) auto
    then show ?thesis
      using ParallelGet_multi [OF _ assms(4) first, of fileWriteAt order Map.empty] assms(3) False et o'(3) tot
      by (simp add: errIs_def)
  qed
  have find: "entryIn v (\<lambda>_. (st, now)) key f \<longleftrightarrow> f = en" for f using assms(1) by (auto simp: entryIn_def)
  have ok: "historyOk v (\<lambda>_. (st, now)) key" using find len by (auto simp: historyOk_def)
  obtain c' d' where pg: "ParallelGet ?op fileWriteAt live order key cs concurrency c Map.empty = ([], c', d')"
    using run by (metis prod.collapse)
  from download_one_version [OF ok assms(7) _ pg] find assms(6)
  have "d' = (\<lambda>i. if i < length ?d then Some (?d ! i) else None)" by auto
  with pg show ?thesis by blast
qed

text \<open>A store with one object, used by the concrete instances below.\<close>

definition oneStore :: memStore where
  "oneStore = \<lparr>entries = [''ns'' \<mapsto> [[1] \<mapsto> \<lparr>mData = [10, 11, 12, 13, 14], mExpiresAt = 10,
     mHeaders = [''Etag'' \<mapsto> [CHR 0x22 # ''a'' @ [CHR 0x22]]]\<rparr>]], currentSize = 5\<rparr>"

definition oneEntry :: memoryEntry where
  "oneEntry = \<lparr>mData = [10, 11, 12, 13, 14], mExpiresAt = 10, mHeaders = [''Etag'' \<mapsto> [CHR 0x22 # ''a'' @ [CHR 0x22]]]\<rparr>"

lemma oneStore_facts:
  "memFind twoView oneStore 5 [1] = Some oneEntry"
  "FormatETag ''a'' = (hGet (mHeaders oneEntry) ETagKey, [])"
  "validateParallelParams 2 2 = []" "in_int64 (int (length (mData oneEntry)) + 2)"
  "mData oneEntry = [10, 11, 12, 13, 14]"
proof -
  show "memFind twoView oneStore 5 [1] = Some oneEntry"
    by (simp add: memFind_def twoView_def oneStore_def oneEntry_def)
  show "FormatETag ''a'' = (hGet (mHeaders oneEntry) ETagKey, [])"
    by (simp add: FormatETag_def ValidateRawETag_def isRawETagChar_def less_eq_char_def oneEntry_def hGet_def)
qed (simp_all add: validateParallelParams_def maxParallelGetConcurrency_def in_int64_def oneEntry_def)

lemma oneStore_run:
  "\<exists>c' d'. ParallelGet (memReader twoView (\<lambda>_. (oneStore, 5))) fileWriteAt (\<lambda>_. True) (\<lambda>n. rev [0..<n]) [1] 2 2 0 Map.empty = ([], c', d')"
proof -
  have "set (rev [0..<n]) = {..<n}" for n by (simp add: atLeast0LessThan)
  from download_succeeds [OF oneStore_facts(1,2) _ oneStore_facts(3) _ oneStore_facts(4) this, of "\<lambda>_. True" 0]
  show ?thesis by (auto simp: oneStore_facts(5))
qed

section \<open>Properties\<close>

text \<open>
  C6: a parallel download never mixes versions.  Whatever the memory cache does between the requests of
  a \<^verbatim>\<open>ParallelGet\<close>, as long as an ETag names one content, a download that returns no error has written
  into the file exactly the bytes of one version that the key had, for every order in which the
  chunks are fetched.
\<close>

theorem parallel_get_one_version:
  assumes "historyOk v hist key" "\<And>n. set (order n) = {..<n}"
    and "\<And>e. entryIn v hist key e \<Longrightarrow> in_int64 (int (length (mData e)) + cs)"
    and "ParallelGet (memReader v hist) fileWriteAt live order key cs concurrency c Map.empty = ([], c', d')"
  shows "\<exists>e. entryIn v hist key e \<and> d' = (\<lambda>i. if i < length (mData e) then Some (mData e ! i) else None)"
  using download_one_version [OF assms] .

theorem parallel_get_one_version_witness:
  "\<exists>c' d' e. ParallelGet (memReader twoView (\<lambda>_. (oneStore, 5))) fileWriteAt (\<lambda>_. True) (\<lambda>n. rev [0..<n]) [1] 2 2 0 Map.empty = ([], c', d') \<and>
     entryIn twoView (\<lambda>_. (oneStore, 5)) [1] e \<and> d' = (\<lambda>i. if i < length (mData e) then Some (mData e ! i) else None)"
proof -
  obtain c' d' where r: "ParallelGet (memReader twoView (\<lambda>_. (oneStore, 5))) fileWriteAt (\<lambda>_. True) (\<lambda>n. rev [0..<n]) [1] 2 2 0 Map.empty = ([], c', d')"
    using oneStore_run by blast
  have e: "entryIn twoView (\<lambda>_. (oneStore, 5)) [1] f \<longleftrightarrow> f = oneEntry" for f
    by (auto simp: entryIn_def oneStore_facts(1))
  have "historyOk twoView (\<lambda>_. (oneStore, 5)) [1]"
    using oneStore_facts(5) by (simp add: historyOk_def e in_int64_def)
  from parallel_get_one_version [OF this _ _ r] show ?thesis
    using r oneStore_facts(4) by (auto simp: e atLeast0LessThan)
qed

text \<open>
  C7: a parallel download of an object that stays put succeeds.  If the memory cache holds the object with
  a strong ETag throughout and the chunk size and concurrency are accepted, \<^verbatim>\<open>ParallelGet\<close> returns no error
  and the file holds exactly the object's bytes, for every order in which the chunks are fetched.
\<close>

theorem parallel_get_succeeds:
  assumes "memFind v st now key = Some en" "FormatETag raw = (hGet (mHeaders en) ETagKey, [])"
    and "1 < concurrency" "validateParallelParams cs concurrency = []" "mData en \<noteq> []"
    and "in_int64 (int (length (mData en)) + cs)" "\<And>n. set (order n) = {..<n}"
  shows "\<exists>c'. ParallelGet (memReader v (\<lambda>_. (st, now))) fileWriteAt live order key cs concurrency c Map.empty =
     ([], c', \<lambda>i. if i < length (mData en) then Some (mData en ! i) else None)"
  using download_succeeds [OF assms] .

theorem parallel_get_succeeds_witness:
  "\<exists>c'. ParallelGet (memReader twoView (\<lambda>_. (oneStore, 5))) fileWriteAt (\<lambda>_. True) (\<lambda>n. rev [0..<n]) [1] 2 2 0 Map.empty =
     ([], c', \<lambda>i. if i < length (mData oneEntry) then Some (mData oneEntry ! i) else None)"
  by (rule parallel_get_succeeds [OF oneStore_facts(1,2) _ oneStore_facts(3) _ oneStore_facts(4)])
     (simp_all add: oneStore_facts(5) atLeast0LessThan)

end
