(* ===== verification/Json.thy ===== *)
theory Json
  imports Prelude
begin

text \<open>
  The part of Go's \<^verbatim>\<open>encoding/json\<close> that the metadata store uses: the encoder with its HTML escapes and
  a decoder for the encoder's output and for hand-written documents, with \<^verbatim>\<open>UseNumber\<close> (a number is its
  literal).  Strings are bytes, and the strings the store handles are valid UTF-8 without U+2028 and
  U+2029, so that no other escape is ever written.  The main lemma is the round trip of encoder and
  decoder, \<open>jsonDecode_marshal\<close>.
\<close>

section \<open>Model: encoder\<close>

datatype json =
    JNull
  | JBool bool
  | JNum string
  | JStr string
  | JArr "json list"
  | JObj "(string \<times> json) list"

definition hexNibble :: "nat \<Rightarrow> char" where
  "hexNibble d = (if d < 10 then char_of (48 + d) else char_of (87 + d))"

definition jsonEscape :: "char \<Rightarrow> string" where
  "jsonEscape c =
     (let n = (of_char c :: nat)
      in if n = 34 \<or> n = 92 then [CHR 0x5C, c]
         else if n = 8 then [CHR 0x5C, CHR ''b'']
         else if n = 12 then [CHR 0x5C, CHR ''f'']
         else if n = 10 then [CHR 0x5C, CHR ''n'']
         else if n = 13 then [CHR 0x5C, CHR ''r'']
         else if n = 9 then [CHR 0x5C, CHR ''t'']
         else if n < 32 \<or> n = 60 \<or> n = 62 \<or> n = 38
         then [CHR 0x5C, CHR ''u'', CHR ''0'', CHR ''0'', hexNibble (n div 16), hexNibble (n mod 16)]
         else [c])"

definition jsonString :: "string \<Rightarrow> string" where
  "jsonString s = CHR 0x22 # concat (map jsonEscape s) @ [CHR 0x22]"

fun joinWith :: "string \<Rightarrow> string list \<Rightarrow> string" where
  "joinWith sep [] = []"
| "joinWith sep [x] = x"
| "joinWith sep (x # xs) = x @ sep @ joinWith sep xs"

fun jsonMarshal :: "json \<Rightarrow> string" where
  "jsonMarshal JNull = ''null''"
| "jsonMarshal (JBool b) = (if b then ''true'' else ''false'')"
| "jsonMarshal (JNum s) = s"
| "jsonMarshal (JStr s) = jsonString s"
| "jsonMarshal (JArr xs) = ''['' @ joinWith '','' (map jsonMarshal xs) @ '']''"
| "jsonMarshal (JObj fs) = ''{'' @ joinWith '','' (map (\<lambda>(k, v). jsonString k @ '':'' @ jsonMarshal v) fs) @ ''}''"

section \<open>Model: numbers\<close>

fun span_digits :: "string \<Rightarrow> string \<times> string" where
  "span_digits [] = ([], [])"
| "span_digits (c # cs) = (if is_digit c then (case span_digits cs of (a, b) \<Rightarrow> (c # a, b)) else ([], c # cs))"

text \<open>The grammar of a JSON number.\<close>

definition validExp :: "string \<Rightarrow> bool" where
  "validExp s =
     (case s of [] \<Rightarrow> True
      | c # cs \<Rightarrow>
          (c = CHR ''e'' \<or> c = CHR ''E'') \<and>
          (let ds = (case cs of [] \<Rightarrow> [] | d # r \<Rightarrow> if d = CHR ''-'' \<or> d = CHR ''+'' then r else cs)
           in ds \<noteq> [] \<and> snd (span_digits ds) = []))"

definition validNumber :: "string \<Rightarrow> bool" where
  "validNumber s =
     (let s1 = (case s of [] \<Rightarrow> [] | c # cs \<Rightarrow> if c = CHR ''-'' then cs else s);
          (ip, s2) = span_digits s1
      in ip \<noteq> [] \<and> (hd ip = CHR ''0'' \<longrightarrow> length ip = 1) \<and>
         (case s2 of [] \<Rightarrow> True
          | c # cs \<Rightarrow> if c = CHR ''.'' then (case span_digits cs of (fp, s3) \<Rightarrow> fp \<noteq> [] \<and> validExp s3) else validExp s2))"

definition numChar :: "char \<Rightarrow> bool" where
  "numChar c \<longleftrightarrow> is_digit c \<or> c \<in> set ''+-.eE''"

section \<open>Model: decoder\<close>

definition hexDigitVal :: "char \<Rightarrow> nat option" where
  "hexDigitVal c =
     (let n = (of_char c :: nat)
      in if 48 \<le> n \<and> n \<le> 57 then Some (n - 48)
         else if 97 \<le> n \<and> n \<le> 102 then Some (n - 87)
         else if 65 \<le> n \<and> n \<le> 70 then Some (n - 55)
         else None)"

text \<open>The character of a two-character escape.\<close>

definition shortEscape :: "char \<Rightarrow> char option" where
  "shortEscape c =
     (if c \<in> set [CHR 0x22, CHR 0x5C, CHR ''/''] then Some c
      else map_of [(CHR ''b'', CHR 0x08), (CHR ''f'', CHR 0x0C), (CHR ''n'', CHR 0x0A),
        (CHR ''r'', CHR 0x0D), (CHR ''t'', CHR 0x09)] c)"

text \<open>
  The rest of a string literal after its opening quote, decoded, and what follows it.  Of the four-digit
  escapes those below U+0080 are decoded, the only ones the encoder writes.
\<close>

fun jsonUnquote :: "string \<Rightarrow> (string \<times> string) option" where
  "jsonUnquote [] = None"
| "jsonUnquote (c # cs) =
     (if c = CHR 0x22 then Some ([], cs)
      else if (of_char c :: nat) < 32 then None
      else if c = CHR 0x5C then
        (case cs of
           [] \<Rightarrow> None
         | e # r \<Rightarrow>
             if e = CHR ''u'' then
               (case r of
                  a # b # x # y # q \<Rightarrow>
                    (case (hexDigitVal x, hexDigitVal y) of
                       (Some h, Some l) \<Rightarrow>
                         if a = CHR ''0'' \<and> b = CHR ''0'' \<and> h < 8
                         then map_option (\<lambda>(s, t). (char_of (16 * h + l) # s, t)) (jsonUnquote q) else None
                     | _ \<Rightarrow> None)
                | _ \<Rightarrow> None)
             else (case shortEscape e of None \<Rightarrow> None
                   | Some d \<Rightarrow> map_option (\<lambda>(s, t). (d # s, t)) (jsonUnquote r)))
      else map_option (\<lambda>(s, t). (c # s, t)) (jsonUnquote cs))"

definition skipWs :: "string \<Rightarrow> string" where
  "skipWs s = dropWhile (\<lambda>c. (of_char c :: nat) \<in> {9, 10, 13, 32}) s"

definition parseString :: "string \<Rightarrow> (string \<times> string) option" where
  "parseString s = (case skipWs s of c # cs \<Rightarrow> if c = CHR 0x22 then jsonUnquote cs else None | [] \<Rightarrow> None)"

definition parseNumber :: "string \<Rightarrow> (json \<times> string) option" where
  "parseNumber s =
     (let lit = takeWhile numChar s in if validNumber lit then Some (JNum lit, dropWhile numChar s) else None)"

definition expectChar :: "char \<Rightarrow> string \<Rightarrow> string option" where
  "expectChar c s = (case skipWs s of d # r \<Rightarrow> if d = c then Some r else None | [] \<Rightarrow> None)"

fun parseLiteral :: "(string \<times> json) list \<Rightarrow> string \<Rightarrow> (json \<times> string) option" where
  "parseLiteral [] s = None"
| "parseLiteral ((w, j) # ws) s = (case CutPrefix w s of Some r \<Rightarrow> Some (j, r) | None \<Rightarrow> parseLiteral ws s)"

fun parseVal :: "nat \<Rightarrow> string \<Rightarrow> (json \<times> string) option"
  and parseElems :: "nat \<Rightarrow> string \<Rightarrow> (json list \<times> string) option"
  and parseMembers :: "nat \<Rightarrow> string \<Rightarrow> ((string \<times> json) list \<times> string) option" where
  "parseVal 0 s = None"
| "parseVal (Suc n) s =
     (case skipWs s of
        [] \<Rightarrow> None
      | c # cs \<Rightarrow>
          if c = CHR ''{'' then
            (case expectChar CHR ''}'' cs of Some r \<Rightarrow> Some (JObj [], r)
             | None \<Rightarrow> map_option (\<lambda>(fs, r). (JObj fs, r)) (parseMembers n cs))
          else if c = CHR ''['' then
            (case expectChar CHR '']'' cs of Some r \<Rightarrow> Some (JArr [], r)
             | None \<Rightarrow> map_option (\<lambda>(xs, r). (JArr xs, r)) (parseElems n cs))
          else if c = CHR 0x22 then map_option (\<lambda>(t, r). (JStr t, r)) (jsonUnquote cs)
          else if c = CHR ''-'' \<or> is_digit c then parseNumber (c # cs)
          else parseLiteral [(''null'', JNull), (''true'', JBool True), (''false'', JBool False)] (c # cs))"
| "parseElems 0 s = None"
| "parseElems (Suc n) s =
     (case parseVal n s of
        None \<Rightarrow> None
      | Some (v, r) \<Rightarrow>
          (case expectChar CHR '','' r of
             Some r1 \<Rightarrow> map_option (\<lambda>(vs, r2). (v # vs, r2)) (parseElems n r1)
           | None \<Rightarrow> map_option (\<lambda>r1. ([v], r1)) (expectChar CHR '']'' r)))"
| "parseMembers 0 s = None"
| "parseMembers (Suc n) s =
     (case parseString s of
        None \<Rightarrow> None
      | Some (k, r) \<Rightarrow>
          (case expectChar CHR '':'' r of
             None \<Rightarrow> None
           | Some r1 \<Rightarrow>
              (case parseVal n r1 of
                 None \<Rightarrow> None
               | Some (v, r2) \<Rightarrow>
                  (case expectChar CHR '','' r2 of
                     Some r3 \<Rightarrow> map_option (\<lambda>(fs, r4). ((k, v) # fs, r4)) (parseMembers n r3)
                   | None \<Rightarrow> map_option (\<lambda>r3. ([(k, v)], r3)) (expectChar CHR ''}'' r2)))))"

text \<open>
  \<^verbatim>\<open>Decoder.Decode\<close> reads one value and leaves what follows; \<^verbatim>\<open>json.Unmarshal\<close> refuses anything but white
  space after it.
\<close>

definition jsonDecode :: "string \<Rightarrow> json option" where
  "jsonDecode s = map_option fst (parseVal (length s) s)"

definition jsonUnmarshal :: "string \<Rightarrow> json option" where
  "jsonUnmarshal s =
     (case parseVal (length s) s of Some (j, r) \<Rightarrow> if skipWs r = [] then Some j else None | None \<Rightarrow> None)"

section \<open>Strings and numbers round-trip\<close>

declare jsonUnquote.simps(2) [simp del]
declare parseVal.simps(2) [simp del] parseElems.simps(2) [simp del] parseMembers.simps(2) [simp del]

lemma hexDigitVal_hexNibble: "d < 16 \<Longrightarrow> hexDigitVal (hexNibble d) = Some d"
  by (auto simp: hexDigitVal_def hexNibble_def)

lemma jsonUnquote_escape:
  "jsonUnquote (jsonEscape c @ r) = map_option (\<lambda>(s, t). (c # s, t)) (jsonUnquote r)"
proof -
  define n where "n = (of_char c :: nat)"
  have c: "char_of n = c" unfolding n_def by simp
  consider "n \<in> {34, 92, 8, 12, 10, 13, 9}" | "n \<notin> {34, 92, 8, 12, 10, 13, 9}" "n < 32 \<or> n = 60 \<or> n = 62 \<or> n = 38"
    | "n \<noteq> 34" "n \<noteq> 92" "\<not> n < 32" "n \<noteq> 60" "n \<noteq> 62" "n \<noteq> 38" by auto
  then show ?thesis
  proof cases
    case 1
    have *: "n = of_char d \<Longrightarrow> c = d" for d by (simp add: n_def)
    have "c \<in> set [CHR 0x22, CHR 0x5C, CHR 0x08, CHR 0x0C, CHR 0x0A, CHR 0x0D, CHR 0x09]"
      using 1 * [of "CHR 0x22"] * [of "CHR 0x5C"] * [of "CHR 0x08"] * [of "CHR 0x0C"] * [of "CHR 0x0A"]
        * [of "CHR 0x0D"] * [of "CHR 0x09"] by auto
    then show ?thesis by (auto simp: jsonEscape_def jsonUnquote.simps(2) shortEscape_def)
  next
    case 2
    then have h: "n div 16 < 8" "n mod 16 < 16" "16 * (n div 16) + n mod 16 = n" by auto
    have "jsonEscape c = [CHR 0x5C, CHR ''u'', CHR ''0'', CHR ''0'', hexNibble (n div 16), hexNibble (n mod 16)]"
      using 2 by (simp add: jsonEscape_def Let_def n_def [symmetric])
    moreover have "jsonUnquote (CHR 0x5C # CHR ''u'' # CHR ''0'' # CHR ''0'' # hexNibble (n div 16) # hexNibble (n mod 16) # r) =
        map_option (\<lambda>(s, t). (char_of (16 * (n div 16) + n mod 16) # s, t)) (jsonUnquote r)"
      using h(1,2) by (subst jsonUnquote.simps(2)) (simp add: hexDigitVal_hexNibble)
    ultimately show ?thesis using h(3) c by simp
  next
    case 3
    then have "c \<noteq> CHR 0x22" "c \<noteq> CHR 0x5C" by (auto simp: n_def)
    with 3 show ?thesis
      by (simp add: jsonEscape_def Let_def n_def [symmetric] jsonUnquote.simps(2))
  qed
qed

lemma jsonUnquote_string: "jsonUnquote (concat (map jsonEscape s) @ CHR 0x22 # r) = Some (s, r)"
  by (induction s) (simp_all add: jsonUnquote_escape jsonUnquote.simps(2))

lemma span_digits_app: "fst (span_digits s) @ snd (span_digits s) = s \<and> (\<forall>c \<in> set (fst (span_digits s)). is_digit c)"
  by (induction s) (auto split: prod.splits)

lemma numChar_simps [simp]: "is_digit c \<Longrightarrow> numChar c" "numChar CHR ''-''" "numChar CHR ''+''" "numChar CHR ''.''"
  "numChar CHR ''e''" "numChar CHR ''E''"
  by (auto simp: numChar_def)

lemma span_digits_eq: "span_digits s = (a, b) \<Longrightarrow> s = a @ b \<and> (\<forall>c \<in> set a. numChar c)"
  using span_digits_app [of s] by auto

lemma validExp_chars: "validExp s \<Longrightarrow> \<forall>c \<in> set s. numChar c"
proof (cases s)
  case (Cons c cs)
  assume v: "validExp s"
  define ds where "ds = (case cs of [] \<Rightarrow> [] | d # r \<Rightarrow> if d = CHR ''-'' \<or> d = CHR ''+'' then r else cs)"
  have c: "c = CHR ''e'' \<or> c = CHR ''E''" and nil: "snd (span_digits ds) = []"
    using v Cons by (auto simp: validExp_def Let_def ds_def)
  have "\<forall>x \<in> set ds. numChar x" using span_digits_app [of ds] nil by auto
  then have "\<forall>x \<in> set cs. numChar x" by (cases cs) (auto simp: ds_def split: if_splits)
  with c Cons show ?thesis by auto
qed simp

lemma validNumber_chars:
  assumes "validNumber s"
  shows "(\<forall>c \<in> set s. numChar c) \<and> s \<noteq> [] \<and> (hd s = CHR ''-'' \<or> is_digit (hd s))"
proof -
  define s1 where "s1 = (case s of [] \<Rightarrow> [] | c # cs \<Rightarrow> if c = CHR ''-'' then cs else s)"
  obtain ip s2 where sp: "span_digits s1 = (ip, s2)" by (cases "span_digits s1")
  have v: "ip \<noteq> []" and t: "case s2 of [] \<Rightarrow> True
          | c # cs \<Rightarrow> if c = CHR ''.'' then (case span_digits cs of (fp, s3) \<Rightarrow> fp \<noteq> [] \<and> validExp s3) else validExp s2"
    using assms by (auto simp: validNumber_def Let_def s1_def [symmetric] sp)
  have s1: "s1 = ip @ s2" "\<forall>c \<in> set ip. is_digit c" using span_digits_app [of s1] sp by auto
  have "\<forall>c \<in> set s2. numChar c"
  proof (cases s2)
    case (Cons c cs)
    show ?thesis
    proof (cases "c = CHR ''.''")
      case True
      obtain fp s3 where fp: "span_digits cs = (fp, s3)" by (cases "span_digits cs")
      then show ?thesis using t Cons True validExp_chars [of s3] span_digits_eq [OF fp] by auto
    next
      case False
      then show ?thesis using t Cons validExp_chars [of s2] by simp
    qed
  qed simp
  with s1 have "\<forall>c \<in> set s1. numChar c" by auto
  moreover have "is_digit (hd s1)" "s1 \<noteq> []" using s1 v by (cases ip; auto)+
  moreover have "s = s1 \<or> s = CHR ''-'' # s1" "s \<noteq> []"
    using \<open>s1 \<noteq> []\<close> by (auto simp: s1_def split: list.splits if_splits)
  ultimately show ?thesis by auto
qed

definition stops :: "string \<Rightarrow> bool" where
  "stops r \<longleftrightarrow> (case r of [] \<Rightarrow> True | c # _ \<Rightarrow> \<not> numChar c)"

lemma parseNumber_app: "validNumber s \<Longrightarrow> stops r \<Longrightarrow> parseNumber (s @ r) = Some (JNum s, r)"
proof -
  assume v: "validNumber s" and r: "stops r"
  have "takeWhile numChar r = [] \<and> dropWhile numChar r = r" using r by (cases r) (auto simp: stops_def)
  then show ?thesis using v validNumber_chars [OF v]
    by (simp add: parseNumber_def Let_def takeWhile_append2 dropWhile_append2)
qed

section \<open>Values round-trip\<close>

fun wfJson :: "json \<Rightarrow> bool" where
  "wfJson (JNum s) = validNumber s"
| "wfJson (JArr xs) = (\<forall>x \<in> set xs. wfJson x)"
| "wfJson (JObj fs) = (\<forall>(k, v) \<in> set fs. wfJson v)"
| "wfJson j = True"

definition readsBack :: "json \<Rightarrow> bool" where
  "readsBack j \<longleftrightarrow> (\<forall>n r. stops r \<longrightarrow> length (jsonMarshal j) \<le> n \<longrightarrow> parseVal n (jsonMarshal j @ r) = Some (j, r))"

lemma skipWs_Cons: "(of_char c :: nat) \<notin> {9, 10, 13, 32} \<Longrightarrow> skipWs (c # s) = c # s"
  by (simp add: skipWs_def)

lemma expectChar_Cons: "(of_char d :: nat) \<notin> {9, 10, 13, 32} \<Longrightarrow> expectChar c (d # s) = (if d = c then Some s else None)"
  by (simp add: expectChar_def skipWs_Cons)

lemma is_digit_not_ws: "is_digit c \<Longrightarrow> (of_char c :: nat) \<notin> {9, 10, 13, 32}"
  by (auto simp: is_digit_def)

lemma jsonMarshal_head:
  assumes "wfJson j"
  shows "jsonMarshal j \<noteq> [] \<and> (of_char (hd (jsonMarshal j)) :: nat) \<notin> {9, 10, 13, 32} \<and>
    hd (jsonMarshal j) \<noteq> CHR '']'' \<and> hd (jsonMarshal j) \<noteq> CHR ''}''"
proof (cases j)
  case (JNum s)
  then have "s \<noteq> []" "hd s = CHR ''-'' \<or> is_digit (hd s)" using validNumber_chars [of s] assms by auto
  then show ?thesis by (auto simp: JNum is_digit_def)
qed (simp_all add: jsonString_def)

lemma expectChar_marshal:
  assumes "wfJson j" "c = CHR '']'' \<or> c = CHR ''}''"
  shows "expectChar c (jsonMarshal j @ r) = None"
  using jsonMarshal_head [OF assms(1)] assms(2) by (cases "jsonMarshal j") (auto simp: expectChar_Cons)

lemma parseElems_join:
  "\<lbrakk>xs \<noteq> []; \<forall>x \<in> set xs. readsBack x; length (joinWith '','' (map jsonMarshal xs)) < n\<rbrakk> \<Longrightarrow>
   parseElems n (joinWith '','' (map jsonMarshal xs) @ CHR '']'' # r) = Some (xs, r)"
proof (induction xs arbitrary: n rule: induct_list012)
  case (2 x)
  then obtain m where n: "n = Suc m" "length (jsonMarshal x) \<le> m" by (cases n) auto
  have "parseVal m (jsonMarshal x @ CHR '']'' # r) = Some (x, CHR '']'' # r)"
    using 2 n by (simp add: readsBack_def stops_def numChar_def is_digit_def)
  then show ?case by (simp add: n parseElems.simps(2) expectChar_Cons)
next
  case (3 x y ys)
  let ?t = "joinWith '','' (map jsonMarshal (y # ys))"
  obtain m where n: "n = Suc m" "length (jsonMarshal x) \<le> m" "length ?t < m" using "3.prems"(3) by (cases n) auto
  have "parseVal m (jsonMarshal x @ CHR '','' # ?t @ CHR '']'' # r) = Some (x, CHR '','' # ?t @ CHR '']'' # r)"
    using "3.prems"(2) n by (simp add: readsBack_def stops_def numChar_def is_digit_def)
  moreover have "parseElems m (?t @ CHR '']'' # r) = Some (y # ys, r)" using "3.IH"(2) "3.prems"(2) n by simp
  ultimately show ?case by (simp add: n parseElems.simps(2) expectChar_Cons)
qed simp

abbreviation member :: "string \<times> json \<Rightarrow> string" where
  "member \<equiv> \<lambda>(k, v). jsonString k @ '':'' @ jsonMarshal v"

lemma parseString_string: "parseString (jsonString k @ r) = Some (k, r)"
  by (simp add: parseString_def jsonString_def skipWs_Cons jsonUnquote_string)

lemma parseMembers_join:
  "\<lbrakk>fs \<noteq> []; \<forall>(k, v) \<in> set fs. readsBack v; length (joinWith '','' (map member fs)) < n\<rbrakk> \<Longrightarrow>
   parseMembers n (joinWith '','' (map member fs) @ CHR ''}'' # r) = Some (fs, r)"
proof (induction fs arbitrary: n rule: induct_list012)
  case (2 p)
  obtain k v where p: "p = (k, v)" by (cases p)
  then obtain m where n: "n = Suc m" "length (jsonMarshal v) \<le> m" using 2 by (cases n) auto
  have "parseVal m (jsonMarshal v @ CHR ''}'' # r) = Some (v, CHR ''}'' # r)"
    using 2 n by (simp add: p readsBack_def stops_def numChar_def is_digit_def)
  then show ?case by (simp add: p n parseMembers.simps(2) parseString_string expectChar_Cons)
next
  case (3 p q ys)
  let ?t = "joinWith '','' (map member (q # ys))"
  obtain k v where p: "p = (k, v)" by (cases p)
  obtain m where n: "n = Suc m" "length (jsonMarshal v) \<le> m" "length ?t < m" using "3.prems"(3) by (cases n) (auto simp: p)
  have "parseVal m (jsonMarshal v @ CHR '','' # ?t @ CHR ''}'' # r) = Some (v, CHR '','' # ?t @ CHR ''}'' # r)"
    using "3.prems"(2) n by (simp add: p readsBack_def stops_def numChar_def is_digit_def)
  moreover have "parseMembers m (?t @ CHR ''}'' # r) = Some (q # ys, r)" using "3.IH"(2) "3.prems"(2) n by simp
  ultimately show ?case by (simp add: p n parseMembers.simps(2) parseString_string expectChar_Cons)
qed simp

lemma expectChar_join:
  assumes "\<forall>x \<in> set xs. wfJson x" "xs \<noteq> []"
  shows "expectChar CHR '']'' (joinWith '','' (map jsonMarshal xs) @ r) = None"
  using assms expectChar_marshal [of "hd xs" "CHR '']''"] by (induction xs rule: induct_list012) auto

lemma expectChar_members:
  assumes "fs \<noteq> []"
  shows "expectChar CHR ''}'' (joinWith '','' (map member fs) @ r) = None"
  using assms by (induction fs rule: induct_list012) (auto simp: jsonString_def expectChar_Cons)

lemma readsBack_wf: "wfJson j \<Longrightarrow> readsBack j"
proof (induction j)
  case (JNum s)
  have v: "validNumber s" using JNum by simp
  have "parseVal n (s @ r) = Some (JNum s, r)" if st: "stops r" and len: "length s \<le> n" for n r
  proof -
    obtain c t where s: "s = c # t" "c = CHR ''-'' \<or> is_digit c"
      using validNumber_chars [OF v] by (cases s) auto
    obtain m where n: "n = Suc m" using len s by (cases n) simp_all
    have "(of_char c :: nat) \<notin> {9, 10, 13, 32}" "c \<noteq> CHR ''{''" "c \<noteq> CHR ''[''" "c \<noteq> CHR 0x22"
      using s(2) by (auto simp: is_digit_def)
    then show ?thesis using parseNumber_app [OF v st] s
      by (simp add: n parseVal.simps(2) skipWs_Cons)
  qed
  then show ?case by (simp add: readsBack_def)
next
  case (JStr s)
  have "parseVal (Suc m) (jsonString s @ r) = Some (JStr s, r)" for m r
    by (simp add: parseVal.simps(2) jsonString_def skipWs_Cons jsonUnquote_string)
  then show ?case by (auto simp: readsBack_def Suc_le_eq jsonString_def dest!: less_imp_Suc_add)
next
  case (JArr xs)
  have wf: "\<forall>x \<in> set xs. wfJson x" and rb: "\<forall>x \<in> set xs. readsBack x" using JArr by auto
  have "parseVal n (jsonMarshal (JArr xs) @ r) = Some (JArr xs, r)" if len: "length (jsonMarshal (JArr xs)) \<le> n" for n r
  proof (cases "xs = []")
    case False
    obtain m where n: "n = Suc m" "length (joinWith '','' (map jsonMarshal xs)) < m" using len by (cases n) auto
    show ?thesis using expectChar_join [OF wf False] parseElems_join [OF False rb n(2)]
      by (simp add: n(1) parseVal.simps(2) skipWs_Cons)
  qed (use len in \<open>cases n; simp add: parseVal.simps(2) skipWs_Cons expectChar_Cons\<close>)
  then show ?case by (simp add: readsBack_def)
next
  case (JObj fs)
  have rb: "\<forall>(k, v) \<in> set fs. readsBack v" using JObj by fastforce
  have "parseVal n (jsonMarshal (JObj fs) @ r) = Some (JObj fs, r)" if len: "length (jsonMarshal (JObj fs)) \<le> n" for n r
  proof (cases "fs = []")
    case False
    obtain m where n: "n = Suc m" "length (joinWith '','' (map member fs)) < m" using len by (cases n) auto
    show ?thesis using expectChar_members [OF False] parseMembers_join [OF False rb n(2)]
      by (simp add: n(1) parseVal.simps(2) skipWs_Cons)
  qed (use len in \<open>cases n; simp add: parseVal.simps(2) skipWs_Cons expectChar_Cons\<close>)
  then show ?case by (simp add: readsBack_def)
qed (auto simp: readsBack_def Suc_le_eq parseVal.simps(2) skipWs_Cons is_digit_def dest!: less_imp_Suc_add split: if_splits)

lemma parseVal_marshal: "wfJson j \<Longrightarrow> parseVal (length (jsonMarshal j)) (jsonMarshal j) = Some (j, [])"
  using readsBack_wf [of j] unfolding readsBack_def by (auto simp: stops_def dest!: spec [of _ "length (jsonMarshal j)"] spec [of _ "[]"])

lemma jsonDecode_marshal: "wfJson j \<Longrightarrow> jsonDecode (jsonMarshal j) = Some j"
  by (simp add: jsonDecode_def parseVal_marshal)

lemma jsonUnmarshal_marshal: "wfJson j \<Longrightarrow> jsonUnmarshal (jsonMarshal j) = Some j"
  by (simp add: jsonUnmarshal_def parseVal_marshal skipWs_def)

end
