(* ===== verification/MetadataOps.thy ===== *)
theory MetadataOps
  imports Json
begin

text \<open>
  The metadata store's operations: \<^verbatim>\<open>internal/metadatadb/ops.go\<close>, the typed data structures of
  \<^verbatim>\<open>internal/metadatadb/api.go\<close> and the in-memory backend of \<^verbatim>\<open>internal/metadatadb/memory.go\<close>.

  A value of type \<^verbatim>\<open>any\<close> is a \<open>val\<close>, distinguished the way the code's type switches distinguish it; a
  \<^verbatim>\<open>float64\<close> is a binary fraction \<open>m * 2 ^ e\<close> with the literal that \<^verbatim>\<open>encoding/json\<close> writes for it, a
  \<^verbatim>\<open>json.Number\<close> its literal, and a Go value of any other type its JSON encoding.  Integers are 64-bit
  words, so arithmetic wraps.  The keys of sets and maps are the JSON values they encode to.

  The lemmas show that each structure behaves as its abstract data type and leaves the others alone,
  that keys are compared up to the order of their fields, and that a query of the in-memory backend
  can modify its state.
\<close>

section \<open>Model: values\<close>

type_synonym int64 = "64 word"

datatype val =
    VNil
  | VBool bool
  | VInt int64
  | VFloat int int string
  | VNum string
  | VStr string
  | VList "val list"
  | VMap "string \<rightharpoonup> val"
  | VGo json

type_synonym nsState = "string \<rightharpoonup> val"

text \<open>
  A decimal literal as \<open>json.Number.Float64\<close> reads it, a sign, the digits of the mantissa and a
  decimal exponent; a malformed number is \<^const>\<open>None\<close>.
\<close>

definition parseExponent :: "string \<Rightarrow> int option" where
  "parseExponent s =
     (case s of
        [] \<Rightarrow> Some 0
      | c # cs \<Rightarrow>
          if c = CHR ''e'' \<or> c = CHR ''E'' then
            (let (neg, ds) = (case cs of [] \<Rightarrow> (False, [])
                | d # ds \<Rightarrow> if d = CHR ''-'' then (True, ds) else if d = CHR ''+'' then (False, ds) else (False, cs))
             in if ds = [] then None
                else map_option (\<lambda>n. if neg then - int n else int n) (digits_val 0 ds))
          else None)"

definition parseDecimal :: "string \<Rightarrow> (bool \<times> nat \<times> int) option" where
  "parseDecimal s =
     (let (neg, s1) = (case s of [] \<Rightarrow> (False, []) | c # cs \<Rightarrow> if c = CHR ''-'' then (True, cs) else (False, s));
          (ip, s2) = span_digits s1;
          (fp, s3) = (case s2 of [] \<Rightarrow> ([], []) | c # cs \<Rightarrow> if c = CHR ''.'' then span_digits cs else ([], s2))
      in if ip = [] then None
         else case (digits_val 0 (ip @ fp), parseExponent s3) of
             (Some m, Some e) \<Rightarrow> Some (neg, m, e - int (length fp))
           | _ \<Rightarrow> None)"

text \<open>The integer part of the double nearest to \<open>num / den\<close>, rounding to even.\<close>

definition bitlen :: "nat \<Rightarrow> int" where
  "bitlen n = int (length (filter (\<lambda>i. 2 ^ i \<le> n) [0..<Suc n]))"

definition roundHalfEven :: "nat \<Rightarrow> nat \<Rightarrow> nat" where
  "roundHalfEven a b =
     (let q = a div b; r = a mod b
      in if 2 * r < b \<or> 2 * r = b \<and> even q then q else Suc q)"

definition doubleTrunc :: "nat \<Rightarrow> nat \<Rightarrow> nat" where
  "doubleTrunc num den =
     (if num < 2 ^ 53 * den then
        (let k = nat (53 - (bitlen (num div den)))
         in roundHalfEven (num * 2 ^ k) den div 2 ^ k)
      else (let k = nat (bitlen (num div den) - 53)
            in roundHalfEven num (den * 2 ^ k) * 2 ^ k))"

text \<open>
  The conversion \<^verbatim>\<open>int64(f)\<close> of a value outside the range of \<^verbatim>\<open>int64\<close> depends on the processor; this is
  the result on amd64.
\<close>

definition floatToInt64 :: "int \<Rightarrow> int64" where
  "floatToInt64 t = (if in_int64 t then word_of_int t else word_of_int min_int64)"

definition toInt64 :: "val option \<Rightarrow> int64" where
  "toInt64 v =
     (case v of
        Some (VInt n) \<Rightarrow> n
      | Some (VFloat m e lit) \<Rightarrow>
          floatToInt64 (if e \<ge> 0 then m * 2 ^ nat e else sgn m * (\<bar>m\<bar> div 2 ^ nat (- e)))
      | Some (VNum s) \<Rightarrow>
          (case ParseInt s of
             Some i \<Rightarrow> word_of_int i
           | None \<Rightarrow>
              (case parseDecimal s of
                 None \<Rightarrow> 0
               | Some (neg, m, e) \<Rightarrow>
                   (let t = (if e \<ge> 0 then doubleTrunc (m * 10 ^ nat e) 1 else doubleTrunc m (10 ^ nat (- e)))
                    in floatToInt64 (if neg then - int t else int t))))
      | _ \<Rightarrow> 0)"

section \<open>Model: keys\<close>

text \<open>
  Decoding an object into a \<^verbatim>\<open>map[string]any\<close> keeps the last value of a repeated field, and marshalling
  that map sorts the fields.
\<close>

definition sortFields :: "(string \<times> 'a) list \<Rightarrow> (string \<times> 'a) list" where
  "sortFields fs = map (\<lambda>k. (k, the (map_of (rev fs) k))) (sorted_list_of_set (set (map fst fs)))"

fun jsonCanon :: "json \<Rightarrow> json" where
  "jsonCanon (JArr xs) = JArr (map jsonCanon xs)"
| "jsonCanon (JObj fs) = JObj (sortFields (map (\<lambda>(k, v). (k, jsonCanon v)) fs))"
| "jsonCanon j = j"

definition marshalKey :: "json \<Rightarrow> string" where
  "marshalKey v =
     (case v of JArr xs \<Rightarrow> jsonMarshal (jsonCanon v) | JObj fs \<Rightarrow> jsonMarshal (jsonCanon v) | _ \<Rightarrow> jsonMarshal v)"

text \<open>
  \<^verbatim>\<open>fmt.Sprint\<close> of a decoded key, and \<^verbatim>\<open>decodeMapKeys\<close>.  The order in which it visits the keys matters only
  when two keys print alike, which keys of one type do not; here they are visited in order.
\<close>

fun sprintKey :: "json \<Rightarrow> string" where
  "sprintKey JNull = ''<nil>''"
| "sprintKey (JBool b) = (if b then ''true'' else ''false'')"
| "sprintKey (JNum s) = s"
| "sprintKey (JStr s) = s"
| "sprintKey (JArr xs) = ''['' @ joinWith '' '' (map sprintKey xs) @ '']''"
| "sprintKey (JObj fs) = ''map['' @ joinWith '' '' (map (\<lambda>(k, v). k @ '':'' @ sprintKey v) fs) @ '']''"

definition decodeMapKey :: "string \<Rightarrow> string" where
  "decodeMapKey k = (case jsonDecode k of None \<Rightarrow> k | Some j \<Rightarrow> sprintKey (jsonCanon j))"

definition decodeMapKeys :: "(string \<rightharpoonup> 'a) \<Rightarrow> (string \<rightharpoonup> 'a)" where
  "decodeMapKeys m = foldl (\<lambda>res k. res(decodeMapKey k := m k)) Map.empty (sorted_list_of_set (dom m))"

section \<open>Model: operations\<close>

datatype Op =
    ScalarSet string val
  | ScalarDelete string
  | IntSet string int64
  | IntAdd string int64
  | IntMul string int64
  | IntDiv string int64
  | SetAdd string json
  | SetRemove string json
  | IntMapSet string json int64
  | IntMapAdd string json int64
  | IntMapMul string json int64
  | IntMapDiv string json int64
  | IntMapDelete string json
  | MapSet string json val
  | MapDelete string json
  | ListAppend string val

datatype ReadOp =
    ScalarGet string
  | IntGet string
  | SetContains string json
  | SetMembers string
  | IntMapGet string json
  | IntMapKeys string
  | IntMapEntries string
  | MapGet string json
  | MapKeys string
  | MapEntries string
  | ListEntries string
  | ListLen string

text \<open>Signed division truncates towards zero and wraps for the one quotient that is out of range.\<close>

definition int64Div :: "int64 \<Rightarrow> int64 \<Rightarrow> int64" where
  "int64Div a b = word_of_int (sgn (sint a) * sgn (sint b) * (\<bar>sint a\<bar> div \<bar>sint b\<bar>))"

definition asMap :: "val option \<Rightarrow> (string \<rightharpoonup> val) option" where
  "asMap v = (case v of Some (VMap m) \<Rightarrow> Some m | _ \<Rightarrow> None)"

definition asList :: "val option \<Rightarrow> val list option" where
  "asList v = (case v of Some (VList xs) \<Rightarrow> Some xs | _ \<Rightarrow> None)"

definition getOrCreateSubmap :: "nsState \<Rightarrow> string \<Rightarrow> (string \<rightharpoonup> val)" where
  "getOrCreateSubmap state key = (case asMap (state key) of Some m \<Rightarrow> m | None \<Rightarrow> Map.empty)"

fun ApplyOp :: "nsState \<Rightarrow> Op \<Rightarrow> nsState" where
  "ApplyOp state (ScalarSet k v) = state(k \<mapsto> v)"
| "ApplyOp state (ScalarDelete k) = state(k := None)"
| "ApplyOp state (IntSet k n) = state(k \<mapsto> VInt n)"
| "ApplyOp state (IntAdd k d) = state(k \<mapsto> VInt (toInt64 (state k) + d))"
| "ApplyOp state (IntMul k f) = state(k \<mapsto> VInt (toInt64 (state k) * f))"
| "ApplyOp state (IntDiv k d) = (if d \<noteq> 0 then state(k \<mapsto> VInt (int64Div (toInt64 (state k)) d)) else state)"
| "ApplyOp state (SetAdd k x) = state(k \<mapsto> VMap ((getOrCreateSubmap state k)(marshalKey x \<mapsto> VBool True)))"
| "ApplyOp state (SetRemove k x) =
     (case asMap (state k) of None \<Rightarrow> state | Some m \<Rightarrow> state(k \<mapsto> VMap (m(marshalKey x := None))))"
| "ApplyOp state (IntMapSet k x n) = state(k \<mapsto> VMap ((getOrCreateSubmap state k)(marshalKey x \<mapsto> VInt n)))"
| "ApplyOp state (IntMapAdd k x d) =
     (let m = getOrCreateSubmap state k in state(k \<mapsto> VMap (m(marshalKey x \<mapsto> VInt (toInt64 (m (marshalKey x)) + d)))))"
| "ApplyOp state (IntMapMul k x f) =
     (let m = getOrCreateSubmap state k in state(k \<mapsto> VMap (m(marshalKey x \<mapsto> VInt (toInt64 (m (marshalKey x)) * f)))))"
| "ApplyOp state (IntMapDiv k x d) =
     (if d = 0 then state
      else case asMap (state k) of
          None \<Rightarrow> state
        | Some m \<Rightarrow> state(k \<mapsto> VMap (m(marshalKey x \<mapsto> VInt (int64Div (toInt64 (m (marshalKey x))) d)))))"
| "ApplyOp state (IntMapDelete k x) =
     (case asMap (state k) of None \<Rightarrow> state | Some m \<Rightarrow> state(k \<mapsto> VMap (m(marshalKey x := None))))"
| "ApplyOp state (MapSet k x v) = state(k \<mapsto> VMap ((getOrCreateSubmap state k)(marshalKey x \<mapsto> v)))"
| "ApplyOp state (MapDelete k x) =
     (case asMap (state k) of None \<Rightarrow> state | Some m \<Rightarrow> state(k \<mapsto> VMap (m(marshalKey x := None))))"
| "ApplyOp state (ListAppend k v) =
     state(k \<mapsto> VList ((case asList (state k) of None \<Rightarrow> [] | Some xs \<Rightarrow> xs) @ [v]))"

text \<open>
  The answers of \<^verbatim>\<open>queryState\<close>: nil, an optional value, an integer, a truth value, the raw keys of a
  map (in some order, so a set), the entries of a map by decoded key, a raw value, a length.
\<close>

datatype qres =
    QNil
  | QVal val
  | QInt int64
  | QBool bool
  | QKeys "string set"
  | QEntries "string \<rightharpoonup> val"
  | QRaw val
  | QLen nat

fun queryState :: "nsState \<Rightarrow> ReadOp \<Rightarrow> qres" where
  "queryState state (ScalarGet k) = (case state k of None \<Rightarrow> QNil | Some v \<Rightarrow> QVal v)"
| "queryState state (IntGet k) = QInt (toInt64 (state k))"
| "queryState state (SetContains k x) =
     (case asMap (state k) of None \<Rightarrow> QBool False | Some m \<Rightarrow> QBool (m (marshalKey x) \<noteq> None))"
| "queryState state (SetMembers k) = (case asMap (state k) of None \<Rightarrow> QNil | Some m \<Rightarrow> QKeys (dom m))"
| "queryState state (IntMapGet k x) =
     (case asMap (state k) of None \<Rightarrow> QInt 0 | Some m \<Rightarrow> QInt (toInt64 (m (marshalKey x))))"
| "queryState state (IntMapKeys k) = (case asMap (state k) of None \<Rightarrow> QNil | Some m \<Rightarrow> QKeys (dom m))"
| "queryState state (IntMapEntries k) = (case asMap (state k) of None \<Rightarrow> QNil | Some m \<Rightarrow> QEntries (decodeMapKeys m))"
| "queryState state (MapGet k x) =
     (case asMap (state k) of None \<Rightarrow> QNil
      | Some m \<Rightarrow> (case m (marshalKey x) of None \<Rightarrow> QNil | Some v \<Rightarrow> QVal v))"
| "queryState state (MapKeys k) = (case asMap (state k) of None \<Rightarrow> QNil | Some m \<Rightarrow> QKeys (dom m))"
| "queryState state (MapEntries k) = (case asMap (state k) of None \<Rightarrow> QNil | Some m \<Rightarrow> QEntries (decodeMapKeys m))"
| "queryState state (ListEntries k) = (case state k of None \<Rightarrow> QNil | Some v \<Rightarrow> QRaw v)"
| "queryState state (ListLen k) = (case asList (state k) of None \<Rightarrow> QLen 0 | Some xs \<Rightarrow> QLen (length xs))"

section \<open>Model: backends and typed structures\<close>

text \<open>
  The interface \<^verbatim>\<open>Backend\<close> as a record of operations on a backend's state.  \<^verbatim>\<open>Query\<close> unmarshals its
  answer into a typed target; here it returns the answer itself.
\<close>

record 'b backendOps =
  bApply :: "'b \<Rightarrow> string \<Rightarrow> Op list \<Rightarrow> goerr \<times> 'b"
  bQuery :: "'b \<Rightarrow> string \<Rightarrow> ReadOp \<Rightarrow> qres \<times> 'b"

text \<open>The in-memory backend: the state of each namespace, created when it is first used.\<close>

type_synonym MemoryBackend = "string \<rightharpoonup> nsState"

definition memNs :: "MemoryBackend \<Rightarrow> string \<Rightarrow> nsState \<times> MemoryBackend" where
  "memNs m ns = (case m ns of Some s \<Rightarrow> (s, m) | None \<Rightarrow> (Map.empty, m(ns \<mapsto> Map.empty)))"

definition memBackendApply :: "MemoryBackend \<Rightarrow> string \<Rightarrow> Op list \<Rightarrow> goerr \<times> MemoryBackend" where
  "memBackendApply m ns ops = (case memNs m ns of (s, m') \<Rightarrow> ([], m'(ns \<mapsto> foldl ApplyOp s ops)))"

definition memBackendQuery :: "MemoryBackend \<Rightarrow> string \<Rightarrow> ReadOp \<Rightarrow> qres \<times> MemoryBackend" where
  "memBackendQuery m ns q = (case memNs m ns of (s, m') \<Rightarrow> (queryState s q, m'))"

definition memoryBackendOps :: "MemoryBackend backendOps" where
  "memoryBackendOps = \<lparr>bApply = memBackendApply, bQuery = memBackendQuery\<rparr>"

definition scalarSet :: "'b backendOps \<Rightarrow> 'b \<Rightarrow> string \<Rightarrow> string \<Rightarrow> val \<Rightarrow> goerr \<times> 'b" where
  "scalarSet B b ns name v = bApply B b ns [ScalarSet name v]"

definition scalarDelete :: "'b backendOps \<Rightarrow> 'b \<Rightarrow> string \<Rightarrow> string \<Rightarrow> goerr \<times> 'b" where
  "scalarDelete B b ns name = bApply B b ns [ScalarDelete name]"

definition optRes :: "qres \<Rightarrow> val option" where
  "optRes r = (case r of QVal v \<Rightarrow> Some v | _ \<Rightarrow> None)"

definition intRes :: "qres \<Rightarrow> int64" where
  "intRes r = (case r of QInt n \<Rightarrow> n | _ \<Rightarrow> 0)"

text \<open>The keys in the order of their encodings, as the calls of \<^verbatim>\<open>slices.SortFunc\<close> leave them.\<close>

definition keysRes :: "qres \<Rightarrow> string list" where
  "keysRes r = (case r of QKeys ks \<Rightarrow> sorted_list_of_set ks | _ \<Rightarrow> [])"

definition entriesRes :: "qres \<Rightarrow> (string \<rightharpoonup> val)" where
  "entriesRes r = (case r of QEntries m \<Rightarrow> m | _ \<Rightarrow> Map.empty)"

definition scalarGet :: "'b backendOps \<Rightarrow> 'b \<Rightarrow> string \<Rightarrow> string \<Rightarrow> val option \<times> 'b" where
  "scalarGet B b ns name = map_prod optRes id (bQuery B b ns (ScalarGet name))"

definition intSet :: "'b backendOps \<Rightarrow> 'b \<Rightarrow> string \<Rightarrow> string \<Rightarrow> int64 \<Rightarrow> goerr \<times> 'b" where
  "intSet B b ns name n = bApply B b ns [IntSet name n]"

definition intAdd :: "'b backendOps \<Rightarrow> 'b \<Rightarrow> string \<Rightarrow> string \<Rightarrow> int64 \<Rightarrow> goerr \<times> 'b" where
  "intAdd B b ns name d = bApply B b ns [IntAdd name d]"

definition intMul :: "'b backendOps \<Rightarrow> 'b \<Rightarrow> string \<Rightarrow> string \<Rightarrow> int64 \<Rightarrow> goerr \<times> 'b" where
  "intMul B b ns name f = bApply B b ns [IntMul name f]"

definition intDiv :: "'b backendOps \<Rightarrow> 'b \<Rightarrow> string \<Rightarrow> string \<Rightarrow> int64 \<Rightarrow> goerr \<times> 'b" where
  "intDiv B b ns name d = bApply B b ns [IntDiv name d]"

definition intGet :: "'b backendOps \<Rightarrow> 'b \<Rightarrow> string \<Rightarrow> string \<Rightarrow> int64 \<times> 'b" where
  "intGet B b ns name = map_prod intRes id (bQuery B b ns (IntGet name))"

definition intMapSet :: "'b backendOps \<Rightarrow> 'b \<Rightarrow> string \<Rightarrow> string \<Rightarrow> json \<Rightarrow> int64 \<Rightarrow> goerr \<times> 'b" where
  "intMapSet B b ns name k n = bApply B b ns [IntMapSet name k n]"

definition intMapAdd :: "'b backendOps \<Rightarrow> 'b \<Rightarrow> string \<Rightarrow> string \<Rightarrow> json \<Rightarrow> int64 \<Rightarrow> goerr \<times> 'b" where
  "intMapAdd B b ns name k d = bApply B b ns [IntMapAdd name k d]"

definition intMapMul :: "'b backendOps \<Rightarrow> 'b \<Rightarrow> string \<Rightarrow> string \<Rightarrow> json \<Rightarrow> int64 \<Rightarrow> goerr \<times> 'b" where
  "intMapMul B b ns name k f = bApply B b ns [IntMapMul name k f]"

definition intMapDiv :: "'b backendOps \<Rightarrow> 'b \<Rightarrow> string \<Rightarrow> string \<Rightarrow> json \<Rightarrow> int64 \<Rightarrow> goerr \<times> 'b" where
  "intMapDiv B b ns name k d = bApply B b ns [IntMapDiv name k d]"

definition intMapDelete :: "'b backendOps \<Rightarrow> 'b \<Rightarrow> string \<Rightarrow> string \<Rightarrow> json \<Rightarrow> goerr \<times> 'b" where
  "intMapDelete B b ns name k = bApply B b ns [IntMapDelete name k]"

definition intMapGet :: "'b backendOps \<Rightarrow> 'b \<Rightarrow> string \<Rightarrow> string \<Rightarrow> json \<Rightarrow> int64 \<times> 'b" where
  "intMapGet B b ns name k = map_prod intRes id (bQuery B b ns (IntMapGet name k))"

definition intMapKeys :: "'b backendOps \<Rightarrow> 'b \<Rightarrow> string \<Rightarrow> string \<Rightarrow> string list \<times> 'b" where
  "intMapKeys B b ns name = map_prod keysRes id (bQuery B b ns (IntMapKeys name))"

definition intMapEntries :: "'b backendOps \<Rightarrow> 'b \<Rightarrow> string \<Rightarrow> string \<Rightarrow> (string \<rightharpoonup> val) \<times> 'b" where
  "intMapEntries B b ns name = map_prod entriesRes id (bQuery B b ns (IntMapEntries name))"

definition setAdd :: "'b backendOps \<Rightarrow> 'b \<Rightarrow> string \<Rightarrow> string \<Rightarrow> json \<Rightarrow> goerr \<times> 'b" where
  "setAdd B b ns name x = bApply B b ns [SetAdd name x]"

definition setRemove :: "'b backendOps \<Rightarrow> 'b \<Rightarrow> string \<Rightarrow> string \<Rightarrow> json \<Rightarrow> goerr \<times> 'b" where
  "setRemove B b ns name x = bApply B b ns [SetRemove name x]"

definition setContains :: "'b backendOps \<Rightarrow> 'b \<Rightarrow> string \<Rightarrow> string \<Rightarrow> json \<Rightarrow> bool \<times> 'b" where
  "setContains B b ns name x = map_prod (\<lambda>r. r = QBool True) id (bQuery B b ns (SetContains name x))"

definition setMembers :: "'b backendOps \<Rightarrow> 'b \<Rightarrow> string \<Rightarrow> string \<Rightarrow> string list \<times> 'b" where
  "setMembers B b ns name = map_prod keysRes id (bQuery B b ns (SetMembers name))"

definition mapSet :: "'b backendOps \<Rightarrow> 'b \<Rightarrow> string \<Rightarrow> string \<Rightarrow> json \<Rightarrow> val \<Rightarrow> goerr \<times> 'b" where
  "mapSet B b ns name k v = bApply B b ns [MapSet name k v]"

definition mapDelete :: "'b backendOps \<Rightarrow> 'b \<Rightarrow> string \<Rightarrow> string \<Rightarrow> json \<Rightarrow> goerr \<times> 'b" where
  "mapDelete B b ns name k = bApply B b ns [MapDelete name k]"

definition mapGet :: "'b backendOps \<Rightarrow> 'b \<Rightarrow> string \<Rightarrow> string \<Rightarrow> json \<Rightarrow> val option \<times> 'b" where
  "mapGet B b ns name k = map_prod optRes id (bQuery B b ns (MapGet name k))"

definition mapKeys :: "'b backendOps \<Rightarrow> 'b \<Rightarrow> string \<Rightarrow> string \<Rightarrow> string list \<times> 'b" where
  "mapKeys B b ns name = map_prod keysRes id (bQuery B b ns (MapKeys name))"

definition mapEntries :: "'b backendOps \<Rightarrow> 'b \<Rightarrow> string \<Rightarrow> string \<Rightarrow> (string \<rightharpoonup> val) \<times> 'b" where
  "mapEntries B b ns name = map_prod entriesRes id (bQuery B b ns (MapEntries name))"

definition listAppend :: "'b backendOps \<Rightarrow> 'b \<Rightarrow> string \<Rightarrow> string \<Rightarrow> val \<Rightarrow> goerr \<times> 'b" where
  "listAppend B b ns name v = bApply B b ns [ListAppend name v]"

definition listEntries :: "'b backendOps \<Rightarrow> 'b \<Rightarrow> string \<Rightarrow> string \<Rightarrow> val list \<times> 'b" where
  "listEntries B b ns name =
     map_prod (\<lambda>r. case r of QRaw (VList xs) \<Rightarrow> xs | _ \<Rightarrow> []) id (bQuery B b ns (ListEntries name))"

definition listLen :: "'b backendOps \<Rightarrow> 'b \<Rightarrow> string \<Rightarrow> string \<Rightarrow> nat \<times> 'b" where
  "listLen B b ns name = map_prod (\<lambda>r. case r of QLen n \<Rightarrow> n | _ \<Rightarrow> 0) id (bQuery B b ns (ListLen name))"

section \<open>Keys\<close>

lemma sortFields_perm:
  assumes "mset fs = mset gs" "distinct (map fst fs)"
  shows "sortFields fs = sortFields gs"
proof -
  have st: "set fs = set gs" using assms(1) by (rule mset_eq_setD)
  have "distinct (map fst gs)" using assms by (metis mset_eq_imp_distinct_iff mset_map)
  then have "map_of (rev fs) = map_of (rev gs)"
    using st assms(2) by (intro ext) (metis distinct_rev map_of_eq_Some_iff not_Some_eq rev_map set_rev)
  then show ?thesis using st by (simp add: sortFields_def)
qed

lemma sortFields_sorted: "sorted (map fst (sortFields fs)) \<and> distinct (map fst (sortFields fs))"
  by (simp add: sortFields_def comp_def)

lemma map_of_tabulate: "map_of (map (\<lambda>k. (k, f k)) ks) k = (if k \<in> set ks then Some (f k) else None)"
  by (induction ks) auto

lemma map_of_sortFields: "map_of (sortFields fs) k = map_of (rev fs) k"
proof -
  have "map_of (rev fs) k = None \<longleftrightarrow> k \<notin> fst ` set fs" by (simp add: map_of_eq_None_iff)
  then show ?thesis by (auto simp: sortFields_def map_of_tabulate)
qed

lemma sortFields_id:
  assumes "sorted (map fst fs)" "distinct (map fst fs)"
  shows "sortFields fs = fs"
proof -
  have "the (map_of (rev fs) (fst p)) = snd p" if "p \<in> set fs" for p
  proof -
    have "distinct (map fst (rev fs))" using assms(2) by (simp flip: rev_map)
    moreover have "(fst p, snd p) \<in> set (rev fs)" using that by simp
    ultimately have "map_of (rev fs) (fst p) = Some (snd p)" by (rule map_of_is_SomeI)
    then show ?thesis by simp
  qed
  then show ?thesis using assms
    by (simp add: sortFields_def sorted_list_of_set.idem_if_sorted_distinct comp_def map_idI del: set_map)
qed

lemma sortFields_map: "sortFields (map (\<lambda>(k, v). (k, f v)) fs) = map (\<lambda>(k, v). (k, f v)) (sortFields fs)"
proof -
  have keys: "map fst (map (\<lambda>(k, v). (k, f v)) fs) = map fst fs" by (induction fs) auto
  have "the (map_of (rev (map (\<lambda>(k, v). (k, f v)) fs)) k) = f (the (map_of (rev fs) k))"
    if "k \<in> set (map fst fs)" for k
  proof -
    have "map_of (rev fs) k \<noteq> None" using that by (simp add: map_of_eq_None_iff)
    then show ?thesis by (auto simp: rev_map map_of_map)
  qed
  then show ?thesis unfolding sortFields_def keys by simp
qed

lemma jsonCanon_idem: "jsonCanon (jsonCanon j) = jsonCanon j"
proof (induction j rule: jsonCanon.induct)
  case (2 fs)
  have eq: "map (\<lambda>(k, v). (k, jsonCanon v)) (map (\<lambda>(k, v). (k, jsonCanon v)) fs) = map (\<lambda>(k, v). (k, jsonCanon v)) fs"
    using 2 by auto
  show ?case
    by (simp only: jsonCanon.simps sortFields_map [symmetric] eq)
      (simp add: sortFields_id sortFields_sorted)
qed simp_all

text \<open>The two encodings that the comment in \<^verbatim>\<open>marshalKey\<close> asks to agree: of a struct, and of its decoded map.\<close>

lemma marshalKey_canon: "marshalKey (jsonCanon j) = marshalKey j"
proof -
  have "marshalKey j = jsonMarshal (jsonCanon j)" for j by (cases j) (simp_all add: marshalKey_def)
  then show ?thesis by (simp add: jsonCanon_idem)
qed

section \<open>Every operation works on its own name\<close>

fun opKey :: "Op \<Rightarrow> string" where
  "opKey (ScalarSet k v) = k"
| "opKey (ScalarDelete k) = k"
| "opKey (IntSet k n) = k"
| "opKey (IntAdd k d) = k"
| "opKey (IntMul k f) = k"
| "opKey (IntDiv k d) = k"
| "opKey (SetAdd k x) = k"
| "opKey (SetRemove k x) = k"
| "opKey (IntMapSet k x n) = k"
| "opKey (IntMapAdd k x d) = k"
| "opKey (IntMapMul k x f) = k"
| "opKey (IntMapDiv k x d) = k"
| "opKey (IntMapDelete k x) = k"
| "opKey (MapSet k x v) = k"
| "opKey (MapDelete k x) = k"
| "opKey (ListAppend k v) = k"

lemma ApplyOp_frame: "k \<noteq> opKey op \<Longrightarrow> ApplyOp s op k = s k"
  by (cases op) (auto split: option.splits simp: Let_def)

lemma ApplyOp_local: "s (opKey op) = s' (opKey op) \<Longrightarrow> ApplyOp s op (opKey op) = ApplyOp s' op (opKey op)"
  by (cases op) (auto split: option.splits simp: Let_def getOrCreateSubmap_def)

lemma ApplyOp_cong: "s k = s' k \<Longrightarrow> ApplyOp s op k = ApplyOp s' op k"
  by (cases "k = opKey op") (auto simp: ApplyOp_frame intro: ApplyOp_local)

lemma foldl_ApplyOp_cong: "s k = s' k \<Longrightarrow> foldl ApplyOp s ops k = foldl ApplyOp s' ops k"
proof (induction ops arbitrary: s s')
  case (Cons op ops)
  have "ApplyOp s op k = ApplyOp s' op k" using Cons.prems by (rule ApplyOp_cong)
  then show ?case unfolding foldl_Cons by (rule Cons.IH)
qed simp

lemma foldl_ApplyOp_filter: "foldl ApplyOp s ops k = foldl ApplyOp s (filter (\<lambda>op. opKey op = k) ops) k"
proof (induction ops arbitrary: s)
  case (Cons op ops)
  show ?case
  proof (cases "opKey op = k")
    case False
    then have "foldl ApplyOp (ApplyOp s op) ops k = foldl ApplyOp s ops k"
      by (intro foldl_ApplyOp_cong) (simp add: ApplyOp_frame)
    with False Cons.IH [of s] show ?thesis by simp
  qed (simp add: Cons.IH)
qed simp

lemma ApplyOp_commute: "opKey a \<noteq> opKey b \<Longrightarrow> ApplyOp (ApplyOp s a) b = ApplyOp (ApplyOp s b) a"
  by (rule ext) (metis ApplyOp_cong ApplyOp_frame)

section \<open>The abstract data types\<close>

text \<open>
  What the structures promise: an integer is a number modulo \<open>2 ^ 64\<close> read as signed, a map and a set
  are a finite function on keys, where two keys are the same when \<^const>\<open>marshalKey\<close> gives them the same
  encoding, and a list is a sequence.
\<close>

fun isIntOp :: "Op \<Rightarrow> bool" where
  "isIntOp (IntSet k n) = True"
| "isIntOp (IntAdd k d) = True"
| "isIntOp (IntMul k f) = True"
| "isIntOp (IntDiv k d) = True"
| "isIntOp op = False"

definition quotInt :: "int \<Rightarrow> int \<Rightarrow> int" where
  "quotInt x d = sgn x * sgn d * (\<bar>x\<bar> div \<bar>d\<bar>)"

fun intSpec :: "Op \<Rightarrow> int \<Rightarrow> int" where
  "intSpec (IntSet k n) x = sint n"
| "intSpec (IntAdd k d) x = wrap64 (x + sint d)"
| "intSpec (IntMul k f) x = wrap64 (x * sint f)"
| "intSpec (IntDiv k d) x = (if d = 0 then x else wrap64 (quotInt x (sint d)))"
| "intSpec op x = x"

fun isMapOp :: "Op \<Rightarrow> bool" where
  "isMapOp (MapSet k x v) = True"
| "isMapOp (MapDelete k x) = True"
| "isMapOp (SetAdd k x) = True"
| "isMapOp (SetRemove k x) = True"
| "isMapOp op = False"

fun mapSpec :: "Op \<Rightarrow> (string \<rightharpoonup> val) \<Rightarrow> (string \<rightharpoonup> val)" where
  "mapSpec (MapSet k x v) m = m(marshalKey x \<mapsto> v)"
| "mapSpec (MapDelete k x) m = m(marshalKey x := None)"
| "mapSpec (SetAdd k x) m = m(marshalKey x \<mapsto> VBool True)"
| "mapSpec (SetRemove k x) m = m(marshalKey x := None)"
| "mapSpec op m = m"

fun isListOp :: "Op \<Rightarrow> bool" where
  "isListOp (ListAppend k v) = True"
| "isListOp op = False"

fun listSpec :: "Op \<Rightarrow> val list \<Rightarrow> val list" where
  "listSpec (ListAppend k v) xs = xs @ [v]"
| "listSpec op xs = xs"

definition absInt :: "nsState \<Rightarrow> string \<Rightarrow> int" where
  "absInt s k = sint (toInt64 (s k))"

definition absList :: "nsState \<Rightarrow> string \<Rightarrow> val list" where
  "absList s k = (case asList (s k) of None \<Rightarrow> [] | Some xs \<Rightarrow> xs)"

lemma sint_plus_wrap: "sint (a + b :: int64) = wrap64 (sint a + sint b)"
  by (simp add: wrap64_def)

lemma sint_times_wrap: "sint (a * b :: int64) = wrap64 (sint a * sint b)"
  by (simp add: wrap64_def)

lemma sint_int64Div: "sint (int64Div a b) = wrap64 (quotInt (sint a) (sint b))"
  by (simp add: wrap64_def int64Div_def quotInt_def)

lemma absInt_step: "isIntOp op \<Longrightarrow> absInt (ApplyOp s op) (opKey op) = intSpec op (absInt s (opKey op))"
  by (cases op) (simp_all add: absInt_def toInt64_def [of "Some (VInt _)"] sint_plus_wrap sint_times_wrap sint_int64Div)

lemma absMap_step: "isMapOp op \<Longrightarrow> getOrCreateSubmap (ApplyOp s op) (opKey op) = mapSpec op (getOrCreateSubmap s (opKey op))"
  by (cases op) (auto simp: getOrCreateSubmap_def asMap_def split: option.splits val.splits)

lemma absList_step: "isListOp op \<Longrightarrow> absList (ApplyOp s op) (opKey op) = listSpec op (absList s (opKey op))"
  by (cases op) (auto simp: absList_def asList_def split: option.splits val.splits)

text \<open>A step-wise refinement of one name extends to every sequence of operations, on any names.\<close>

lemma refines_ops:
  assumes step: "\<And>s op. P op \<Longrightarrow> absf (ApplyOp s op) (opKey op) = spec op (absf s (opKey op))"
    and dep: "\<And>(s :: nsState) s'. s k = s' k \<Longrightarrow> absf s k = absf s' k"
    and ops: "\<forall>op \<in> set ops. opKey op = k \<longrightarrow> P op"
  shows "absf (foldl ApplyOp s ops) k = fold spec (filter (\<lambda>op. opKey op = k) ops) (absf s k)"
proof -
  have "absf (foldl ApplyOp s ops) k = fold spec ops (absf s k)" if "\<forall>op \<in> set ops. opKey op = k \<and> P op" for ops s
    using that by (induction ops arbitrary: s) (auto simp: step)
  from this [of "filter (\<lambda>op. opKey op = k) ops"] ops
  have "absf (foldl ApplyOp s (filter (\<lambda>op. opKey op = k) ops)) k = fold spec (filter (\<lambda>op. opKey op = k) ops) (absf s k)"
    by simp
  then show ?thesis
    using dep [of "foldl ApplyOp s ops" "foldl ApplyOp s (filter (\<lambda>op. opKey op = k) ops)", OF foldl_ApplyOp_filter]
    by simp
qed

lemma absInt_dep: "s k = s' k \<Longrightarrow> absInt s k = absInt s' k"
  by (simp add: absInt_def)

lemma absMap_dep: "s k = s' k \<Longrightarrow> getOrCreateSubmap s k = getOrCreateSubmap s' k"
  by (simp add: getOrCreateSubmap_def)

lemma absList_dep: "s k = s' k \<Longrightarrow> absList s k = absList s' k"
  by (simp add: absList_def)

lemmas int_refines = refines_ops [of isIntOp absInt intSpec, OF absInt_step absInt_dep]
  and map_refines = refines_ops [of isMapOp getOrCreateSubmap mapSpec, OF absMap_step absMap_dep]
  and list_refines = refines_ops [of isListOp absList listSpec, OF absList_step absList_dep]

section \<open>The backend interface\<close>

text \<open>
  What the typed structures rely on: a successful \<^verbatim>\<open>Apply\<close> applies its operations in order to its own
  namespace, a failed one changes nothing, and a query answers from the state it leaves unchanged.
\<close>

locale metadata_backend =
  fixes B :: "'b backendOps"
    and bok :: "'b \<Rightarrow> bool"
    and st :: "'b \<Rightarrow> string \<Rightarrow> nsState"
  assumes apply_st: "\<lbrakk>bok b; bApply B b ns ops = (e, b')\<rbrakk> \<Longrightarrow>
      st b' = (if e = [] then (st b)(ns := foldl ApplyOp (st b ns) ops) else st b)"
    and apply_bok: "\<lbrakk>bok b; bApply B b ns ops = (e, b')\<rbrakk> \<Longrightarrow> bok b'"
    and query_ans: "\<lbrakk>bok b; bQuery B b ns q = (r, b')\<rbrakk> \<Longrightarrow> r = queryState (st b ns) q"
    and query_st: "\<lbrakk>bok b; bQuery B b ns q = (r, b')\<rbrakk> \<Longrightarrow> st b' = st b \<and> bok b'"

text \<open>A client's run: its calls in order, with those that returned no error.\<close>

fun runCalls :: "'b backendOps \<Rightarrow> 'b \<Rightarrow> (string \<times> Op list) list \<Rightarrow> (string \<times> Op list) list \<times> 'b" where
  "runCalls B b [] = ([], b)"
| "runCalls B b ((ns, ops) # calls) =
     (case bApply B b ns ops of (e, b1) \<Rightarrow>
      case runCalls B b1 calls of (acc, b2) \<Rightarrow> (if e = [] then (ns, ops) # acc else acc, b2))"

definition opsOf :: "string \<Rightarrow> (string \<times> Op list) list \<Rightarrow> Op list" where
  "opsOf ns calls = concat (map snd (filter (\<lambda>c. fst c = ns) calls))"

definition opsOn :: "string \<Rightarrow> string \<Rightarrow> (string \<times> Op list) list \<Rightarrow> Op list" where
  "opsOn ns name calls = filter (\<lambda>op. opKey op = name) (opsOf ns calls)"

context metadata_backend
begin

lemma run_st:
  "\<lbrakk>bok b; runCalls B b calls = (acc, b')\<rbrakk> \<Longrightarrow> st b' ns = foldl ApplyOp (st b ns) (opsOf ns acc) \<and> bok b'"
proof (induction calls arbitrary: b acc b')
  case (Cons c calls)
  obtain n ops where c: "c = (n, ops)" by (cases c)
  obtain e b1 where a: "bApply B b n ops = (e, b1)" by (cases "bApply B b n ops")
  obtain acc1 b2 where r: "runCalls B b1 calls = (acc1, b2)" by (cases "runCalls B b1 calls")
  have *: "b' = b2" "acc = (if e = [] then (n, ops) # acc1 else acc1)" using Cons.prems(2) a r by (auto simp: c)
  have "st b2 ns = foldl ApplyOp (st b1 ns) (opsOf ns acc1) \<and> bok b2"
    using Cons.IH [OF apply_bok [OF Cons.prems(1) a] r] .
  then show ?case using apply_st [OF Cons.prems(1) a] by (auto simp: * opsOf_def)
qed (simp add: opsOf_def)

lemma query_eq: "bok b \<Longrightarrow> fst (bQuery B b ns q) = queryState (st b ns) q"
  by (cases "bQuery B b ns q") (auto dest: query_ans)

lemma intGet_abs: "bok b \<Longrightarrow> sint (fst (intGet B b ns name)) = absInt (st b ns) name"
  by (simp add: intGet_def query_eq intRes_def absInt_def)

lemma mapGet_abs: "bok b \<Longrightarrow> fst (mapGet B b ns name k) = getOrCreateSubmap (st b ns) name (marshalKey k)"
  by (auto simp: mapGet_def query_eq optRes_def getOrCreateSubmap_def split: option.splits)

lemma mapKeys_abs: "bok b \<Longrightarrow> fst (mapKeys B b ns name) = sorted_list_of_set (dom (getOrCreateSubmap (st b ns) name))"
  by (auto simp: mapKeys_def query_eq keysRes_def getOrCreateSubmap_def split: option.splits)

lemma mapEntries_abs: "bok b \<Longrightarrow> fst (mapEntries B b ns name) = decodeMapKeys (getOrCreateSubmap (st b ns) name)"
  by (auto simp: mapEntries_def query_eq entriesRes_def decodeMapKeys_def getOrCreateSubmap_def split: option.splits)

lemma setContains_abs: "bok b \<Longrightarrow> fst (setContains B b ns name x) \<longleftrightarrow> marshalKey x \<in> dom (getOrCreateSubmap (st b ns) name)"
  by (auto simp: setContains_def query_eq getOrCreateSubmap_def split: option.splits)

lemma setMembers_abs: "bok b \<Longrightarrow> fst (setMembers B b ns name) = sorted_list_of_set (dom (getOrCreateSubmap (st b ns) name))"
  by (auto simp: setMembers_def query_eq keysRes_def getOrCreateSubmap_def split: option.splits)

lemma listEntries_abs: "bok b \<Longrightarrow> fst (listEntries B b ns name) = absList (st b ns) name"
  by (auto simp: listEntries_def query_eq absList_def asList_def split: option.splits val.splits)

lemma listLen_abs: "bok b \<Longrightarrow> fst (listLen B b ns name) = length (absList (st b ns) name)"
  by (auto simp: listLen_def query_eq absList_def split: option.splits)

lemma int_run:
  assumes "bok b" "runCalls B b calls = (acc, b')" "\<forall>op \<in> set (opsOn ns name acc). isIntOp op"
  shows "sint (fst (intGet B b' ns name)) = fold intSpec (opsOn ns name acc) (sint (fst (intGet B b ns name)))"
  using run_st [OF assms(1,2), of ns] assms(1,3) int_refines [of name "opsOf ns acc" "st b ns"]
  by (simp add: intGet_abs opsOn_def)

lemma map_run:
  assumes "bok b" "runCalls B b calls = (acc, b')" "\<forall>op \<in> set (opsOn ns name acc). isMapOp op"
  shows "getOrCreateSubmap (st b' ns) name = fold mapSpec (opsOn ns name acc) (getOrCreateSubmap (st b ns) name)"
  using run_st [OF assms(1,2), of ns] assms(3) map_refines [of name "opsOf ns acc" "st b ns"]
  by (simp add: opsOn_def)

lemma list_run:
  assumes "bok b" "runCalls B b calls = (acc, b')" "\<forall>op \<in> set (opsOn ns name acc). isListOp op"
  shows "fst (listEntries B b' ns name) = fold listSpec (opsOn ns name acc) (fst (listEntries B b ns name))"
  using run_st [OF assms(1,2), of ns] assms(1,3) list_refines [of name "opsOf ns acc" "st b ns"]
  by (simp add: listEntries_abs opsOn_def)

end

section \<open>The in-memory backend\<close>

definition memNsState :: "MemoryBackend \<Rightarrow> string \<Rightarrow> nsState" where
  "memNsState m ns = (case m ns of None \<Rightarrow> Map.empty | Some s \<Rightarrow> s)"

lemma memBackendApply_st:
  "fst (memBackendApply m ns ops) = [] \<and>
   memNsState (snd (memBackendApply m ns ops)) = (memNsState m)(ns := foldl ApplyOp (memNsState m ns) ops)"
  by (cases "m ns") (auto simp: memBackendApply_def memNs_def memNsState_def)

lemma memBackendQuery_st:
  "fst (memBackendQuery m ns q) = queryState (memNsState m ns) q \<and> memNsState (snd (memBackendQuery m ns q)) = memNsState m"
  by (cases "m ns") (auto simp: memBackendQuery_def memNs_def memNsState_def)

interpretation memdb: metadata_backend memoryBackendOps "\<lambda>_. True" memNsState
proof (unfold_locales, goal_cases)
  case (1 b ns ops e b')
  then show ?case using memBackendApply_st [of b ns ops] by (simp add: memoryBackendOps_def)
next
  case (3 b ns q r b')
  then show ?case using memBackendQuery_st [of b ns q] by (simp add: memoryBackendOps_def)
next
  case (4 b ns q r b')
  then show ?case using memBackendQuery_st [of b ns q] by (simp add: memoryBackendOps_def)
qed simp

lemma memRun_all: "fst (runCalls memoryBackendOps m calls) = calls"
proof (induction calls arbitrary: m)
  case (Cons c calls)
  obtain ns ops where c: "c = (ns, ops)" by (cases c)
  obtain e m1 where a: "bApply memoryBackendOps m ns ops = (e, m1)" by (cases "bApply memoryBackendOps m ns ops")
  have "e = []" using a by (auto simp: memoryBackendOps_def memBackendApply_def split: prod.splits)
  then show ?case using Cons.IH [of m1] by (auto simp: c a split: prod.splits)
qed simp

section \<open>Properties\<close>

text \<open>
  C8: an integer of the metadata store refines a number with 64-bit wrap-around: after any sequence of
  \<^verbatim>\<open>Apply\<close> calls, on any namespaces and names, \<^verbatim>\<open>Int.Get\<close> returns the value that the set, add,
  multiply and divide operations on its own name compute from the old one, each wrapped to \<^verbatim>\<open>int64\<close>,
  division truncating and doing nothing when the divisor is zero; operations on other names and
  namespaces do not matter.
\<close>

theorem metadata_int_refines:
  assumes "\<forall>op \<in> set (opsOn ns name calls). isIntOp op"
  shows "sint (fst (intGet memoryBackendOps (snd (runCalls memoryBackendOps m calls)) ns name)) =
      fold intSpec (opsOn ns name calls) (sint (fst (intGet memoryBackendOps m ns name)))"
  using memdb.int_run [of m calls calls "snd (runCalls memoryBackendOps m calls)" ns name] assms memRun_all [of m calls]
  by (simp add: prod_eq_iff)

theorem metadata_int_refines_witness:
  "sint (fst (intGet memoryBackendOps (snd (runCalls memoryBackendOps Map.empty
     [(''git'', [IntSet ''n'' 9223372036854775807, IntAdd ''n'' 1]), (''go'', [IntSet ''n'' 5]),
      (''git'', [ScalarSet ''x'' VNil, IntDiv ''n'' 0, IntDiv ''n'' (- 2)])])) ''git'' ''n'')) = 4611686018427387904"
  using metadata_int_refines [of "''git''" "''n''"
     "[(''git'', [IntSet ''n'' 9223372036854775807, IntAdd ''n'' 1]), (''go'', [IntSet ''n'' 5]),
      (''git'', [ScalarSet ''x'' VNil, IntDiv ''n'' 0, IntDiv ''n'' (- 2)])]" Map.empty]
  by (simp add: opsOn_def opsOf_def wrap64_def quotInt_def)

text \<open>
  Maps and sets of the metadata store refine finite functions on keys: after any sequence of
  \<^verbatim>\<open>Apply\<close> calls, \<^verbatim>\<open>Map.Get\<close> and \<^verbatim>\<open>Set.Contains\<close> answer, and \<^verbatim>\<open>Keys\<close> and \<^verbatim>\<open>Members\<close> list in order, the
  function that the operations on the structure's own name build from the old entries, the last write
  of each key winning.
\<close>

lemma metadata_map_refines:
  fixes m :: MemoryBackend
  assumes "\<forall>op \<in> set (opsOn ns name calls). isMapOp op"
    and "m' = snd (runCalls memoryBackendOps m calls)"
    and "M = fold mapSpec (opsOn ns name calls) (getOrCreateSubmap (memNsState m ns) name)"
  shows "fst (mapGet memoryBackendOps m' ns name k) = M (marshalKey k) \<and>
    fst (setContains memoryBackendOps m' ns name k) = (marshalKey k \<in> dom M) \<and>
    fst (mapKeys memoryBackendOps m' ns name) = sorted_list_of_set (dom M) \<and>
    fst (mapEntries memoryBackendOps m' ns name) = decodeMapKeys M \<and>
    fst (setMembers memoryBackendOps m' ns name) = sorted_list_of_set (dom M)"
proof -
  have "getOrCreateSubmap (memNsState m' ns) name = M"
    using memdb.map_run [of m calls calls m' ns name] assms memRun_all [of m calls] by (simp add: prod_eq_iff)
  then show ?thesis
    by (simp add: memdb.mapGet_abs memdb.setContains_abs memdb.mapKeys_abs memdb.mapEntries_abs memdb.setMembers_abs)
qed

lemma metadata_map_refines_witness:
  "fst (mapGet memoryBackendOps (snd (runCalls memoryBackendOps Map.empty
     [(''git'', [MapSet ''etags'' (JStr ''a'') (VStr ''1''), MapSet ''etags'' (JStr ''b'') (VStr ''2'')]),
      (''git'', [MapDelete ''etags'' (JStr ''b''), MapSet ''etags'' (JStr ''a'') (VStr ''3'')])]))
     ''git'' ''etags'' (JStr ''a'')) = Some (VStr ''3'')"
  using metadata_map_refines [of "''git''" "''etags''"
     "[(''git'', [MapSet ''etags'' (JStr ''a'') (VStr ''1''), MapSet ''etags'' (JStr ''b'') (VStr ''2'')]),
      (''git'', [MapDelete ''etags'' (JStr ''b''), MapSet ''etags'' (JStr ''a'') (VStr ''3'')])]", OF _ refl refl, of Map.empty "JStr ''a''"]
  by (simp add: opsOn_def opsOf_def marshalKey_def jsonString_def jsonEscape_def getOrCreateSubmap_def memNsState_def asMap_def)

text \<open>
  Two encodings of a composite key are the same key: reordering the fields of an object, as
  happens when a struct key comes back from the wire as a map, and decoding and encoding a key again
  do not change the result of \<^verbatim>\<open>marshalKey\<close>.
\<close>

lemma marshalKey_field_order:
  assumes "mset fs = mset gs" "distinct (map fst fs)"
  shows "marshalKey (JObj fs) = marshalKey (JObj gs) \<and> marshalKey (jsonCanon (JObj fs)) = marshalKey (JObj gs)"
proof -
  let ?c = "\<lambda>(k, v). (k, jsonCanon v)"
  have "map fst (map ?c fs) = map fst fs" by (induction fs) auto
  then have "sortFields (map ?c fs) = sortFields (map ?c gs)"
    using assms by (intro sortFields_perm) (simp_all del: map_map)
  then have "marshalKey (JObj fs) = marshalKey (JObj gs)" by (simp add: marshalKey_def)
  then show ?thesis by (simp only: marshalKey_canon)
qed

lemma marshalKey_field_order_witness:
  "marshalKey (JObj [(''repo'', JStr ''r''), (''depth'', JNum ''1'')]) =
   marshalKey (JObj [(''depth'', JNum ''1''), (''repo'', JStr ''r'')])"
  using marshalKey_field_order [of "[(''repo'', JStr ''r''), (''depth'', JNum ''1'')]"
      "[(''depth'', JNum ''1''), (''repo'', JStr ''r'')]"] by simp

text \<open>
  A query of the in-memory backend leaves its state alone exactly when the namespace already
  exists; on a namespace that was never used it inserts an entry, although \<^verbatim>\<open>Query\<close> holds only the read
  lock and another query may be reading or inserting at the same time.
\<close>

lemma memory_query_inserts:
  "snd (bQuery memoryBackendOps m ns q) = m \<longleftrightarrow> ns \<in> dom m"
proof (cases "m ns")
  case None
  then show ?thesis
    by (auto simp: memoryBackendOps_def memBackendQuery_def memNs_def dest: fun_cong [where x = ns])
qed (auto simp: memoryBackendOps_def memBackendQuery_def memNs_def)

end
