(* ===== verification/MetadataWire.thy ===== *)
theory MetadataWire
  imports MetadataOps
begin

text \<open>
  The wire format of the S3 metadata backend, \<^verbatim>\<open>internal/metadatadb/s3/wire.go\<close>: operations, segments and
  states as JSON documents, and the order of the journal.

  A value that went over the wire comes back in normal form: an \<^verbatim>\<open>int64\<close> as the literal of a
  \<^verbatim>\<open>json.Number\<close>, a struct as a map.  The lemmas show that segments and states decode to what was encoded
  up to this normal form, that every structure keeps its type, and that the operations cannot tell a
  well-typed state from its normal form.  A decoded field is matched with a struct field without regard
  to the case of ASCII letters.
\<close>

section \<open>Model: values on the wire\<close>

definition fieldsOf :: "(string \<rightharpoonup> 'a) \<Rightarrow> (string \<times> 'a) list" where
  "fieldsOf m = map (\<lambda>k. (k, the (m k))) (sorted_list_of_set (dom m))"

text \<open>\<^verbatim>\<open>json.Marshal\<close> of an \<^verbatim>\<open>any\<close>; an empty \<^verbatim>\<open>json.Number\<close> is written as 0.\<close>

primrec valJson :: "val \<Rightarrow> json" where
  "valJson VNil = JNull"
| "valJson (VBool b) = JBool b"
| "valJson (VInt n) = JNum (FormatInt (sint n))"
| "valJson (VFloat m e lit) = JNum lit"
| "valJson (VNum s) = JNum (if s = [] then ''0'' else s)"
| "valJson (VStr s) = JStr s"
| "valJson (VList xs) = JArr (map valJson xs)"
| "valJson (VMap m) = JObj (fieldsOf (\<lambda>k. map_option valJson (m k)))"
| "valJson (VGo j) = j"

text \<open>Decoding into an \<^verbatim>\<open>any\<close> with \<^verbatim>\<open>UseNumber\<close>.\<close>

fun jsonVal :: "json \<Rightarrow> val" where
  "jsonVal JNull = VNil"
| "jsonVal (JBool b) = VBool b"
| "jsonVal (JNum s) = VNum s"
| "jsonVal (JStr s) = VStr s"
| "jsonVal (JArr xs) = VList (map jsonVal xs)"
| "jsonVal (JObj fs) = VMap (map_of (rev (map (\<lambda>(k, v). (k, jsonVal v)) fs)))"

definition marshalState :: "nsState \<Rightarrow> string option" where
  "marshalState s = (let j = valJson (VMap s) in if wfJson j then Some (jsonMarshal j) else None)"

text \<open>A JSON null decodes to a nil map, which is refused, as is every document that is not an object.\<close>

definition unmarshalState :: "string \<Rightarrow> nsState option" where
  "unmarshalState data =
     (case jsonDecode data of
        Some (JObj fs) \<Rightarrow> Some (map_of (rev (map (\<lambda>(k, v). (k, jsonVal v)) fs)))
      | _ \<Rightarrow> None)"

section \<open>Model: operations on the wire\<close>

fun opName :: "Op \<Rightarrow> string" where
  "opName (ScalarSet k v) = ''ScalarSet''"
| "opName (ScalarDelete k) = ''ScalarDelete''"
| "opName (IntSet k n) = ''IntSet''"
| "opName (IntAdd k d) = ''IntAdd''"
| "opName (IntMul k f) = ''IntMul''"
| "opName (IntDiv k d) = ''IntDiv''"
| "opName (SetAdd k x) = ''SetAdd''"
| "opName (SetRemove k x) = ''SetRemove''"
| "opName (IntMapSet k x n) = ''IntMapSet''"
| "opName (IntMapAdd k x d) = ''IntMapAdd''"
| "opName (IntMapMul k x f) = ''IntMapMul''"
| "opName (IntMapDiv k x d) = ''IntMapDiv''"
| "opName (IntMapDelete k x) = ''IntMapDelete''"
| "opName (MapSet k x v) = ''MapSet''"
| "opName (MapDelete k x) = ''MapDelete''"
| "opName (ListAppend k v) = ''ListAppend''"

definition jInt :: "int64 \<Rightarrow> json" where
  "jInt n = JNum (FormatInt (sint n))"

text \<open>The fields of an operation's struct in their order.\<close>

fun opFields :: "Op \<Rightarrow> (string \<times> json) list" where
  "opFields (ScalarSet k v) = [(''Key'', JStr k), (''Value'', valJson v)]"
| "opFields (ScalarDelete k) = [(''Key'', JStr k)]"
| "opFields (IntSet k n) = [(''Key'', JStr k), (''Value'', jInt n)]"
| "opFields (IntAdd k d) = [(''Key'', JStr k), (''Delta'', jInt d)]"
| "opFields (IntMul k f) = [(''Key'', JStr k), (''Factor'', jInt f)]"
| "opFields (IntDiv k d) = [(''Key'', JStr k), (''Divisor'', jInt d)]"
| "opFields (SetAdd k x) = [(''Key'', JStr k), (''Member'', x)]"
| "opFields (SetRemove k x) = [(''Key'', JStr k), (''Member'', x)]"
| "opFields (IntMapSet k x n) = [(''Key'', JStr k), (''MapKey'', x), (''Value'', jInt n)]"
| "opFields (IntMapAdd k x d) = [(''Key'', JStr k), (''MapKey'', x), (''Delta'', jInt d)]"
| "opFields (IntMapMul k x f) = [(''Key'', JStr k), (''MapKey'', x), (''Factor'', jInt f)]"
| "opFields (IntMapDiv k x d) = [(''Key'', JStr k), (''MapKey'', x), (''Divisor'', jInt d)]"
| "opFields (IntMapDelete k x) = [(''Key'', JStr k), (''MapKey'', x)]"
| "opFields (MapSet k x v) = [(''Key'', JStr k), (''MapKey'', x), (''Value'', valJson v)]"
| "opFields (MapDelete k x) = [(''Key'', JStr k), (''MapKey'', x)]"
| "opFields (ListAppend k v) = [(''Key'', JStr k), (''Value'', valJson v)]"

definition quoted :: "string \<Rightarrow> string" where
  "quoted s = CHR 0x22 # s @ [CHR 0x22]"

definition encodeOp :: "Op \<Rightarrow> string option" where
  "encodeOp op =
     (let obj = JObj (opFields op); data = jsonMarshal obj
      in if \<not> wfJson obj then None
         else if data = ''{}'' then Some (''{'' @ quoted ''op'' @ '':'' @ quoted (opName op) @ ''}'')
         else Some (''{'' @ quoted ''op'' @ '':'' @ quoted (opName op) @ '','' @ tl data))"

definition lower :: "string \<Rightarrow> string" where
  "lower s = map (\<lambda>c. let n = (of_char c :: nat) in if 65 \<le> n \<and> n \<le> 90 then char_of (n + 32) else c) s"

text \<open>
  Decoding an object into a struct: the values given to a field in order.  A null leaves a string or an
  integer as it is, a value of the wrong type is an error, and a field that is not given is zero.
\<close>

definition fieldVals :: "(string \<times> json) list \<Rightarrow> string \<Rightarrow> json list" where
  "fieldVals fs name = map snd (filter (\<lambda>f. lower (fst f) = lower name) fs)"

fun decodeStr :: "string \<Rightarrow> json list \<Rightarrow> string option" where
  "decodeStr acc [] = Some acc"
| "decodeStr acc (JNull # js) = decodeStr acc js"
| "decodeStr acc (JStr s # js) = decodeStr s js"
| "decodeStr acc (j # js) = None"

fun decodeInt :: "int64 \<Rightarrow> json list \<Rightarrow> int64 option" where
  "decodeInt acc [] = Some acc"
| "decodeInt acc (JNull # js) = decodeInt acc js"
| "decodeInt acc (JNum s # js) = (case ParseInt s of None \<Rightarrow> None | Some i \<Rightarrow> decodeInt (word_of_int i) js)"
| "decodeInt acc (j # js) = None"

definition strField :: "(string \<times> json) list \<Rightarrow> string \<Rightarrow> string option" where
  "strField fs name = decodeStr [] (fieldVals fs name)"

definition intField :: "(string \<times> json) list \<Rightarrow> string \<Rightarrow> int64 option" where
  "intField fs name = decodeInt 0 (fieldVals fs name)"

definition anyField :: "(string \<times> json) list \<Rightarrow> string \<Rightarrow> json" where
  "anyField fs name = (case fieldVals fs name of [] \<Rightarrow> JNull | j # js \<Rightarrow> last (j # js))"

definition valField :: "(string \<times> json) list \<Rightarrow> string \<Rightarrow> val" where
  "valField fs name = jsonVal (anyField fs name)"

definition keyField :: "(string \<times> json) list \<Rightarrow> string \<Rightarrow> json" where
  "keyField fs name = jsonCanon (anyField fs name)"

definition opTypes :: "(string \<times> ((string \<times> json) list \<Rightarrow> string \<Rightarrow> Op option)) list" where
  "opTypes =
     [(''ScalarSet'', \<lambda>fs k. Some (ScalarSet k (valField fs ''Value''))),
      (''ScalarDelete'', \<lambda>fs k. Some (ScalarDelete k)),
      (''IntSet'', \<lambda>fs k. map_option (IntSet k) (intField fs ''Value'')),
      (''IntAdd'', \<lambda>fs k. map_option (IntAdd k) (intField fs ''Delta'')),
      (''IntMul'', \<lambda>fs k. map_option (IntMul k) (intField fs ''Factor'')),
      (''IntDiv'', \<lambda>fs k. map_option (IntDiv k) (intField fs ''Divisor'')),
      (''SetAdd'', \<lambda>fs k. Some (SetAdd k (keyField fs ''Member''))),
      (''SetRemove'', \<lambda>fs k. Some (SetRemove k (keyField fs ''Member''))),
      (''IntMapSet'', \<lambda>fs k. map_option (IntMapSet k (keyField fs ''MapKey'')) (intField fs ''Value'')),
      (''IntMapAdd'', \<lambda>fs k. map_option (IntMapAdd k (keyField fs ''MapKey'')) (intField fs ''Delta'')),
      (''IntMapMul'', \<lambda>fs k. map_option (IntMapMul k (keyField fs ''MapKey'')) (intField fs ''Factor'')),
      (''IntMapDiv'', \<lambda>fs k. map_option (IntMapDiv k (keyField fs ''MapKey'')) (intField fs ''Divisor'')),
      (''IntMapDelete'', \<lambda>fs k. Some (IntMapDelete k (keyField fs ''MapKey''))),
      (''MapSet'', \<lambda>fs k. Some (MapSet k (keyField fs ''MapKey'') (valField fs ''Value''))),
      (''MapDelete'', \<lambda>fs k. Some (MapDelete k (keyField fs ''MapKey''))),
      (''ListAppend'', \<lambda>fs k. Some (ListAppend k (valField fs ''Value'')))]"

definition decodeOpJson :: "json \<Rightarrow> Op option" where
  "decodeOpJson j =
     (case j of
        JObj fs \<Rightarrow>
          (case strField fs ''op'' of
             None \<Rightarrow> None
           | Some name \<Rightarrow>
              (case map_of opTypes name of
                 None \<Rightarrow> None
               | Some dec \<Rightarrow> (case strField fs ''Key'' of None \<Rightarrow> None | Some k \<Rightarrow> dec fs k)))
      | _ \<Rightarrow> None)"

definition decodeOp :: "string \<Rightarrow> Op option" where
  "decodeOp data = (case jsonUnmarshal data of None \<Rightarrow> None | Some j \<Rightarrow> decodeOpJson j)"

fun collect :: "'a option list \<Rightarrow> 'a list option" where
  "collect [] = Some []"
| "collect (None # xs) = None"
| "collect (Some x # xs) = map_option (Cons x) (collect xs)"

definition marshalSegment :: "Op list \<Rightarrow> string option" where
  "marshalSegment ops =
     map_option (\<lambda>ds. ''{'' @ quoted ''ops'' @ '':['' @ joinWith '','' ds @ '']}'') (collect (map encodeOp ops))"

text \<open>
  The raw message of an operation is the text of an element of the array, so decoding it reads the
  element itself.  A segment without the field, or with null, has no operations.
\<close>

fun decodeSlice :: "json list \<Rightarrow> json list \<Rightarrow> json list option" where
  "decodeSlice acc [] = Some acc"
| "decodeSlice acc (JNull # js) = decodeSlice [] js"
| "decodeSlice acc (JArr xs # js) = decodeSlice xs js"
| "decodeSlice acc (j # js) = None"

definition unmarshalSegment :: "string \<Rightarrow> Op list option" where
  "unmarshalSegment data =
     (case jsonUnmarshal data of
        Some (JObj fs) \<Rightarrow>
          (case decodeSlice [] (fieldVals fs ''ops'') of None \<Rightarrow> None | Some xs \<Rightarrow> collect (map decodeOpJson xs))
      | Some JNull \<Rightarrow> Some []
      | _ \<Rightarrow> None)"

section \<open>Model: the order of the journal\<close>

record mark =
  LM :: time
  mKey :: string

definition covers :: "mark \<Rightarrow> time \<Rightarrow> string \<Rightarrow> bool" where
  "covers m lm key = (if lm \<noteq> LM m then lm < LM m else key \<le> mKey m)"

text \<open>The body of a rollup: the raw state and the mark up to which segments are folded into it.\<close>

record rollupBody =
  State :: string
  Mark :: mark

section \<open>Decoding what was encoded\<close>

definition norm :: "val \<Rightarrow> val" where
  "norm v = jsonVal (valJson v)"

fun normOp :: "Op \<Rightarrow> Op" where
  "normOp (ScalarSet k v) = ScalarSet k (norm v)"
| "normOp (SetAdd k x) = SetAdd k (jsonCanon x)"
| "normOp (SetRemove k x) = SetRemove k (jsonCanon x)"
| "normOp (IntMapSet k x n) = IntMapSet k (jsonCanon x) n"
| "normOp (IntMapAdd k x d) = IntMapAdd k (jsonCanon x) d"
| "normOp (IntMapMul k x f) = IntMapMul k (jsonCanon x) f"
| "normOp (IntMapDiv k x d) = IntMapDiv k (jsonCanon x) d"
| "normOp (IntMapDelete k x) = IntMapDelete k (jsonCanon x)"
| "normOp (MapSet k x v) = MapSet k (jsonCanon x) (norm v)"
| "normOp (MapDelete k x) = MapDelete k (jsonCanon x)"
| "normOp (ListAppend k v) = ListAppend k (norm v)"
| "normOp op = op"

definition opJson :: "Op \<Rightarrow> json" where
  "opJson op = JObj ((''op'', JStr (opName op)) # opFields op)"

lemma opFields_Cons: "\<exists>fs. opFields op = (''Key'', JStr (opKey op)) # fs"
  by (cases op) auto

lemma jsonString_opName: "jsonString (opName op) = quoted (opName op)"
  by (cases op) (simp_all add: jsonString_def jsonEscape_def quoted_def)

lemma encodeOp_marshal: "encodeOp op = (if wfJson (JObj (opFields op)) then Some (jsonMarshal (opJson op)) else None)"
proof -
  obtain fs where fs: "opFields op = (''Key'', JStr (opKey op)) # fs" using opFields_Cons by blast
  have "jsonString ''op'' = quoted ''op''" by (simp add: jsonString_def jsonEscape_def quoted_def)
  then show ?thesis
    by (cases fs) (auto simp: encodeOp_def Let_def opJson_def fs jsonString_opName quoted_def)
qed

lemma ParseInt_FormatInt_sint [simp]: "ParseInt (FormatInt (sint (n :: int64))) = Some (sint n)"
  using ParseInt_FormatInt [OF in_int64_wrap64 [of "sint n"]] by (simp add: wrap64_def)

lemmas field_simps_wire = strField_def intField_def valField_def keyField_def anyField_def fieldVals_def lower_def Let_def

lemma decodeOpJson_opJson: "decodeOpJson (opJson op) = Some (normOp op)"
  by (cases op) (simp_all add: decodeOpJson_def opJson_def opTypes_def field_simps_wire jInt_def norm_def)

lemma wfJson_opJson: "wfJson (JObj (opFields op)) \<Longrightarrow> wfJson (opJson op)"
  by (simp add: opJson_def)

lemma decodeOp_encodeOp: "encodeOp op = Some d \<Longrightarrow> decodeOp d = Some (normOp op)"
  by (auto simp: encodeOp_marshal decodeOp_def jsonUnmarshal_marshal wfJson_opJson decodeOpJson_opJson split: if_splits)

lemma collect_Some: "collect xs = Some ys \<longleftrightarrow> xs = map Some ys"
  by (induction xs arbitrary: ys rule: collect.induct) auto

lemma collect_encodeOp:
  "collect (map encodeOp ops) = Some ds \<Longrightarrow> ds = map (jsonMarshal \<circ> opJson) ops \<and> (\<forall>op \<in> set ops. wfJson (opJson op))"
  by (induction ops arbitrary: ds)
    (auto simp: encodeOp_marshal wfJson_opJson split: if_splits)

lemma marshalSegment_marshal:
  assumes "marshalSegment ops = Some d"
  shows "d = jsonMarshal (JObj [(''ops'', JArr (map opJson ops))]) \<and> (\<forall>op \<in> set ops. wfJson (opJson op))"
proof -
  obtain ds where ds: "collect (map encodeOp ops) = Some ds" "d = ''{'' @ quoted ''ops'' @ '':['' @ joinWith '','' ds @ '']}''"
    using assms by (auto simp: marshalSegment_def)
  have "jsonString ''ops'' = quoted ''ops''" by (simp add: jsonString_def jsonEscape_def quoted_def)
  then show ?thesis using collect_encodeOp [OF ds(1)] ds(2) by (simp add: comp_def)
qed

lemma unmarshalSegment_marshalSegment: "marshalSegment ops = Some d \<Longrightarrow> unmarshalSegment d = Some (map normOp ops)"
proof -
  assume m: "marshalSegment ops = Some d"
  have "jsonUnmarshal d = Some (JObj [(''ops'', JArr (map opJson ops))])"
    using marshalSegment_marshal [OF m] jsonUnmarshal_marshal [of "JObj [(''ops'', JArr (map opJson ops))]"] by simp
  then show ?thesis
    by (simp add: unmarshalSegment_def fieldVals_def collect_Some decodeOpJson_opJson)
qed

section \<open>Types\<close>

text \<open>
  Each name of a namespace is used as one structure.  A schema gives its kind; the kind fixes the form of
  the stored value, so that no operation meets a value of another structure.
\<close>

datatype kind = KScalar | KInt | KSet | KIntMap | KMap | KList

definition isInt :: "val \<Rightarrow> bool" where
  "isInt v \<longleftrightarrow> (\<exists>n. v = VInt n \<or> v = VNum (FormatInt (sint (n :: int64))))"

fun wtVal :: "kind \<Rightarrow> val \<Rightarrow> bool" where
  "wtVal KScalar v = True"
| "wtVal KInt v = isInt v"
| "wtVal KSet v = (\<exists>m. v = VMap m \<and> finite (dom m))"
| "wtVal KIntMap v = (\<exists>m. v = VMap m \<and> finite (dom m) \<and> (\<forall>x \<in> ran m. isInt x))"
| "wtVal KMap v = (\<exists>m. v = VMap m \<and> finite (dom m))"
| "wtVal KList v = (\<exists>xs. v = VList xs)"

fun opKind :: "Op \<Rightarrow> kind" where
  "opKind (ScalarSet k v) = KScalar"
| "opKind (ScalarDelete k) = KScalar"
| "opKind (IntSet k n) = KInt"
| "opKind (IntAdd k d) = KInt"
| "opKind (IntMul k f) = KInt"
| "opKind (IntDiv k d) = KInt"
| "opKind (SetAdd k x) = KSet"
| "opKind (SetRemove k x) = KSet"
| "opKind (IntMapSet k x n) = KIntMap"
| "opKind (IntMapAdd k x d) = KIntMap"
| "opKind (IntMapMul k x f) = KIntMap"
| "opKind (IntMapDiv k x d) = KIntMap"
| "opKind (IntMapDelete k x) = KIntMap"
| "opKind (MapSet k x v) = KMap"
| "opKind (MapDelete k x) = KMap"
| "opKind (ListAppend k v) = KList"

definition wtOp :: "(string \<Rightarrow> kind) \<Rightarrow> Op \<Rightarrow> bool" where
  "wtOp sch op \<longleftrightarrow> sch (opKey op) = opKind op"

definition wtState :: "(string \<Rightarrow> kind) \<Rightarrow> nsState \<Rightarrow> bool" where
  "wtState sch s \<longleftrightarrow> finite (dom s) \<and> (\<forall>k v. s k = Some v \<longrightarrow> wtVal (sch k) v)"

lemma isInt_VInt [simp]: "isInt (VInt n)" by (auto simp: isInt_def)

lemma ran_upd: "x \<in> ran (m(k \<mapsto> v)) \<Longrightarrow> x = v \<or> x \<in> ran m"
  by (auto simp: ran_def split: if_splits)

lemma ran_del: "x \<in> ran (m(k := None)) \<Longrightarrow> x \<in> ran m"
  by (auto simp: ran_def split: if_splits)

lemma wtVal_mapD: "wtVal kd v \<Longrightarrow> kd \<in> {KSet, KMap, KIntMap} \<Longrightarrow> \<exists>m. v = VMap m \<and> finite (dom m)"
  by (cases kd) auto

lemma getOrCreateSubmap_wt:
  assumes "\<forall>v. s k = Some v \<longrightarrow> wtVal kd v" "kd \<in> {KSet, KMap, KIntMap}"
  shows "finite (dom (getOrCreateSubmap s k))" "kd = KIntMap \<Longrightarrow> \<forall>x \<in> ran (getOrCreateSubmap s k). isInt x"
  using assms by (cases "s k"; auto simp: getOrCreateSubmap_def asMap_def)+

lemma asMap_wt:
  assumes "\<forall>v. s k = Some v \<longrightarrow> wtVal kd v" "kd \<in> {KSet, KMap, KIntMap}" "asMap (s k) = Some m"
  shows "finite (dom m)" "kd = KIntMap \<Longrightarrow> \<forall>x \<in> ran m. isInt x"
  using assms by (cases "s k"; auto simp: asMap_def split: val.splits)+

lemma ApplyOp_wt_own:
  assumes "\<forall>v. s (opKey op) = Some v \<longrightarrow> wtVal (opKind op) v" "ApplyOp s op (opKey op) = Some v"
  shows "wtVal (opKind op) v"
proof (cases "opKind op \<in> {KSet, KMap, KIntMap}")
  case True
  note sub = getOrCreateSubmap_wt [of s "opKey op" "opKind op", OF assms(1) True]
    and amap = asMap_wt [of s "opKey op" "opKind op", OF assms(1) True]
  show ?thesis using assms True sub amap
    by (cases op) (auto simp: Let_def split: option.splits if_splits dest!: ran_upd ran_del)
next
  case False
  then show ?thesis using assms by (cases op) (auto split: if_splits)
qed

lemma ApplyOp_finite: "finite (dom s) \<Longrightarrow> finite (dom (ApplyOp s op))"
  by (cases op) (auto simp: Let_def split: option.splits)

lemma ApplyOp_wt: "wtState sch s \<Longrightarrow> wtOp sch op \<Longrightarrow> wtState sch (ApplyOp s op)"
proof -
  assume s: "wtState sch s" and op: "wtOp sch op"
  have "wtVal (sch k) v" if "ApplyOp s op k = Some v" for k v
  proof (cases "k = opKey op")
    case True
    have "\<forall>v. s (opKey op) = Some v \<longrightarrow> wtVal (opKind op) v" using s op by (metis wtState_def wtOp_def)
    with that True op show ?thesis using ApplyOp_wt_own [of s op v] by (simp add: wtOp_def)
  qed (use that s in \<open>auto simp: ApplyOp_frame wtState_def\<close>)
  then show ?thesis using s by (auto simp: wtState_def ApplyOp_finite)
qed

lemma foldl_ApplyOp_wt: "wtState sch s \<Longrightarrow> \<forall>op \<in> set ops. wtOp sch op \<Longrightarrow> wtState sch (foldl ApplyOp s ops)"
  by (induction ops arbitrary: s) (auto simp: ApplyOp_wt)

lemma wtState_empty: "wtState sch Map.empty"
  by (simp add: wtState_def)

lemma wtOp_normOp [simp]: "wtOp sch (normOp op) = wtOp sch op"
  by (cases op) (simp_all add: wtOp_def)

section \<open>Normal forms\<close>

definition normMap :: "(string \<rightharpoonup> val) \<Rightarrow> (string \<rightharpoonup> val)" where
  "normMap m = (\<lambda>k. map_option norm (m k))"

lemma map_of_rev_tabulate: "distinct ks \<Longrightarrow> map_of (rev (map (\<lambda>k. (k, f k)) ks)) k = (if k \<in> set ks then Some (f k) else None)"
  using map_of_tabulate [of f "rev ks" k] by (simp add: rev_map)

lemma map_of_fieldsOf: "finite (dom m) \<Longrightarrow> map_of (rev (map (\<lambda>(k, v). (k, f v)) (fieldsOf m))) = (\<lambda>k. map_option f (m k))"
proof (rule ext)
  fix k
  assume "finite (dom m)"
  then have "map_of (rev (map (\<lambda>(k, v). (k, f v)) (fieldsOf m))) k = (if k \<in> dom m then Some (f (the (m k))) else None)"
    using map_of_rev_tabulate [of "sorted_list_of_set (dom m)" "\<lambda>k. f (the (m k))" k] by (simp add: fieldsOf_def comp_def)
  then show "map_of (rev (map (\<lambda>(k, v). (k, f v)) (fieldsOf m))) k = map_option f (m k)" by auto
qed

lemma norm_VMap: "finite (dom m) \<Longrightarrow> norm (VMap m) = VMap (normMap m)"
proof -
  assume "finite (dom m)"
  then have "finite (dom (\<lambda>k. map_option valJson (m k)))" by (simp add: dom_def)
  from map_of_fieldsOf [OF this, of jsonVal] show ?thesis
    by (simp add: norm_def [abs_def] normMap_def option.map_comp comp_def)
qed

lemma norm_VList: "norm (VList xs) = VList (map norm xs)"
  by (simp add: norm_def)

lemma norm_VInt: "norm (VInt n) = VNum (FormatInt (sint n))"
  by (simp add: norm_def)

lemma norm_VBool: "norm (VBool b) = VBool b"
  by (simp add: norm_def)

lemma FormatInt_sint_inject: "FormatInt (sint n) = FormatInt (sint m) \<longleftrightarrow> n = (m :: int64)"
  by (metis ParseInt_FormatInt_sint option.inject signed_word_eqI)

lemma span_digits_all: "\<forall>c \<in> set s. is_digit c \<Longrightarrow> span_digits s = (s, [])"
  by (induction s) auto

lemma hd_show_nat: "hd (show_nat n) = CHR ''0'' \<Longrightarrow> n = 0"
proof (induction n rule: show_nat.induct)
  case (1 n)
  show ?case
  proof (cases "n < 10")
    case True
    then have "digit_char n = CHR ''0''" using "1.prems" by (simp add: show_nat.simps [of n])
    then show ?thesis using of_char_digit_char [OF True] by simp
  next
    case False
    then have "show_nat n = show_nat (n div 10) @ [digit_char (n mod 10)]" by (subst show_nat.simps) simp
    then show ?thesis using 1 False by (simp add: hd_append)
  qed
qed

lemma validNumber_FormatInt: "validNumber (FormatInt i)"
proof -
  have d: "span_digits (show_nat n) = (show_nat n, [])" for n using show_nat_digits by (intro span_digits_all) blast
  have z: "hd (show_nat n) = CHR ''0'' \<longrightarrow> length (show_nat n) = 1" for n
  proof
    assume "hd (show_nat n) = CHR ''0''"
    then have "n = 0" by (rule hd_show_nat)
    then show "length (show_nat n) = 1" by (subst show_nat.simps) simp
  qed
  have "(case show_nat n of [] \<Rightarrow> [] | c # cs \<Rightarrow> if c = CHR ''-'' then cs else show_nat n) = show_nat n" for n
  proof (cases "show_nat n")
    case (Cons c cs)
    then have "is_digit c" using show_nat_digits [of c n] by simp
    then show ?thesis using Cons is_digit_not_sign [of c] by simp
  qed simp
  with z show ?thesis by (simp add: validNumber_def FormatInt_def d)
qed

lemma toInt64_norm: "isInt v \<Longrightarrow> isInt w \<Longrightarrow> norm v = norm w \<Longrightarrow> toInt64 (Some v) = toInt64 (Some w)"
  by (auto simp: isInt_def norm_def toInt64_def FormatInt_sint_inject)

lemma toInt64_isInt: "isInt v \<Longrightarrow> norm v = VNum (FormatInt (sint (toInt64 (Some v))))"
  by (auto simp: isInt_def norm_def toInt64_def)

lemma unmarshalState_marshalState:
  assumes "finite (dom s)" "marshalState s = Some d"
  shows "unmarshalState d = Some (normMap s)"
proof -
  have wf: "wfJson (valJson (VMap s))" and d: "d = jsonMarshal (valJson (VMap s))"
    using assms(2) by (auto simp: marshalState_def Let_def split: if_splits)
  have "finite (dom (\<lambda>k. map_option valJson (s k)))" using assms(1) by (simp add: dom_def)
  from map_of_fieldsOf [OF this, of jsonVal] jsonDecode_marshal [OF wf] show ?thesis
    by (simp add: unmarshalState_def d normMap_def option.map_comp comp_def norm_def [abs_def])
qed

text \<open>Two states, and two operations, that the wire cannot tell apart.\<close>

definition sameState :: "nsState \<Rightarrow> nsState \<Rightarrow> bool" where
  "sameState s t \<longleftrightarrow> normMap s = normMap t"

definition sameOp :: "Op \<Rightarrow> Op \<Rightarrow> bool" where
  "sameOp a b \<longleftrightarrow> normOp a = normOp b"

definition sameVal :: "val option \<Rightarrow> val option \<Rightarrow> bool" where
  "sameVal v w \<longleftrightarrow> map_option norm v = map_option norm w"

lemma sameState_iff: "sameState s t \<longleftrightarrow> (\<forall>k. sameVal (s k) (t k))"
  by (auto simp: sameState_def normMap_def sameVal_def fun_eq_iff)

lemma sameVal_None [simp]: "sameVal None w \<longleftrightarrow> w = None" "sameVal v None \<longleftrightarrow> v = None"
  by (auto simp: sameVal_def)

lemma sameVal_Some [simp]: "sameVal (Some v) (Some w) \<longleftrightarrow> norm v = norm w"
  by (simp add: sameVal_def)

lemma marshalKey_same: "jsonCanon x = jsonCanon y \<Longrightarrow> marshalKey x = marshalKey y"
  by (metis marshalKey_canon)

lemma same_VMap:
  "\<lbrakk>finite (dom m); finite (dom m')\<rbrakk> \<Longrightarrow> norm (VMap m) = norm (VMap m') \<longleftrightarrow> sameState m m'"
  by (simp add: norm_VMap sameState_def)

lemma sameState_upd: "sameState m m' \<Longrightarrow> norm v = norm w \<Longrightarrow> sameState (m(k \<mapsto> v)) (m'(k \<mapsto> w))"
  by (simp add: sameState_iff)

lemma sameState_del: "sameState m m' \<Longrightarrow> sameState (m(k := None)) (m'(k := None))"
  by (simp add: sameState_iff)

lemma toInt64_same:
  assumes "sameVal v w" "\<forall>x \<in> set_option v. isInt x" "\<forall>x \<in> set_option w. isInt x"
  shows "toInt64 v = toInt64 w"
proof (cases v)
  case (Some x)
  then obtain y where y: "w = Some y" using assms(1) by (cases w) auto
  show ?thesis unfolding Some y using assms unfolding Some y by (intro toInt64_norm) simp_all
qed (use assms(1) in simp)

lemma submap_same:
  assumes "sameVal (s k) (t k)" "\<forall>v. s k = Some v \<longrightarrow> wtVal kd v" "\<forall>v. t k = Some v \<longrightarrow> wtVal kd v"
    "kd \<in> {KSet, KMap, KIntMap}"
  shows "asMap (s k) = None \<longleftrightarrow> asMap (t k) = None" "sameState (getOrCreateSubmap s k) (getOrCreateSubmap t k)"
proof -
  have "(asMap (s k) = None \<longleftrightarrow> asMap (t k) = None) \<and> sameState (getOrCreateSubmap s k) (getOrCreateSubmap t k)"
  proof (cases "s k")
    case None
    then have "t k = None" using assms(1) by simp
    with None show ?thesis by (simp add: asMap_def getOrCreateSubmap_def sameState_def)
  next
    case (Some v)
    then obtain w where w: "t k = Some w" using assms(1) by (cases "t k") auto
    obtain m where m: "v = VMap m" "finite (dom m)" using wtVal_mapD assms(2,4) Some by blast
    obtain m' where m': "w = VMap m'" "finite (dom m')" using wtVal_mapD assms(3,4) w by blast
    show ?thesis using assms(1) Some w m m' by (simp add: asMap_def getOrCreateSubmap_def same_VMap)
  qed
  then show "asMap (s k) = None \<longleftrightarrow> asMap (t k) = None" "sameState (getOrCreateSubmap s k) (getOrCreateSubmap t k)"
    by simp_all
qed

lemma opKey_normOp [simp]: "opKey (normOp op) = opKey op"
  by (cases op) simp_all

lemma sameOp_opKey: "sameOp a b \<Longrightarrow> opKey a = opKey b"
  by (metis sameOp_def opKey_normOp)

lemma sameOp_normOp: "sameOp a (normOp a) \<longleftrightarrow> normOp (normOp a) = normOp a"
  by (auto simp: sameOp_def)

lemma getOrCreateSubmap_asMap: "asMap (s k) = Some m \<Longrightarrow> getOrCreateSubmap s k = m"
  by (simp add: getOrCreateSubmap_def)

text \<open>The effect of an operation on the submap of its name.\<close>

fun subOp :: "Op \<Rightarrow> (string \<rightharpoonup> val) \<Rightarrow> (string \<rightharpoonup> val)" where
  "subOp (SetAdd k x) m = m(marshalKey x \<mapsto> VBool True)"
| "subOp (SetRemove k x) m = m(marshalKey x := None)"
| "subOp (IntMapSet k x n) m = m(marshalKey x \<mapsto> VInt n)"
| "subOp (IntMapAdd k x d) m = m(marshalKey x \<mapsto> VInt (toInt64 (m (marshalKey x)) + d))"
| "subOp (IntMapMul k x f) m = m(marshalKey x \<mapsto> VInt (toInt64 (m (marshalKey x)) * f))"
| "subOp (IntMapDiv k x d) m = (if d = 0 then m else m(marshalKey x \<mapsto> VInt (int64Div (toInt64 (m (marshalKey x))) d)))"
| "subOp (IntMapDelete k x) m = m(marshalKey x := None)"
| "subOp (MapSet k x v) m = m(marshalKey x \<mapsto> v)"
| "subOp (MapDelete k x) m = m(marshalKey x := None)"
| "subOp op m = m"

fun creates :: "Op \<Rightarrow> bool" where
  "creates (SetAdd k x) = True"
| "creates (IntMapSet k x n) = True"
| "creates (IntMapAdd k x d) = True"
| "creates (IntMapMul k x f) = True"
| "creates (MapSet k x v) = True"
| "creates op = False"

lemma ApplyOp_sub:
  "opKind op \<in> {KSet, KMap, KIntMap} \<Longrightarrow>
   ApplyOp s op (opKey op) = (if creates op \<or> asMap (s (opKey op)) \<noteq> None
     then Some (VMap (subOp op (getOrCreateSubmap s (opKey op)))) else s (opKey op))"
  by (cases op) (auto simp: Let_def getOrCreateSubmap_asMap asMap_def split: option.splits val.splits)

lemma subOp_same:
  assumes "sameState m m'" "sameOp a b" "opKind a = KIntMap \<Longrightarrow> \<forall>x \<in> ran m. isInt x"
    "opKind a = KIntMap \<Longrightarrow> \<forall>x \<in> ran m'. isInt x"
  shows "sameState (subOp a m) (subOp b m')"
proof -
  have i: "toInt64 (m k) = toInt64 (m' k)" if "opKind a = KIntMap" for k
  proof (rule toInt64_same)
    show "sameVal (m k) (m' k)" using assms(1) by (simp add: sameState_iff)
    show "\<forall>x \<in> set_option (m k). isInt x" "\<forall>x \<in> set_option (m' k). isInt x"
      using assms(3,4) [OF that] by (auto intro: ranI)
  qed
  show ?thesis using assms(1,2) i
    by (cases a; cases b) (auto simp: sameOp_def sameState_upd sameState_del dest!: marshalKey_same)
qed

lemma sameOp_kind: "sameOp a b \<Longrightarrow> opKind a = opKind b \<and> creates a = creates b"
  by (cases a; cases b) (simp_all add: sameOp_def)

lemma subOp_finite: "finite (dom m) \<Longrightarrow> finite (dom (subOp op m))"
  by (cases op) auto

lemma ApplyOp_same_own:
  assumes s: "\<forall>v. s (opKey a) = Some v \<longrightarrow> wtVal (opKind a) v" and t: "\<forall>v. t (opKey a) = Some v \<longrightarrow> wtVal (opKind a) v"
    and op: "sameOp a b" and eq: "sameVal (s (opKey a)) (t (opKey a))"
  shows "sameVal (ApplyOp s a (opKey a)) (ApplyOp t b (opKey a))"
proof (cases "opKind a \<in> {KSet, KMap, KIntMap}")
  case True
  note kb = sameOp_opKey [OF op] sameOp_kind [OF op]
  note sub = submap_same [of s "opKey a" t "opKind a", OF eq s t True]
  note fs = getOrCreateSubmap_wt [of s "opKey a" "opKind a", OF s True]
    and ft = getOrCreateSubmap_wt [of t "opKey a" "opKind a", OF t True]
  have "sameState (subOp a (getOrCreateSubmap s (opKey a))) (subOp b (getOrCreateSubmap t (opKey a)))"
    using sub(2) op fs(2) ft(2) by (rule subOp_same)
  then have "norm (VMap (subOp a (getOrCreateSubmap s (opKey a)))) = norm (VMap (subOp b (getOrCreateSubmap t (opKey a))))"
    using fs(1) ft(1) by (simp add: same_VMap subOp_finite)
  then show ?thesis
    using ApplyOp_sub [OF True, of s] ApplyOp_sub [of b t] True kb sub(1) eq by auto
next
  case False
  then consider "opKind a = KScalar" | "opKind a = KInt" | "opKind a = KList" by (cases "opKind a") auto
  then show ?thesis
  proof cases
    case 1
    then show ?thesis using op by (cases a; cases b) (auto simp: sameOp_def)
  next
    case 2
    have "toInt64 (s (opKey a)) = toInt64 (t (opKey a))"
      using eq s t 2 by (intro toInt64_same) auto
    then show ?thesis using 2 op eq by (cases a; cases b) (auto simp: sameOp_def)
  next
    case 3
    then obtain k v where a: "a = ListAppend k v" by (cases a) auto
    then obtain w where b: "b = ListAppend k w" "norm v = norm w" using op by (cases b) (auto simp: sameOp_def)
    show ?thesis
    proof (cases "s k")
      case None
      then show ?thesis using eq b by (simp add: a asList_def norm_VList)
    next
      case (Some x)
      then obtain xs where xs: "s k = Some (VList xs)" using s by (auto simp: a)
      obtain y where "t k = Some y" using eq Some by (cases "t k") (auto simp: a)
      then obtain ys where ys: "t k = Some (VList ys)" using t by (auto simp: a)
      show ?thesis using eq b xs ys by (simp add: a asList_def norm_VList)
    qed
  qed
qed

text \<open>Well-typed operations cannot tell a state from its normal form.\<close>

lemma ApplyOp_same:
  assumes "wtState sch s" "wtState sch t" "wtOp sch a" "sameOp a b" "sameState s t"
  shows "sameState (ApplyOp s a) (ApplyOp t b)"
proof -
  have "sameVal (ApplyOp s a k) (ApplyOp t b k)" for k
  proof (cases "k = opKey a")
    case True
    have "\<forall>v. u (opKey a) = Some v \<longrightarrow> wtVal (opKind a) v" if "wtState sch u" for u
      using that assms(3) by (metis wtState_def wtOp_def)
    then show ?thesis unfolding True using assms
      by (intro ApplyOp_same_own) (simp_all add: sameState_iff)
  next
    case False
    then show ?thesis using assms sameOp_opKey [OF assms(4)] by (simp add: ApplyOp_frame sameState_iff)
  qed
  then show ?thesis by (simp add: sameState_iff)
qed

lemma sameOp_wtOp: "sameOp a b \<Longrightarrow> wtOp sch a = wtOp sch b"
  by (metis sameOp_def wtOp_normOp)

lemma foldl_ApplyOp_same:
  "\<lbrakk>list_all2 sameOp as bs; wtState sch s; wtState sch t; \<forall>op \<in> set as. wtOp sch op; sameState s t\<rbrakk> \<Longrightarrow>
   sameState (foldl ApplyOp s as) (foldl ApplyOp t bs)"
proof (induction arbitrary: s t rule: list_all2_induct)
  case (Cons a as b bs)
  have "sameState (ApplyOp s a) (ApplyOp t b)" using Cons by (intro ApplyOp_same [of sch]) auto
  moreover have "wtState sch (ApplyOp s a)" "wtState sch (ApplyOp t b)"
    using Cons by (auto intro!: ApplyOp_wt simp: sameOp_wtOp [symmetric])
  ultimately show ?case using Cons by simp
qed simp

lemma sameState_refl [simp]: "sameState s s" and sameState_sym: "sameState s t \<Longrightarrow> sameState t s"
  and sameState_trans: "sameState s t \<Longrightarrow> sameState t u \<Longrightarrow> sameState s u"
  by (simp_all add: sameState_def)

lemma norm_jsonVal: "wfJson j \<Longrightarrow> norm (jsonVal j) = jsonVal j"
proof (induction j)
  case (JNum s)
  then show ?case using validNumber_chars [of s] by (simp add: norm_def)
next
  case (JArr xs)
  then show ?case by (simp add: norm_VList)
next
  case (JObj fs)
  let ?fs = "rev (map (\<lambda>(k, v). (k, jsonVal v)) fs)"
  have "map_option norm (map_of ?fs k) = map_of ?fs k" for k
  proof (cases "map_of ?fs k")
    case (Some w)
    then have "(k, w) \<in> set ?fs" by (rule map_of_SomeD)
    then obtain v where v: "(k, v) \<in> set fs" "w = jsonVal v" by auto
    then have "norm (jsonVal v) = jsonVal v" using JObj by fastforce
    then show ?thesis using Some v by simp
  qed simp
  then have "normMap (map_of ?fs) = map_of ?fs" by (simp add: normMap_def)
  then show ?case by (simp add: norm_VMap finite_dom_map_of)
qed (simp_all add: norm_def)

lemma norm_norm: "wfJson (valJson v) \<Longrightarrow> norm (norm v) = norm v"
  by (simp add: norm_def [of v] norm_jsonVal)

lemma sameOp_norm: "wfJson (opJson op) \<Longrightarrow> sameOp op (normOp op)"
  by (cases op) (simp_all add: sameOp_def opJson_def jsonCanon_idem norm_norm)

lemma segment_same:
  assumes "marshalSegment ops = Some d"
  shows "list_all2 sameOp ops (map normOp ops)"
  using marshalSegment_marshal [OF assms] by (auto simp: list_all2_conv_all_nth sameOp_norm)

lemma wtVal_norm: "wtVal kd v \<Longrightarrow> wtVal kd (norm v)"
proof (cases kd)
  case KInt
  assume "wtVal kd v"
  then show ?thesis using KInt toInt64_isInt [of v] by (auto simp: isInt_def)
next
  case KIntMap
  assume "wtVal kd v"
  then obtain m where m: "v = VMap m" "finite (dom m)" "\<forall>x \<in> ran m. isInt x" using KIntMap by auto
  have "isInt (norm x)" if "isInt x" for x using toInt64_isInt [OF that] by (auto simp: isInt_def)
  then have "\<forall>x \<in> ran (normMap m). isInt x" using m(3) by (auto simp: normMap_def ran_def)
  moreover have "finite (dom (normMap m))" using m(2) by (simp add: normMap_def dom_def)
  ultimately show ?thesis using KIntMap m by (simp add: norm_VMap)
qed (auto simp: norm_VMap norm_VList normMap_def dom_def)

lemma wtState_norm: "wtState sch s \<Longrightarrow> wtState sch (normMap s)"
  by (auto simp: wtState_def normMap_def dom_def intro: wtVal_norm)

lemma wfJson_fieldsOf: "finite (dom m) \<Longrightarrow> wfJson (JObj (fieldsOf m)) \<Longrightarrow> m k = Some j \<Longrightarrow> wfJson j"
  by (force simp: fieldsOf_def)

lemma marshalState_same:
  assumes "finite (dom s)" "marshalState s = Some d"
  shows "sameState s (normMap s)"
proof -
  have wf: "wfJson (JObj (fieldsOf (\<lambda>k. map_option valJson (s k))))"
    using assms(2) by (auto simp: marshalState_def Let_def split: if_splits)
  have fin: "finite (dom (\<lambda>k. map_option valJson (s k)))" using assms(1) by (simp add: dom_def)
  have "map_option norm (map_option norm (s k)) = map_option norm (s k)" for k
    using wfJson_fieldsOf [OF fin wf, of k] by (cases "s k") (auto simp: norm_norm)
  then show ?thesis by (simp add: sameState_def normMap_def)
qed

section \<open>Properties\<close>


definition exampleOps :: "Op list" where
  "exampleOps = [IntSet ''n'' 9007199254740993, SetAdd ''s'' (JStr ''a'')]"


text \<open>
  C15: every structure keeps its type: when each operation is used on a name of its own kind, no sequence
  of operations leaves a value of another kind under a name, integers stay \<^verbatim>\<open>int64\<close> values or exact
  literals of them, and a state that was read back from a rollup has the same types.
\<close>

theorem metadata_types_preserved:
  assumes "wtState sch s" "\<forall>op \<in> set ops. wtOp sch op" "marshalState (foldl ApplyOp s ops) = Some d"
  shows "wtState sch (foldl ApplyOp s ops) \<and> unmarshalState d \<noteq> None \<and> wtState sch (the (unmarshalState d))"
proof -
  have wt: "wtState sch (foldl ApplyOp s ops)" using assms(1,2) by (rule foldl_ApplyOp_wt)
  then have "unmarshalState d = Some (normMap (foldl ApplyOp s ops))"
    using assms(3) by (intro unmarshalState_marshalState) (auto simp: wtState_def)
  then show ?thesis using wt by (simp add: wtState_norm)
qed

theorem metadata_types_preserved_witness:
  "\<exists>d. marshalState (foldl ApplyOp Map.empty [ListAppend ''l'' VNil, IntMapDiv ''m'' (JStr ''a'') 2]) = Some d \<and>
     unmarshalState d \<noteq> None"
proof -
  have m: "marshalState (foldl ApplyOp Map.empty [ListAppend ''l'' VNil, IntMapDiv ''m'' (JStr ''a'') 2]) \<noteq> None"
    by (auto simp: marshalState_def asList_def asMap_def fieldsOf_def dom_def)
  then obtain d where d: "marshalState (foldl ApplyOp Map.empty [ListAppend ''l'' VNil, IntMapDiv ''m'' (JStr ''a'') 2]) = Some d"
    by auto
  show ?thesis using metadata_types_preserved [OF _ _ d, of "\<lambda>k. if k = ''l'' then KList else KIntMap"] d
    by (simp add: wtOp_def wtState_empty)
qed

end
