(* ===== verification/MetadataS3.thy ===== *)
theory MetadataS3
  imports MetadataWire "HOL-Library.Product_Lexorder"
begin

text \<open>
  The S3 metadata backend, \<^verbatim>\<open>internal/metadatadb/s3/{s3,tick,compact,writer}.go\<close>: a journal of immutable
  segments, a rollup that holds the state of a prefix of it, and replicas that rebuild their state from
  both.

  The object store is a parameter: a \<open>s3Client\<close> gives the answers of the minio client's calls and the
  state of the world after each, in which other replicas may have acted.  The body of the rollup object
  is the struct it encodes, every other body is text.  A time of the store is the number of nanoseconds
  since Go's zero time.  Where the code visits a Go map in random order the model visits the keys in
  order; the segments of one fetch are fetched one after another.  \<open>Blocked\<close> is the result of
  \<^verbatim>\<open>refreshRollup\<close> when it has lost more seed races than its fuel, \<open>Panic\<close> a nil dereference of the held
  rollup.
\<close>

section \<open>Model: the object store\<close>

datatype objBody = TextBody string | RollupObj rollupBody

datatype getResult =
    GotObject string objBody
  | GotNotModified
  | GotNotFound
  | GotErr goerr

datatype putCond = PutAny | PutIfAbsent | PutIfMatch string

datatype putResult =
    PutOk string
  | PutPreconditionFailed
  | PutConflict
  | PutErr goerr

record 'w s3Client =
  s3List :: "string \<Rightarrow> 'w \<Rightarrow> ((string \<times> time) list \<times> goerr) \<times> 'w"
  s3Get :: "string \<Rightarrow> string option \<Rightarrow> 'w \<Rightarrow> getResult \<times> 'w"
  s3Put :: "string \<Rightarrow> objBody \<Rightarrow> putCond \<Rightarrow> 'w \<Rightarrow> putResult \<times> 'w"
  s3Remove :: "string list \<Rightarrow> 'w \<Rightarrow> 'w"

section \<open>Model: a namespace\<close>

record cacheEntry =
  ceOps :: "Op list"
  ceLm :: time
  ceListed :: bool
  ceInserted :: nat

record heldRollup =
  hrEtag :: string
  hrMark :: mark
  hrState :: string

record nsS3 =
  s3Name :: string
  s3State :: nsState
  s3Cache :: "string \<rightharpoonup> cacheEntry"
  s3Rollup :: "heldRollup option"
  lastNewest :: time
  stall :: nat
  sustain :: nat

definition newNs :: "string \<Rightarrow> nsS3" where
  "newNs name = \<lparr>s3Name = name, s3State = Map.empty, s3Cache = Map.empty, s3Rollup = None, lastNewest = 0, stall = 0, sustain = 0\<rparr>"

definition nsDir :: "nsS3 \<Rightarrow> string" where
  "nsDir n = (if s3Name n = [] then ''.root'' else s3Name n)"

definition nsPrefix :: "nsS3 \<Rightarrow> string" where
  "nsPrefix n = ''.metadata/'' @ nsDir n @ ''/''"

definition segPrefix :: "nsS3 \<Rightarrow> string" where
  "segPrefix n = nsPrefix n @ ''segment-''"

definition rollupKey :: "nsS3 \<Rightarrow> string" where
  "rollupKey n = nsPrefix n @ ''rollup.json''"

definition legacyKey :: "nsS3 \<Rightarrow> string" where
  "legacyKey n = ''.metadata/'' @ s3Name n @ ''.json''"

section \<open>Model: writing\<close>

text \<open>
  \<^verbatim>\<open>commit\<close> with the key of \<^verbatim>\<open>newSegmentKey\<close> and the local time of the insertion.  A batch that cannot be
  encoded, a key that cannot be made and a failed PUT change nothing locally.
\<close>

definition s3Commit :: "'w s3Client \<Rightarrow> goerr + string \<Rightarrow> nat \<Rightarrow> Op list list \<Rightarrow> nsS3 \<Rightarrow> 'w \<Rightarrow> goerr \<times> nsS3 \<times> 'w" where
  "s3Commit C newKey now reqs n w =
     (let ops = concat reqs
      in case marshalSegment ops of
          None \<Rightarrow> ([ErrOther ''marshal segment''], n, w)
        | Some data \<Rightarrow>
           (case newKey of
              Inl e \<Rightarrow> (e, n, w)
            | Inr key \<Rightarrow>
               (case s3Put C (nsPrefix n @ key) (TextBody data) PutAny w of
                  (PutOk etag, w') \<Rightarrow>
                    if s3Cache n key \<noteq> None then ([], n, w')
                    else ([], n\<lparr>s3State := foldl ApplyOp (s3State n) ops,
                             s3Cache := (s3Cache n)(key \<mapsto> \<lparr>ceOps = ops, ceLm = 0, ceListed = False, ceInserted = now\<rparr>)\<rparr>, w')
                | (PutErr e, w') \<Rightarrow> (ErrOther ''put segment'' # e, n, w')
                | (_, w') \<Rightarrow> ([ErrOther ''put segment''], n, w'))))"

text \<open>An iteration of \<^verbatim>\<open>writeLoop\<close>: the waiting requests are one batch and all get its result.\<close>

definition writeBatch :: "'w s3Client \<Rightarrow> goerr + string \<Rightarrow> nat \<Rightarrow> Op list list \<Rightarrow> nsS3 \<Rightarrow> 'w \<Rightarrow> goerr list \<times> nsS3 \<times> 'w" where
  "writeBatch C newKey now reqs n w =
     (case s3Commit C newKey now reqs n w of (e, n', w') \<Rightarrow> (map (\<lambda>_. e) reqs, n', w'))"

section \<open>Model: a sync tick\<close>

record listing =
  lEntries :: "string \<rightharpoonup> time"
  lNewest :: time
  lStart :: nat

definition s3ListNs :: "'w s3Client \<Rightarrow> nat \<Rightarrow> nsS3 \<Rightarrow> 'w \<Rightarrow> (goerr + listing) \<times> 'w" where
  "s3ListNs C now n w =
     (case s3List C (segPrefix n) w of
        ((objs, e), w') \<Rightarrow>
          if e \<noteq> [] then (Inl e, w')
          else (Inr \<lparr>lEntries = map_of (rev (map (\<lambda>(k, t). (TrimPrefix k (nsPrefix n), t)) objs)),
                  lNewest = foldl (\<lambda>a t. if a < t then t else a) 0 (map snd objs), lStart = now\<rparr>, w'))"

definition adoptRollup :: "string \<Rightarrow> objBody \<Rightarrow> nsS3 \<Rightarrow> goerr \<times> nsS3" where
  "adoptRollup etag data n =
     (case data of
        TextBody s \<Rightarrow> ([ErrOther ''unmarshal rollup''], n)
      | RollupObj body \<Rightarrow>
          (case unmarshalState (State body) of
             None \<Rightarrow> ([ErrOther ''unmarshal rollup state''], n)
           | Some s \<Rightarrow> ([], n\<lparr>s3Rollup := Some \<lparr>hrEtag = etag, hrMark = Mark body, hrState = State body\<rparr>\<rparr>)))"

text \<open>The legacy object's state, none when it is absent or does not parse as a state.\<close>

definition readLegacy :: "'w s3Client \<Rightarrow> nsS3 \<Rightarrow> 'w \<Rightarrow> (goerr + string option) \<times> 'w" where
  "readLegacy C n w =
     (case s3Get C (legacyKey n) None w of
        (GotObject etag (TextBody data), w') \<Rightarrow>
          (Inr (if data = [] \<or> unmarshalState data = None then None else Some data), w')
      | (GotObject etag (RollupObj b), w') \<Rightarrow> (Inr None, w')
      | (GotNotFound, w') \<Rightarrow> (Inr None, w')
      | (GotNotModified, w') \<Rightarrow> (Inl [ErrOther ''read legacy''], w')
      | (GotErr e, w') \<Rightarrow> (Inl e, w'))"

definition zeroMark :: mark where
  "zeroMark = \<lparr>LM = 0, mKey = []\<rparr>"

fun refreshRollup :: "nat \<Rightarrow> 'w s3Client \<Rightarrow> nsS3 \<Rightarrow> 'w \<Rightarrow> (goerr \<times> nsS3 \<times> 'w) outcome"
  and seedRollup :: "nat \<Rightarrow> 'w s3Client \<Rightarrow> nsS3 \<Rightarrow> 'w \<Rightarrow> (goerr \<times> nsS3 \<times> 'w) outcome" where
  "refreshRollup 0 C n w = Blocked"
| "refreshRollup (Suc fuel) C n w =
     (case s3Get C (rollupKey n) (map_option hrEtag (s3Rollup n)) w of
        (GotNotModified, w') \<Rightarrow> Ret ([], n, w')
      | (GotNotFound, w') \<Rightarrow> seedRollup fuel C n w'
      | (GotErr e, w') \<Rightarrow> Ret (ErrOther ''read rollup'' # e, n, w')
      | (GotObject etag data, w') \<Rightarrow> (case adoptRollup etag data n of (e, n') \<Rightarrow> Ret (e, n', w')))"
| "seedRollup fuel C n w =
     (case readLegacy C n w of
        (Inl e, w1) \<Rightarrow> Ret (ErrOther ''read legacy state'' # e, n, w1)
      | (Inr legacy, w1) \<Rightarrow>
          (let state = (case legacy of None \<Rightarrow> ''{}'' | Some s \<Rightarrow> s)
           in case s3Put C (rollupKey n) (RollupObj \<lparr>State = state, Mark = zeroMark\<rparr>) PutIfAbsent w1 of
               (PutOk etag, w2) \<Rightarrow> Ret ([], n\<lparr>s3Rollup := Some \<lparr>hrEtag = etag, hrMark = zeroMark, hrState = state\<rparr>\<rparr>, w2)
             | (PutErr e, w2) \<Rightarrow> Ret (ErrOther ''seed rollup'' # e, n, w2)
             | (_, w2) \<Rightarrow> refreshRollup fuel C (n\<lparr>s3Rollup := None\<rparr>) w2))"

definition stampEntry :: "listing \<Rightarrow> string \<Rightarrow> cacheEntry \<Rightarrow> cacheEntry" where
  "stampEntry lst key e =
     (case lEntries lst key of
        Some lm \<Rightarrow> if ceListed e then e else e\<lparr>ceListed := True, ceLm := lm\<rparr>
      | None \<Rightarrow> e)"

definition stampCache :: "listing \<Rightarrow> (string \<rightharpoonup> cacheEntry) \<Rightarrow> (string \<rightharpoonup> cacheEntry)" where
  "stampCache lst cache = (\<lambda>key. map_option (stampEntry lst key) (cache key))"

definition unseenKeys :: "listing \<Rightarrow> mark \<Rightarrow> (string \<rightharpoonup> cacheEntry) \<Rightarrow> string list" where
  "unseenKeys lst m cache =
     filter (\<lambda>key. cache key = None \<and> \<not> covers m (the (lEntries lst key)) key) (sorted_list_of_set (dom (lEntries lst)))"

definition fetchSegment :: "'w s3Client \<Rightarrow> nsS3 \<Rightarrow> string \<Rightarrow> 'w \<Rightarrow> (goerr + Op list) \<times> 'w" where
  "fetchSegment C n key w =
     (case s3Get C (nsPrefix n @ key) None w of
        (GotObject etag (TextBody data), w') \<Rightarrow>
          (case unmarshalSegment data of None \<Rightarrow> (Inl [ErrOther ''unmarshal segment''], w') | Some ops \<Rightarrow> (Inr ops, w'))
      | (GotErr e, w') \<Rightarrow> (Inl e, w')
      | (_, w') \<Rightarrow> (Inl [ErrOther ''read segment''], w'))"

fun fetchAll :: "'w s3Client \<Rightarrow> nsS3 \<Rightarrow> listing \<Rightarrow> nat \<Rightarrow> string list \<Rightarrow> 'w \<Rightarrow> (goerr + (string \<rightharpoonup> cacheEntry)) \<times> 'w" where
  "fetchAll C n lst now [] w = (Inr Map.empty, w)"
| "fetchAll C n lst now (key # keys) w =
     (case fetchSegment C n key w of
        (Inl e, w1) \<Rightarrow> (Inl e, w1)
      | (Inr ops, w1) \<Rightarrow>
          (case fetchAll C n lst now keys w1 of
             (Inl e, w2) \<Rightarrow> (Inl e, w2)
           | (Inr staged, w2) \<Rightarrow>
              (Inr (staged(key \<mapsto> \<lparr>ceOps = ops, ceLm = the (lEntries lst key), ceListed = True, ceInserted = now\<rparr>)), w2)))"

definition fetchUnseen ::
    "'w s3Client \<Rightarrow> nat \<Rightarrow> listing \<Rightarrow> heldRollup \<Rightarrow> nsS3 \<Rightarrow> 'w \<Rightarrow> (goerr + (string \<rightharpoonup> cacheEntry)) \<times> nsS3 \<times> 'w" where
  "fetchUnseen C now lst h n w =
     (let keys = unseenKeys lst (hrMark h) (s3Cache n);
          n' = n\<lparr>s3Cache := stampCache lst (s3Cache n)\<rparr>
      in case fetchAll C n lst now keys w of (r, w') \<Rightarrow> (r, n', w'))"

text \<open>
  \<^verbatim>\<open>replay\<close> with the order in which it visits its input.  The comparison of \<^verbatim>\<open>slices.SortFunc\<close> orders listed
  entries by stamp and key, then the unlisted ones by key.
\<close>

definition replayKey :: "string \<times> cacheEntry \<Rightarrow> bool \<times> time \<times> string" where
  "replayKey p = (case p of (key, e) \<Rightarrow> (\<not> ceListed e, if ceListed e then ceLm e else 0, key))"

definition replayEntries :: "mark \<Rightarrow> (string \<rightharpoonup> cacheEntry) \<Rightarrow> string list \<Rightarrow> (string \<times> cacheEntry) list" where
  "replayEntries m input order =
     sort_key replayKey
       (filter (\<lambda>(key, e). \<not> (ceListed e \<and> covers m (ceLm e) key)) (map (\<lambda>key. (key, the (input key))) order))"

definition replayState :: "heldRollup \<Rightarrow> (string \<rightharpoonup> cacheEntry) \<Rightarrow> string list \<Rightarrow> nsState" where
  "replayState h input order =
     foldl ApplyOp (case unmarshalState (hrState h) of Some s \<Rightarrow> s | None \<Rightarrow> Map.empty)
       (concat (map (ceOps \<circ> snd) (replayEntries (hrMark h) input order)))"

text \<open>
  \<^verbatim>\<open>rebuild\<close> is two critical sections with the replay between them, during which the writer may insert:
  the first evicts and takes the input, the second adds what was inserted meanwhile, in key order.
\<close>

definition rebuildEvict :: "listing \<Rightarrow> mark \<Rightarrow> (string \<rightharpoonup> cacheEntry) \<Rightarrow> (string \<rightharpoonup> cacheEntry)" where
  "rebuildEvict lst m cache =
     (\<lambda>key. case cache key of
        None \<Rightarrow> None
      | Some e \<Rightarrow>
          if ceListed e then (if covers m (ceLm e) key then None else Some e)
          else if lEntries lst key = None \<and> ceInserted e < lStart lst then None
          else Some e)"

definition rebuildSwap :: "(string \<rightharpoonup> cacheEntry) \<Rightarrow> (string \<rightharpoonup> cacheEntry) \<Rightarrow> nsState \<Rightarrow> nsS3 \<Rightarrow> nsS3" where
  "rebuildSwap input staged state n =
     (let late = sorted_list_of_set (dom (s3Cache n) - dom input);
          state' = foldl ApplyOp state (concat (map (\<lambda>key. ceOps (the (s3Cache n key))) late))
      in n\<lparr>s3State := state', s3Cache := s3Cache n ++ staged\<rparr>)"

definition rebuild :: "(nsS3 \<Rightarrow> nsS3) \<Rightarrow> listing \<Rightarrow> (string \<rightharpoonup> cacheEntry) \<Rightarrow> heldRollup \<Rightarrow> nsS3 \<Rightarrow> nsS3" where
  "rebuild writer lst staged h n =
     (let n1 = n\<lparr>s3Cache := rebuildEvict lst (hrMark h) (s3Cache n)\<rparr>;
          input = s3Cache n1 ++ staged;
          state = replayState h input (sorted_list_of_set (dom input))
      in rebuildSwap input staged state (writer n1))"

definition s3Tick ::
    "nat \<Rightarrow> 'w s3Client \<Rightarrow> nat \<Rightarrow> (nsS3 \<Rightarrow> nsS3) \<Rightarrow> nsS3 \<Rightarrow> 'w \<Rightarrow> ((goerr + listing) \<times> nsS3 \<times> 'w) outcome" where
  "s3Tick fuel C now writer n w =
     (case s3ListNs C now n w of
        (Inl e, w1) \<Rightarrow> Ret (Inl (ErrOther ''list segments'' # e), n, w1)
      | (Inr lst, w1) \<Rightarrow>
          (case refreshRollup fuel C n w1 of
             Blocked \<Rightarrow> Blocked
           | Panic \<Rightarrow> Panic
           | Ret (e, n2, w2) \<Rightarrow>
               if e \<noteq> [] then Ret (Inl (ErrOther ''refresh rollup'' # e), n2, w2)
               else
                 (case s3Rollup n2 of
                    None \<Rightarrow> Panic
                  | Some h \<Rightarrow>
                     (case fetchUnseen C now lst h n2 w2 of
                        (Inl e, n3, w3) \<Rightarrow> Ret (Inl (ErrOther ''fetch segments'' # e), n3, w3)
                      | (Inr staged, n3, w3) \<Rightarrow> Ret (Inr lst, rebuild writer lst staged h n3, w3)))))"

section \<open>Model: compaction\<close>

text \<open>The best-effort deletion of segments.\<close>

definition s3RemoveSegs :: "'w s3Client \<Rightarrow> nsS3 \<Rightarrow> string list \<Rightarrow> 'w \<Rightarrow> 'w" where
  "s3RemoveSegs C n keys w = s3Remove C (map (\<lambda>k. nsPrefix n @ k) keys) w"

text \<open>The segments at least as old as the age threshold, those below and those above the mark.\<close>

definition agedKeys :: "int \<Rightarrow> listing \<Rightarrow> string list" where
  "agedKeys age lst =
     filter (\<lambda>key. \<not> timeSub (lNewest lst) (the (lEntries lst key)) < age) (sorted_list_of_set (dom (lEntries lst)))"

definition leftovers :: "int \<Rightarrow> listing \<Rightarrow> mark \<Rightarrow> string list" where
  "leftovers age lst m = filter (\<lambda>key. covers m (the (lEntries lst key)) key) (agedKeys age lst)"

definition candidates :: "int \<Rightarrow> listing \<Rightarrow> mark \<Rightarrow> string list" where
  "candidates age lst m = filter (\<lambda>key. \<not> covers m (the (lEntries lst key)) key) (agedKeys age lst)"

text \<open>
  Folding the sorted candidates: the state, the new mark and whether every candidate was in the cache.
\<close>

fun foldSegments :: "listing \<Rightarrow> (string \<rightharpoonup> cacheEntry) \<Rightarrow> string list \<Rightarrow> nsState \<Rightarrow> mark \<Rightarrow> (nsState \<times> mark) option" where
  "foldSegments lst cache [] state m = Some (state, m)"
| "foldSegments lst cache (key # keys) state m =
     (case cache key of
        None \<Rightarrow> None
      | Some e \<Rightarrow> foldSegments lst cache keys (foldl ApplyOp state (ceOps e)) \<lparr>LM = the (lEntries lst key), mKey = key\<rparr>)"

definition sortCandidates :: "listing \<Rightarrow> string list \<Rightarrow> string list" where
  "sortCandidates lst keys = sort_key (\<lambda>key. (the (lEntries lst key), key)) keys"

text \<open>The first argument says whether the context ends while the jitter delay runs.\<close>

definition s3Compact :: "bool \<Rightarrow> nat \<Rightarrow> 'w s3Client \<Rightarrow> listing \<Rightarrow> string list \<Rightarrow> nsS3 \<Rightarrow> 'w \<Rightarrow> (goerr \<times> nsS3 \<times> 'w) outcome" where
  "s3Compact stopped fuel C lst cands n w =
     (if stopped then Ret ([ErrCanceled], n, w)
      else case refreshRollup fuel C n w of
          Blocked \<Rightarrow> Blocked
        | Panic \<Rightarrow> Panic
        | Ret (e, n1, w1) \<Rightarrow>
            if e \<noteq> [] then Ret (ErrOther ''re-check rollup'' # e, n1, w1)
            else
              (case (s3Rollup n, s3Rollup n1) of
                 (Some h0, Some h) \<Rightarrow>
                   if hrEtag h \<noteq> hrEtag h0 then Ret ([], n1, w1)
                   else
                     (case unmarshalState (hrState h) of
                        None \<Rightarrow> Ret ([ErrOther ''unmarshal rollup state''], n1, w1)
                      | Some state \<Rightarrow>
                         (case foldSegments lst (s3Cache n1) (sortCandidates lst cands) state (hrMark h) of
                            None \<Rightarrow> Ret ([ErrOther ''candidate missing from cache''], n1, w1)
                          | Some (state', m') \<Rightarrow>
                             (case marshalState state' of
                                None \<Rightarrow> Ret ([ErrOther ''marshal state''], n1, w1)
                              | Some data \<Rightarrow>
                                 (case s3Put C (rollupKey n1) (RollupObj \<lparr>State = data, Mark = m'\<rparr>) (PutIfMatch (hrEtag h)) w1 of
                                    (PutOk etag, w2) \<Rightarrow>
                                      Ret ([], n1\<lparr>s3Rollup := Some \<lparr>hrEtag = etag, hrMark = m', hrState = data\<rparr>\<rparr>,
                                           s3RemoveSegs C n1 cands w2)
                                  | (PutErr e, w2) \<Rightarrow> Ret (ErrOther ''commit rollup'' # e, n1, w2)
                                  | (_, w2) \<Rightarrow> Ret ([], n1, w2)))))
               | _ \<Rightarrow> Panic))"

definition s3Probe :: "bool \<Rightarrow> 'w s3Client \<Rightarrow> goerr + string \<Rightarrow> nat \<Rightarrow> listing \<Rightarrow> nsS3 \<Rightarrow> 'w \<Rightarrow> goerr \<times> 'w" where
  "s3Probe stopped C newKey now lst n w =
     (if stopped then ([ErrCanceled], w)
      else case s3ListNs C now n w of
          (Inl e, w1) \<Rightarrow> (ErrOther ''probe recheck'' # e, w1)
        | (Inr recheck, w1) \<Rightarrow>
            if lNewest lst < lNewest recheck then ([], w1)
            else
              (case marshalSegment [] of
                 None \<Rightarrow> ([ErrOther ''marshal probe''], w1)
               | Some data \<Rightarrow>
                  (case newKey of
                     Inl e \<Rightarrow> (e, w1)
                   | Inr key \<Rightarrow>
                      (case s3Put C (nsPrefix n @ key) (TextBody data) PutAny w1 of
                         (PutOk etag, w2) \<Rightarrow> ([], w2)
                       | (PutErr e, w2) \<Rightarrow> (ErrOther ''put probe'' # e, w2)
                       | (_, w2) \<Rightarrow> ([ErrOther ''put probe''], w2)))))"

record s3Params =
  ageThreshold :: int
  segmentThreshold :: nat

definition sustainTicks :: nat where
  "sustainTicks = 2"

definition s3Ladder ::
    "s3Params \<Rightarrow> bool \<Rightarrow> nat \<Rightarrow> 'w s3Client \<Rightarrow> goerr + string \<Rightarrow> nat \<Rightarrow> listing \<Rightarrow> nsS3 \<Rightarrow> 'w \<Rightarrow> (goerr \<times> nsS3 \<times> 'w) outcome" where
  "s3Ladder P stopped fuel C newKey now lst n w =
     (let n1 = (if lastNewest n < lNewest lst then n\<lparr>lastNewest := lNewest lst, stall := 0\<rparr> else n)
      in case s3Rollup n of
          None \<Rightarrow> Panic
        | Some h \<Rightarrow>
           (let left = leftovers (ageThreshold P) lst (hrMark h);
                cands = candidates (ageThreshold P) lst (hrMark h);
                w1 = (if left = [] then w else s3RemoveSegs C n1 left w)
            in if segmentThreshold P \<le> length cands then
                 (if Suc (sustain n1) < sustainTicks then Ret ([], n1\<lparr>stall := 0, sustain := Suc (sustain n1)\<rparr>, w1)
                  else s3Compact stopped fuel C lst cands (n1\<lparr>stall := 0, sustain := 0\<rparr>) w1)
               else if segmentThreshold P \<le> card (dom (lEntries lst)) then
                 (if Suc (stall n1) < sustainTicks then Ret ([], n1\<lparr>sustain := 0, stall := Suc (stall n1)\<rparr>, w1)
                  else
                    (let n2 = n1\<lparr>sustain := 0, stall := 0\<rparr>
                     in case s3Probe stopped C newKey now lst n2 w1 of (e, w2) \<Rightarrow> Ret (e, n2, w2)))
               else Ret ([], n1\<lparr>sustain := 0, stall := 0\<rparr>, w1)))"

section \<open>Model: the backend\<close>

text \<open>The namespaces of a backend, created when they are first used, and its threshold for the age of segments.\<close>

definition s3GetNamespace :: "(string \<rightharpoonup> nsS3) \<Rightarrow> string \<Rightarrow> nsS3" where
  "s3GetNamespace b name = (case b name of Some n \<Rightarrow> n | None \<Rightarrow> newNs name)"

definition s3BackendApply ::
    "'w s3Client \<Rightarrow> goerr + string \<Rightarrow> nat \<Rightarrow> (string \<rightharpoonup> nsS3) \<Rightarrow> string \<Rightarrow> Op list \<Rightarrow> 'w \<Rightarrow> goerr \<times> (string \<rightharpoonup> nsS3) \<times> 'w" where
  "s3BackendApply C newKey now b name ops w =
     (if ops = [] then ([], b, w)
      else case s3Commit C newKey now [ops] (s3GetNamespace b name) w of (e, n', w') \<Rightarrow> (e, b(name \<mapsto> n'), w'))"

definition s3BackendQuery :: "(string \<rightharpoonup> nsS3) \<Rightarrow> string \<Rightarrow> ReadOp \<Rightarrow> qres \<times> (string \<rightharpoonup> nsS3)" where
  "s3BackendQuery b name q = (let n = s3GetNamespace b name in (queryState (s3State n) q, b(name \<mapsto> n)))"

definition effectiveAge :: "int \<Rightarrow> int" where
  "effectiveAge syncInterval = max 30000000000 (2 * (if syncInterval = 0 then 15000000000 else syncInterval))"

section \<open>The canonical order\<close>

lemma covers_le: "covers m lm key \<longleftrightarrow> (lm, key) \<le> (LM m, mKey m)"
  by (auto simp: covers_def)

lemma zeroMark_covers: "0 < lm \<Longrightarrow> \<not> covers zeroMark lm key"
  by (simp add: covers_def zeroMark_def)

lemma sort_key_unique:
  assumes "distinct xs" "set xs = set ys" "distinct ys" "inj_on f (set xs)" "sorted (map f ys)"
  shows "sort_key f xs = ys"
  using assms by (intro sort_key_inj_key_eq) (simp_all add: set_eq_iff_mset_eq_distinct)

text \<open>A journal gives every segment its stamp and its operations.\<close>

type_synonym journal = "string \<rightharpoonup> time \<times> Op list"

abbreviation jpos :: "journal \<Rightarrow> string \<Rightarrow> time \<times> string" where
  "jpos L k \<equiv> (fst (the (L k)), k)"

definition segOrder :: "journal \<Rightarrow> string set \<Rightarrow> string list" where
  "segOrder L K = sort_key (jpos L) (sorted_list_of_set K)"

definition segOps :: "journal \<Rightarrow> string list \<Rightarrow> Op list" where
  "segOps L ks = concat (map (\<lambda>k. snd (the (L k))) ks)"

text \<open>The state of the segments \<open>K\<close>, replayed in canonical order.\<close>

definition journalState :: "nsState \<Rightarrow> journal \<Rightarrow> string set \<Rightarrow> nsState" where
  "journalState base L K = foldl ApplyOp base (segOps L (segOrder L K))"

lemma jpos_inj: "inj_on (jpos L) K"
  by (auto simp: inj_on_def)

lemma set_segOrder [simp]: "finite K \<Longrightarrow> set (segOrder L K) = K"
  by (simp add: segOrder_def)

lemma distinct_segOrder [simp]: "distinct (segOrder L K)"
  by (simp add: segOrder_def)

lemma sorted_segOrder: "sorted (map (jpos L) (segOrder L K))"
  by (simp add: segOrder_def)

lemma segOrder_unique:
  assumes "finite K" "set ys = K" "distinct ys" "sorted (map (jpos L) ys)"
  shows "segOrder L K = ys"
  unfolding segOrder_def using assms jpos_inj by (intro sort_key_unique) simp_all

lemma segOrder_split:
  assumes "finite A" "finite B" "\<And>a b. a \<in> A \<Longrightarrow> b \<in> B \<Longrightarrow> jpos L a < jpos L b"
  shows "segOrder L (A \<union> B) = segOrder L A @ segOrder L B"
proof (rule segOrder_unique)
  have "A \<inter> B = {}" using assms(3) by force
  then show "distinct (segOrder L A @ segOrder L B)" using assms(1,2) by simp
  show "sorted (map (jpos L) (segOrder L A @ segOrder L B))"
    using assms sorted_segOrder [of L A] sorted_segOrder [of L B] by (fastforce simp: sorted_append intro: less_imp_le)
qed (use assms in simp_all)

lemma segOrder_cong: "(\<And>k. k \<in> K \<Longrightarrow> fst (the (L k)) = fst (the (L' k))) \<Longrightarrow> finite K \<Longrightarrow> segOrder L K = segOrder L' K"
proof (rule segOrder_unique)
  assume *: "\<And>k. k \<in> K \<Longrightarrow> fst (the (L k)) = fst (the (L' k))" and fin: "finite K"
  have "map (jpos L) (segOrder L' K) = map (jpos L') (segOrder L' K)" using * fin by (intro map_cong) simp_all
  then show "sorted (map (jpos L) (segOrder L' K))" using sorted_segOrder [of L' K] by (simp only:)
qed simp_all

lemma segOps_append [simp]: "segOps L (xs @ ys) = segOps L xs @ segOps L ys"
  by (simp add: segOps_def)

lemma journalState_split:
  assumes "finite A" "finite B" "\<And>a b. a \<in> A \<Longrightarrow> b \<in> B \<Longrightarrow> jpos L a < jpos L b"
  shows "journalState base L (A \<union> B) = foldl ApplyOp (journalState base L A) (segOps L (segOrder L B))"
  using segOrder_split [OF assms] by (simp add: journalState_def)

lemma journalState_cong:
  assumes "finite K" "\<And>k. k \<in> K \<Longrightarrow> L k = L' k"
  shows "journalState base L K = journalState base L' K"
proof -
  have "segOrder L K = segOrder L' K" using assms by (intro segOrder_cong) simp_all
  moreover have "segOps L (segOrder L' K) = segOps L' (segOrder L' K)"
    unfolding segOps_def using assms by (intro arg_cong [where f = concat] map_cong) simp_all
  ultimately show ?thesis by (simp add: journalState_def)
qed

lemma replayKey_inj: "inj_on replayKey (set (map (\<lambda>key. (key, f key)) order))"
  by (auto simp: inj_on_def replayKey_def)

lemma replayEntries_order:
  assumes "distinct order" "distinct order'" "set order = set order'"
  shows "replayEntries m input order = replayEntries m input order'"
proof -
  let ?es = "\<lambda>o1. filter (\<lambda>(key, e). \<not> (ceListed e \<and> covers m (ceLm e) key)) (map (\<lambda>key. (key, the (input key))) o1)"
  have "sort_key replayKey (?es order) = sort_key replayKey (?es order')"
  proof (rule sort_key_unique)
    show "inj_on replayKey (set (?es order))"
      using replayKey_inj [of "\<lambda>key. the (input key)" order] by (rule inj_on_subset) auto
  qed (use assms in \<open>auto simp: distinct_map inj_on_def intro!: distinct_filter\<close>)
  then show ?thesis by (simp add: replayEntries_def)
qed

section \<open>Replay and journal\<close>

definition covered :: "journal \<Rightarrow> mark \<Rightarrow> string set" where
  "covered L m = {k \<in> dom L. covers m (fst (the (L k))) k}"

text \<open>The journal of a namespace with schema \<open>sch\<close>, and its base state.\<close>

definition journalOk :: "(string \<Rightarrow> kind) \<Rightarrow> journal \<Rightarrow> bool" where
  "journalOk sch L \<longleftrightarrow> finite (dom L) \<and>
     (\<forall>k lm ops. L k = Some (lm, ops) \<longrightarrow> 0 < lm \<and> (\<forall>op \<in> set ops. wtOp sch op))"

text \<open>A rollup with raw state \<open>d\<close> and mark \<open>m\<close> is the state of the segments that its mark covers.\<close>

definition goodRollup :: "(string \<Rightarrow> kind) \<Rightarrow> nsState \<Rightarrow> journal \<Rightarrow> mark \<Rightarrow> string \<Rightarrow> bool" where
  "goodRollup sch base L m d \<longleftrightarrow>
     (\<exists>s. unmarshalState d = Some s \<and> wtState sch s \<and> sameState (journalState base L (covered L m)) s)"

text \<open>A cached entry holds a segment of the journal, with its stamp once it was listed.\<close>

definition entryOk :: "journal \<Rightarrow> string \<Rightarrow> cacheEntry \<Rightarrow> bool" where
  "entryOk L key e \<longleftrightarrow>
     key \<in> dom L \<and> list_all2 sameOp (snd (the (L key))) (ceOps e) \<and> (ceListed e \<longrightarrow> ceLm e = fst (the (L key)))"

lemma finite_covered: "finite (dom L) \<Longrightarrow> finite (covered L m)"
  by (simp add: covered_def)

lemma segOps_wt: "journalOk sch L \<Longrightarrow> set ks \<subseteq> dom L \<Longrightarrow> \<forall>op \<in> set (segOps L ks). wtOp sch op"
  by (fastforce simp: segOps_def journalOk_def)

lemma journalState_wt: "journalOk sch L \<Longrightarrow> wtState sch base \<Longrightarrow> K \<subseteq> dom L \<Longrightarrow> wtState sch (journalState base L K)"
proof -
  assume j: "journalOk sch L" and b: "wtState sch base" and K: "K \<subseteq> dom L"
  then have "finite K" using finite_subset by (auto simp: journalOk_def)
  then show ?thesis unfolding journalState_def
    using j b K by (intro foldl_ApplyOp_wt segOps_wt) auto
qed

lemma list_all2_concat_map:
  "\<forall>k \<in> set ks. list_all2 P (f k) (g k) \<Longrightarrow> list_all2 P (concat (map f ks)) (concat (map g ks))"
  by (induction ks) (auto intro: list_all2_appendI)

lemma replayEntries_journal:
  assumes "finite (dom L)" "\<And>k e. input k = Some e \<Longrightarrow> entryOk L k e \<and> ceListed e"
    and "set order = dom input" "distinct order"
  shows "replayEntries m input order = map (\<lambda>k. (k, the (input k))) (segOrder L (dom input - covered L m))"
    (is "_ = map ?p (segOrder L ?K)")
proof -
  have sub: "dom input \<subseteq> dom L" using assms(2) by (auto simp: entryOk_def)
  then have fin: "finite ?K" using assms(1) by (meson finite_Diff finite_subset)
  have e: "ceListed (the (input k)) \<and> ceLm (the (input k)) = fst (the (L k))" if "k \<in> dom input" for k
    using assms(2) that by (force simp: entryOk_def)
  have filt: "filter (\<lambda>(key, e). \<not> (ceListed e \<and> covers m (ceLm e) key)) (map ?p order) = map ?p (filter (\<lambda>k. k \<notin> covered L m) order)"
    unfolding filter_map using e sub assms(3)
    by (intro arg_cong [where f = "map ?p"] filter_cong) (auto simp: covered_def)
  have "sort_key replayKey (map ?p (filter (\<lambda>k. k \<notin> covered L m) order)) = map ?p (segOrder L ?K)"
  proof (rule sort_key_unique)
    show "distinct (map ?p (filter (\<lambda>k. k \<notin> covered L m) order))"
      using assms(4) by (auto simp: distinct_map inj_on_def)
    show "set (map ?p (filter (\<lambda>k. k \<notin> covered L m) order)) = set (map ?p (segOrder L ?K))"
      using fin by (auto simp: assms(3))
    show "distinct (map ?p (segOrder L ?K))" by (simp add: distinct_map inj_on_def)
    show "inj_on replayKey (set (map ?p (filter (\<lambda>k. k \<notin> covered L m) order)))" by (rule replayKey_inj)
    have "map replayKey (map ?p (segOrder L ?K)) = map (Pair False) (map (jpos L) (segOrder L ?K))"
      using e fin by (auto simp: replayKey_def)
    moreover have "sorted (map (Pair False) xs)" if "sorted xs" for xs :: "(time \<times> string) list"
      using that by (induction xs) auto
    ultimately show "sorted (map replayKey (map ?p (segOrder L ?K)))"
      using sorted_segOrder [of L ?K] by (simp only:)
  qed
  then show ?thesis by (simp only: replayEntries_def filt)
qed

lemma list_all2_wt: "list_all2 sameOp as bs \<Longrightarrow> \<forall>op \<in> set as. wtOp sch op \<Longrightarrow> \<forall>op \<in> set bs. wtOp sch op"
  by (induction rule: list_all2_induct) (auto simp: sameOp_wtOp)

lemma replayState_journal:
  assumes j: "journalOk sch L" and b: "wtState sch base"
    and inp: "\<And>k e. input k = Some e \<Longrightarrow> entryOk L k e \<and> ceListed e"
    and order: "set order = dom input" "distinct order"
    and g: "goodRollup sch base L (hrMark h) (hrState h)"
  shows "sameState (journalState base L (covered L (hrMark h) \<union> dom input)) (replayState h input order) \<and>
    wtState sch (replayState h input order)"
proof -
  let ?A = "covered L (hrMark h)" and ?K = "dom input - covered L (hrMark h)"
  have fL: "finite (dom L)" using j by (simp add: journalOk_def)
  have sub: "dom input \<subseteq> dom L" using inp by (auto simp: entryOk_def)
  then have fK: "finite ?K" using fL by (meson finite_Diff finite_subset)
  obtain s where s: "unmarshalState (hrState h) = Some s" "wtState sch s" "sameState (journalState base L ?A) s"
    using g by (auto simp: goodRollup_def)
  have "jpos L a < jpos L c" if "a \<in> ?A" "c \<in> ?K" for a c
    using that sub by (auto simp: covered_def covers_le)
  then have split: "journalState base L (?A \<union> ?K) = foldl ApplyOp (journalState base L ?A) (segOps L (segOrder L ?K))"
    using fL fK by (intro journalState_split) (simp_all add: finite_covered)
  have rep: "replayState h input order = foldl ApplyOp s (concat (map (\<lambda>k. ceOps (the (input k))) (segOrder L ?K)))"
    using replayEntries_journal [OF fL inp order, of "hrMark h"] by (simp add: replayState_def s comp_def)
  have ops: "list_all2 sameOp (segOps L (segOrder L ?K)) (concat (map (\<lambda>k. ceOps (the (input k))) (segOrder L ?K)))"
    unfolding segOps_def using inp fK by (intro list_all2_concat_map) (force simp: entryOk_def)
  have wt: "\<forall>op \<in> set (segOps L (segOrder L ?K)). wtOp sch op" using j sub fK by (intro segOps_wt) auto
  have jA: "wtState sch (journalState base L ?A)" using j b by (intro journalState_wt) (auto simp: covered_def)
  have "wtState sch (replayState h input order)"
    unfolding rep using s(2) list_all2_wt [OF ops wt] by (rule foldl_ApplyOp_wt)
  moreover have "sameState (foldl ApplyOp (journalState base L ?A) (segOps L (segOrder L ?K))) (replayState h input order)"
    unfolding rep using ops jA s(2) wt s(3) by (rule foldl_ApplyOp_same)
  moreover have "?A \<union> dom input = ?A \<union> ?K" by auto
  ultimately show ?thesis using split by simp
qed

section \<open>Properties\<close>

text \<open>
  C16: replay is deterministic: it rebuilds the same state in whatever order the Go map of cached segments
  is visited, because the comparison it sorts by is a total order in which no two segments are equal.
\<close>

theorem replay_order_irrelevant:
  assumes "distinct order" "distinct order'" "set order = set order'"
  shows "replayState h input order = replayState h input order'"
  using replayEntries_order [OF assms] by (simp add: replayState_def)

theorem replay_order_irrelevant_witness:
  "\<forall>h. replayState h [''a'' \<mapsto> \<lparr>ceOps = [IntSet ''n'' 1], ceLm = 5, ceListed = True, ceInserted = 0\<rparr>,
       ''b'' \<mapsto> \<lparr>ceOps = [IntSet ''n'' 2], ceLm = 4, ceListed = True, ceInserted = 0\<rparr>] [''a'', ''b''] =
   replayState h [''a'' \<mapsto> \<lparr>ceOps = [IntSet ''n'' 1], ceLm = 5, ceListed = True, ceInserted = 0\<rparr>,
       ''b'' \<mapsto> \<lparr>ceOps = [IntSet ''n'' 2], ceLm = 4, ceListed = True, ceInserted = 0\<rparr>] [''b'', ''a'']"
  by (rule allI, rule replay_order_irrelevant) auto

end
