(* ===== verification/MetadataJournal.thy ===== *)
theory MetadataJournal
  imports MetadataS3
begin

text \<open>
  Replicas of the S3 metadata backend on one bucket.

  The bucket is an object store with the consistency the design relies on (strong listings and reads,
  enforced conditional writes), extended by a ghost log of every segment ever stored.  A replica runs
  the functions of \<open>MetadataS3\<close> on it through a client; before each of its calls the environment may
  change the bucket in any way that is \<open>legal\<close>, the guarantee that every replica gives (new segments are
  stamped after every mark, a new rollup is the state of a longer prefix of the log, and only covered
  segments are deleted), and a call may fail, a failed PUT also after it took effect.

  The lemmas show that each operation of a replica is legal itself, so any number of replicas can run
  together, that a successful tick rebuilds exactly the state of the log up to some set of segments that
  includes every segment stored before the tick, and that ticks end.
\<close>

section \<open>The bucket\<close>

record bucket =
  bObjs :: "string \<rightharpoonup> time \<times> objBody"
  bClock :: time
  bLog :: "string \<rightharpoonup> time \<times> string"

text \<open>A namespace: its name, its schema, its legacy object and the ETag of a body.\<close>

record jparams =
  jNs :: nsS3
  jSch :: "string \<Rightarrow> kind"
  jLeg :: "(time \<times> objBody) option"
  jTag :: "objBody \<Rightarrow> string"

record environ =
  eMove :: "nat \<Rightarrow> bucket \<Rightarrow> bucket"
  eFail :: "nat \<Rightarrow> goerr"
  eLand :: "nat \<Rightarrow> bool"

abbreviation segName :: "string \<Rightarrow> bool" where
  "segName k \<equiv> HasPrefix k ''segment-''"

definition bStore :: "jparams \<Rightarrow> string \<Rightarrow> objBody \<Rightarrow> bucket \<Rightarrow> bucket" where
  "bStore P key body b =
     b\<lparr>bObjs := (bObjs b)(key \<mapsto> (bClock b, body)),
       bLog := (case (CutPrefix (nsPrefix (jNs P)) key, body) of
                  (Some k, TextBody d) \<Rightarrow> if segName k then (bLog b)(k \<mapsto> (bClock b, d)) else bLog b
                | _ \<Rightarrow> bLog b)\<rparr>"

definition bListAns :: "string \<Rightarrow> bucket \<Rightarrow> (string \<times> time) list" where
  "bListAns prefix b = map (\<lambda>k. (k, fst (the (bObjs b k)))) (sorted_list_of_set {k \<in> dom (bObjs b). HasPrefix k prefix})"

definition bGetAns :: "jparams \<Rightarrow> string \<Rightarrow> string option \<Rightarrow> bucket \<Rightarrow> getResult" where
  "bGetAns P key inm b =
     (case bObjs b key of
        None \<Rightarrow> GotNotFound
      | Some (lm, body) \<Rightarrow> if inm = Some (jTag P body) then GotNotModified else GotObject (jTag P body) body)"

definition bPutOk :: "jparams \<Rightarrow> string \<Rightarrow> putCond \<Rightarrow> bucket \<Rightarrow> bool" where
  "bPutOk P key cond b =
     (case cond of
        PutAny \<Rightarrow> True
      | PutIfAbsent \<Rightarrow> bObjs b key = None
      | PutIfMatch t \<Rightarrow> (case bObjs b key of None \<Rightarrow> False | Some (lm, body) \<Rightarrow> jTag P body = t))"

definition bucketClient :: "jparams \<Rightarrow> environ \<Rightarrow> (bucket \<times> nat) s3Client" where
  "bucketClient P E =
     \<lparr>s3List = \<lambda>prefix (b, i). let b' = eMove E i b in
          ((if eFail E i = [] then bListAns prefix b' else [], eFail E i), (b', Suc i)),
      s3Get = \<lambda>key inm (b, i). let b' = eMove E i b in
          (if eFail E i = [] then bGetAns P key inm b' else GotErr (eFail E i), (b', Suc i)),
      s3Put = \<lambda>key body cond (b, i). let b' = eMove E i b; ok = bPutOk P key cond b' in
          (if eFail E i \<noteq> [] then PutErr (eFail E i) else if ok then PutOk (jTag P body) else PutPreconditionFailed,
           (if ok \<and> (eFail E i = [] \<or> eLand E i) then bStore P key body b' else b', Suc i)),
      s3Remove = \<lambda>keys (b, i). let b' = eMove E i b in
          (if eFail E i = [] then b'\<lparr>bObjs := (bObjs b') |` (- set keys)\<rparr> else b', Suc i)\<rparr>"

section \<open>Invariant and legal changes\<close>

abbreviation jroll :: "jparams \<Rightarrow> bucket \<Rightarrow> (time \<times> objBody) option" where
  "jroll P b \<equiv> bObjs b (rollupKey (jNs P))"

abbreviation jlive :: "jparams \<Rightarrow> bucket \<Rightarrow> string \<Rightarrow> (time \<times> objBody) option" where
  "jlive P b k \<equiv> bObjs b (nsPrefix (jNs P) @ k)"

definition logOf :: "bucket \<Rightarrow> journal" where
  "logOf b = (\<lambda>k. map_option (\<lambda>(lm, d). (lm, the (unmarshalSegment d))) (bLog b k))"

definition jBase :: "jparams \<Rightarrow> nsState" where
  "jBase P =
     (case jLeg P of
        Some (lm, TextBody d) \<Rightarrow>
          (if d = [] then Map.empty else case unmarshalState d of None \<Rightarrow> Map.empty | Some s \<Rightarrow> s)
      | _ \<Rightarrow> Map.empty)"

abbreviation (input) markLe :: "mark \<Rightarrow> mark \<Rightarrow> bool" where
  "markLe m m' \<equiv> (LM m, mKey m) \<le> (LM m', mKey m')"

text \<open>
  The invariant of the bucket: its live segments are in the log, the rollup is the state of the log up to
  its mark, and what the mark does not cover is still live.
\<close>

definition rollupOk :: "jparams \<Rightarrow> bucket \<Rightarrow> bool" where
  "rollupOk P b =
     (case jroll P b of
        None \<Rightarrow> (\<forall>k \<in> dom (bLog b). jlive P b k \<noteq> None)
      | Some (lm, TextBody d) \<Rightarrow> False
      | Some (lm, RollupObj rb) \<Rightarrow>
          goodRollup (jSch P) (jBase P) (logOf b) (Mark rb) (State rb) \<and> LM (Mark rb) < bClock b \<and>
          (\<forall>k \<in> dom (bLog b). \<not> covers (Mark rb) (fst (the (bLog b k))) k \<longrightarrow> jlive P b k \<noteq> None))"

definition binv :: "jparams \<Rightarrow> bucket \<Rightarrow> bool" where
  "binv P b \<longleftrightarrow>
     0 < bClock b \<and> finite (dom (bObjs b)) \<and> journalOk (jSch P) (logOf b) \<and>
     (\<forall>k \<in> dom (bLog b). segName k \<and> unmarshalSegment (snd (the (bLog b k))) \<noteq> None \<and> fst (the (bLog b k)) \<le> bClock b) \<and>
     (\<forall>k lm body. segName k \<and> jlive P b k = Some (lm, body) \<longrightarrow> (\<exists>d. body = TextBody d \<and> bLog b k = Some (lm, d))) \<and>
     bObjs b (legacyKey (jNs P)) = jLeg P \<and> rollupOk P b"

definition markOf :: "jparams \<Rightarrow> bucket \<Rightarrow> mark option" where
  "markOf P b = (case jroll P b of Some (lm, RollupObj rb) \<Rightarrow> Some (Mark rb) | _ \<Rightarrow> None)"

text \<open>The log only grows, by segments that are stamped no earlier than now.\<close>

definition grows :: "bucket \<Rightarrow> bucket \<Rightarrow> bool" where
  "grows b b' \<longleftrightarrow>
     bClock b \<le> bClock b' \<and> bLog b \<subseteq>\<^sub>m bLog b' \<and>
     (\<forall>k lm d. bLog b k = None \<and> bLog b' k = Some (lm, d) \<longrightarrow> bClock b \<le> lm)"

definition legal :: "jparams \<Rightarrow> bucket \<Rightarrow> bucket \<Rightarrow> bool" where
  "legal P b b' \<longleftrightarrow>
     binv P b' \<and> grows b b' \<and>
     (\<forall>m. markOf P b = Some m \<longrightarrow> (\<exists>m'. markOf P b' = Some m' \<and> markLe m m'))"

text \<open>What a replica may rely on.\<close>

definition rely :: "jparams \<Rightarrow> environ \<Rightarrow> bool" where
  "rely P E \<longleftrightarrow> wtState (jSch P) (jBase P) \<and> inj (jTag P) \<and> (\<forall>i b. binv P b \<longrightarrow> legal P b (eMove E i b))"

text \<open>What a replica keeps: its cache and its rollup come from the log.\<close>

definition heldOk :: "jparams \<Rightarrow> bucket \<Rightarrow> heldRollup \<Rightarrow> bool" where
  "heldOk P b h \<longleftrightarrow>
     goodRollup (jSch P) (jBase P) (logOf b) (hrMark h) (hrState h) \<and>
     hrEtag h = jTag P (RollupObj \<lparr>State = hrState h, Mark = hrMark h\<rparr>) \<and>
     (\<exists>m. markOf P b = Some m \<and> markLe (hrMark h) m)"

definition repOk :: "jparams \<Rightarrow> bucket \<Rightarrow> nsS3 \<Rightarrow> bool" where
  "repOk P b n \<longleftrightarrow>
     s3Name n = s3Name (jNs P) \<and>
     (\<forall>k e. s3Cache n k = Some e \<longrightarrow> entryOk (logOf b) k e) \<and>
     (\<forall>h. s3Rollup n = Some h \<longrightarrow> heldOk P b h)"

section \<open>Stability\<close>

lemma dom_logOf [simp]: "dom (logOf b) = dom (bLog b)"
  by (auto simp: logOf_def)

lemma logOf_fst: "k \<in> dom (bLog b) \<Longrightarrow> fst (the (logOf b k)) = fst (the (bLog b k))"
  by (auto simp: logOf_def split: prod.splits)

lemma covers_mono: "markLe m m' \<Longrightarrow> covers m lm k \<Longrightarrow> covers m' lm k"
  unfolding covers_le by (rule order_trans)

lemma grows_refl [simp]: "grows b b"
  by (auto simp: grows_def)

lemma grows_new: "grows b b' \<Longrightarrow> bLog b k = None \<Longrightarrow> bLog b' k = Some (lm, d) \<Longrightarrow> bClock b \<le> lm"
  unfolding grows_def by blast

lemma grows_log: "grows b b' \<Longrightarrow> k \<in> dom (bLog b) \<Longrightarrow> bLog b' k = bLog b k"
  by (auto simp: grows_def map_le_def)

lemma grows_logOf: "grows b b' \<Longrightarrow> k \<in> dom (bLog b) \<Longrightarrow> logOf b' k = logOf b k"
  by (simp add: logOf_def grows_log)

lemma grows_dom: "grows b b' \<Longrightarrow> dom (bLog b) \<subseteq> dom (bLog b')"
  unfolding grows_def by (intro map_le_implies_dom_le) simp

lemma grows_clock: "grows b b' \<Longrightarrow> bClock b \<le> bClock b'"
  by (simp add: grows_def)

lemma grows_trans: "grows a b \<Longrightarrow> grows b c \<Longrightarrow> grows a c"
proof -
  assume ab: "grows a b" and bc: "grows b c"
  have "bClock a \<le> lm" if n: "bLog a k = None" and s: "bLog c k = Some (lm, d)" for k lm d
  proof (cases "bLog b k")
    case None
    then have "bClock b \<le> lm" using grows_new [OF bc _ s] by simp
    then show ?thesis using grows_clock [OF ab] by simp
  next
    case (Some p)
    then have "bLog c k = Some p" using grows_log [OF bc, of k] by auto
    then have "bLog b k = Some (lm, d)" using s Some by simp
    then show ?thesis by (rule grows_new [OF ab n])
  qed
  moreover have "bLog a \<subseteq>\<^sub>m bLog c" using ab bc by (auto simp: grows_def intro: map_le_trans)
  ultimately show ?thesis using grows_clock [OF ab] grows_clock [OF bc] by (auto simp: grows_def)
qed

lemma legal_refl: "binv P b \<Longrightarrow> legal P b b"
  by (auto simp: legal_def)

lemma legal_inv: "legal P b b' \<Longrightarrow> binv P b'"
  by (simp add: legal_def)

lemma legal_grows: "legal P b b' \<Longrightarrow> grows b b'"
  by (simp add: legal_def)

lemma legal_mark: "legal P b b' \<Longrightarrow> markOf P b = Some m \<Longrightarrow> \<exists>m'. markOf P b' = Some m' \<and> markLe m m'"
  unfolding legal_def by blast

lemma legal_trans: "legal P a b \<Longrightarrow> legal P b c \<Longrightarrow> legal P a c"
proof -
  assume ab: "legal P a b" and bc: "legal P b c"
  have "\<exists>m'. markOf P c = Some m' \<and> markLe m m'" if m: "markOf P a = Some m" for m
  proof -
    obtain m1 where m1: "markOf P b = Some m1" "markLe m m1" using legal_mark [OF ab m] by blast
    obtain m2 where m2: "markOf P c = Some m2" "markLe m1 m2" using legal_mark [OF bc m1(1)] by blast
    show ?thesis using m2(1) order_trans [OF m1(2) m2(2)] by blast
  qed
  then show ?thesis using legal_inv [OF bc] grows_trans [OF legal_grows [OF ab] legal_grows [OF bc]] by (simp add: legal_def)
qed

lemmas legal_log = grows_log [OF legal_grows]
  and legal_logOf = grows_logOf [OF legal_grows]
  and legal_dom = grows_dom [OF legal_grows]

lemma binv_finite: "binv P b \<Longrightarrow> finite (dom (bLog b))"
  using dom_logOf [of b] by (auto simp: binv_def journalOk_def simp del: dom_logOf)

lemma covered_stable:
  assumes "grows b b'" "LM m < bClock b"
  shows "covered (logOf b') m = covered (logOf b) m"
proof -
  have "\<not> covers m (fst (the (logOf b' k))) k" if k: "k \<in> dom (bLog b')" "k \<notin> dom (bLog b)" for k
  proof -
    obtain lm d where e: "bLog b' k = Some (lm, d)" using k(1) by auto
    then have "bClock b \<le> lm" using grows_new [OF assms(1) _ e] k(2) by auto
    then show ?thesis using assms(2) logOf_fst [OF k(1)] e by (simp add: covers_def)
  qed
  moreover have "(logOf b' k) = (logOf b k)" if "k \<in> dom (bLog b)" for k using grows_logOf [OF assms(1) that] .
  ultimately show ?thesis using grows_dom [OF assms(1)] unfolding covered_def dom_logOf by (intro Collect_cong) (metis subsetD)
qed

lemma goodRollup_stable:
  assumes "grows b b'" "finite (dom (bLog b))" "LM m < bClock b" "goodRollup sch base (logOf b) m d"
  shows "goodRollup sch base (logOf b') m d"
proof -
  have "finite (covered (logOf b) m)" using assms(2) by (intro finite_covered) simp
  then have "journalState base (logOf b') (covered (logOf b) m) = journalState base (logOf b) (covered (logOf b) m)"
    using grows_logOf [OF assms(1)] by (intro journalState_cong) (auto simp: covered_def)
  then show ?thesis using assms(4) covered_stable [OF assms(1,3)] by (simp add: goodRollup_def)
qed

lemma markOf_clock: "binv P b \<Longrightarrow> markOf P b = Some m \<Longrightarrow> LM m < bClock b"
  by (auto simp: binv_def rollupOk_def markOf_def split: option.splits prod.splits objBody.splits)

lemma heldOk_clock: "binv P b \<Longrightarrow> heldOk P b h \<Longrightarrow> LM (hrMark h) < bClock b"
  using markOf_clock [of P b] by (fastforce simp: heldOk_def)

lemma heldOk_stable: "legal P b b' \<Longrightarrow> binv P b \<Longrightarrow> heldOk P b h \<Longrightarrow> heldOk P b' h"
proof -
  assume l: "legal P b b'" and i: "binv P b" and h: "heldOk P b h"
  have "goodRollup (jSch P) (jBase P) (logOf b') (hrMark h) (hrState h)"
    using goodRollup_stable [OF legal_grows [OF l] binv_finite [OF i] heldOk_clock [OF i h]] h by (simp add: heldOk_def)
  moreover obtain m where m: "markOf P b = Some m" "markLe (hrMark h) m" using h by (auto simp only: heldOk_def)
  obtain m' where "markOf P b' = Some m'" "markLe m m'" using legal_mark [OF l m(1)] by blast
  then have "\<exists>m'. markOf P b' = Some m' \<and> markLe (hrMark h) m'" using m(2) by (meson order_trans)
  ultimately show ?thesis using h by (simp add: heldOk_def)
qed

lemma entryOk_stable: "legal P b b' \<Longrightarrow> entryOk (logOf b) k e \<Longrightarrow> entryOk (logOf b') k e"
  using legal_logOf [of P b b' k] legal_dom [of P b b'] by (auto simp: entryOk_def)

lemma repOk_stable: "legal P b b' \<Longrightarrow> binv P b \<Longrightarrow> repOk P b n \<Longrightarrow> repOk P b' n"
  by (auto simp: repOk_def intro: heldOk_stable entryOk_stable)

section \<open>What replicas do is legal\<close>

lemma CutPrefix_app [simp]: "CutPrefix p (p @ s) = Some s"
  by (simp add: CutPrefix_Some)

lemma HasPrefix_app: "HasPrefix s p \<longleftrightarrow> (\<exists>r. s = p @ r)"
  by (auto simp: HasPrefix_def CutPrefix_Some)

lemma rollup_not_seg [simp]: "\<not> segName ''rollup.json''"
  by (simp add: HasPrefix_def)

lemma seg_not_rollup: "segName k \<Longrightarrow> nsPrefix n @ k \<noteq> rollupKey n"
  by (auto simp: rollupKey_def)

lemma legacy_other [simp]: "legacyKey n \<noteq> nsPrefix n @ k"
  by (auto simp: legacyKey_def nsPrefix_def nsDir_def append_eq_append_conv2)

lemma rollupKey_legacy [simp]: "rollupKey n \<noteq> legacyKey n" "legacyKey n \<noteq> rollupKey n"
  using legacy_other [of n "''rollup.json''"] by (simp_all add: rollupKey_def del: legacy_other)

lemma segOk_journalOk:
  "journalOk sch (logOf b) \<Longrightarrow> unmarshalSegment d = Some ops \<Longrightarrow> \<forall>op \<in> set ops. wtOp sch op \<Longrightarrow> 0 < lm \<Longrightarrow>
   journalOk sch ((logOf b)(k \<mapsto> (lm, ops)))"
  by (auto simp: journalOk_def)

lemma bStore_seg:
  "segName k \<Longrightarrow> bStore P (nsPrefix (jNs P) @ k) (TextBody d) b =
     b\<lparr>bObjs := (bObjs b)(nsPrefix (jNs P) @ k \<mapsto> (bClock b, TextBody d)), bLog := (bLog b)(k \<mapsto> (bClock b, d))\<rparr>"
  by (simp add: bStore_def)

lemma store_seg_legal:
  assumes "binv P b" "segName k" "bLog b k = None" "unmarshalSegment d = Some ops" "\<forall>op \<in> set ops. wtOp (jSch P) op"
  shows "legal P b (bStore P (nsPrefix (jNs P) @ k) (TextBody d) b)" (is "legal P b ?b")
proof -
  have b: "bClock ?b = bClock b" "bLog ?b = (bLog b)(k \<mapsto> (bClock b, d))"
    "bObjs ?b = (bObjs b)(nsPrefix (jNs P) @ k \<mapsto> (bClock b, TextBody d))" by (simp_all add: bStore_seg assms(2))
  have roll: "jroll P ?b = jroll P b" using seg_not_rollup [OF assms(2), of "jNs P"] by (simp add: b(3))
  have log: "logOf ?b = (logOf b)(k \<mapsto> (bClock b, ops))" by (auto simp: logOf_def b(2) assms(4))
  have g: "grows b ?b" using assms(3) by (auto simp: grows_def b map_le_def)
  have good: "goodRollup (jSch P) (jBase P) (logOf ?b) m s" if "goodRollup (jSch P) (jBase P) (logOf b) m s" "LM m < bClock b" for m s
    using goodRollup_stable [OF g binv_finite [OF assms(1)] that(2,1)] .
  have "rollupOk P b" using assms(1) by (simp add: binv_def)
  then have "rollupOk P ?b"
    unfolding rollupOk_def roll using good
    by (auto simp: b simp del: split_paired_Ex split: option.splits prod.splits objBody.splits)
  moreover have "journalOk (jSch P) (logOf ?b)"
    unfolding log using assms by (intro segOk_journalOk) (simp_all add: binv_def)
  ultimately have "binv P ?b" using assms(1,2,4) unfolding binv_def b by auto
  moreover have "markOf P ?b = markOf P b" by (simp add: markOf_def roll)
  ultimately show ?thesis using g by (simp add: legal_def)
qed

lemma bStore_rollup: "bStore P (rollupKey (jNs P)) (RollupObj rb) b = b\<lparr>bObjs := (bObjs b)(rollupKey (jNs P) \<mapsto> (bClock b, RollupObj rb))\<rparr>"
  by (simp add: bStore_def split: option.splits)

text \<open>A new rollup is legal when it is good and its mark does not go back.\<close>

lemma store_rollup_legal:
  assumes "binv P b" "goodRollup (jSch P) (jBase P) (logOf b) (Mark rb) (State rb)" "LM (Mark rb) < bClock b"
    and "\<And>m. markOf P b = Some m \<Longrightarrow> markLe m (Mark rb)"
  shows "legal P b (bStore P (rollupKey (jNs P)) (RollupObj rb) b)" (is "legal P b ?b")
proof -
  have b: "bClock ?b = bClock b" "bLog ?b = bLog b"
    "bObjs ?b = (bObjs b)(rollupKey (jNs P) \<mapsto> (bClock b, RollupObj rb))" by (simp_all add: bStore_rollup)
  have log: "logOf ?b = logOf b" by (simp add: logOf_def b(2))
  have seg: "jlive P ?b k = jlive P b k" if "segName k" for k
    using seg_not_rollup [OF that, of "jNs P"] by (simp add: b(3))
  have live: "jlive P b k \<noteq> None" if k: "k \<in> dom (bLog b)" "\<not> covers (Mark rb) (fst (the (bLog b k))) k" for k
  proof (cases "markOf P b")
    case None
    then show ?thesis using assms(1) k by (auto simp: binv_def rollupOk_def markOf_def split: option.splits prod.splits objBody.splits)
  next
    case (Some m)
    then have "\<not> covers m (fst (the (bLog b k))) k" using covers_mono [OF assms(4)] k(2) by blast
    then show ?thesis using assms(1) k(1) Some
      by (auto simp: binv_def rollupOk_def markOf_def split: option.splits prod.splits objBody.splits)
  qed
  have segs: "segName k" if "k \<in> dom (bLog b)" for k using assms(1) that by (simp add: binv_def)
  have "jroll P ?b = Some (bClock b, RollupObj rb)" by (simp add: b)
  then have "rollupOk P ?b" using live assms(2,3) segs seg by (simp add: rollupOk_def b(1,2) log)
  moreover have "jlive P ?b k = Some (lm, body) \<Longrightarrow> segName k \<Longrightarrow> jlive P b k = Some (lm, body)" for k lm body
    using seg by simp
  ultimately have "binv P ?b" using assms(1) unfolding binv_def by (auto simp: b log)
  moreover have "markOf P ?b = Some (Mark rb)" by (simp add: markOf_def b)
  moreover have "grows b ?b" by (auto simp: grows_def b)
  ultimately show ?thesis using assms(4) by (simp add: legal_def)
qed

lemma remove_legal:
  assumes "binv P b" "markOf P b = Some m"
    and keys: "\<And>key. key \<in> set keys \<Longrightarrow> \<exists>k. key = nsPrefix (jNs P) @ k \<and> segName k \<and> (k \<in> dom (bLog b) \<longrightarrow> covers m (fst (the (bLog b k))) k)"
  shows "legal P b (b\<lparr>bObjs := bObjs b |` (- set keys)\<rparr>)" (is "legal P b ?b")
proof -
  have o: "bObjs ?b x = bObjs b x" if "\<And>k. segName k \<Longrightarrow> x \<noteq> nsPrefix (jNs P) @ k" for x
    using keys that by (auto simp: restrict_map_def)
  have roll: "jroll P ?b = jroll P b" using seg_not_rollup [of _ "jNs P"] by (intro o) metis
  have leg: "bObjs ?b (legacyKey (jNs P)) = bObjs b (legacyKey (jNs P))" by (intro o) simp
  have log: "logOf ?b = logOf b" by (simp add: logOf_def)
  obtain lm rb where rb: "jroll P b = Some (lm, RollupObj rb)" "Mark rb = m"
    using assms(2) by (auto simp: markOf_def split: option.splits prod.splits objBody.splits)
  have "jlive P ?b k = jlive P b k" if "k \<in> dom (bLog b)" "\<not> covers m (fst (the (bLog b k))) k" for k
    using keys that by (auto simp: restrict_map_def)
  moreover have "rollupOk P b" using assms(1) by (simp add: binv_def)
  ultimately have "rollupOk P ?b"
    unfolding rollupOk_def roll rb(1) by (simp add: rb(2) log)
  moreover have "jlive P ?b k = Some v \<Longrightarrow> jlive P b k = Some v" for k v by (simp add: restrict_map_def split: if_splits)
  ultimately have "binv P ?b" using assms(1) leg log unfolding binv_def by auto
  moreover have "markOf P ?b = markOf P b" by (simp only: markOf_def roll)
  moreover have "grows b ?b" by (auto simp: grows_def)
  ultimately show ?thesis by (simp add: legal_def)
qed

section \<open>A tick\<close>

lemma rely_move: "rely P E \<Longrightarrow> binv P b \<Longrightarrow> legal P b (eMove E i b)"
  by (simp add: rely_def)

lemma client_list:
  assumes "s3List (bucketClient P E) prefix (b, i) = ((objs, e), w)"
  shows "w = (eMove E i b, Suc i)" "e = [] \<Longrightarrow> objs = bListAns prefix (eMove E i b)"
  using assms by (auto simp: bucketClient_def Let_def split: if_splits)

lemma client_get:
  assumes "s3Get (bucketClient P E) key inm (b, i) = (r, w)"
  shows "w = (eMove E i b, Suc i)" "r = bGetAns P key inm (eMove E i b) \<or> (\<exists>e. r = GotErr e \<and> e \<noteq> [])"
  using assms by (auto simp: bucketClient_def Let_def split: if_splits)

text \<open>The namespace's keys depend on its name only.\<close>

lemma ns_keys:
  assumes "s3Name n = s3Name m"
  shows "nsPrefix n = nsPrefix m" "segPrefix n = segPrefix m" "rollupKey n = rollupKey m" "legacyKey n = legacyKey m"
  using assms by (simp_all add: nsPrefix_def segPrefix_def rollupKey_def legacyKey_def nsDir_def)

definition listsBucket :: "jparams \<Rightarrow> listing \<Rightarrow> bucket \<Rightarrow> bool" where
  "listsBucket P lst b \<longleftrightarrow> finite (dom (lEntries lst)) \<and>
     (\<forall>k lm. lEntries lst k = Some lm \<longleftrightarrow> segName k \<and> (\<exists>body. jlive P b k = Some (lm, body)))"

lemma tick_list:
  assumes "s3ListNs (bucketClient P E) now n (b, i) = (Inr lst, w)" "s3Name n = s3Name (jNs P)" "finite (dom (bObjs (eMove E i b)))"
  shows "w = (eMove E i b, Suc i)" "listsBucket P lst (eMove E i b)" "lStart lst = now"
proof -
  let ?pre = "nsPrefix (jNs P)" and ?b = "eMove E i b"
  obtain objs e w' where c: "s3List (bucketClient P E) (segPrefix n) (b, i) = ((objs, e), w')"
    by (metis prod.exhaust)
  have e: "e = []" "w' = w" and l: "lEntries lst = map_of (rev (map (\<lambda>(k, t). (TrimPrefix k (nsPrefix n), t)) objs))" "lStart lst = now"
    using assms(1) c by (auto simp: s3ListNs_def split: if_splits)
  show "w = (?b, Suc i)" "lStart lst = now" using client_list(1) [OF c] e l by simp_all
  let ?S = "{k \<in> dom (bObjs ?b). HasPrefix k (segPrefix n)}"
  have S: "?S = (\<lambda>r. ?pre @ r) ` {r. segName r \<and> jlive P ?b r \<noteq> None}"
    by (auto simp: HasPrefix_app segPrefix_def ns_keys [OF assms(2)])
  have "finite ?S" using assms(3) by simp
  then have objs: "set objs = (\<lambda>k. (k, fst (the (bObjs ?b k)))) ` ?S"
    using client_list(2) [OF c e(1)] by (simp add: bListAns_def)
  have mem: "(k, t) \<in> set (map (\<lambda>(k, t). (TrimPrefix k (nsPrefix n), t)) objs) \<longleftrightarrow>
      segName k \<and> jlive P ?b k \<noteq> None \<and> t = fst (the (jlive P ?b k))" for k t
    unfolding set_map objs S image_image by (auto simp: ns_keys [OF assms(2)] TrimPrefix_def)
  have uniq: "t = t'" if "(k, t) \<in> set (map (\<lambda>(k, t). (TrimPrefix k (nsPrefix n), t)) objs)"
    "(k, t') \<in> set (map (\<lambda>(k, t). (TrimPrefix k (nsPrefix n), t)) objs)" for k t t'
    using that unfolding mem by simp
  have "lEntries lst k = Some lm \<longleftrightarrow> (k, lm) \<in> set (map (\<lambda>(k, t). (TrimPrefix k (nsPrefix n), t)) objs)" for k lm
  proof
    assume "lEntries lst k = Some lm"
    then show "(k, lm) \<in> set (map (\<lambda>(k, t). (TrimPrefix k (nsPrefix n), t)) objs)"
      unfolding l by (metis map_of_SomeD set_rev)
  next
    assume m: "(k, lm) \<in> set (map (\<lambda>(k, t). (TrimPrefix k (nsPrefix n), t)) objs)"
    then obtain t where t: "lEntries lst k = Some t" unfolding l
      by (metis (no_types, lifting) map_of_eq_None_iff not_None_eq fst_conv image_eqI set_rev)
    then have "(k, t) \<in> set (map (\<lambda>(k, t). (TrimPrefix k (nsPrefix n), t)) objs)" unfolding l by (metis map_of_SomeD set_rev)
    then show "lEntries lst k = Some lm" using uniq [OF m] t by simp
  qed
  then show "listsBucket P lst ?b" unfolding listsBucket_def mem by (auto simp: l finite_dom_map_of)
qed

lemma client_put:
  assumes "s3Put (bucketClient P E) key body cond (b, i) = (r, w)" "b1 = eMove E i b"
  shows "w = (bStore P key body b1, Suc i) \<and> bPutOk P key cond b1 \<and> (r = PutOk (jTag P body) \<or> (\<exists>e. r = PutErr e \<and> e \<noteq> [])) \<or>
    w = (b1, Suc i) \<and> (r = PutPreconditionFailed \<or> (\<exists>e. r = PutErr e \<and> e \<noteq> []))"
  using assms by (auto simp: bucketClient_def Let_def split: if_splits)

text \<open>What a refresh of the rollup leaves: a held rollup at least as new as the one before the call.\<close>

definition refreshed :: "jparams \<Rightarrow> bucket \<Rightarrow> nsS3 \<Rightarrow> goerr \<times> nsS3 \<times> bucket \<times> nat \<Rightarrow> bool" where
  "refreshed P b n r = (case r of (e, n', b', i') \<Rightarrow>
     legal P b b' \<and> repOk P b' n' \<and> s3Cache n' = s3Cache n \<and>
     (e = [] \<longrightarrow> (\<exists>h. s3Rollup n' = Some h \<and> (\<forall>m. markOf P b = Some m \<longrightarrow> markLe m (hrMark h)))))"

lemma refreshed_earlier:
  assumes "refreshed P b1 n r" "legal P b b1"
  shows "refreshed P b n r"
proof (cases r)
  case (fields e n' b' i')
  have l: "legal P b b'" using assms legal_trans unfolding fields refreshed_def by (auto simp: case_prod_beta)
  have "\<forall>m. markOf P b = Some m \<longrightarrow> markLe m (hrMark h)" if h: "\<forall>m. markOf P b1 = Some m \<longrightarrow> markLe m (hrMark h)" for h
  proof (intro allI impI)
    fix m assume "markOf P b = Some m"
    then obtain m1 where m1: "markOf P b1 = Some m1" "markLe m m1" using legal_mark [OF assms(2)] by blast
    then have "markLe m1 (hrMark h)" using h by blast
    then show "markLe m (hrMark h)" by (rule order_trans [OF m1(2)])
  qed
  then show ?thesis using assms(1) l unfolding fields refreshed_def by (auto simp only: prod.case)
qed

lemma journalState_empty [simp]: "journalState base L {} = base"
  by (simp add: journalState_def segOrder_def segOps_def)

lemma goodRollup_seed:
  assumes "rely P E" "binv P b" "unmarshalState d = Some (jBase P)"
  shows "goodRollup (jSch P) (jBase P) (logOf b) zeroMark d"
proof -
  have "0 < fst (the (logOf b k))" if "k \<in> dom (bLog b)" for k
    using assms(2) that unfolding binv_def journalOk_def
    by (metis dom_logOf domD option.sel prod.collapse)
  then have "covered (logOf b) zeroMark = {}" by (auto simp: covered_def zeroMark_covers)
  then show ?thesis using assms by (simp add: goodRollup_def rely_def)
qed

lemma binv_roll: "binv P b \<Longrightarrow> jroll P b = Some (lm, body) \<Longrightarrow>
    \<exists>rb. body = RollupObj rb \<and> markOf P b = Some (Mark rb) \<and> goodRollup (jSch P) (jBase P) (logOf b) (Mark rb) (State rb)"
  by (auto simp: binv_def rollupOk_def markOf_def split: objBody.splits)

lemma seed_state:
  assumes "readLegacy (bucketClient P E) n (b, i) = (Inr leg, w)" "s3Name n = s3Name (jNs P)" "binv P (eMove E i b)"
  shows "w = (eMove E i b, Suc i)" "unmarshalState (case leg of None \<Rightarrow> ''{}'' | Some s \<Rightarrow> s) = Some (jBase P)"
proof -
  let ?b = "eMove E i b"
  obtain r w' where g: "s3Get (bucketClient P E) (legacyKey n) None (b, i) = (r, w')" by (metis prod.exhaust)
  have leg: "bObjs ?b (legacyKey n) = jLeg P" using assms(3) ns_keys [OF assms(2)] by (simp add: binv_def)
  have e: "unmarshalState ''{}'' = Some Map.empty"
    by (simp add: unmarshalState_def jsonDecode_def parseVal.simps(2) skipWs_def expectChar_def)
  have "\<nexists>er. r = GotErr er" using assms(1) g by (auto simp: readLegacy_def)
  then have r: "r = bGetAns P (legacyKey n) None ?b" using client_get(2) [OF g] by blast
  have w: "w = w'" using assms(1) g by (auto simp: readLegacy_def split: getResult.splits objBody.splits)
  then show "w = (?b, Suc i)" using client_get(1) [OF g] by simp
  show "unmarshalState (case leg of None \<Rightarrow> ''{}'' | Some s \<Rightarrow> s) = Some (jBase P)"
    using assms(1) e unfolding readLegacy_def g prod.case r bGetAns_def leg
    by (auto simp: jBase_def split: option.splits objBody.splits if_splits)
qed

lemma repOk_hold:
  assumes "repOk P b n" "goodRollup (jSch P) (jBase P) (logOf b) (Mark rb) (State rb)" "markOf P b = Some (Mark rb)"
  shows "repOk P b (n\<lparr>s3Rollup := Some \<lparr>hrEtag = jTag P (RollupObj rb), hrMark = Mark rb, hrState = State rb\<rparr>\<rparr>)"
  using assms by (cases rb) (auto simp: repOk_def heldOk_def)

lemma refresh_get:
  assumes rel: "rely P E" and inv: "binv P b" and rep: "repOk P b n"
    and obj: "jroll P b = Some (lm, body)"
  shows "(if map_option hrEtag (s3Rollup n) = Some (jTag P body) then refreshed P b n ([], n, b, i)
      else (\<exists>n'. adoptRollup (jTag P body) body n = ([], n') \<and> refreshed P b n ([], n', b, i)))"
proof -
  obtain rb where rb: "body = RollupObj rb" "markOf P b = Some (Mark rb)"
    "goodRollup (jSch P) (jBase P) (logOf b) (Mark rb) (State rb)" using binv_roll [OF inv obj] by blast
  show ?thesis
  proof (cases "map_option hrEtag (s3Rollup n) = Some (jTag P body)")
    case True
    then obtain h where h: "s3Rollup n = Some h" "hrEtag h = jTag P body" by auto
    then have "jTag P body = jTag P (RollupObj \<lparr>State = hrState h, Mark = hrMark h\<rparr>)"
      using rep by (simp add: repOk_def heldOk_def)
    then have "body = RollupObj \<lparr>State = hrState h, Mark = hrMark h\<rparr>" using rel by (simp add: rely_def inj_eq)
    then show ?thesis using True rep inv rb h by (auto simp: refreshed_def legal_refl)
  next
    case False
    obtain s where "unmarshalState (State rb) = Some s" using rb(3) by (auto simp: goodRollup_def)
    then show ?thesis using False rb repOk_hold [OF rep rb(3,2)] inv
      by (auto simp: adoptRollup_def refreshed_def legal_refl)
  qed
qed

lemma refresh_seed:
  assumes rel: "rely P E" and inv: "binv P b" and rep: "repOk P b n"
    and IH: "\<And>b n i r. \<lbrakk>binv P b; repOk P b n; refreshRollup fuel (bucketClient P E) n (b, i) = Ret r\<rbrakk> \<Longrightarrow> refreshed P b n r"
    and run: "seedRollup fuel (bucketClient P E) n (b, i) = Ret r"
  shows "refreshed P b n r"
proof -
  let ?C = "bucketClient P E" and ?b1 = "eMove E i b"
  have nm: "s3Name n = s3Name (jNs P)" using rep by (simp add: repOk_def)
  have l1: "legal P b ?b1" using rely_move [OF rel inv] .
  obtain leg w1 where leg: "readLegacy ?C n (b, i) = (leg, w1)" by (metis prod.exhaust)
  show ?thesis
  proof (cases leg)
    case (Inl e)
    have "w1 = (?b1, Suc i)" using leg unfolding readLegacy_def
      by (auto simp: client_get(1) split: getResult.splits objBody.splits prod.splits)
    then show ?thesis using run leg Inl l1 repOk_stable [OF l1 inv rep] by (auto simp: refreshed_def)
  next
    case (Inr lg)
    define d where "d = (case lg of None \<Rightarrow> ''{}'' | Some s \<Rightarrow> s)"
    have w1: "w1 = (?b1, Suc i)" and d: "unmarshalState d = Some (jBase P)"
      using seed_state [OF leg [unfolded Inr] nm legal_inv [OF l1]] by (simp_all add: d_def)
    define b2 where "b2 = eMove E (Suc i) ?b1"
    have l2: "legal P b b2" unfolding b2_def using l1 rely_move [OF rel legal_inv [OF l1]] by (rule legal_trans)
    let ?rb = "\<lparr>State = d, Mark = zeroMark\<rparr>"
    obtain pr w2 where put: "s3Put ?C (rollupKey n) (RollupObj ?rb) PutIfAbsent (?b1, Suc i) = (pr, w2)" by (metis prod.exhaust)
    have rep2: "repOk P b2 n" using repOk_stable [OF l2 inv rep] .
    have run2: "r = (case pr of PutOk etag \<Rightarrow> ([], n\<lparr>s3Rollup := Some \<lparr>hrEtag = etag, hrMark = zeroMark, hrState = d\<rparr>\<rparr>, w2)
        | PutErr e \<Rightarrow> (ErrOther ''seed rollup'' # e, n, w2) | _ \<Rightarrow> r)"
      using run leg put by (auto simp: Inr w1 d_def [symmetric] Let_def split: putResult.splits)
    from client_put [OF put b2_def]
    consider (stored) "w2 = (bStore P (rollupKey n) (RollupObj ?rb) b2, Suc (Suc i))" "bPutOk P (rollupKey n) PutIfAbsent b2"
        "pr = PutOk (jTag P (RollupObj ?rb)) \<or> (\<exists>e. pr = PutErr e \<and> e \<noteq> [])"
      | (failed) "w2 = (b2, Suc (Suc i))" "\<exists>e. pr = PutErr e \<and> e \<noteq> []"
      | (lost) "w2 = (b2, Suc (Suc i))" "pr = PutPreconditionFailed" by blast
    then show ?thesis
    proof cases
      case stored
      have none: "markOf P b2 = None" using stored(2) ns_keys [OF nm] by (simp add: bPutOk_def markOf_def)
      have good: "goodRollup (jSch P) (jBase P) (logOf b2) zeroMark d" using goodRollup_seed [OF rel legal_inv [OF l2] d] .
      let ?b3 = "bStore P (rollupKey n) (RollupObj ?rb) b2"
      have l3: "legal P b2 ?b3" unfolding ns_keys [OF nm]
        using legal_inv [OF l2] good none by (intro store_rollup_legal) (auto simp: binv_def zeroMark_def)
      have rep3: "repOk P ?b3 n" using repOk_stable [OF l3 legal_inv [OF l2] rep2] .
      have log3: "logOf ?b3 = logOf b2" and m3: "markOf P ?b3 = Some zeroMark"
        unfolding ns_keys [OF nm] by (simp_all add: bStore_rollup logOf_def markOf_def)
      have n0: "markOf P b = None" using legal_mark [OF l2] none by (cases "markOf P b") auto
      have l: "legal P b ?b3" using l2 l3 by (rule legal_trans)
      show ?thesis
        using stored(3) run2 rep3 l n0 repOk_hold [OF rep3, of ?rb] good
        by (auto simp: refreshed_def stored(1) log3 m3)
    next
      case failed
      then show ?thesis using run2 l2 rep2 by (auto simp: refreshed_def)
    next
      case lost
      let ?n = "n\<lparr>s3Rollup := None\<rparr>"
      have "refreshRollup fuel ?C ?n (b2, Suc (Suc i)) = Ret r"
        using run leg put by (simp add: Inr w1 d_def [symmetric] lost)
      moreover have "repOk P b2 ?n" using rep2 by (simp add: repOk_def)
      ultimately have "refreshed P b2 ?n r" using IH legal_inv [OF l2] by blast
      then have "refreshed P b2 n r" by (simp add: refreshed_def)
      then show ?thesis using l2 by (rule refreshed_earlier)
    qed
  qed
qed

lemma refresh_ok:
  assumes "rely P E"
  shows "\<lbrakk>binv P b; repOk P b n; refreshRollup fuel (bucketClient P E) n (b, i) = Ret r\<rbrakk> \<Longrightarrow> refreshed P b n r"
proof (induction fuel arbitrary: b n i r)
  case (Suc fuel)
  let ?b1 = "eMove E i b"
  have l1: "legal P b ?b1" using rely_move [OF assms Suc.prems(1)] .
  note inv1 = legal_inv [OF l1] and rep1 = repOk_stable [OF l1 Suc.prems(1,2)]
  obtain g w where g: "s3Get (bucketClient P E) (rollupKey n) (map_option hrEtag (s3Rollup n)) (b, i) = (g, w)" by (metis prod.exhaust)
  note w = client_get(1) [OF g]
  have nm: "s3Name n = s3Name (jNs P)" using Suc.prems(2) by (simp add: repOk_def)
  have "refreshed P ?b1 n r"
  proof (cases "\<exists>e. g = GotErr e")
    case True
    then show ?thesis using Suc.prems(3) g w rep1 legal_refl [OF inv1] by (auto simp: refreshed_def)
  next
    case False
    then have ans: "g = bGetAns P (rollupKey n) (map_option hrEtag (s3Rollup n)) ?b1" using client_get(2) [OF g] by blast
    show ?thesis
    proof (cases "jroll P ?b1")
      case None
      then have "seedRollup fuel (bucketClient P E) n (?b1, Suc i) = Ret r"
        using Suc.prems(3) g w ans by (simp add: bGetAns_def ns_keys [OF nm])
      from refresh_seed [OF assms inv1 rep1 _ this] show ?thesis using Suc.IH by blast
    next
      case (Some p)
      obtain lm body where p: "jroll P ?b1 = Some (lm, body)" using Some by (cases p) auto
      show ?thesis using Suc.prems(3) g w ans refresh_get [OF assms inv1 rep1 p, of "Suc i"] p
        by (auto simp: bGetAns_def ns_keys [OF nm] split: if_splits)
    qed
  qed
  then show ?case using l1 by (rule refreshed_earlier)
qed simp

lemma sameOp_refl [simp]: "sameOp op op"
  by (simp add: sameOp_def)

lemma fetchSegment_ok:
  assumes "rely P E" "binv P b" "s3Name n = s3Name (jNs P)" "segName k" "fetchSegment (bucketClient P E) n k (b, i) = (r, w)"
  shows "w = (eMove E i b, Suc i)" "r = Inr ops \<Longrightarrow> \<exists>lm. logOf (eMove E i b) k = Some (lm, ops)"
proof -
  let ?b = "eMove E i b"
  obtain g w' where g: "s3Get (bucketClient P E) (nsPrefix n @ k) None (b, i) = (g, w')" by (metis prod.exhaust)
  note w = client_get(1) [OF g]
  then show "w = (?b, Suc i)" using assms(5) g
    by (auto simp: fetchSegment_def split: getResult.splits objBody.splits option.splits)
  assume r: "r = Inr ops"
  then have "\<nexists>e. g = GotErr e" using assms(5) g by (auto simp: fetchSegment_def)
  then have "g = bGetAns P (nsPrefix n @ k) None ?b" using client_get(2) [OF g] by blast
  then obtain lm d where d: "jlive P ?b k = Some (lm, TextBody d)" "unmarshalSegment d = Some ops"
    using assms(5) g r by (auto simp: fetchSegment_def bGetAns_def ns_keys [OF assms(3)] split: option.splits objBody.splits)
  have "binv P ?b" using legal_inv [OF rely_move [OF assms(1,2)]] .
  then have "bLog ?b k = Some (lm, d)" using d(1) assms(4) by (fastforce simp: binv_def)
  then show "\<exists>lm. logOf ?b k = Some (lm, ops)" using d(2) by (simp add: logOf_def)
qed

lemma fetchAll_ok:
  assumes "rely P E" "s3Name n = s3Name (jNs P)"
  shows "\<lbrakk>binv P b; \<forall>k \<in> set keys. segName k \<and> k \<in> dom (bLog b) \<and> lEntries lst k = Some (fst (the (bLog b k)));
      fetchAll (bucketClient P E) n lst now keys (b, i) = (r, b', i')\<rbrakk> \<Longrightarrow>
    legal P b b' \<and> (\<forall>staged. r = Inr staged \<longrightarrow> dom staged = set keys \<and>
      (\<forall>k e. staged k = Some e \<longrightarrow> entryOk (logOf b') k e \<and> ceListed e))"
proof (induction keys arbitrary: b i r b' i')
  case (Cons key keys)
  let ?b1 = "eMove E i b"
  obtain r1 w1 where f: "fetchSegment (bucketClient P E) n key (b, i) = (r1, w1)" by (metis prod.exhaust)
  have "segName key" using Cons.prems(2) by simp
  note f1 = fetchSegment_ok [OF assms(1) Cons.prems(1) assms(2) this f]
  have l1: "legal P b ?b1" using rely_move [OF assms(1) Cons.prems(1)] .
  have keys1: "\<forall>k \<in> set keys. segName k \<and> k \<in> dom (bLog ?b1) \<and> lEntries lst k = Some (fst (the (bLog ?b1 k)))"
  proof
    fix k assume "k \<in> set keys"
    then have k: "segName k" "k \<in> dom (bLog b)" "lEntries lst k = Some (fst (the (bLog b k)))" using Cons.prems(2) by simp_all
    then show "segName k \<and> k \<in> dom (bLog ?b1) \<and> lEntries lst k = Some (fst (the (bLog ?b1 k)))"
      using legal_log [OF l1 k(2)] subsetD [OF legal_dom [OF l1] k(2)] by simp
  qed
  show ?case
  proof (cases r1)
    case (Inl e)
    then show ?thesis using Cons.prems(3) f f1(1) l1 by auto
  next
    case (Inr ops)
    obtain r2 b2 i2 where rest: "fetchAll (bucketClient P E) n lst now keys (?b1, Suc i) = (r2, b2, i2)" by (metis prod.exhaust)
    have eq: "b2 = b'" using Cons.prems(3) f f1(1) rest by (auto simp: Inr split: sum.splits)
    note IH = Cons.IH [OF legal_inv [OF l1] keys1 rest [unfolded eq]]
    have l: "legal P b b'" using l1 IH by (blast intro: legal_trans)
    moreover have "dom staged = set (key # keys) \<and> (\<forall>k e. staged k = Some e \<longrightarrow> entryOk (logOf b') k e \<and> ceListed e)"
      if st: "r = Inr staged" for staged
    proof -
      obtain st2 where st2: "r2 = Inr st2" "staged = st2(key \<mapsto> \<lparr>ceOps = ops, ceLm = the (lEntries lst key), ceListed = True, ceInserted = now\<rparr>)"
        using Cons.prems(3) f f1(1) rest st by (auto simp: Inr split: sum.splits)
      obtain lm where "logOf ?b1 key = Some (lm, ops)" using f1(2) [OF Inr] by blast
      moreover have kd: "key \<in> dom (bLog ?b1)" using Cons.prems(2) legal_dom [OF l1] by auto
      ultimately have log: "logOf b' key = Some (lm, ops)" using legal_logOf [of P ?b1 b' key] IH by simp
      have "fst (the (bLog b key)) = lm"
        using logOf_fst [of key b] legal_logOf [OF l, of key] log Cons.prems(2) by (metis fst_conv list.set_intros(1) option.sel)
      then have "entryOk (logOf b') key \<lparr>ceOps = ops, ceLm = the (lEntries lst key), ceListed = True, ceInserted = now\<rparr>"
        using log Cons.prems(2) subsetD [OF legal_dom [OF l], of key] by (simp add: entryOk_def list_all2_refl)
      then show ?thesis using IH st2 by auto
    qed
    ultimately show ?thesis by blast
  qed
qed (auto simp: legal_refl)

lemma stampCache_ok:
  assumes "listsBucket P lst b" "binv P b" "\<forall>k e. cache k = Some e \<longrightarrow> entryOk (logOf b) k e" "stampCache lst cache k = Some e"
  shows "entryOk (logOf b) k e" "lEntries lst k \<noteq> None \<Longrightarrow> ceListed e" "\<exists>e0. cache k = Some e0 \<and> ceInserted e0 = ceInserted e"
proof -
  obtain e0 where e0: "cache k = Some e0" "e = stampEntry lst k e0" using assms(4) by (auto simp: stampCache_def)
  have stamp: "lm = fst (the (logOf b k))" if lm: "lEntries lst k = Some lm" for lm
  proof -
    obtain d where "bLog b k = Some (lm, d)" using lm assms(1,2) unfolding listsBucket_def binv_def by blast
    then show ?thesis by (simp add: logOf_def)
  qed
  show "entryOk (logOf b) k e" "lEntries lst k \<noteq> None \<Longrightarrow> ceListed e" "\<exists>e0. cache k = Some e0 \<and> ceInserted e0 = ceInserted e"
    using assms(3) e0 stamp by (auto simp: stampEntry_def entryOk_def split: option.splits)
qed

lemma listed_log: "listsBucket P lst b \<Longrightarrow> binv P b \<Longrightarrow> lEntries lst k = Some lm \<Longrightarrow> segName k \<and> k \<in> dom (bLog b) \<and> lm = fst (the (bLog b k))"
proof -
  assume l: "listsBucket P lst b" and i: "binv P b" and e: "lEntries lst k = Some lm"
  obtain body where s: "segName k" "jlive P b k = Some (lm, body)" using l e unfolding listsBucket_def by blast
  obtain d where "bLog b k = Some (lm, d)" using i s unfolding binv_def by blast
  then show ?thesis using s by auto
qed

lemma unlisted_covered:
  assumes "listsBucket P lst b" "binv P b" "k \<in> dom (bLog b)" "lEntries lst k = None"
  shows "\<exists>m. markOf P b = Some m \<and> covers m (fst (the (bLog b k))) k"
proof -
  have "segName k" using assms(2,3) by (simp add: binv_def)
  then have "\<nexists>lm body. jlive P b k = Some (lm, body)" using assms(1,4) unfolding listsBucket_def by force
  then have "jlive P b k = None" by (cases "jlive P b k") auto
  then have dead: "\<not> (\<forall>k \<in> dom (bLog b). jlive P b k \<noteq> None)" using assms(3) by blast
  have ok: "rollupOk P b" using assms(2) by (simp add: binv_def)
  show ?thesis
  proof (cases "jroll P b")
    case None
    then show ?thesis using ok dead by (simp add: rollupOk_def)
  next
    case (Some p)
    then obtain lm rb where rb: "jroll P b = Some (lm, RollupObj rb)" "markOf P b = Some (Mark rb)"
      using binv_roll [OF assms(2)] by (cases p) metis
    then have "\<not> covers (Mark rb) (fst (the (bLog b k))) k \<longrightarrow> jlive P b k \<noteq> None"
      using ok assms(3) unfolding rollupOk_def rb(1) by (simp del: not_None_eq)
    then show ?thesis using \<open>jlive P b k = None\<close> rb(2) by simp
  qed
qed

lemma unseenKeys_ok:
  assumes "finite (dom (lEntries lst))"
  shows "set (unseenKeys lst m cache) = {k \<in> dom (lEntries lst). cache k = None \<and> \<not> covers m (the (lEntries lst k)) k}"
  using assms by (auto simp: unseenKeys_def)

text \<open>
  The rebuild from a listing of an earlier bucket \<open>b1\<close>, a rollup at least as new as the one there, and the
  fetched segments: the state of a set of segments that includes the log at the time of the listing.
\<close>

lemma rebuild_ok:
  assumes rel: "rely P E" and inv1: "binv P b1" and lst: "listsBucket P lst b1"
    and l: "legal P b1 b" and rep: "repOk P b1 n"
    and ins: "\<forall>k e. s3Cache n k = Some e \<longrightarrow> ceInserted e < lStart lst"
    and held: "heldOk P b h" "\<forall>m. markOf P b1 = Some m \<longrightarrow> markLe m (hrMark h)"
    and staged: "dom staged = set (unseenKeys lst (hrMark h) (s3Cache n))"
      "\<forall>k e. staged k = Some e \<longrightarrow> entryOk (logOf b) k e \<and> ceListed e"
    and n2: "s3Cache n2 = stampCache lst (s3Cache n)"
  defines "n' \<equiv> rebuild id lst staged h n2"
  shows "\<exists>K. dom (bLog b1) \<subseteq> K \<and> K \<subseteq> dom (bLog b) \<and> sameState (journalState (jBase P) (logOf b) K) (s3State n')"
    "\<forall>k e. s3Cache n' k = Some e \<longrightarrow> entryOk (logOf b) k e"
proof -
  define cache where "cache = rebuildEvict lst (hrMark h) (s3Cache n2)"
  define input where "input = cache ++ staged"
  have inv: "binv P b" using legal_inv [OF l] .
  have cacheD: "entryOk (logOf b) k e \<and> ceListed e" if c: "cache k = Some e" for k e
  proof -
    have s: "stampCache lst (s3Cache n) k = Some e" using c by (auto simp: cache_def n2 rebuildEvict_def split: option.splits if_splits)
    have ok: "entryOk (logOf b1) k e" "lEntries lst k \<noteq> None \<Longrightarrow> ceListed e"
      and ins': "ceInserted e < lStart lst"
      using stampCache_ok [OF lst inv1 _ s] rep ins unfolding repOk_def by (blast, blast, metis)
    have "ceListed e" using c ok(2) ins' s by (auto simp: cache_def n2 rebuildEvict_def split: if_splits)
    then show ?thesis using entryOk_stable [OF l ok(1)] by simp
  qed
  have inp: "entryOk (logOf b) k e \<and> ceListed e" if "input k = Some e" for k e
    using that cacheD staged(2) by (auto simp: input_def map_add_def split: option.splits)
  have sub: "dom input \<subseteq> dom (bLog b)" using inp by (force simp: entryOk_def)
  then have fin: "finite (dom input)" using binv_finite [OF inv] finite_subset by blast
  define st where "st = replayState h input (sorted_list_of_set (dom input))"
  have rs: "sameState (journalState (jBase P) (logOf b) (covered (logOf b) (hrMark h) \<union> dom input)) st"
    using replayState_journal [of "jSch P" "logOf b" "jBase P" input "sorted_list_of_set (dom input)" h] inp fin inv rel held(1)
    by (auto simp: st_def binv_def rely_def heldOk_def)
  have late: "dom cache - dom input = {}" by (auto simp: input_def)
  have n': "n' = n2\<lparr>s3State := st, s3Cache := cache ++ staged\<rparr>"
    unfolding n'_def rebuild_def rebuildSwap_def Let_def id_def
    by (simp add: cache_def [symmetric] input_def [symmetric] st_def [symmetric] late del: dom_map_add)
  have all: "k \<in> covered (logOf b) (hrMark h) \<union> dom input" if k: "k \<in> dom (bLog b1)" for k
  proof (cases "covers (hrMark h) (fst (the (bLog b1 k))) k")
    case True
    have "fst (the (logOf b k)) = fst (the (bLog b1 k))" using legal_logOf [OF l k] logOf_fst [OF k] by simp
    then show ?thesis using True k legal_dom [OF l] by (auto simp: covered_def)
  next
    case False
    have "lEntries lst k \<noteq> None"
    proof
      assume "lEntries lst k = None"
      then obtain m where m: "markOf P b1 = Some m" "covers m (fst (the (bLog b1 k))) k" using unlisted_covered [OF lst inv1 k] by blast
      then have "markLe m (hrMark h)" using held(2) by blast
      from covers_mono [OF this m(2)] show False using False by simp
    qed
    then obtain lm where lm: "lEntries lst k = Some lm" by auto
    then have lm': "lm = fst (the (bLog b1 k))" using listed_log [OF lst inv1] by blast
    show ?thesis
    proof (cases "s3Cache n k")
      case None
      moreover have "finite (dom (lEntries lst))" using lst by (simp add: listsBucket_def)
      ultimately have "k \<in> dom staged" unfolding staged(1) using lm lm' False by (simp add: unseenKeys_ok domI)
      then show ?thesis by (auto simp: input_def)
    next
      case (Some e0)
      then have s: "stampCache lst (s3Cache n) k = Some (stampEntry lst k e0)" by (simp add: stampCache_def)
      then have "ceListed (stampEntry lst k e0) \<and> ceLm (stampEntry lst k e0) = lm"
        using stampCache_ok(1,2) [OF lst inv1 _ s] rep lm lm' logOf_fst [OF k] by (auto simp: repOk_def entryOk_def)
      then have "cache k = Some (stampEntry lst k e0)" using s lm' False by (auto simp: cache_def n2 rebuildEvict_def)
      then show ?thesis by (auto simp: input_def)
    qed
  qed
  show "\<forall>k e. s3Cache n' k = Some e \<longrightarrow> entryOk (logOf b) k e" using inp by (auto simp: n' input_def)
  show "\<exists>K. dom (bLog b1) \<subseteq> K \<and> K \<subseteq> dom (bLog b) \<and> sameState (journalState (jBase P) (logOf b) K) (s3State n')"
    using all rs sub by (intro exI [of _ "covered (logOf b) (hrMark h) \<union> dom input"]) (auto simp: n' covered_def)
qed

lemma tick_list_any: "s3ListNs (bucketClient P E) now n (b, i) = (r, w) \<Longrightarrow> w = (eMove E i b, Suc i)"
proof -
  assume a: "s3ListNs (bucketClient P E) now n (b, i) = (r, w)"
  obtain objs e w' where c: "s3List (bucketClient P E) (segPrefix n) (b, i) = ((objs, e), w')" by (metis prod.exhaust)
  then show ?thesis using a client_list(1) [OF c] by (auto simp: s3ListNs_def split: if_splits)
qed

lemma rebuild_keeps: "s3Name (rebuild id lst staged h n) = s3Name n" "s3Rollup (rebuild id lst staged h n) = s3Rollup n"
  by (simp_all add: rebuild_def rebuildSwap_def Let_def)

lemma fetchUnseen_ok:
  assumes rel: "rely P E" and inv1: "binv P b1" and lst: "listsBucket P lst b1" and l: "legal P b1 b2" and rep: "repOk P b2 n"
    and run: "fetchUnseen (bucketClient P E) now lst h n (b2, i2) = (r, n3, b3, i3)"
  shows "legal P b2 b3 \<and> n3 = n\<lparr>s3Cache := stampCache lst (s3Cache n)\<rparr> \<and>
    (\<forall>staged. r = Inr staged \<longrightarrow> dom staged = set (unseenKeys lst (hrMark h) (s3Cache n)) \<and>
      (\<forall>k e. staged k = Some e \<longrightarrow> entryOk (logOf b3) k e \<and> ceListed e))"
proof -
  let ?keys = "unseenKeys lst (hrMark h) (s3Cache n)"
  have nm: "s3Name n = s3Name (jNs P)" using rep by (simp add: repOk_def)
  have fin: "finite (dom (lEntries lst))" using lst by (simp add: listsBucket_def)
  have keys: "\<forall>k \<in> set ?keys. segName k \<and> k \<in> dom (bLog b2) \<and> lEntries lst k = Some (fst (the (bLog b2 k)))"
  proof
    fix k assume "k \<in> set ?keys"
    then obtain lm where lm: "lEntries lst k = Some lm" unfolding unseenKeys_ok [OF fin] by auto
    have k: "segName k" "k \<in> dom (bLog b1)" "lm = fst (the (bLog b1 k))" using listed_log [OF lst inv1 lm] by simp_all
    show "segName k \<and> k \<in> dom (bLog b2) \<and> lEntries lst k = Some (fst (the (bLog b2 k)))"
      using k lm legal_log [OF l k(2)] subsetD [OF legal_dom [OF l] k(2)] by simp
  qed
  have f: "fetchAll (bucketClient P E) n lst now ?keys (b2, i2) = (r, b3, i3)" and n3: "n3 = n\<lparr>s3Cache := stampCache lst (s3Cache n)\<rparr>"
    using run by (auto simp: fetchUnseen_def Let_def split: prod.splits)
  show ?thesis using fetchAll_ok [OF rel nm legal_inv [OF l] keys f] n3 by blast
qed

lemma tick_ok:
  assumes rel: "rely P E" and inv: "binv P b" and rep: "repOk P b n"
    and ins: "\<forall>k e. s3Cache n k = Some e \<longrightarrow> ceInserted e < now"
    and run: "s3Tick fuel (bucketClient P E) now id n (b, i) = Ret (r, n', b', i')"
  shows "legal P b b' \<and> repOk P b' n' \<and> (\<forall>lst. r = Inr lst \<longrightarrow>
    (\<exists>K. dom (bLog b) \<subseteq> K \<and> K \<subseteq> dom (bLog b') \<and> sameState (journalState (jBase P) (logOf b') K) (s3State n')))"
proof -
  let ?C = "bucketClient P E" and ?b1 = "eMove E i b"
  have nm: "s3Name n = s3Name (jNs P)" using rep by (simp add: repOk_def)
  have l1: "legal P b ?b1" using rely_move [OF rel inv] .
  note inv1 = legal_inv [OF l1] and rep1 = repOk_stable [OF l1 inv rep]
  obtain ls w1 where ls: "s3ListNs ?C now n (b, i) = (ls, w1)" by (metis prod.exhaust)
  have w1: "w1 = (?b1, Suc i)" using tick_list_any [OF ls] .
  show ?thesis
  proof (cases ls)
    case (Inl e)
    then show ?thesis using run ls w1 l1 rep1 by (auto simp: s3Tick_def)
  next
    case (Inr lst)
    have fin: "finite (dom (bObjs ?b1))" using inv1 by (simp add: binv_def)
    note L = tick_list [OF ls [unfolded Inr] nm fin]
    have nb: "refreshRollup fuel ?C n (?b1, Suc i) \<noteq> Blocked" "refreshRollup fuel ?C n (?b1, Suc i) \<noteq> Panic"
      using run ls w1 by (auto simp: s3Tick_def Inr)
    then obtain e n2 b2 i2 where rf: "refreshRollup fuel ?C n (?b1, Suc i) = Ret (e, n2, b2, i2)"
      by (metis outcome.exhaust prod.exhaust)
    note R = refresh_ok [OF rel inv1 rep1 rf]
    have l2: "legal P ?b1 b2" and rep2: "repOk P b2 n2" and c2: "s3Cache n2 = s3Cache n"
      and h2: "e = [] \<Longrightarrow> \<exists>h. s3Rollup n2 = Some h \<and> (\<forall>m. markOf P ?b1 = Some m \<longrightarrow> markLe m (hrMark h))"
      using R unfolding refreshed_def prod.case by blast+
    have l02: "legal P b b2" using l1 l2 by (rule legal_trans)
    show ?thesis
    proof (cases "e = []")
      case False
      then show ?thesis using run ls w1 rf l02 rep2 by (auto simp: s3Tick_def Inr)
    next
      case True
      obtain h where h: "s3Rollup n2 = Some h" "\<forall>m. markOf P ?b1 = Some m \<longrightarrow> markLe m (hrMark h)" using h2 [OF True] by blast
      obtain fr n3 b3 i3 where fu: "fetchUnseen ?C now lst h n2 (b2, i2) = (fr, n3, b3, i3)" by (metis prod.exhaust)
      note F = fetchUnseen_ok [OF rel inv1 L(2) l2 rep2 fu]
      have l23: "legal P b2 b3" and n3: "n3 = n2\<lparr>s3Cache := stampCache lst (s3Cache n2)\<rparr>" using F by blast+
      have l03: "legal P b b3" and l13: "legal P ?b1 b3" using l02 l2 l23 by (blast intro: legal_trans)+
      have held: "heldOk P b2 h" "heldOk P b3 h"
        using rep2 h(1) heldOk_stable [OF l23 legal_inv [OF l2]] by (auto simp: repOk_def)
      have nm3: "s3Name n3 = s3Name (jNs P)" and ro3: "s3Rollup n3 = Some h" using rep2 h(1) by (simp_all add: n3 repOk_def)
      show ?thesis
      proof (cases fr)
        case (Inl e)
        have eq: "b' = b3" "n' = n3" "r = Inl (ErrOther ''fetch segments'' # e)"
          using run ls w1 rf True h(1) fu by (simp_all add: s3Tick_def \<open>ls = Inr lst\<close> Inl)
        have "entryOk (logOf b3) k x" if "s3Cache n3 k = Some x" for k x
          using stampCache_ok(1) [OF L(2) inv1, of "s3Cache n" k x] rep1 that entryOk_stable [OF l13]
          by (auto simp: n3 c2 repOk_def)
        then have "repOk P b3 n3" using nm3 ro3 held(2) by (simp add: repOk_def)
        then show ?thesis using l03 eq by simp
      next
        case (Inr staged)
        have eq: "b' = b3" "n' = rebuild id lst staged h n3"
          using run ls w1 rf True h(1) fu by (simp_all add: s3Tick_def \<open>ls = Inr lst\<close> Inr)
        have st: "dom staged = set (unseenKeys lst (hrMark h) (s3Cache n))"
          "\<forall>k e. staged k = Some e \<longrightarrow> entryOk (logOf b3) k e \<and> ceListed e" using F Inr c2 by simp_all
        have ins': "\<forall>k e. s3Cache n k = Some e \<longrightarrow> ceInserted e < lStart lst" using ins L(3) by simp
        have c3: "s3Cache n3 = stampCache lst (s3Cache n)" by (simp add: n3 c2)
        note B = rebuild_ok [OF rel inv1 L(2) l13 rep1 ins' held(2) h(2) st c3]
        obtain K where K: "dom (bLog ?b1) \<subseteq> K" "K \<subseteq> dom (bLog b3)" "sameState (journalState (jBase P) (logOf b3) K) (s3State n')"
          using B(1) unfolding eq by blast
        have "repOk P b3 n'" using B(2) nm3 ro3 held(2) by (simp add: repOk_def rebuild_keeps eq)
        moreover have "dom (bLog b) \<subseteq> K" using legal_dom [OF l1] K(1) by (rule order_trans)
        ultimately show ?thesis using l03 K eq by blast
      qed
    qed
  qed
qed

section \<open>Writing\<close>

lemma list_all2_sameOp_sym: "list_all2 sameOp as bs \<Longrightarrow> list_all2 sameOp bs as"
  by (induction rule: list_all2_induct) (auto simp: sameOp_def)

lemma commit_ok:
  assumes rel: "rely P E" and inv: "binv P b" and rep: "repOk P b n"
    and key: "newKey = Inr key" "segName key" "bLog (eMove E i b) key = None"
    and typed: "\<forall>op \<in> set (concat reqs). wtOp (jSch P) op"
    and run: "s3Commit (bucketClient P E) newKey now reqs n (b, i) = (e, n', b', i')"
  shows "legal P b b' \<and> repOk P b' n' \<and>
    (if e = [] then s3State n' = foldl ApplyOp (s3State n) (concat reqs) \<and> bLog b' key \<noteq> None else n' = n)"
proof -
  let ?b1 = "eMove E i b"
  have l1: "legal P b ?b1" using rely_move [OF rel inv] .
  note inv1 = legal_inv [OF l1] and rep1 = repOk_stable [OF l1 inv rep]
  have nm: "s3Name n = s3Name (jNs P)" using rep by (simp add: repOk_def)
  show ?thesis
  proof (cases "marshalSegment (concat reqs)")
    case None
    then show ?thesis using run inv rep by (auto simp: s3Commit_def Let_def legal_refl)
  next
    case (Some d)
    let ?b2 = "bStore P (nsPrefix n @ key) (TextBody d) ?b1"
    have dec: "unmarshalSegment d = Some (map normOp (concat reqs))" using unmarshalSegment_marshalSegment [OF Some] .
    have l2: "legal P ?b1 ?b2" unfolding ns_keys [OF nm]
      using inv1 key(2,3) dec typed by (intro store_seg_legal [where ops = "map normOp (concat reqs)"]) auto
    have log2: "bLog ?b2 key = Some (bClock ?b1, d)" unfolding ns_keys [OF nm] by (simp add: bStore_seg key(2))
    have "s3Cache n key = None"
      using rep1 key(3) by (cases "s3Cache n key") (auto simp: repOk_def entryOk_def)
    obtain pr w where put: "s3Put (bucketClient P E) (nsPrefix n @ key) (TextBody d) PutAny (b, i) = (pr, w)" by (metis prod.exhaust)
    have entry: "entryOk (logOf ?b2) key \<lparr>ceOps = concat reqs, ceLm = 0, ceListed = False, ceInserted = now\<rparr>"
      using log2 dec list_all2_sameOp_sym [OF segment_same [OF Some]] by (auto simp: entryOk_def logOf_def)
    have rep2: "repOk P ?b2 n" using repOk_stable [OF l2 inv1 rep1] .
    from client_put [OF put refl]
    consider (ok) "w = (?b2, Suc i)" "pr = PutOk (jTag P (TextBody d))" | (landed) "w = (?b2, Suc i)" "\<exists>e. pr = PutErr e \<and> e \<noteq> []"
      | (failed) "w = (?b1, Suc i)" "pr = PutPreconditionFailed \<or> (\<exists>e. pr = PutErr e \<and> e \<noteq> [])" by blast
    then show ?thesis
    proof cases
      case ok
      have eq: "e = []" "b' = ?b2" "n' = n\<lparr>s3State := foldl ApplyOp (s3State n) (concat reqs),
          s3Cache := (s3Cache n)(key \<mapsto> \<lparr>ceOps = concat reqs, ceLm = 0, ceListed = False, ceInserted = now\<rparr>)\<rparr>"
        using run put \<open>s3Cache n key = None\<close> by (auto simp: s3Commit_def Let_def Some key(1) ok)
      have "repOk P ?b2 n'" using rep2 entry by (simp add: eq repOk_def)
      then show ?thesis using legal_trans [OF l1 l2] log2 by (simp add: eq)
    next
      case landed
      then show ?thesis using run put legal_trans [OF l1 l2] rep2 by (auto simp: s3Commit_def Let_def Some key(1))
    next
      case failed
      then show ?thesis using run put l1 rep1 by (auto simp: s3Commit_def Let_def Some key(1))
    qed
  qed
qed

section \<open>Compaction\<close>

text \<open>The listing of a tick: of a bucket of the past, no newer than it.\<close>

definition listedAt :: "jparams \<Rightarrow> listing \<Rightarrow> bucket \<Rightarrow> bool" where
  "listedAt P lst b \<longleftrightarrow> binv P b \<and> listsBucket P lst b \<and> lNewest lst \<le> bClock b"

lemma foldl_max_le: "a \<le> c \<Longrightarrow> \<forall>t \<in> set ts. t \<le> c \<Longrightarrow> foldl (\<lambda>a t. if a < t then t else a) a ts \<le> (c :: time)"
  by (induction ts arbitrary: a) auto

lemma tick_listedAt:
  assumes "s3ListNs (bucketClient P E) now n (b, i) = (Inr lst, w)" "s3Name n = s3Name (jNs P)" "binv P (eMove E i b)"
  shows "listedAt P lst (eMove E i b)"
proof -
  let ?b = "eMove E i b"
  have fin: "finite (dom (bObjs ?b))" using assms(3) by (simp add: binv_def)
  note L = tick_list [OF assms(1,2) fin]
  obtain objs e w' where c: "s3List (bucketClient P E) (segPrefix n) (b, i) = ((objs, e), w')" by (metis prod.exhaust)
  have e: "e = []" and new: "lNewest lst = foldl (\<lambda>a t. if a < t then t else a) 0 (map snd objs)"
    using assms(1) c by (auto simp: s3ListNs_def split: if_splits)
  have "t \<le> bClock ?b" if t: "t \<in> set (map snd objs)" for t
  proof -
    obtain x where x: "x \<in> dom (bObjs ?b)" "HasPrefix x (segPrefix n)" "t = fst (the (bObjs ?b x))"
      using t fin client_list(2) [OF c e] by (auto simp: bListAns_def)
    then obtain k where k: "x = nsPrefix (jNs P) @ k" "segName k"
      by (auto simp: HasPrefix_app segPrefix_def ns_keys [OF assms(2)])
    then obtain body where "jlive P ?b k = Some (t, body)" using x by (cases "bObjs ?b x") auto
    then have "lEntries lst k = Some t" using L(2) k by (auto simp: listsBucket_def)
    then have "k \<in> dom (bLog ?b)" "t = fst (the (bLog ?b k))" using listed_log [OF L(2) assms(3)] by auto
    then show ?thesis using assms(3) by (simp add: binv_def)
  qed
  then have "lNewest lst \<le> bClock ?b" unfolding new using assms(3) by (intro foldl_max_le) (auto simp: binv_def)
  then show ?thesis using L(2) assms(3) by (simp add: listedAt_def)
qed

lemma sorted_last: "sorted (map f xs) \<Longrightarrow> x \<in> set xs \<Longrightarrow> f x \<le> f (last xs)"
  by (induction xs) auto

lemma candidates_set:
  assumes "finite (dom (lEntries lst))"
  shows "set (candidates age lst m) =
    {k \<in> dom (lEntries lst). age \<le> timeSub (lNewest lst) (the (lEntries lst k)) \<and> \<not> covers m (the (lEntries lst k)) k}"
  using assms by (auto simp: candidates_def agedKeys_def)

lemma aged_iff: "0 < age \<Longrightarrow> age \<le> max_int64 \<Longrightarrow> age \<le> timeSub a t \<longleftrightarrow> t \<le> a - age"
  by (auto simp: timeSub_def)

lemma foldSegments_state:
  "foldSegments lst cache ks s m = Some (s', m') \<Longrightarrow>
     s' = foldl ApplyOp s (concat (map (\<lambda>k. ceOps (the (cache k))) ks)) \<and> set ks \<subseteq> dom cache \<and>
     m' = (if ks = [] then m else \<lparr>LM = the (lEntries lst (last ks)), mKey = last ks\<rparr>)"
  by (induction ks arbitrary: s m) (auto split: option.splits if_splits)

text \<open>
  The candidates are the segments between the old mark and the new one, in every bucket since the listing:
  whatever was stored later is stamped after the newest candidate.
\<close>

lemma candidates_prefix:
  assumes lst: "listedAt P lst b0" and l: "legal P b0 b" and age: "0 < age" "age \<le> max_int64"
    and m: "\<forall>m0. markOf P b0 = Some m0 \<longrightarrow> markLe m0 m"
    and ne: "candidates age lst m \<noteq> []"
    and m': "m' = \<lparr>LM = the (lEntries lst k'), mKey = k'\<rparr>" "k' = last (sortCandidates lst (candidates age lst m))"
  shows "covered (logOf b) m' = covered (logOf b) m \<union> set (candidates age lst m)" "markLe m m'" "LM m' < bClock b0"
    "\<And>k. k \<in> set (candidates age lst m) \<Longrightarrow> k \<in> dom (bLog b0) \<and> fst (the (logOf b k)) = the (lEntries lst k) \<and> \<not> covers m (fst (the (logOf b k))) k \<and> segName k"
    "\<And>k. k \<in> set (candidates age lst m) \<Longrightarrow> covers m' (fst (the (logOf b k))) k"
proof -
  let ?c = "candidates age lst m"
  have inv0: "binv P b0" and lb: "listsBucket P lst b0" and new: "lNewest lst \<le> bClock b0" using lst by (simp_all add: listedAt_def)
  have fin: "finite (dom (lEntries lst))" using lb by (simp add: listsBucket_def)
  note cset = candidates_set [OF fin, of age m]
  show cand: "k \<in> dom (bLog b0) \<and> fst (the (logOf b k)) = the (lEntries lst k) \<and> \<not> covers m (fst (the (logOf b k))) k \<and> segName k"
    if k: "k \<in> set ?c" for k
  proof -
    obtain lm where lm: "lEntries lst k = Some lm" "\<not> covers m lm k" using k unfolding cset by auto
    note ll = listed_log [OF lb inv0 lm(1)]
    then have "fst (the (logOf b k)) = lm" using legal_logOf [OF l, of k] logOf_fst [of k b0] by simp
    then show ?thesis using lm ll by simp
  qed
  let ?f = "\<lambda>k. (the (lEntries lst k), k)"
  have sorted: "sorted (map ?f (sortCandidates lst ?c))" and set: "set (sortCandidates lst ?c) = set ?c" by (simp_all add: sortCandidates_def)
  then have ne': "sortCandidates lst ?c \<noteq> []" using ne by (metis set_empty)
  then have k'c: "k' \<in> set ?c" unfolding m' using set last_in_set by metis
  have max: "?f k \<le> ?f k'" if "k \<in> set ?c" for k
  proof -
    have "k \<in> set (sortCandidates lst ?c)" using that set by simp
    from sorted_last [OF sorted this] show ?thesis by (simp add: m'(2))
  qed
  show le: "markLe m m'"
    using cand [OF k'c] unfolding m' covers_le by auto
  have old: "the (lEntries lst k') \<le> lNewest lst - age" using k'c age unfolding cset by (simp add: aged_iff)
  then show "LM m' < bClock b0" using new age by (simp add: m')
  show cov: "covers m' (fst (the (logOf b k))) k" if "k \<in> set ?c" for k
    using max [OF that] cand [OF that] by (simp add: covers_le m'(1))
  have "k \<in> covered (logOf b) m \<or> k \<in> set ?c" if k: "k \<in> covered (logOf b) m'" for k
  proof (rule disjCI)
    assume nc: "k \<notin> set ?c"
    have kd: "k \<in> dom (bLog b)" and kc: "(fst (the (logOf b k)), k) \<le> (LM m', mKey m')" using k by (auto simp: covered_def covers_le)
    have lm: "fst (the (logOf b k)) \<le> the (lEntries lst k')" using kc by (auto simp: m')
    show "k \<in> covered (logOf b) m"
    proof (rule ccontr)
      assume n: "k \<notin> covered (logOf b) m"
      then have nk: "\<not> covers m (fst (the (logOf b k))) k" using kd by (simp add: covered_def)
      show False
      proof (cases "k \<in> dom (bLog b0)")
        case True
        have st: "fst (the (logOf b k)) = fst (the (bLog b0 k))" using legal_logOf [OF l True] logOf_fst [OF True] by simp
        have "lEntries lst k \<noteq> None"
          using unlisted_covered [OF lb inv0 True] m covers_mono nk st by metis
        then obtain t where t: "lEntries lst k = Some t" by auto
        then have "t = fst (the (logOf b k))" using listed_log [OF lb inv0 t] st by simp
        then have "k \<in> set ?c" unfolding cset using t nk lm old age by (auto simp: aged_iff)
        then show False using nc by simp
      next
        case False
        obtain t d where td: "bLog b k = Some (t, d)" using kd by auto
        moreover have "bClock b0 \<le> t" using grows_new [OF legal_grows [OF l] _ td] False by (auto simp del: not_None_eq simp: domIff)
        ultimately have "bClock b0 \<le> fst (the (logOf b k))" by (simp add: logOf_def)
        then show False using lm old new age by simp
      qed
    qed
  qed
  moreover have "k \<in> covered (logOf b) m'" if "k \<in> set ?c" for k
    using cov [OF that] cand [OF that] legal_dom [OF l] by (auto simp: covered_def)
  moreover have "covered (logOf b) m \<subseteq> covered (logOf b) m'" using covers_mono [OF le] by (auto simp: covered_def)
  ultimately show "covered (logOf b) m' = covered (logOf b) m \<union> set ?c" by blast
qed

lemma fold_good:
  assumes rel: "rely P E" and inv: "binv P b" and held: "heldOk P b h"
    and cache: "\<forall>k e. cache k = Some e \<longrightarrow> entryOk (logOf b) k e"
    and un: "unmarshalState (hrState h) = Some s"
    and f: "foldSegments lst cache ks s (hrMark h) = Some (s', m')"
    and ks: "ks = segOrder (logOf b) (set ks)" "covered (logOf b) m' = covered (logOf b) (hrMark h) \<union> set ks"
      "\<And>k. k \<in> set ks \<Longrightarrow> k \<in> dom (bLog b) \<and> \<not> covers (hrMark h) (fst (the (logOf b k))) k"
    and m: "marshalState s' = Some d"
  shows "goodRollup (jSch P) (jBase P) (logOf b) m' d"
proof -
  let ?L = "logOf b" and ?A = "covered (logOf b) (hrMark h)"
  have j: "journalOk (jSch P) ?L" and fL: "finite (dom ?L)" using inv binv_finite [OF inv] by (simp_all add: binv_def)
  have s: "wtState (jSch P) s" "sameState (journalState (jBase P) ?L ?A) s"
    using held un by (auto simp: heldOk_def goodRollup_def)
  have s': "s' = foldl ApplyOp s (concat (map (\<lambda>k. ceOps (the (cache k))) ks))" and sub: "set ks \<subseteq> dom cache"
    using foldSegments_state [OF f] by auto
  have "jpos ?L a < jpos ?L c" if "a \<in> ?A" "c \<in> set ks" for a c
  proof -
    have "jpos ?L a \<le> (LM (hrMark h), mKey (hrMark h))" using that(1) by (simp only: covered_def mem_Collect_eq covers_le)
    moreover have "\<not> jpos ?L c \<le> (LM (hrMark h), mKey (hrMark h))" using ks(3) [OF that(2)] unfolding covers_le by blast
    ultimately show ?thesis by (meson le_less_trans not_le)
  qed
  then have split: "journalState (jBase P) ?L (?A \<union> set ks) = foldl ApplyOp (journalState (jBase P) ?L ?A) (segOps ?L ks)"
    using fL ks(1) journalState_split [of ?A "set ks" ?L "jBase P"] by (simp add: finite_covered)
  have ops: "list_all2 sameOp (segOps ?L ks) (concat (map (\<lambda>k. ceOps (the (cache k))) ks))"
    unfolding segOps_def using cache sub by (intro list_all2_concat_map) (force simp: entryOk_def)
  have wt: "\<forall>op \<in> set (segOps ?L ks). wtOp (jSch P) op" using j ks(3) by (intro segOps_wt) auto
  have jA: "wtState (jSch P) (journalState (jBase P) ?L ?A)"
    using j rel by (intro journalState_wt) (auto simp: covered_def rely_def)
  have same: "sameState (journalState (jBase P) ?L (covered ?L m')) s'"
    unfolding ks(2) split s' using ops jA s(1) wt s(2) by (rule foldl_ApplyOp_same)
  have wt': "wtState (jSch P) s'" unfolding s' using s(1) list_all2_wt [OF ops wt] by (rule foldl_ApplyOp_wt)
  then have fin: "finite (dom s')" by (simp add: wtState_def)
  show ?thesis unfolding goodRollup_def
    using unmarshalState_marshalState [OF fin m] wtState_norm [OF wt'] sameState_trans [OF same marshalState_same [OF fin m]]
    by blast
qed

lemma sortCandidates_segOrder:
  assumes "\<And>k. k \<in> set ks \<Longrightarrow> fst (the (L k)) = the (lEntries lst k)" "distinct ks"
  shows "sortCandidates lst ks = segOrder L (set ks)"
proof -
  have "segOrder L (set ks) = sortCandidates lst ks"
  proof (rule segOrder_unique)
    have "map (jpos L) (sortCandidates lst ks) = map (\<lambda>k. (the (lEntries lst k), k)) (sortCandidates lst ks)"
      using assms(1) by (intro map_cong) (simp_all add: sortCandidates_def)
    then show "sorted (map (jpos L) (sortCandidates lst ks))" by (simp only: sortCandidates_def) simp
  qed (use assms(2) in \<open>simp_all add: sortCandidates_def\<close>)
  then show ?thesis by simp
qed

lemma distinct_candidates: "distinct (candidates age lst m)"
  by (simp add: candidates_def agedKeys_def)

text \<open>The rollup that a compaction writes, given that the held one is current.\<close>

lemma compact_rollup:
  assumes rel: "rely P E" and lst: "listedAt P lst b0" and l: "legal P b0 b" and rep: "repOk P b n" and h: "s3Rollup n = Some h"
    and age: "0 < age" "age \<le> max_int64" and m0: "\<forall>m. markOf P b0 = Some m \<longrightarrow> markLe m (hrMark h)"
    and cs: "cs = candidates age lst (hrMark h)"
    and un: "unmarshalState (hrState h) = Some s"
    and f: "foldSegments lst (s3Cache n) (sortCandidates lst cs) s (hrMark h) = Some (s', m')"
    and m: "marshalState s' = Some d"
  shows "goodRollup (jSch P) (jBase P) (logOf b) m' d \<and> LM m' < bClock b \<and> markLe (hrMark h) m' \<and>
    (\<forall>k \<in> set cs. segName k \<and> k \<in> dom (bLog b) \<and> covers m' (fst (the (logOf b k))) k)"
proof -
  have inv: "binv P b" using legal_inv [OF l] .
  have held: "heldOk P b h" using rep h by (simp add: repOk_def)
  have cache: "\<forall>k e. s3Cache n k = Some e \<longrightarrow> entryOk (logOf b) k e" using rep by (simp add: repOk_def)
  have sset: "set (sortCandidates lst cs) = set cs" by (simp add: sortCandidates_def)
  note good = fold_good [OF rel inv held cache un f _ _ _ m, unfolded sset]
  have m'eq: "m' = (if sortCandidates lst cs = [] then hrMark h else \<lparr>LM = the (lEntries lst (last (sortCandidates lst cs))), mKey = last (sortCandidates lst cs)\<rparr>)"
    using foldSegments_state [OF f] by blast
  show ?thesis
  proof (cases "cs = []")
    case True
    then have "sortCandidates lst cs = []" by (simp add: sortCandidates_def)
    then have "m' = hrMark h" using m'eq by simp
    then show ?thesis using good True heldOk_clock [OF inv held] by (simp add: sortCandidates_def segOrder_def)
  next
    case False
    then have ne: "candidates age lst (hrMark h) \<noteq> []" using cs by simp
    have "sortCandidates lst cs \<noteq> []" using False sset by (metis set_empty)
    then have m'2: "m' = \<lparr>LM = the (lEntries lst (last (sortCandidates lst cs))), mKey = last (sortCandidates lst cs)\<rparr>" using m'eq by simp
    note C = candidates_prefix [OF lst l age m0 ne m'2 [unfolded cs] refl, folded cs]
    have c4: "k \<in> dom (bLog b) \<and> fst (the (logOf b k)) = the (lEntries lst k) \<and> \<not> covers (hrMark h) (fst (the (logOf b k))) k \<and> segName k"
      if "k \<in> set cs" for k using C(4) [OF that] legal_dom [OF l] by blast
    have order: "sortCandidates lst cs = segOrder (logOf b) (set cs)"
      using c4 distinct_candidates cs by (intro sortCandidates_segOrder) auto
    have "goodRollup (jSch P) (jBase P) (logOf b) m' d" using good order C(1) c4 by blast
    moreover have "LM m' < bClock b" using C(3) grows_clock [OF legal_grows [OF l]] by simp
    ultimately show ?thesis using C(2,5) c4 by blast
  qed
qed

lemma client_remove:
  "s3Remove (bucketClient P E) keys (b, i) =
     (if eFail E i = [] then (eMove E i b)\<lparr>bObjs := bObjs (eMove E i b) |` (- set keys)\<rparr> else eMove E i b, Suc i)"
  by (simp add: bucketClient_def Let_def)

lemma removeSegs_legal:
  assumes rel: "rely P E" and inv: "binv P b" and nm: "s3Name n = s3Name (jNs P)" and m: "markOf P b = Some m"
    and ks: "\<forall>k \<in> set ks. segName k \<and> k \<in> dom (bLog b) \<and> covers m (fst (the (logOf b k))) k"
  shows "legal P b (fst (s3RemoveSegs (bucketClient P E) n ks (b, i)))"
proof -
  let ?b1 = "eMove E i b"
  have l1: "legal P b ?b1" using rely_move [OF rel inv] .
  obtain m1 where m1: "markOf P ?b1 = Some m1" "markLe m m1" using legal_mark [OF l1 m] by blast
  have "legal P ?b1 (?b1\<lparr>bObjs := bObjs ?b1 |` (- set (map (\<lambda>k. nsPrefix n @ k) ks))\<rparr>)"
  proof (rule remove_legal [OF legal_inv [OF l1] m1(1)])
    fix key assume "key \<in> set (map (\<lambda>k. nsPrefix n @ k) ks)"
    then obtain k where k: "key = nsPrefix (jNs P) @ k" "k \<in> set ks" using ns_keys [OF nm] by auto
    then have kk: "segName k" "k \<in> dom (bLog b)" "covers m (fst (the (logOf b k))) k" using ks by auto
    have "fst (the (bLog ?b1 k)) = fst (the (logOf b k))" using legal_log [OF l1 kk(2)] logOf_fst [OF kk(2)] by simp
    then have "covers m1 (fst (the (bLog ?b1 k))) k" using covers_mono [OF m1(2) kk(3)] by simp
    then show "\<exists>k. key = nsPrefix (jNs P) @ k \<and> segName k \<and> (k \<in> dom (bLog ?b1) \<longrightarrow> covers m1 (fst (the (bLog ?b1 k))) k)"
      using k kk by blast
  qed
  then show ?thesis using l1 legal_trans by (auto simp: s3RemoveSegs_def client_remove)
qed

lemma held_same:
  assumes "rely P E" "heldOk P b h" "heldOk P b' h'" "hrEtag h = hrEtag h'"
  shows "hrMark h = hrMark h' \<and> hrState h = hrState h'"
proof -
  have "jTag P (RollupObj \<lparr>State = hrState h, Mark = hrMark h\<rparr>) = jTag P (RollupObj \<lparr>State = hrState h', Mark = hrMark h'\<rparr>)"
    using assms(2-4) by (simp add: heldOk_def)
  then show ?thesis using assms(1) by (simp add: rely_def inj_eq)
qed

lemma compact_put:
  assumes rel: "rely P E" and lst: "listedAt P lst b0" and l: "legal P b0 b" and rep: "repOk P b n" and h: "s3Rollup n = Some h"
    and age: "0 < age" "age \<le> max_int64" and m0: "\<forall>m. markOf P b0 = Some m \<longrightarrow> markLe m (hrMark h)"
    and cs: "cs = candidates age lst (hrMark h)"
    and un: "unmarshalState (hrState h) = Some s"
    and f: "foldSegments lst (s3Cache n) (sortCandidates lst cs) s (hrMark h) = Some (s', m')"
    and m: "marshalState s' = Some d"
    and put: "s3Put (bucketClient P E) (rollupKey n) (RollupObj \<lparr>State = d, Mark = m'\<rparr>) (PutIfMatch (hrEtag h)) (b, i) = (pr, b2, i2)"
  shows "legal P b b2 \<and> repOk P b2 n \<and>
    (\<forall>etag. pr = PutOk etag \<longrightarrow> repOk P b2 (n\<lparr>s3Rollup := Some \<lparr>hrEtag = etag, hrMark = m', hrState = d\<rparr>\<rparr>) \<and> markOf P b2 = Some m' \<and>
       (\<forall>k \<in> set cs. segName k \<and> k \<in> dom (bLog b2) \<and> covers m' (fst (the (logOf b2 k))) k))"
proof -
  let ?b1 = "eMove E i b" and ?rb = "\<lparr>State = d, Mark = m'\<rparr>"
  have inv: "binv P b" using legal_inv [OF l] .
  have l1: "legal P b ?b1" using rely_move [OF rel inv] .
  have l01: "legal P b0 ?b1" using l l1 by (rule legal_trans)
  note inv1 = legal_inv [OF l1] and rep1 = repOk_stable [OF l1 inv rep]
  have nm: "s3Name n = s3Name (jNs P)" using rep by (simp add: repOk_def)
  note R = compact_rollup [OF rel lst l01 rep1 h age m0 cs un f m]
  let ?b2 = "bStore P (rollupKey n) (RollupObj ?rb) ?b1"
  have ok: "legal P ?b1 ?b2 \<and> markOf P ?b2 = Some m' \<and> logOf ?b2 = logOf ?b1 \<and> bLog ?b2 = bLog ?b1"
    if pk: "bPutOk P (rollupKey n) (PutIfMatch (hrEtag h)) ?b1"
  proof -
    obtain lm body where o: "jroll P ?b1 = Some (lm, body)" "jTag P body = hrEtag h"
      using pk by (auto simp: bPutOk_def ns_keys [OF nm] split: option.splits)
    obtain rb where rb: "body = RollupObj rb" "markOf P ?b1 = Some (Mark rb)" using binv_roll [OF inv1 o(1)] by blast
    have "hrEtag h = jTag P (RollupObj \<lparr>State = hrState h, Mark = hrMark h\<rparr>)" using rep1 h by (simp add: repOk_def heldOk_def)
    then have "rb = \<lparr>State = hrState h, Mark = hrMark h\<rparr>" using o(2) rb(1) rel by (simp add: rely_def inj_eq)
    then have mk: "markOf P ?b1 = Some (hrMark h)" using rb(2) by simp
    have "legal P ?b1 ?b2" unfolding ns_keys [OF nm]
      using inv1 R mk by (intro store_rollup_legal) auto
    then show ?thesis unfolding ns_keys [OF nm] by (simp add: bStore_rollup markOf_def logOf_def)
  qed
  from client_put [OF put refl]
  consider (stored) "b2 = ?b2" "bPutOk P (rollupKey n) (PutIfMatch (hrEtag h)) ?b1" "pr = PutOk (jTag P (RollupObj ?rb)) \<or> (\<exists>e. pr = PutErr e)"
    | (not) "b2 = ?b1" "pr = PutPreconditionFailed \<or> (\<exists>e. pr = PutErr e)" by blast
  then show ?thesis
  proof cases
    case stored
    note ok2 = ok [OF stored(2)]
    have l2: "legal P b ?b2" using l1 ok2 by (blast intro: legal_trans)
    have rep2: "repOk P ?b2 n" using repOk_stable [OF _ inv1 rep1] ok2 by blast
    have "repOk P ?b2 (n\<lparr>s3Rollup := Some \<lparr>hrEtag = jTag P (RollupObj ?rb), hrMark = m', hrState = d\<rparr>\<rparr>)"
      using repOk_hold [OF rep2, of ?rb] R ok2 by simp
    then show ?thesis using stored l2 rep2 ok2 R by auto
  next
    case not
    then show ?thesis using l1 rep1 by auto
  qed
qed

lemma compact_ok:
  assumes rel: "rely P E" and lst: "listedAt P lst b0" and l: "legal P b0 b" and rep: "repOk P b n" and h0: "s3Rollup n = Some h0"
    and age: "0 < age" "age \<le> max_int64" and m0: "\<forall>m. markOf P b0 = Some m \<longrightarrow> markLe m (hrMark h0)"
    and cs: "cs = candidates age lst (hrMark h0)"
    and run: "s3Compact stopped fuel (bucketClient P E) lst cs n (b, i) = Ret (e, n', b', i')"
  shows "legal P b b' \<and> repOk P b' n'"
proof (cases stopped)
  case True
  then show ?thesis using run rep legal_refl [OF legal_inv [OF l]] by (auto simp: s3Compact_def)
next
  case False
  let ?C = "bucketClient P E"
  have inv: "binv P b" using legal_inv [OF l] .
  obtain e1 n1 b1 i1 where rf: "refreshRollup fuel ?C n (b, i) = Ret (e1, n1, b1, i1)"
    using run False by (auto simp: s3Compact_def split: outcome.splits)
  have l1: "legal P b b1" and rep1: "repOk P b1 n1"
    and h1: "e1 = [] \<Longrightarrow> \<exists>h. s3Rollup n1 = Some h"
    using refresh_ok [OF rel inv rep rf] unfolding refreshed_def prod.case by blast+
  show ?thesis
  proof (cases "e1 = []")
    case False
    then show ?thesis using run \<open>\<not> stopped\<close> rf l1 rep1 by (auto simp: s3Compact_def)
  next
    case True
    obtain h where h: "s3Rollup n1 = Some h" using h1 [OF True] by blast
    show ?thesis
    proof (cases "hrEtag h = hrEtag h0")
      case False
      then show ?thesis using run \<open>\<not> stopped\<close> rf l1 rep1 True h h0 by (simp add: s3Compact_def)
    next
      case same: True
      have held: "heldOk P b1 h" "heldOk P b h0" using rep1 h rep h0 by (simp_all add: repOk_def)
      have hm: "hrMark h = hrMark h0" using held_same [OF rel held same] by simp
      obtain s where un: "unmarshalState (hrState h) = Some s" using held(1) by (auto simp: heldOk_def goodRollup_def)
      show ?thesis
      proof (cases "foldSegments lst (s3Cache n1) (sortCandidates lst cs) s (hrMark h)")
        case None
        then show ?thesis using run \<open>\<not> stopped\<close> rf l1 rep1 True h h0 same un by (simp add: s3Compact_def)
      next
        case (Some sm)
        obtain s' m' where f: "foldSegments lst (s3Cache n1) (sortCandidates lst cs) s (hrMark h) = Some (s', m')" using Some by (cases sm) simp
        show ?thesis
        proof (cases "marshalState s'")
          case None
          then show ?thesis using run \<open>\<not> stopped\<close> rf l1 rep1 True h h0 same un f by (simp add: s3Compact_def)
        next
          case (Some d)
          obtain pr b2 i2 where put: "s3Put ?C (rollupKey n1) (RollupObj \<lparr>State = d, Mark = m'\<rparr>) (PutIfMatch (hrEtag h)) (b1, i1) = (pr, b2, i2)"
            by (metis prod.exhaust)
          note P = compact_put [OF rel lst legal_trans [OF l l1] rep1 h age m0 [folded hm] cs [folded hm] un f Some put]
          have l2: "legal P b b2" using l1 P by (blast intro: legal_trans)
          show ?thesis
          proof (cases "\<exists>etag. pr = PutOk etag")
            case True
            then obtain etag where pr: "pr = PutOk etag" by blast
            note P1 = P [THEN conjunct2, THEN conjunct2, rule_format, OF pr]
            have nm1: "s3Name n1 = s3Name (jNs P)" using rep1 by (simp add: repOk_def)
            obtain b3 i3 where rm: "s3RemoveSegs ?C n1 cs (b2, i2) = (b3, i3)" by (metis prod.exhaust)
            have "legal P b2 b3" using removeSegs_legal [OF rel legal_inv [OF l2] nm1, of m' cs i2] P1 rm by simp
            moreover have "b' = b3" "n' = n1\<lparr>s3Rollup := Some \<lparr>hrEtag = etag, hrMark = m', hrState = d\<rparr>\<rparr>"
              using run \<open>\<not> stopped\<close> rf \<open>e1 = []\<close> h h0 same un f Some put pr rm by (auto simp: s3Compact_def)
            ultimately show ?thesis using l2 legal_trans repOk_stable [of P b2 b3] legal_inv [OF l2] P1 by blast
          next
            case False
            then have "b' = b2 \<and> n' = n1" using run \<open>\<not> stopped\<close> rf \<open>e1 = []\<close> h h0 same un f Some put
              by (auto simp: s3Compact_def split: putResult.splits)
            then show ?thesis using l2 P by blast
          qed
        qed
      qed
    qed
  qed
qed

text \<open>A key that no other replica uses: \<^verbatim>\<open>uuid.NewV7\<close> makes unique keys.\<close>

definition unused :: "environ \<Rightarrow> string \<Rightarrow> bool" where
  "unused E key \<longleftrightarrow> segName key \<and> (\<forall>i b. bLog b key = None \<longrightarrow> bLog (eMove E i b) key = None)"

lemma probe_ok:
  assumes rel: "rely P E" and inv: "binv P b" and rep: "repOk P b n" and key: "unused E key" "bLog b key = None"
    and run: "s3Probe stopped (bucketClient P E) (Inr key) now lst n (b, i) = (e, b', i')"
  shows "legal P b b'"
proof (cases stopped)
  case True
  then show ?thesis using run inv by (simp add: s3Probe_def legal_refl)
next
  case False
  let ?b1 = "eMove E i b" and ?b2 = "eMove E (Suc i) (eMove E i b)"
  have l1: "legal P b ?b1" using rely_move [OF rel inv] .
  have l2: "legal P b ?b2" using l1 rely_move [OF rel legal_inv [OF l1]] by (rule legal_trans)
  have nm: "s3Name n = s3Name (jNs P)" using rep by (simp add: repOk_def)
  obtain ls w1 where ls: "s3ListNs (bucketClient P E) now n (b, i) = (ls, w1)" by (metis prod.exhaust)
  have w1: "w1 = (?b1, Suc i)" using tick_list_any [OF ls] .
  have "bLog ?b2 key = None" "segName key" using key by (simp_all add: unused_def)
  then have st: "legal P ?b2 (bStore P (nsPrefix n @ key) (TextBody d) ?b2)" if "marshalSegment [] = Some d" for d
    unfolding ns_keys [OF nm] using legal_inv [OF l2] unmarshalSegment_marshalSegment [OF that]
    by (intro store_seg_legal) auto
  show ?thesis
  proof (cases ls)
    case (Inl er)
    then show ?thesis using run False ls w1 l1 by (auto simp: s3Probe_def)
  next
    case (Inr re)
    show ?thesis
    proof (cases "lNewest lst < lNewest re \<or> marshalSegment [] = None")
      case True
      then show ?thesis using run False ls w1 l1 by (auto simp: s3Probe_def Inr split: option.splits if_splits)
    next
      case nf: False
      then obtain d where d: "marshalSegment [] = Some d" by auto
      obtain pr b3 i3 where put: "s3Put (bucketClient P E) (nsPrefix n @ key) (TextBody d) PutAny (?b1, Suc i) = (pr, b3, i3)" by (metis prod.exhaust)
      have "b' = b3" using run False ls w1 nf d put by (auto simp: s3Probe_def Inr split: putResult.splits)
      moreover have "b3 = bStore P (nsPrefix n @ key) (TextBody d) ?b2 \<or> b3 = ?b2" using client_put [OF put refl] by blast
      ultimately show ?thesis using st [OF d] l2 legal_trans by blast
    qed
  qed
qed

lemma ladder_ok:
  assumes rel: "rely P E" and lst: "listedAt P lst b0" and l: "legal P b0 b" and rep: "repOk P b n" and h: "s3Rollup n = Some h"
    and age: "0 < ageThreshold A" "ageThreshold A \<le> max_int64" and m0: "\<forall>m. markOf P b0 = Some m \<longrightarrow> markLe m (hrMark h)"
    and key: "unused E key" "bLog b key = None"
    and run: "s3Ladder A stopped fuel (bucketClient P E) (Inr key) now lst n (b, i) = Ret (e, n', b', i')"
  shows "legal P b b' \<and> repOk P b' n'"
proof -
  let ?C = "bucketClient P E" and ?left = "leftovers (ageThreshold A) lst (hrMark h)"
  let ?cs = "candidates (ageThreshold A) lst (hrMark h)"
  define n1 where "n1 = (if lastNewest n < lNewest lst then n\<lparr>lastNewest := lNewest lst, stall := 0\<rparr> else n)"
  define w1 where "w1 = (if ?left = [] then (b, i) else s3RemoveSegs ?C n1 ?left (b, i))"
  obtain b1 i1 where b1: "w1 = (b1, i1)" by (cases w1)
  have inv: "binv P b" using legal_inv [OF l] .
  have n1: "s3Name n1 = s3Name n" "s3Cache n1 = s3Cache n" "s3Rollup n1 = s3Rollup n" by (simp_all add: n1_def)
  have lb: "binv P b0" "listsBucket P lst b0" using lst by (simp_all add: listedAt_def)
  obtain m where m: "markOf P b = Some m" "markLe (hrMark h) m" using rep h by (auto simp: repOk_def heldOk_def simp del: less_eq_prod_simp)
  have left: "segName k \<and> k \<in> dom (bLog b) \<and> covers m (fst (the (logOf b k))) k" if k: "k \<in> set ?left" for k
  proof -
    have "finite (dom (lEntries lst))" using lb by (simp add: listsBucket_def)
    then obtain t where t: "lEntries lst k = Some t" "covers (hrMark h) t k" using k by (auto simp: leftovers_def agedKeys_def)
    note ll = listed_log [OF lb(2,1) t(1)]
    then have "fst (the (logOf b k)) = t" using legal_logOf [OF l, of k] logOf_fst [of k b0] by simp
    then show ?thesis using ll t(2) covers_mono [OF m(2)] legal_dom [OF l] by auto
  qed
  have l1: "legal P b b1"
    using removeSegs_legal [OF rel inv _ m(1), of n1 ?left i] left rep n1(1) b1 legal_refl [OF inv]
    by (auto simp: w1_def repOk_def split: if_splits)
  have log1: "bLog b1 key = None"
    using key b1 by (auto simp: w1_def s3RemoveSegs_def client_remove unused_def split: if_splits)
  have rep1: "repOk P b1 n1" using repOk_stable [OF l1 inv rep] n1 by (simp add: repOk_def)
  have upd: "repOk P b1 (n1\<lparr>sustain := x, stall := y\<rparr>)" "repOk P b1 (n1\<lparr>stall := y, sustain := x\<rparr>)" for x y using rep1 by (simp_all add: repOk_def)
  have l01: "legal P b0 b1" using l l1 by (rule legal_trans)
  note body = run [unfolded s3Ladder_def h Let_def option.case n1_def [symmetric] w1_def [symmetric] b1]
  show ?thesis
  proof (cases "segmentThreshold A \<le> length ?cs")
    case True
    show ?thesis
    proof (cases "Suc (sustain n1) < sustainTicks")
      case idle: True
      then have "n' = n1\<lparr>stall := 0, sustain := Suc (sustain n1)\<rparr>" "b' = b1" using body True by simp_all
      then show ?thesis using l1 upd by simp
    next
      case False
      then have run: "s3Compact stopped fuel ?C lst ?cs (n1\<lparr>stall := 0, sustain := 0\<rparr>) (b1, i1) = Ret (e, n', b', i')"
        using body True by simp
      have "legal P b1 b' \<and> repOk P b' n'"
        using compact_ok [OF rel lst l01 upd(2) _ age m0 refl run] h n1(3) by simp
      then show ?thesis using l1 legal_trans by blast
    qed
  next
    case few: False
    show ?thesis
    proof (cases "segmentThreshold A \<le> card (dom (lEntries lst)) \<and> \<not> Suc (stall n1) < sustainTicks")
      case True
      obtain e2 b2 i2 where run: "s3Probe stopped ?C (Inr key) now lst (n1\<lparr>sustain := 0, stall := 0\<rparr>) (b1, i1) = (e2, b2, i2)"
        by (metis prod.exhaust)
      then have "b' = b2" "n' = n1\<lparr>sustain := 0, stall := 0\<rparr>" using body few True by simp_all
      moreover have "legal P b1 b2" using probe_ok [OF rel legal_inv [OF l1] upd(1) key(1) log1 run] .
      ultimately show ?thesis using l1 legal_trans repOk_stable [OF _ legal_inv [OF l1] upd(1)] by blast
    next
      case False
      then have "b' = b1" "n' = n1\<lparr>sustain := 0, stall := Suc (stall n1)\<rparr> \<or> n' = n1\<lparr>sustain := 0, stall := 0\<rparr>"
        using body few by (auto split: if_splits)
      then show ?thesis using l1 upd by auto
    qed
  qed
qed

section \<open>Ticks end\<close>

lemma client_put_lost:
  "s3Put (bucketClient P E) key body cond (b, i) = (PutPreconditionFailed, w) \<Longrightarrow> \<not> bPutOk P key cond (eMove E i b) \<and> w = (eMove E i b, Suc i)"
  by (auto simp: bucketClient_def Let_def split: if_splits)

lemma client_put_noconflict: "s3Put (bucketClient P E) key body cond (b, i) \<noteq> (PutConflict, w)"
  by (cases w) (auto simp: bucketClient_def Let_def split: if_splits)

lemma jroll_stays: "legal P b b' \<Longrightarrow> binv P b \<Longrightarrow> jroll P b \<noteq> None \<Longrightarrow> jroll P b' \<noteq> None"
proof -
  assume l: "legal P b b'" and i: "binv P b" and r: "jroll P b \<noteq> None"
  obtain lm body where "jroll P b = Some (lm, body)" using r by auto
  then obtain m where "markOf P b = Some m" using binv_roll [OF i] by blast
  then obtain m' where "markOf P b' = Some m'" using legal_mark [OF l] by blast
  then show ?thesis by (auto simp: markOf_def split: option.splits)
qed

lemma refresh_Ret:
  assumes "rely P E" "binv P b" "s3Name n = s3Name (jNs P)" "jroll P (eMove E i b) \<noteq> None \<or> fuel \<noteq> 0"
  shows "\<exists>r. refreshRollup (Suc fuel) (bucketClient P E) n (b, i) = Ret r"
  using assms
proof (induction fuel arbitrary: b n i)
  case (0 b n i)
  obtain g w where g: "s3Get (bucketClient P E) (rollupKey n) (map_option hrEtag (s3Rollup n)) (b, i) = (g, w)" by (metis prod.exhaust)
  have "g \<noteq> GotNotFound" using client_get(2) [OF g] 0(4) ns_keys [OF 0(3)] by (auto simp: bGetAns_def split: option.splits if_splits)
  then show ?case using g by (cases g) (auto split: prod.splits)
next
  case (Suc fuel b n i)
  let ?b1 = "eMove E i b"
  have l1: "legal P b ?b1" using rely_move [OF Suc.prems(1,2)] .
  obtain g w where g: "s3Get (bucketClient P E) (rollupKey n) (map_option hrEtag (s3Rollup n)) (b, i) = (g, w)" by (metis prod.exhaust)
  note w = client_get(1) [OF g]
  obtain lg w2 where lg: "readLegacy (bucketClient P E) n (?b1, Suc i) = (lg, w2)" by (metis prod.exhaust)
  have seed: "\<exists>r. seedRollup (Suc fuel) (bucketClient P E) n (?b1, Suc i) = Ret r"
  proof (cases lg)
    case (Inl e)
    then show ?thesis using lg by simp
  next
    case (Inr leg)
    let ?b2 = "eMove E (Suc i) ?b1"
    have l2: "legal P ?b1 ?b2" using rely_move [OF Suc.prems(1) legal_inv [OF l1]] .
    have w2: "w2 = (?b2, Suc (Suc i))" using seed_state(1) [OF lg [unfolded Inr] Suc.prems(3) legal_inv [OF l2]] .
    define d where "d = (case leg of None \<Rightarrow> ''{}'' | Some s \<Rightarrow> s)"
    obtain pr w3 where put: "s3Put (bucketClient P E) (rollupKey n) (RollupObj \<lparr>State = d, Mark = zeroMark\<rparr>) PutIfAbsent (?b2, Suc (Suc i)) = (pr, w3)"
      by (metis prod.exhaust)
    show ?thesis
    proof (cases "pr = PutPreconditionFailed")
      case True
      let ?b3 = "eMove E (Suc (Suc i)) ?b2"
      have l3: "legal P ?b2 ?b3" using rely_move [OF Suc.prems(1) legal_inv [OF l2]] .
      have w3: "w3 = (?b3, Suc (Suc (Suc i)))" and ex: "jroll P ?b3 \<noteq> None"
        using client_put_lost [OF put [unfolded True]] ns_keys [OF Suc.prems(3)] by (simp_all add: bPutOk_def)
      have jr: "jroll P (eMove E (Suc (Suc (Suc i))) ?b3) \<noteq> None"
        using jroll_stays [OF rely_move [OF Suc.prems(1) legal_inv [OF l3]] legal_inv [OF l3] ex] .
      have "\<exists>r. refreshRollup (Suc fuel) (bucketClient P E) (n\<lparr>s3Rollup := None\<rparr>) (?b3, Suc (Suc (Suc i))) = Ret r"
        by (rule Suc.IH [OF Suc.prems(1) legal_inv [OF l3]]) (use Suc.prems(3) jr in simp_all)
      then show ?thesis using lg put w3 by (simp add: Inr w2 d_def [symmetric] True Let_def del: refreshRollup.simps)
    next
      case False
      then show ?thesis using lg put client_put_noconflict [of P E]
        by (cases pr) (auto simp: Inr w2 d_def [symmetric] Let_def simp del: refreshRollup.simps)
    qed
  qed
  show ?case
  proof (cases "g = GotNotFound")
    case True
    then show ?thesis using seed g w by (simp del: seedRollup.simps)
  next
    case False
    then show ?thesis using g by (cases g) (auto split: prod.splits)
  qed
qed

lemma tick_Ret:
  assumes rel: "rely P E" and inv: "binv P b" and rep: "repOk P b n" and fuel: "2 \<le> fuel"
  shows "\<exists>r. s3Tick fuel (bucketClient P E) now writer n (b, i) = Ret r"
proof -
  let ?b1 = "eMove E i b"
  have l1: "legal P b ?b1" using rely_move [OF rel inv] .
  have nm: "s3Name n = s3Name (jNs P)" using rep by (simp add: repOk_def)
  obtain f where f: "fuel = Suc f" "f \<noteq> 0" using fuel by (cases fuel) auto
  obtain ls w1 where ls: "s3ListNs (bucketClient P E) now n (b, i) = (ls, w1)" by (metis prod.exhaust)
  have w1: "w1 = (?b1, Suc i)" using tick_list_any [OF ls] .
  obtain e n2 b2 i2 where rf: "refreshRollup fuel (bucketClient P E) n (?b1, Suc i) = Ret (e, n2, b2, i2)"
    using refresh_Ret [OF rel legal_inv [OF l1] nm, of "Suc i" f] f by (metis prod.exhaust)
  have "e = [] \<Longrightarrow> \<exists>h. s3Rollup n2 = Some h"
    using refresh_ok [OF rel legal_inv [OF l1] repOk_stable [OF l1 inv rep] rf] unfolding refreshed_def prod.case by blast
  then show ?thesis using ls w1 rf by (cases ls; cases "e = []") (auto simp: s3Tick_def split: sum.splits prod.splits)
qed

section \<open>An example\<close>

text \<open>ETags, a namespace of counters, an empty bucket, and another replica that writes before the second call.\<close>

definition plainTag :: "objBody \<Rightarrow> string" where
  "plainTag body =
     (case body of
        TextBody s \<Rightarrow> CHR ''t'' # s
      | RollupObj rb \<Rightarrow>
          CHR ''r'' # jsonString (State rb) @ jsonString (mKey (Mark rb)) @
            (if LM (Mark rb) < 0 then CHR ''-'' else CHR ''+'') # show_nat (nat \<bar>LM (Mark rb)\<bar>))"

definition counterNs :: jparams where
  "counterNs = \<lparr>jNs = newNs ''git'', jSch = \<lambda>_. KInt, jLeg = None, jTag = plainTag\<rparr>"

definition emptyBucket :: bucket where
  "emptyBucket = \<lparr>bObjs = Map.empty, bClock = 1, bLog = Map.empty\<rparr>"

definition otherSegment :: string where
  "otherSegment = the (marshalSegment [IntAdd ''n'' 1])"

definition otherWriter :: environ where
  "otherWriter =
     \<lparr>eMove = \<lambda>i b. if i = 1 \<and> bLog b ''segment-b'' = None
        then bStore counterNs (nsPrefix (newNs ''git'') @ ''segment-b'') (TextBody otherSegment) b else b,
      eFail = \<lambda>_. [], eLand = \<lambda>_. False\<rparr>"

lemma jsonString_app_inject: "jsonString s @ r = jsonString t @ r' \<longleftrightarrow> s = t \<and> r = r'"
  by (metis option.inject parseString_string prod.inject)

lemma inj_plainTag: "inj plainTag"
proof (rule injI)
  fix x y assume eq: "plainTag x = plainTag y"
  show "x = y"
  proof (cases x)
    case (TextBody s)
    then show ?thesis using eq by (cases y) (simp_all add: plainTag_def)
  next
    case (RollupObj rb)
    then obtain rb' where y: "y = RollupObj rb'" using eq by (cases y) (simp_all add: plainTag_def)
    have "State rb = State rb' \<and> mKey (Mark rb) = mKey (Mark rb') \<and> LM (Mark rb) = LM (Mark rb')"
      using eq unfolding RollupObj y plainTag_def
      by (auto simp: jsonString_app_inject show_nat_inject split: if_splits)
    then show ?thesis unfolding RollupObj y by (cases rb; cases rb'; cases "Mark rb"; cases "Mark rb'") auto
  qed
qed

lemma otherSegment_text: "marshalSegment [IntAdd ''n'' 1] = Some otherSegment"
proof -
  have "marshalSegment [IntAdd ''n'' 1] \<noteq> None"
    by (simp add: marshalSegment_def encodeOp_marshal jInt_def validNumber_FormatInt)
  then show ?thesis by (auto simp: otherSegment_def)
qed

lemma otherSegment_ops: "unmarshalSegment otherSegment = Some [IntAdd ''n'' 1]"
  using unmarshalSegment_marshalSegment [OF otherSegment_text] by simp

lemma rely_otherWriter: "rely counterNs otherWriter"
proof -
  have "legal counterNs b (eMove otherWriter i b)" if b: "binv counterNs b" for i b
    using store_seg_legal [OF b, of "''segment-b''" otherSegment "[IntAdd ''n'' 1]"] otherSegment_ops legal_refl [OF b]
    by (simp add: otherWriter_def HasPrefix_def counterNs_def wtOp_def)
  then show ?thesis by (simp add: rely_def counterNs_def jBase_def wtState_empty inj_plainTag)
qed

lemma binv_emptyBucket: "binv counterNs emptyBucket"
  by (simp add: binv_def emptyBucket_def counterNs_def rollupOk_def journalOk_def logOf_def)

lemma repOk_newNs: "repOk counterNs emptyBucket (newNs ''git'')"
  by (simp add: repOk_def counterNs_def newNs_def)

lemma example_tick:
  "\<exists>lst n' b' i'. s3Tick 2 (bucketClient counterNs otherWriter) 5 id (newNs ''git'') (emptyBucket, 0) = Ret (Inr lst, n', b', i') \<and>
     bLog b' ''segment-b'' \<noteq> None"
  by (simp add: s3Tick_def s3ListNs_def bucketClient_def otherWriter_def emptyBucket_def bListAns_def Let_def
      numeral_2_eq_2 newNs_def bGetAns_def bStore_def HasPrefix_def rollupKey_def nsPrefix_def nsDir_def readLegacy_def legacyKey_def
      bPutOk_def counterNs_def fetchUnseen_def unseenKeys_def)

section \<open>Properties\<close>



text \<open>
  C10: replicas converge: when no segment is stored between the first tick's beginning and the second
  tick's end, two replicas that tick one after the other hold the same state, the replay of the whole
  journal, whichever rollups they hold and whatever was compacted or deleted in between.
\<close>

theorem replicas_converge:
  assumes "rely P E" "rely P E2" "binv P b" "repOk P b n" "repOk P b m"
    and "\<forall>k e. s3Cache n k = Some e \<longrightarrow> ceInserted e < now" "\<forall>k e. s3Cache m k = Some e \<longrightarrow> ceInserted e < now2"
    and "s3Tick fuel (bucketClient P E) now id n (b, i) = Ret (Inr lst, n', b1, i1)"
    and "s3Tick fuel2 (bucketClient P E2) now2 id m (b1, i2) = Ret (Inr lst2, m', b2, i3)"
    and "dom (bLog b2) = dom (bLog b)"
  shows "sameState (s3State n') (s3State m') \<and> sameState (journalState (jBase P) (logOf b) (dom (bLog b))) (s3State n')"
proof -
  note T1 = tick_ok [OF assms(1,3,4,6,8)]
  have l1: "legal P b b1" using T1 by blast
  note T2 = tick_ok [OF assms(2) legal_inv [OF l1] repOk_stable [OF l1 assms(3,5)] assms(7,9)]
  have l2: "legal P b1 b2" using T2 by blast
  have d: "dom (bLog b1) = dom (bLog b)" "dom (bLog b2) = dom (bLog b)"
    using legal_dom [OF l1] legal_dom [OF l2] assms(10) by blast+
  let ?D = "dom (bLog b)"
  have "sameState (journalState (jBase P) (logOf b1) ?D) (s3State n')" "sameState (journalState (jBase P) (logOf b2) ?D) (s3State m')"
    using T1 T2 d by (metis subset_antisym)+
  moreover have "journalState (jBase P) (logOf c) ?D = journalState (jBase P) (logOf b) ?D" if "legal P b c" for c
    using binv_finite [OF assms(3)] legal_logOf [OF that] by (intro journalState_cong) auto
  ultimately have s: "sameState (journalState (jBase P) (logOf b) ?D) (s3State n')" "sameState (journalState (jBase P) (logOf b) ?D) (s3State m')"
    using l1 legal_trans [OF l1 l2] by simp_all
  then show ?thesis using sameState_trans [OF sameState_sym [OF s(1)] s(2)] by simp
qed

definition quietEnv :: environ where
  "quietEnv = \<lparr>eMove = \<lambda>i b. b, eFail = \<lambda>_. [], eLand = \<lambda>_. False\<rparr>"

lemma rely_quietEnv: "rely counterNs quietEnv"
  by (simp add: rely_def counterNs_def jBase_def wtState_empty inj_plainTag quietEnv_def legal_refl)

definition seededBucket :: bucket where
  "seededBucket = bStore counterNs (rollupKey (newNs ''git'')) (RollupObj \<lparr>State = ''{}'', Mark = zeroMark\<rparr>) emptyBucket"

lemmas client_simps = bucketClient_def quietEnv_def bListAns_def Let_def newNs_def bGetAns_def bStore_def HasPrefix_def
  rollupKey_def nsPrefix_def nsDir_def readLegacy_def legacyKey_def bPutOk_def counterNs_def

lemma unmarshalState_braces [simp]: "unmarshalState ''{}'' = Some Map.empty"
  by (simp add: unmarshalState_def jsonDecode_def parseVal.simps(2) skipWs_def expectChar_def)

lemma example_seed:
  "\<exists>lst n'. s3Tick 2 (bucketClient counterNs quietEnv) 5 id (newNs ''git'') (emptyBucket, 0) = Ret (Inr lst, n', seededBucket, 4)"
  by (simp add: s3Tick_def s3ListNs_def client_simps seededBucket_def emptyBucket_def numeral_2_eq_2 fetchUnseen_def unseenKeys_def)

lemma example_adopt:
  "\<exists>lst n'. s3Tick 2 (bucketClient counterNs quietEnv) 5 id (newNs ''git'') (seededBucket, 0) = Ret (Inr lst, n', seededBucket, 2)"
proof -
  have "{k. k = ''.metadata/git/rollup.json'' \<and> CutPrefix ''.metadata/git/segment-'' k \<noteq> None} = {}" by auto
  then show ?thesis
    by (simp add: s3Tick_def s3ListNs_def client_simps seededBucket_def emptyBucket_def numeral_2_eq_2 fetchUnseen_def
        unseenKeys_def adoptRollup_def segPrefix_def cong: conj_cong)
qed

lemma example_ticks:
  "\<exists>lst n' b1 i1 lst2 m' b2 i3.
     s3Tick 2 (bucketClient counterNs quietEnv) 5 id (newNs ''git'') (emptyBucket, 0) = Ret (Inr lst, n', b1, i1) \<and>
     s3Tick 2 (bucketClient counterNs quietEnv) 5 id (newNs ''git'') (b1, 0) = Ret (Inr lst2, m', b2, i3) \<and>
     dom (bLog b2) = dom (bLog emptyBucket)"
proof -
  have "dom (bLog seededBucket) = dom (bLog emptyBucket)" by (simp add: seededBucket_def client_simps)
  then show ?thesis using example_seed example_adopt by blast
qed

theorem replicas_converge_witness:
  "\<exists>lst n' b1 i1 lst2 m' b2 i3.
     s3Tick 2 (bucketClient counterNs quietEnv) 5 id (newNs ''git'') (emptyBucket, 0) = Ret (Inr lst, n', b1, i1) \<and>
     s3Tick 2 (bucketClient counterNs quietEnv) 5 id (newNs ''git'') (b1, 0) = Ret (Inr lst2, m', b2, i3) \<and>
     sameState (s3State n') (s3State m')"
proof -
  obtain lst n' b1 i1 lst2 m' b2 i3 where run:
    "s3Tick 2 (bucketClient counterNs quietEnv) 5 id (newNs ''git'') (emptyBucket, 0) = Ret (Inr lst, n', b1, i1)"
    "s3Tick 2 (bucketClient counterNs quietEnv) 5 id (newNs ''git'') (b1, 0) = Ret (Inr lst2, m', b2, i3)"
    "dom (bLog b2) = dom (bLog emptyBucket)" using example_ticks by blast
  have ins: "\<forall>k e. s3Cache (newNs ''git'') k = Some e \<longrightarrow> ceInserted e < 5" by (simp add: newNs_def)
  from replicas_converge [OF rely_quietEnv rely_quietEnv binv_emptyBucket repOk_newNs repOk_newNs ins ins run] run show ?thesis by blast
qed


text \<open>An aged and a new segment, both empty, and a replica that has them in its cache.\<close>

definition probeText :: string where
  "probeText = the (marshalSegment [])"

definition agedBucket :: bucket where
  "agedBucket = bStore counterNs (nsPrefix (newNs ''git'') @ ''segment-b'') (TextBody probeText)
     ((bStore counterNs (nsPrefix (newNs ''git'') @ ''segment-a'') (TextBody probeText) seededBucket)\<lparr>bClock := 100\<rparr>)"

definition agedListing :: listing where
  "agedListing = \<lparr>lEntries = [''segment-a'' \<mapsto> 1, ''segment-b'' \<mapsto> 100], lNewest = 100, lStart = 3\<rparr>"

definition agedReplica :: nsS3 where
  "agedReplica = (newNs ''git'')\<lparr>
     s3Cache := [''segment-a'' \<mapsto> \<lparr>ceOps = [], ceLm = 1, ceListed = True, ceInserted = 1\<rparr>,
                 ''segment-b'' \<mapsto> \<lparr>ceOps = [], ceLm = 100, ceListed = True, ceInserted = 1\<rparr>],
     s3Rollup := Some \<lparr>hrEtag = plainTag (RollupObj \<lparr>State = ''{}'', Mark = zeroMark\<rparr>), hrMark = zeroMark, hrState = ''{}''\<rparr>, sustain := 1\<rparr>"

lemma probeText_ops: "unmarshalSegment probeText = Some []"
  using unmarshalSegment_marshalSegment [of "[]" probeText] by (simp add: probeText_def marshalSegment_def)

lemma advance_legal:
  assumes "binv P b" "bClock b \<le> c"
  shows "legal P b (b\<lparr>bClock := c\<rparr>)"
proof -
  have eq: "logOf (b\<lparr>bClock := c\<rparr>) = logOf b" "markOf P (b\<lparr>bClock := c\<rparr>) = markOf P b" by (simp_all add: logOf_def markOf_def)
  have "rollupOk P (b\<lparr>bClock := c\<rparr>)"
    using assms by (auto simp: rollupOk_def eq binv_def split: option.splits prod.splits objBody.splits)
  then have "binv P (b\<lparr>bClock := c\<rparr>)" using assms unfolding binv_def eq by (auto intro: order_trans)
  then show ?thesis using assms(2) by (auto simp: legal_def eq grows_def)
qed

lemma legal_seeded: "legal counterNs emptyBucket seededBucket"
proof -
  have "goodRollup (jSch counterNs) (jBase counterNs) (logOf emptyBucket) zeroMark ''{}''"
    using goodRollup_seed [OF rely_quietEnv binv_emptyBucket] by (simp add: jBase_def counterNs_def)
  then show ?thesis
    using store_rollup_legal [OF binv_emptyBucket, of "\<lparr>State = ''{}'', Mark = zeroMark\<rparr>"]
    by (simp add: seededBucket_def counterNs_def zeroMark_def emptyBucket_def markOf_def)
qed

lemma legal_aged: "legal counterNs seededBucket agedBucket"
proof -
  let ?a = "bStore counterNs (nsPrefix (newNs ''git'') @ ''segment-a'') (TextBody probeText) seededBucket"
  have log: "bLog seededBucket = Map.empty" "bClock seededBucket = 1" by (simp_all add: seededBucket_def client_simps emptyBucket_def)
  have a: "legal counterNs seededBucket ?a"
    using store_seg_legal [OF legal_inv [OF legal_seeded], of "''segment-a''" probeText "[]"] probeText_ops log
    by (simp add: HasPrefix_def counterNs_def)
  have la: "bLog ?a ''segment-b'' = None" "bClock ?a = 1" by (simp_all add: bStore_def counterNs_def HasPrefix_def log)
  have b: "legal counterNs ?a (?a\<lparr>bClock := 100\<rparr>)" using advance_legal [OF legal_inv [OF a]] la by simp
  have "legal counterNs (?a\<lparr>bClock := 100\<rparr>) agedBucket" unfolding agedBucket_def
    using store_seg_legal [OF legal_inv [OF b], of "''segment-b''" probeText "[]"] probeText_ops la
    by (simp add: HasPrefix_def counterNs_def)
  then show ?thesis using a b by (blast intro: legal_trans)
qed

lemma listedAt_aged: "listedAt counterNs agedListing agedBucket"
proof -
  have "lEntries agedListing k = Some lm \<longleftrightarrow> segName k \<and> (\<exists>body. jlive counterNs agedBucket k = Some (lm, body))" for k lm
    by (auto simp: agedListing_def agedBucket_def seededBucket_def emptyBucket_def client_simps)
  moreover have "bClock agedBucket = 100" by (simp add: agedBucket_def bStore_def)
  ultimately show ?thesis using legal_inv [OF legal_aged] by (simp add: listedAt_def listsBucket_def) (simp add: agedListing_def)
qed

lemma repOk_aged: "repOk counterNs agedBucket agedReplica"
proof -
  have log: "logOf agedBucket = [''segment-a'' \<mapsto> (1, []), ''segment-b'' \<mapsto> (100, [])]"
    by (auto simp: logOf_def agedBucket_def seededBucket_def emptyBucket_def client_simps probeText_ops)
  have roll: "jroll counterNs agedBucket = Some (1, RollupObj \<lparr>State = ''{}'', Mark = zeroMark\<rparr>)"
    by (simp add: agedBucket_def seededBucket_def emptyBucket_def client_simps)
  have "goodRollup (jSch counterNs) (jBase counterNs) (logOf agedBucket) zeroMark ''{}''"
    using goodRollup_seed [OF rely_quietEnv legal_inv [OF legal_aged]] by (simp add: jBase_def counterNs_def)
  then have "heldOk counterNs agedBucket \<lparr>hrEtag = plainTag (RollupObj \<lparr>State = ''{}'', Mark = zeroMark\<rparr>), hrMark = zeroMark, hrState = ''{}''\<rparr>"
    using roll by (simp add: heldOk_def markOf_def) (simp add: counterNs_def)
  moreover have "entryOk (logOf agedBucket) k e" if "s3Cache agedReplica k = Some e" for k e
    using that by (auto simp: entryOk_def agedReplica_def log simp del: dom_logOf split: if_splits)
  ultimately show ?thesis by (simp add: repOk_def) (simp add: agedReplica_def newNs_def counterNs_def)
qed

lemma aged_candidates: "candidates 30 agedListing zeroMark = [''segment-a'']" "leftovers 30 agedListing zeroMark = []"
  by (simp_all add: candidates_def leftovers_def agedKeys_def agedListing_def timeSub_def zeroMark_def covers_def insert_commute)

lemma aged_ladder:
  "\<exists>n' b' i'. s3Ladder \<lparr>ageThreshold = 30, segmentThreshold = 1\<rparr> False 2 (bucketClient counterNs quietEnv) (Inr ''segment-c'') 7
     agedListing agedReplica (agedBucket, 0) = Ret ([], n', b', i') \<and> markOf counterNs b' = Some \<lparr>LM = 1, mKey = ''segment-a''\<rparr>"
proof -
  let ?C = "bucketClient counterNs quietEnv" and ?rb = "\<lparr>State = ''{}'', Mark = zeroMark\<rparr>" and ?rb2 = "\<lparr>State = ''{}'', Mark = \<lparr>LM = 1, mKey = ''segment-a''\<rparr>\<rparr>"
  let ?n = "agedReplica\<lparr>lastNewest := 100, stall := 0, sustain := 0\<rparr>"
  have roll: "bObjs agedBucket (rollupKey ?n) = Some (1, RollupObj ?rb)"
    by (simp add: agedBucket_def seededBucket_def emptyBucket_def client_simps agedReplica_def)
  have get: "s3Get ?C (rollupKey ?n) (Some (plainTag (RollupObj ?rb))) (agedBucket, 0) = (GotNotModified, (agedBucket, 1))"
    using roll by (simp add: bucketClient_def quietEnv_def bGetAns_def counterNs_def)
  have "refreshRollup 2 ?C ?n (agedBucket, 0) = Ret ([], ?n, (agedBucket, 1))"
    using get by (simp add: numeral_2_eq_2) (simp add: agedReplica_def)
  moreover have "foldSegments agedListing (s3Cache ?n) (sortCandidates agedListing [''segment-a'']) Map.empty zeroMark =
      Some (Map.empty, \<lparr>LM = 1, mKey = ''segment-a''\<rparr>)"
    by (simp add: sortCandidates_def agedListing_def agedReplica_def)
  moreover have "marshalState Map.empty = Some ''{}''" by (simp add: marshalState_def fieldsOf_def)
  moreover have "s3Put ?C (rollupKey ?n) (RollupObj ?rb2) (PutIfMatch (plainTag (RollupObj ?rb))) (agedBucket, 1) =
      (PutOk (plainTag (RollupObj ?rb2)), (bStore counterNs (rollupKey ?n) (RollupObj ?rb2) agedBucket, 2))"
    using roll by (simp add: bucketClient_def quietEnv_def bPutOk_def counterNs_def Let_def)
  moreover have "\<exists>b'. s3RemoveSegs ?C ?n [''segment-a''] (bStore counterNs (rollupKey ?n) (RollupObj ?rb2) agedBucket, 2) = (b', 3) \<and>
      markOf counterNs b' = Some \<lparr>LM = 1, mKey = ''segment-a''\<rparr>"
    by (simp add: s3RemoveSegs_def client_simps markOf_def agedReplica_def)
  moreover have "s3Rollup agedReplica = Some \<lparr>hrEtag = plainTag (RollupObj ?rb), hrMark = zeroMark, hrState = ''{}''\<rparr>" "sustain agedReplica = 1"
      "lastNewest agedReplica = 0" "lNewest agedListing = 100"
    by (simp_all add: agedReplica_def newNs_def agedListing_def)
  ultimately show ?thesis
    by (auto simp: s3Ladder_def aged_candidates s3Compact_def Let_def sustainTicks_def)
qed






end
