(* ===== verification/Tiered.thy ===== *)
theory Tiered
  imports Memory MetadataOps
begin

text \<open>
  The tiered cache, \<^verbatim>\<open>internal/cache/tiered.go\<close>: a list of backends of which the last is authoritative,
  and a map in the metadata store with the ETag that a replaced object has.  The record \<open>Tiered\<close> holds the
  backends and the store, \<open>tieredSt\<close> their states and the state of the healer.

  Calls that the code runs in one goroutine per tier touch one tier each and are run here one after the
  other.  Only \<^verbatim>\<open>Create\<close> lets them interact, through the shared context, so there the order is a parameter.
  A reader that tees into tier 0 is returned as the source body with tier 0's writer; theory
  \<open>Backfill\<close> gives its behaviour.  A nil writer is \<open>None\<close>, and calling it is a panic.
\<close>

section \<open>Model: state\<close>

record ('c, 'w, 'b) Tiered =
  caches :: "('c, 'w) cacheOps list"
  metadata :: "'b backendOps"
  tNamespace :: Namespace

type_synonym healKey = "Namespace \<times> Key"

record tieredHealer =
  inflight :: "healKey list"
  sem :: nat

record ('c, 'b) tieredSt =
  tsTiers :: "'c list"
  tsMeta :: 'b
  tsHealer :: tieredHealer

definition tieredHealMaxConcurrency :: nat where
  "tieredHealMaxConcurrency = 8"

definition newTieredHealer :: tieredHealer where
  "newTieredHealer = \<lparr>inflight = [], sem = 0\<rparr>"

text \<open>The last tier, and the update of one tier's state.\<close>

definition lastTier :: "('c, 'w, 'b) Tiered \<Rightarrow> nat" where
  "lastTier t = length (caches t) - 1"

definition setTier :: "('c, 'b) tieredSt \<Rightarrow> nat \<Rightarrow> 'c \<Rightarrow> ('c, 'b) tieredSt" where
  "setTier s i c = s\<lparr>tsTiers := (tsTiers s)[i := c]\<rparr>"

section \<open>Model: the recorded ETags\<close>

definition tieredETagsMap :: string where
  "tieredETagsMap = ''cache-etags''"

text \<open>
  A \<^verbatim>\<open>Key\<close> passed by value is not addressable, so \<^verbatim>\<open>json.Marshal\<close> encodes it as the array it is and not
  through the pointer method \<^verbatim>\<open>MarshalText\<close>.
\<close>

definition keyJson :: "Key \<Rightarrow> json" where
  "keyJson key = JArr (map (\<lambda>b. JNum (FormatInt (uint b))) key)"

definition etagsSet :: "('c, 'w, 'b) Tiered \<Rightarrow> 'b \<Rightarrow> Key \<Rightarrow> string \<Rightarrow> goerr \<times> 'b" where
  "etagsSet t b key etag = mapSet (metadata t) b (tNamespace t) tieredETagsMap (keyJson key) (VStr etag)"

definition etagsDelete :: "('c, 'w, 'b) Tiered \<Rightarrow> 'b \<Rightarrow> Key \<Rightarrow> goerr \<times> 'b" where
  "etagsDelete t b key = mapDelete (metadata t) b (tNamespace t) tieredETagsMap (keyJson key)"

text \<open>
  A value that is not a string does not decode into the map's value type: the string stays empty, the
  flag \<^verbatim>\<open>OK\<close> is set all the same, and the error is ignored.
\<close>

definition etagsGet :: "('c, 'w, 'b) Tiered \<Rightarrow> 'b \<Rightarrow> Key \<Rightarrow> string option \<times> 'b" where
  "etagsGet t b key =
     (case mapGet (metadata t) b (tNamespace t) tieredETagsMap (keyJson key) of (r, b') \<Rightarrow>
        (map_option (\<lambda>v. case v of VStr s \<Rightarrow> s | _ \<Rightarrow> '''') r, b'))"

section \<open>Model: writing\<close>

record 'w tieredWriter =
  twWriters :: "'w option list"
  twKey :: Key
  twETag :: string
  twReplaceETag :: bool
  twClosed :: bool
  twAborted :: bool

definition replacementETag :: "('c, 'w, 'b) Tiered \<Rightarrow> ('c, 'b) tieredSt \<Rightarrow> Key \<Rightarrow> string
    \<Rightarrow> bool \<times> goerr \<times> ('c, 'b) tieredSt" where
  "replacementETag t s key newETag =
     (case cStat (caches t ! lastTier t) (tsTiers s ! lastTier t) key [] of ((h, e), c) \<Rightarrow>
        (let s1 = setTier s (lastTier t) c
         in if errIs e ErrNotExist then (False, [], s1)
            else if e \<noteq> [] then (False, e, s1)
            else (hGet h ETagKey \<noteq> newETag, [], s1)))"

text \<open>The writers share the context that \<open>Create\<close> makes, so cancelling it cancels all of them.\<close>

definition cancelAll :: "('c, 'w, 'b) Tiered \<Rightarrow> 'w option list \<Rightarrow> 'w option list" where
  "cancelAll t ws = map2 (\<lambda>ops w. map_option (wCancel ops) w) (caches t) ws"

text \<open>
  The goroutines of \<^verbatim>\<open>Create\<close>, in the given order of tiers: the first error becomes the cause of the
  shared context and cancels the writers created before.
\<close>

fun createTiers :: "('c, 'w, 'b) Tiered \<Rightarrow> Key \<Rightarrow> header \<Rightarrow> duration \<Rightarrow> RequestOption list \<Rightarrow> nat list
    \<Rightarrow> goerr \<Rightarrow> 'w option list \<Rightarrow> 'c list \<Rightarrow> goerr \<times> 'w option list \<times> 'c list" where
  "createTiers t key h ttl opts [] ctx ws cs = (ctx, ws, cs)"
| "createTiers t key h ttl opts (i # is) ctx ws cs =
     (case cCreate (caches t ! i) (cs ! i) ctx key h ttl opts of (r, c) \<Rightarrow>
        (case r of
           Inl e \<Rightarrow>
             createTiers t key h ttl opts is (if ctx = [] then e else ctx)
               (if ctx = [] then cancelAll t ws else ws) (cs[i := c])
         | Inr w \<Rightarrow> createTiers t key h ttl opts is ctx (ws[i := Some w]) (cs[i := c])))"

text \<open>
  \<^verbatim>\<open>Create\<close>.  The caller passes the error of its context, the fresh UUID, the order in which the goroutines
  run, and \<open>pickDone\<close>: which case \<^verbatim>\<open>select\<close> takes when both channels are ready.
\<close>

definition tieredCreate :: "('c, 'w, 'b) Tiered \<Rightarrow> ('c, 'b) tieredSt \<Rightarrow> string \<Rightarrow> nat list \<Rightarrow> bool
    \<Rightarrow> goerr \<Rightarrow> Key \<Rightarrow> header \<Rightarrow> duration \<Rightarrow> RequestOption list
    \<Rightarrow> (goerr + 'w tieredWriter) \<times> ('c, 'b) tieredSt" where
  "tieredCreate t s uuid order pickDone ctxErr key h ttl opts =
     (case createETag uuid opts of (raw, quoted, e) \<Rightarrow>
        if e \<noteq> [] then (Inl e, s)
        else (case replacementETag t s key quoted of (replace, e1, s1) \<Rightarrow>
          if e1 \<noteq> [] then (Inl e1, s1)
          else (case createTiers t key h ttl [WithETag raw] order ctxErr
                  (replicate (length (caches t)) None) (tsTiers s1) of (ctx, ws, cs) \<Rightarrow>
            (if ctx = [] \<or> pickDone
             then Inr \<lparr>twWriters = ws, twKey = key, twETag = quoted, twReplaceETag = replace,
                       twClosed = False, twAborted = False\<rparr>
             else Inl ctx,
             s1\<lparr>tsTiers := cs\<rparr>))))"

fun writeTiers :: "('c, 'w) cacheOps list \<Rightarrow> 'w option list \<Rightarrow> nat \<Rightarrow> bytes
    \<Rightarrow> (nat \<times> goerr) outcome \<times> 'w option list" where
  "writeTiers (ops # opss) (w # ws) n p =
     (case w of
        None \<Rightarrow> (Panic, w # ws)
      | Some w0 \<Rightarrow>
          (case wWrite ops w0 p of ((n1, e), w1) \<Rightarrow>
             if e \<noteq> [] then (Ret (n1, e), Some w1 # ws)
             else (case writeTiers opss ws n1 p of (r, ws1) \<Rightarrow> (r, Some w1 # ws1))))"
| "writeTiers opss ws n p = (Ret (n, []), ws)"

definition tieredWrite :: "('c, 'w, 'b) Tiered \<Rightarrow> 'w tieredWriter \<Rightarrow> bytes
    \<Rightarrow> (nat \<times> goerr) outcome \<times> 'w tieredWriter" where
  "tieredWrite t tw p =
     (case writeTiers (caches t) (twWriters tw) 0 p of (r, ws) \<Rightarrow>
        (case r of
           Ret (n, e) \<Rightarrow>
             (Ret (n, e), tw\<lparr>twWriters := if e \<noteq> [] \<and> \<not> errIs e ErrCanceled then cancelAll t ws else ws\<rparr>)
         | Blocked \<Rightarrow> (Blocked, tw\<lparr>twWriters := ws\<rparr>)
         | Panic \<Rightarrow> (Panic, tw\<lparr>twWriters := ws\<rparr>)))"

text \<open>All writers are closed, in goroutines; a panic in one ends the program.\<close>

fun closeTiers :: "('c, 'w) cacheOps list \<Rightarrow> 'w option list \<Rightarrow> 'c list
    \<Rightarrow> goerr list outcome \<times> 'w option list \<times> 'c list" where
  "closeTiers (ops # opss) (w # ws) (c # cs) =
     (case w of
        None \<Rightarrow> (Panic, w # ws, c # cs)
      | Some w0 \<Rightarrow>
          (case wClose ops w0 c of (r, w1, c1) \<Rightarrow>
           case closeTiers opss ws cs of (rs, ws1, cs1) \<Rightarrow>
             (case r of
                Panic \<Rightarrow> Panic
              | Blocked \<Rightarrow> (if rs = Panic then Panic else Blocked)
              | Ret e \<Rightarrow> (case rs of Ret es \<Rightarrow> Ret (e # es) | Blocked \<Rightarrow> Blocked | Panic \<Rightarrow> Panic),
              Some w1 # ws1, c1 # cs1)))"
| "closeTiers opss ws cs = (Ret [], ws, cs)"

definition tieredWClose :: "('c, 'w, 'b) Tiered \<Rightarrow> 'w tieredWriter \<Rightarrow> ('c, 'b) tieredSt
    \<Rightarrow> goerr outcome \<times> 'w tieredWriter \<times> ('c, 'b) tieredSt" where
  "tieredWClose t tw s =
     (if twClosed tw then (Ret [], tw, s)
      else (case closeTiers (caches t) (twWriters tw) (tsTiers s) of (rs, ws, cs) \<Rightarrow>
        (let tw1 = tw\<lparr>twClosed := True, twWriters := ws\<rparr>; s1 = s\<lparr>tsTiers := cs\<rparr>
         in case rs of
              Blocked \<Rightarrow> (Blocked, tw1, s1)
            | Panic \<Rightarrow> (Panic, tw1, s1)
            | Ret es \<Rightarrow>
                if errJoin es = [] \<and> \<not> twAborted tw \<and> twReplaceETag tw
                then (case etagsSet t (tsMeta s1) (twKey tw) (twETag tw) of (e, b) \<Rightarrow>
                        (Ret e, tw1, s1\<lparr>tsMeta := b\<rparr>))
                else (Ret (errJoin es), tw1, s1))))"

definition tieredAbort :: "('c, 'w, 'b) Tiered \<Rightarrow> 'w tieredWriter \<Rightarrow> ('c, 'b) tieredSt
    \<Rightarrow> goerr outcome \<times> 'w tieredWriter \<times> ('c, 'b) tieredSt" where
  "tieredAbort t tw s =
     tieredWClose t (tw\<lparr>twAborted := True, twWriters := cancelAll t (twWriters tw)\<rparr>) s"

section \<open>Model: removing\<close>

text \<open>One call per tier, each on its own state.\<close>

definition eachTier :: "(('c, 'w) cacheOps \<Rightarrow> 'c \<Rightarrow> goerr \<times> 'c) \<Rightarrow> ('c, 'w) cacheOps list \<Rightarrow> 'c list
    \<Rightarrow> goerr list \<times> 'c list" where
  "eachTier f opss cs = (let rs = map2 f opss cs in (map fst rs, map snd rs))"

definition tieredDelete :: "('c, 'w, 'b) Tiered \<Rightarrow> ('c, 'b) tieredSt \<Rightarrow> Key \<Rightarrow> goerr \<times> ('c, 'b) tieredSt" where
  "tieredDelete t s key =
     (case eachTier (\<lambda>ops c. cDelete ops c key) (caches t) (tsTiers s) of (errs, cs) \<Rightarrow>
        (let s1 = s\<lparr>tsTiers := cs\<rparr>
         in if errJoin errs = []
            then (case etagsDelete t (tsMeta s1) key of (e, b) \<Rightarrow> (e, s1\<lparr>tsMeta := b\<rparr>))
            else (errJoin errs, s1)))"

definition tieredInvalidate :: "('c, 'w, 'b) Tiered \<Rightarrow> ('c, 'b) tieredSt \<Rightarrow> Key \<Rightarrow> goerr \<times> ('c, 'b) tieredSt" where
  "tieredInvalidate t s key =
     (if length (caches t) \<le> 1 then ([], s)
      else (case eachTier (\<lambda>ops c. cInvalidate ops c key) (butlast (caches t)) (butlast (tsTiers s)) of (errs, cs) \<Rightarrow>
        (errJoin errs, s\<lparr>tsTiers := cs @ [last (tsTiers s)]\<rparr>)))"

text \<open>\<^verbatim>\<open>Close\<close> waits for the heals in flight before it closes the tiers.\<close>

definition tieredClose :: "('c, 'w, 'b) Tiered \<Rightarrow> ('c, 'b) tieredSt \<Rightarrow> goerr outcome \<times> ('c, 'b) tieredSt" where
  "tieredClose t s =
     (if inflight (tsHealer s) \<noteq> [] then (Blocked, s)
      else (case eachTier cClose (caches t) (tsTiers s) of (errs, cs) \<Rightarrow> (Ret (errJoin errs), s\<lparr>tsTiers := cs\<rparr>)))"

section \<open>Model: reading\<close>

definition invalidateStale :: "('c, 'w, 'b) Tiered \<Rightarrow> ('c, 'b) tieredSt \<Rightarrow> nat \<Rightarrow> Key \<Rightarrow> header
    \<Rightarrow> bool \<times> ('c, 'b) tieredSt" where
  "invalidateStale t s i key h =
     (case etagsGet t (tsMeta s) key of (want, b) \<Rightarrow>
        (let s1 = s\<lparr>tsMeta := b\<rparr>
         in if want = None \<or> want = Some (hGet h ETagKey) then (False, s1)
            else (case cInvalidate (caches t ! i) (tsTiers s ! i) key of (e, c) \<Rightarrow> (True, setTier s1 i c))))"

definition invalidateStaleConditional :: "('c, 'w, 'b) Tiered \<Rightarrow> ('c, 'b) tieredSt \<Rightarrow> nat \<Rightarrow> Key \<Rightarrow> header \<Rightarrow> goerr
    \<Rightarrow> bool \<times> ('c, 'b) tieredSt" where
  "invalidateStaleConditional t s i key h e =
     (if i = lastTier t \<or> \<not> errIs e ErrNotModified \<and> \<not> errIs e ErrRangeNotSatisfiable then (False, s)
      else invalidateStale t s i key h)"

text \<open>
  The loop of \<^verbatim>\<open>Stat\<close> over the remaining tiers; \<open>errs\<close> are the errors of the tiers before.
\<close>

fun statTiers :: "('c, 'w, 'b) Tiered \<Rightarrow> Key \<Rightarrow> RequestOption list \<Rightarrow> nat list \<Rightarrow> bool \<Rightarrow> goerr list \<Rightarrow> goerr list
    \<Rightarrow> ('c, 'b) tieredSt \<Rightarrow> (header \<times> goerr) \<times> ('c, 'b) tieredSt" where
  "statTiers t key opts [] rejected probeErrs errs s =
     (if probeErrs \<noteq> [] then (Map.empty, errJoin probeErrs)
      else if rejected then (Map.empty, [ErrPreconditionFailed])
      else (Map.empty, errJoin errs), s)"
| "statTiers t key opts (i # is) rejected probeErrs errs s =
     (case cStat (caches t ! i) (tsTiers s ! i) key opts of ((h, e), c) \<Rightarrow>
        (let s1 = setTier s i c; errs1 = errs @ [e]
         in if errIs e ErrNotExist then statTiers t key opts is rejected probeErrs errs1 s1
            else if errIs e ErrPreconditionFailed then statTiers t key opts is True probeErrs errs1 s1
            else if e \<noteq> [] \<and> \<not> errIs e ErrNotModified \<and> rejected
              then statTiers t key opts is rejected (probeErrs @ [e]) errs1 s1
            else if e \<noteq> [] \<and> \<not> errIs e ErrNotModified then ((h, e), s1)
            else (case (if i < lastTier t then invalidateStale t s1 i key h else (False, s1)) of (stale, s2) \<Rightarrow>
              if stale then statTiers t key opts is rejected probeErrs errs1 s2
              else ((h, e), s2))))"

definition tieredStat :: "('c, 'w, 'b) Tiered \<Rightarrow> ('c, 'b) tieredSt \<Rightarrow> Key \<Rightarrow> RequestOption list
    \<Rightarrow> (header \<times> goerr) \<times> ('c, 'b) tieredSt" where
  "tieredStat t s key opts = statTiers t key opts [0..<length (caches t)] False [] [] s"

definition AuthoritativeStat :: "('c, 'w, 'b) Tiered \<Rightarrow> ('c, 'b) tieredSt \<Rightarrow> Key \<Rightarrow> RequestOption list
    \<Rightarrow> (header \<times> goerr) \<times> ('c, 'b) tieredSt" where
  "AuthoritativeStat t s key opts =
     (case cStat (caches t ! lastTier t) (tsTiers s ! lastTier t) key opts of (r, c) \<Rightarrow>
        (r, setTier s (lastTier t) c))"

text \<open>What \<^verbatim>\<open>Open\<close> returns as a reader: a tier's own, or one that tees into a writer of tier 0.\<close>

datatype 'w tieredReader = TPlain body | TBackfill body 'w

fun readerBody :: "'w tieredReader \<Rightarrow> body" where
  "readerBody (TPlain r) = r"
| "readerBody (TBackfill r w) = r"

definition backfillCreateOptions :: "header \<Rightarrow> RequestOption list" where
  "backfillCreateOptions h =
     (case RawETagFromHeader (hGet h ETagKey) of (raw, e) \<Rightarrow> if e \<noteq> [] then [] else [WithETag raw])"

definition backfillReader :: "('c, 'w, 'b) Tiered \<Rightarrow> ('c, 'b) tieredSt \<Rightarrow> goerr \<Rightarrow> Key \<Rightarrow> body \<Rightarrow> header
    \<Rightarrow> 'w tieredReader \<times> ('c, 'b) tieredSt" where
  "backfillReader t s ctxErr key src h =
     (case cCreate (caches t ! 0) (tsTiers s ! 0) ctxErr key h 0 (backfillCreateOptions h) of (r, c) \<Rightarrow>
        (case r of Inl e \<Rightarrow> TPlain src | Inr w \<Rightarrow> TBackfill src w, setTier s 0 c))"

text \<open>
  The healer starts a heal unless one for the key runs already or all slots are taken; \<open>healDone\<close> is
  the deferred function at its end.
\<close>

definition trigger :: "tieredHealer \<Rightarrow> healKey \<Rightarrow> bool \<times> tieredHealer" where
  "trigger h key =
     (if key \<in> set (inflight h) \<or> sem h \<ge> tieredHealMaxConcurrency then (False, h)
      else (True, h\<lparr>inflight := key # inflight h, sem := sem h + 1\<rparr>))"

definition healDone :: "tieredHealer \<Rightarrow> healKey \<Rightarrow> tieredHealer" where
  "healDone h key = h\<lparr>inflight := removeAll key (inflight h), sem := sem h - 1\<rparr>"

definition healTier0 :: "('c, 'w, 'b) Tiered \<Rightarrow> ('c, 'b) tieredSt \<Rightarrow> Key \<Rightarrow> string \<Rightarrow> bool \<times> ('c, 'b) tieredSt" where
  "healTier0 t s key servedETag =
     (if servedETag = '''' then (False, s)
      else (case etagsGet t (tsMeta s) key of (want, b) \<Rightarrow>
        (let s1 = s\<lparr>tsMeta := b\<rparr>
         in if want \<noteq> Some servedETag then (False, s1)
            else (case trigger (tsHealer s1) (tNamespace t, key) of (started, hl) \<Rightarrow>
                    (started, s1\<lparr>tsHealer := hl\<rparr>)))))"

definition convergeTier0 :: "('c, 'w, 'b) Tiered \<Rightarrow> ('c, 'b) tieredSt \<Rightarrow> goerr \<Rightarrow> Key \<Rightarrow> body \<Rightarrow> header \<Rightarrow> nat \<Rightarrow> bool
    \<Rightarrow> 'w tieredReader \<times> ('c, 'b) tieredSt" where
  "convergeTier0 t s ctxErr key r h tier part =
     (if tier = 0 then (TPlain r, s)
      else if \<not> part then backfillReader t s ctxErr key r h
      else (TPlain r, snd (healTier0 t s key (hGet h ETagKey))))"

text \<open>
  The loop of \<^verbatim>\<open>Open\<close>.  Closing a superseded reader can only fail with an error that is logged.
\<close>

fun openTiers :: "('c, 'w, 'b) Tiered \<Rightarrow> goerr \<Rightarrow> Key \<Rightarrow> RequestOption list \<Rightarrow> nat list
    \<Rightarrow> (body \<times> header) option \<Rightarrow> bool \<Rightarrow> goerr list \<Rightarrow> goerr list \<Rightarrow> ('c, 'b) tieredSt
    \<Rightarrow> ('w tieredReader \<times> header \<times> goerr) \<times> ('c, 'b) tieredSt" where
  "openTiers t ctxErr key opts [] fallback rejected probeErrs errs s =
     (if probeErrs \<noteq> [] then
        (TPlain nilBody, Map.empty,
         errJoin (probeErrs @ (case fallback of None \<Rightarrow> [] | Some (r, h) \<Rightarrow> [bCloseErr r])))
      else (case fallback of
              Some (r, h) \<Rightarrow> (TPlain r, h, [])
            | None \<Rightarrow> if rejected then (TPlain nilBody, Map.empty, [ErrPreconditionFailed])
                      else (TPlain nilBody, Map.empty, errJoin errs)), s)"
| "openTiers t ctxErr key opts (i # is) fallback rejected probeErrs errs s =
     (case cOpen (caches t ! i) (tsTiers s ! i) key opts of ((r, h, e), c) \<Rightarrow>
        (let s1 = setTier s i c; errs1 = errs @ [e]
         in if errIs e ErrNotExist then openTiers t ctxErr key opts is fallback rejected probeErrs errs1 s1
            else if errIs e ErrPreconditionFailed then openTiers t ctxErr key opts is fallback True probeErrs errs1 s1
            else (case invalidateStaleConditional t s1 i key h e of (condStale, s2) \<Rightarrow>
              if condStale then openTiers t ctxErr key opts is fallback rejected probeErrs (errs @ [[ErrNotExist]]) s2
              else if errIs e ErrNotModified \<or> errIs e ErrRangeNotSatisfiable then ((TPlain nilBody, h, e), s2)
              else if e \<noteq> [] then
                (if fallback = None \<and> \<not> rejected then ((TPlain nilBody, h, e), s2)
                 else openTiers t ctxErr key opts is fallback rejected (probeErrs @ [e]) errs1 s2)
              else (case (if i < lastTier t then invalidateStale t s2 i key h else (False, s2)) of (stale, s3) \<Rightarrow>
                if stale then openTiers t ctxErr key opts is fallback rejected probeErrs errs1 s3
                else if IfRangeMisses (NewRequestOptions opts) (hGet h ETagKey) then
                  openTiers t ctxErr key opts is (if fallback \<noteq> None then fallback else Some (r, h))
                    rejected probeErrs errs1 s3
                else (case convergeTier0 t s3 ctxErr key r h i (oRange (NewRequestOptions opts) \<noteq> '''') of (r', s4) \<Rightarrow>
                        ((r', h, []), s4))))))"

definition tieredOpen :: "('c, 'w, 'b) Tiered \<Rightarrow> ('c, 'b) tieredSt \<Rightarrow> goerr \<Rightarrow> Key \<Rightarrow> RequestOption list
    \<Rightarrow> ('w tieredReader \<times> header \<times> goerr) \<times> ('c, 'b) tieredSt" where
  "tieredOpen t s ctxErr key opts = openTiers t ctxErr key opts [0..<length (caches t)] None False [] [] s"

section \<open>Model: the heal of a ranged read\<close>

text \<open>\<^verbatim>\<open>io.Copy\<close> from a body to a tier's writer.\<close>

definition copyBody :: "('c, 'w) cacheOps \<Rightarrow> 'w \<Rightarrow> body \<Rightarrow> goerr \<times> 'w" where
  "copyBody ops w r =
     (case writeBlocks ops w (bBlocks r) of (e, w1) \<Rightarrow> (if e \<noteq> [] then e else bErr r, w1))"

text \<open>
  \<open>env\<close> is what other operations do to the state while the copy runs, and \<open>cancelled\<close> says whether the
  healer was closed or the timeout of the heal passed before the commit.
\<close>

definition backfillTier0FromSource :: "('c, 'w, 'b) Tiered \<Rightarrow> (('c, 'b) tieredSt \<Rightarrow> ('c, 'b) tieredSt) \<Rightarrow> bool
    \<Rightarrow> Key \<Rightarrow> nat \<Rightarrow> string \<Rightarrow> ('c, 'b) tieredSt \<Rightarrow> ('c, 'b) tieredSt" where
  "backfillTier0FromSource t env cancelled key source wantETag s =
     (case cOpen (caches t ! source) (tsTiers s ! source) key [IfMatch wantETag] of ((r, h, e), c) \<Rightarrow>
        (let s1 = setTier s source c
         in if e \<noteq> [] \<or> hGet h ETagKey \<noteq> wantETag then env s1
            else (case cCreate (caches t ! 0) (tsTiers s1 ! 0) [] key h 0 (backfillCreateOptions h) of (cr, c0) \<Rightarrow>
              (let s2 = env (setTier s1 0 c0)
               in case cr of
                    Inl _ \<Rightarrow> s2
                  | Inr w \<Rightarrow>
                      (case copyBody (caches t ! 0) w r of (ce, w1) \<Rightarrow>
                         (let w2 = (if cancelled then wCancel (caches t ! 0) w1 else w1)
                          in if ce \<noteq> [] then
                               (case wClose (caches t ! 0) (wCancel (caches t ! 0) w2) (tsTiers s2 ! 0) of (_, _, c1) \<Rightarrow>
                                  setTier s2 0 c1)
                             else (case etagsGet t (tsMeta s2) key of (got, b) \<Rightarrow>
                               (let s3 = s2\<lparr>tsMeta := b\<rparr>
                                in if got \<noteq> Some wantETag then
                                     (case wClose (caches t ! 0) (wCancel (caches t ! 0) w2) (tsTiers s3 ! 0) of (_, _, c1) \<Rightarrow>
                                        setTier s3 0 c1)
                                   else (case wClose (caches t ! 0) w2 (tsTiers s3 ! 0) of (_, _, c1) \<Rightarrow>
                                        setTier s3 0 c1)))))))))"

section \<open>Model: construction, statistics and namespaces\<close>

text \<open>A single cache is used directly, except that \<^verbatim>\<open>Invalidate\<close> does nothing.\<close>

definition authoritativeCache :: "('c, 'w) cacheOps \<Rightarrow> ('c, 'w) cacheOps" where
  "authoritativeCache ops = ops\<lparr>cInvalidate := (\<lambda>c key. ([], c))\<rparr>"

datatype ('c, 'w, 'b) tieredCache =
    SingleTier "('c, 'w) cacheOps"
  | MultiTier "('c, 'w, 'b) Tiered"

definition MaybeNewTiered :: "('c, 'w) cacheOps list \<Rightarrow> 'b backendOps option \<Rightarrow> ('c, 'w, 'b) tieredCache outcome" where
  "MaybeNewTiered cs md =
     (case cs of
        [] \<Rightarrow> Panic
      | [c] \<Rightarrow> Ret (SingleTier (authoritativeCache c))
      | _ \<Rightarrow> (case md of
               None \<Rightarrow> Panic
             | Some m \<Rightarrow> Ret (MultiTier \<lparr>caches = cs, metadata = m, tNamespace = ''''\<rparr>)))"

definition StatAuthoritative :: "('c, 'w, 'b) tieredCache \<Rightarrow> ('c, 'b) tieredSt \<Rightarrow> Key \<Rightarrow> RequestOption list
    \<Rightarrow> (header \<times> goerr) \<times> ('c, 'b) tieredSt" where
  "StatAuthoritative tc s key opts =
     (case tc of
        MultiTier t \<Rightarrow> AuthoritativeStat t s key opts
      | SingleTier ops \<Rightarrow> (case cStat ops (tsTiers s ! 0) key opts of (r, c) \<Rightarrow> (r, setTier s 0 c)))"

text \<open>The sums are Go's \<^verbatim>\<open>int64\<close> and wrap.\<close>

fun sumStats :: "('c, 'w) cacheOps list \<Rightarrow> 'c list \<Rightarrow> Stats \<Rightarrow> Stats \<times> goerr" where
  "sumStats (ops # opss) (c # cs) acc =
     (case cStats ops c of (st, e) \<Rightarrow>
        if errIs e ErrStatsUnavailable then sumStats opss cs acc
        else if e \<noteq> [] then (\<lparr>Objects = 0, Size = 0, Capacity = 0\<rparr>, e)
        else sumStats opss cs
          \<lparr>Objects = wrap64 (Objects acc + Objects st), Size = wrap64 (Size acc + Size st),
           Capacity = wrap64 (Capacity acc + Capacity st)\<rparr>)"
| "sumStats opss cs acc = (acc, [])"

definition tieredStats :: "('c, 'w, 'b) Tiered \<Rightarrow> ('c, 'b) tieredSt \<Rightarrow> Stats \<times> goerr" where
  "tieredStats t s = sumStats (caches t) (tsTiers s) \<lparr>Objects = 0, Size = 0, Capacity = 0\<rparr>"

fun collectNamespaces :: "('c, 'w) cacheOps list \<Rightarrow> 'c list \<Rightarrow> string set \<Rightarrow> string set \<times> goerr" where
  "collectNamespaces (ops # opss) (c # cs) acc =
     (case cListNamespaces ops c of (ns, e) \<Rightarrow>
        if e \<noteq> [] \<and> \<not> errIs e ErrStatsUnavailable then ({}, e)
        else collectNamespaces opss cs (acc \<union> set ns))"
| "collectNamespaces opss cs acc = (acc, [])"

definition tieredListNamespaces :: "('c, 'w, 'b) Tiered \<Rightarrow> ('c, 'b) tieredSt \<Rightarrow> string list \<times> goerr" where
  "tieredListNamespaces t s =
     (case collectNamespaces (caches t) (tsTiers s) {} of (nss, e) \<Rightarrow>
        if e \<noteq> [] then ([], e) else (sorted_list_of_set nss, []))"

definition tieredNamespace :: "(('c, 'w) cacheOps \<Rightarrow> Namespace \<Rightarrow> ('c, 'w) cacheOps) \<Rightarrow> ('c, 'w, 'b) Tiered \<Rightarrow> Namespace
    \<Rightarrow> ('c, 'w, 'b) Tiered" where
  "tieredNamespace nsOf t ns =
     \<lparr>caches = map (\<lambda>c. nsOf c ns) (caches t), metadata = metadata t, tNamespace = ns\<rparr>"

section \<open>What the recorded ETags mean\<close>

definition recorded :: "nsState \<Rightarrow> Key \<Rightarrow> string option" where
  "recorded m key =
     map_option (\<lambda>v. case v of VStr s \<Rightarrow> s | _ \<Rightarrow> '''') (getOrCreateSubmap m tieredETagsMap (marshalKey (keyJson key)))"

text \<open>A tier's version is stale when another ETag is recorded; the last tier is never stale.\<close>

definition isStale :: "nat \<Rightarrow> string option \<Rightarrow> nat \<Rightarrow> header \<Rightarrow> bool" where
  "isStale L want i h \<longleftrightarrow> i \<noteq> L \<and> want \<noteq> None \<and> want \<noteq> Some (hGet h ETagKey)"

text \<open>
  What \<^verbatim>\<open>Open\<close> answers, as a function of the tiers' own answers \<open>ans\<close>: no state and no effects.  \<open>fb\<close> is the
  tier that supplies the fallback.
\<close>

fun openRun :: "nat \<Rightarrow> string option \<Rightarrow> RequestOptions \<Rightarrow> (nat \<Rightarrow> body \<times> header \<times> goerr) \<Rightarrow> nat list
    \<Rightarrow> nat option \<Rightarrow> bool \<Rightarrow> goerr list \<Rightarrow> goerr list \<Rightarrow> body \<times> header \<times> goerr" where
  "openRun L want ro ans [] fb rejected probeErrs errs =
     (if probeErrs \<noteq> [] then
        (nilBody, Map.empty, errJoin (probeErrs @ (case fb of None \<Rightarrow> [] | Some i \<Rightarrow> [bCloseErr (fst (ans i))])))
      else (case fb of
              Some i \<Rightarrow> (fst (ans i), fst (snd (ans i)), [])
            | None \<Rightarrow> (nilBody, Map.empty, if rejected then [ErrPreconditionFailed] else errJoin errs)))"
| "openRun L want ro ans (i # is) fb rejected probeErrs errs =
     (case ans i of (r, h, e) \<Rightarrow>
        if errIs e ErrNotExist then openRun L want ro ans is fb rejected probeErrs (errs @ [e])
        else if errIs e ErrPreconditionFailed then openRun L want ro ans is fb True probeErrs (errs @ [e])
        else if isStale L want i h \<and> (e = [] \<or> errIs e ErrNotModified \<or> errIs e ErrRangeNotSatisfiable)
          then openRun L want ro ans is fb rejected probeErrs (errs @ [if e = [] then [] else [ErrNotExist]])
        else if errIs e ErrNotModified \<or> errIs e ErrRangeNotSatisfiable then (nilBody, h, e)
        else if e \<noteq> [] then
          (if fb = None \<and> \<not> rejected then (nilBody, h, e)
           else openRun L want ro ans is fb rejected (probeErrs @ [e]) (errs @ [e]))
        else if IfRangeMisses ro (hGet h ETagKey)
          then openRun L want ro ans is (if fb = None then Some i else fb) rejected probeErrs (errs @ [e])
        else (r, h, []))"

lemma setTier_simps [simp]:
  "tsMeta (setTier s i c) = tsMeta s"
  "length (tsTiers (setTier s i c)) = length (tsTiers s)"
  "j \<noteq> i \<Longrightarrow> tsTiers (setTier s i c) ! j = tsTiers s ! j"
  by (simp_all add: setTier_def)

text \<open>What a read leaves alone: the metadata, the number of tiers, and the tiers outside \<open>I\<close>.\<close>

definition tframe :: "('b \<Rightarrow> string \<Rightarrow> nsState) \<Rightarrow> nat set \<Rightarrow> ('c, 'b) tieredSt \<Rightarrow> ('c, 'b) tieredSt \<Rightarrow> bool" where
  "tframe st I s s' \<longleftrightarrow> st (tsMeta s') = st (tsMeta s) \<and> length (tsTiers s') = length (tsTiers s) \<and>
     (\<forall>j. j \<notin> I \<longrightarrow> tsTiers s' ! j = tsTiers s ! j)"

lemma tframe_refl [simp]: "tframe st I s s"
  by (simp add: tframe_def)

lemma tframe_setTier [simp]: "i \<in> I \<Longrightarrow> tframe st I s (setTier s i c)"
  by (auto simp: tframe_def intro!: setTier_simps(3))

lemma tframe_trans: "tframe st I s s1 \<Longrightarrow> tframe st I s1 s2 \<Longrightarrow> tframe st I s s2"
  by (simp add: tframe_def)

lemma tframe_mono: "tframe st I s s' \<Longrightarrow> I \<subseteq> J \<Longrightarrow> tframe st J s s'"
  by (auto simp: tframe_def)

locale tiered_meta = metadata_backend "metadata t" bok st
  for t :: "('c, 'w, 'b) Tiered" and bok :: "'b \<Rightarrow> bool" and st :: "'b \<Rightarrow> string \<Rightarrow> nsState"
begin

lemma etagsGet_rec:
  assumes "bok b" "etagsGet t b key = (r, b')"
  shows "r = recorded (st b (tNamespace t)) key" "st b' = st b" "bok b'"
proof -
  obtain q b1 where g: "mapGet (metadata t) b (tNamespace t) tieredETagsMap (keyJson key) = (q, b1)"
    by (cases "mapGet (metadata t) b (tNamespace t) tieredETagsMap (keyJson key)")
  have "q = getOrCreateSubmap (st b (tNamespace t)) tieredETagsMap (marshalKey (keyJson key))"
    using mapGet_abs [OF assms(1), of "tNamespace t" tieredETagsMap "keyJson key"] g by simp
  then show "r = recorded (st b (tNamespace t)) key"
    using assms(2) g by (auto simp: etagsGet_def recorded_def)
  have "b' = b1" using assms(2) g by (simp add: etagsGet_def)
  moreover have "st b1 = st b \<and> bok b1"
    using g query_st [OF assms(1), of "tNamespace t" "MapGet tieredETagsMap (keyJson key)"]
    by (cases "bQuery (metadata t) b (tNamespace t) (MapGet tieredETagsMap (keyJson key))") (auto simp: mapGet_def)
  ultimately show "st b' = st b" "bok b'" by auto
qed

lemma invalidateStale_res:
  assumes "bok (tsMeta s)" "invalidateStale t s i key h = (stale, s')"
  shows "stale \<longleftrightarrow> recorded (st (tsMeta s) (tNamespace t)) key \<notin> {None, Some (hGet h ETagKey)}"
    and "bok (tsMeta s')" and "tframe st {i} s s'"
proof -
  obtain want b where g: "etagsGet t (tsMeta s) key = (want, b)" by (cases "etagsGet t (tsMeta s) key")
  note rec = etagsGet_rec [OF assms(1) g]
  obtain e c where i: "cInvalidate (caches t ! i) (tsTiers s ! i) key = (e, c)"
    by (cases "cInvalidate (caches t ! i) (tsTiers s ! i) key")
  show "stale \<longleftrightarrow> recorded (st (tsMeta s) (tNamespace t)) key \<notin> {None, Some (hGet h ETagKey)}"
    "bok (tsMeta s')" "tframe st {i} s s'"
    using assms(2) rec by (auto simp: invalidateStale_def g i tframe_def setTier_def Let_def split: if_splits)
qed

lemma convergeTier0_res:
  assumes "bok (tsMeta s)" "convergeTier0 t s ctxErr key r h tier part = (r', s')"
  shows "readerBody r' = r" and "bok (tsMeta s')" and "tframe st {0} s s'"
    and "part \<or> tier = 0 \<Longrightarrow> r' = TPlain r \<and> tsTiers s' = tsTiers s"
proof -
  obtain want b where g: "etagsGet t (tsMeta s) key = (want, b)" by (cases "etagsGet t (tsMeta s) key")
  note rec = etagsGet_rec [OF assms(1) g]
  obtain started hl where tr: "trigger (tsHealer s) (tNamespace t, key) = (started, hl)"
    by (cases "trigger (tsHealer s) (tNamespace t, key)")
  obtain cr c where cr: "cCreate (caches t ! 0) (tsTiers s ! 0) ctxErr key h 0 (backfillCreateOptions h) = (cr, c)"
    by (cases "cCreate (caches t ! 0) (tsTiers s ! 0) ctxErr key h 0 (backfillCreateOptions h)")
  show "readerBody r' = r" "bok (tsMeta s')" "tframe st {0} s s'"
    "part \<or> tier = 0 \<Longrightarrow> r' = TPlain r \<and> tsTiers s' = tsTiers s"
    using assms rec
    by (auto simp: convergeTier0_def backfillReader_def healTier0_def g cr tr tframe_def setTier_def Let_def
        split: if_splits sum.splits)
qed

text \<open>The loop answers what \<^const>\<open>openRun\<close> computes from the answers of the tiers in the state it starts in.\<close>

lemma openTiers_run:
  assumes "bok (tsMeta s)" "distinct is" "\<forall>i \<in> set is. i \<le> lastTier t"
    and "\<forall>i \<in> set is. ans i = fst (cOpen (caches t ! i) (tsTiers s ! i) key opts)"
    and "fallback = map_option (\<lambda>i. (fst (ans i), fst (snd (ans i)))) fb"
    and "openTiers t ctxErr key opts is fallback rejected probeErrs errs s = ((r, h, e), s')"
  shows "(readerBody r, h, e) = openRun (lastTier t) (recorded (st (tsMeta s) (tNamespace t)) key)
      (NewRequestOptions opts) ans is fb rejected probeErrs errs"
  using assms
proof (induction "is" arbitrary: s fallback fb rejected probeErrs errs)
  case Nil
  then show ?case by (auto split: if_splits option.splits)
next
  case (Cons i "is")
  let ?w = "\<lambda>s. recorded (st (tsMeta s) (tNamespace t)) key"
  obtain r0 h0 e0 c where op: "cOpen (caches t ! i) (tsTiers s ! i) key opts = ((r0, h0, e0), c)"
    by (metis prod.exhaust)
  have ans: "ans i = (r0, h0, e0)" using Cons.prems(4) op by simp
  have IH: "(readerBody r, h, e) = openRun (lastTier t) (?w s) (NewRequestOptions opts) ans is fb1 rejected1 probeErrs1 errs1"
    if "bok (tsMeta s1)" "tframe st {i} s s1" "fallback1 = map_option (\<lambda>i. (fst (ans i), fst (snd (ans i)))) fb1"
      "openTiers t ctxErr key opts is fallback1 rejected1 probeErrs1 errs1 s1 = ((r, h, e), s')"
    for s1 fallback1 fb1 rejected1 probeErrs1 errs1
  proof -
    have "\<forall>j \<in> set is. ans j = fst (cOpen (caches t ! j) (tsTiers s1 ! j) key opts)"
      using Cons.prems(2,4) that(2) by (auto simp: tframe_def)
    from Cons.IH [OF that(1) _ _ this that(3,4)] Cons.prems(2,3) that(2) show ?thesis
      by (simp add: tframe_def)
  qed
  obtain cs s2 where cs: "invalidateStaleConditional t (setTier s i c) i key h0 e0 = (cs, s2)"
    by (cases "invalidateStaleConditional t (setTier s i c) i key h0 e0")
  have cs_res: "bok (tsMeta s2)" "tframe st {i} s s2"
    "cs \<longleftrightarrow> isStale (lastTier t) (?w s) i h0 \<and> (errIs e0 ErrNotModified \<or> errIs e0 ErrRangeNotSatisfiable)"
    using invalidateStale_res [of "setTier s i c" i key h0 cs s2] Cons.prems(1) cs
      tframe_trans [of st "{i}" s "setTier s i c" s2]
    by (auto simp: invalidateStaleConditional_def isStale_def split: if_splits)
  have tmeta: "?w s2 = ?w s" using cs_res(2) by (simp add: tframe_def)
  obtain sl s3 where sl: "(if i < lastTier t then invalidateStale t s2 i key h0 else (False, s2)) = (sl, s3)"
    by (cases "if i < lastTier t then invalidateStale t s2 i key h0 else (False, s2)")
  have "i \<le> lastTier t" using Cons.prems(3) by simp
  then have sl_res: "bok (tsMeta s3)" "tframe st {i} s s3" "sl \<longleftrightarrow> isStale (lastTier t) (?w s) i h0"
    using invalidateStale_res [of s2 i key h0 sl s3] cs_res tframe_trans [OF cs_res(2), of s3] sl tmeta
    by (auto simp: isStale_def split: if_splits)
  obtain r4 s4 where cv: "convergeTier0 t s3 ctxErr key r0 h0 i (oRange (NewRequestOptions opts) \<noteq> '''') = (r4, s4)"
    by (cases "convergeTier0 t s3 ctxErr key r0 h0 i (oRange (NewRequestOptions opts) \<noteq> '''')")
  note body = convergeTier0_res(1) [OF sl_res(1) cv]
  note run = Cons.prems(6) [simplified openTiers.simps op prod.case Let_def cs sl cv]
  have b1: "bok (tsMeta (setTier s i c))" "tframe st {i} s (setTier s i c)" using Cons.prems(1) by simp_all
  note st1 = IH [OF b1 Cons.prems(5)] and st2 = IH [OF cs_res(1,2) Cons.prems(5)] and st3 = IH [OF sl_res(1,2)]
  consider "errIs e0 ErrNotExist" | "\<not> errIs e0 ErrNotExist" "errIs e0 ErrPreconditionFailed"
    | (rest) "\<not> errIs e0 ErrNotExist" "\<not> errIs e0 ErrPreconditionFailed" by blast
  then show ?case
  proof cases
    case rest
    show ?thesis
    proof (cases "e0 = []")
      case True
      then have cs: "\<not> cs" using cs_res(3) by (simp add: errIs_def)
      show ?thesis
      proof (cases "sl \<or> \<not> IfRangeMisses (NewRequestOptions opts) (hGet h0 ETagKey)")
        case True': True
        then show ?thesis
          using run body rest True cs sl_res(3) st3 [OF Cons.prems(5), of rejected probeErrs "errs @ [e0]"]
          by (auto simp: ans errIs_def split: if_splits)
      next
        case False
        then show ?thesis
          using run rest True cs sl_res(3) Cons.prems(5)
            st3 [of "if fallback \<noteq> None then fallback else Some (r0, h0)" "if fb = None then Some i else fb" rejected probeErrs "errs @ [e0]"]
          by (auto simp: ans errIs_def split: if_splits)
      qed
    next
      case False
      then show ?thesis
        using run rest cs_res(3) Cons.prems(5) st2 [of rejected probeErrs "errs @ [[ErrNotExist]]"]
          st2 [of rejected "probeErrs @ [e0]" "errs @ [e0]"]
        by (auto simp: ans split: if_splits)
    qed
  qed (use run st1 in \<open>simp_all add: ans\<close>)
qed

end

section \<open>What an open promises\<close>

text \<open>
  A tier is skipped when it has nothing for the request: no object, another version than If-Match names,
  a stale version, or another version than If-Range names.
\<close>

definition skips :: "nat \<Rightarrow> string option \<Rightarrow> RequestOptions \<Rightarrow> (nat \<Rightarrow> body \<times> header \<times> goerr) \<Rightarrow> nat \<Rightarrow> bool" where
  "skips L want ro ans i \<longleftrightarrow> (case ans i of (r, h, e) \<Rightarrow>
     errIs e ErrNotExist \<or> errIs e ErrPreconditionFailed \<or>
     isStale L want i h \<and> (e = [] \<or> errIs e ErrNotModified \<or> errIs e ErrRangeNotSatisfiable) \<or>
     e = [] \<and> IfRangeMisses ro (hGet h ETagKey))"

definition serves :: "nat \<Rightarrow> string option \<Rightarrow> (nat \<Rightarrow> body \<times> header \<times> goerr) \<Rightarrow> nat \<Rightarrow> body \<Rightarrow> header \<Rightarrow> bool" where
  "serves L want ans i b h \<longleftrightarrow> ans i = (b, h, []) \<and> \<not> isStale L want i h"

lemma openRun_first:
  assumes "\<forall>j \<in> set xs. skips L want ro ans j" "serves L want ans i b h" "\<not> IfRangeMisses ro (hGet h ETagKey)"
  shows "openRun L want ro ans (xs @ i # ys) fb rejected probeErrs errs = (b, h, [])"
  using assms(1)
proof (induction xs arbitrary: fb rejected probeErrs errs)
  case Nil
  then show ?case using assms(2,3) by (simp add: serves_def errIs_def)
next
  case (Cons j xs)
  obtain r hj e where j: "ans j = (r, hj, e)" by (metis prod.exhaust)
  have sk: "skips L want ro ans j" and IH: "\<And>fb rejected probeErrs errs.
      openRun L want ro ans (xs @ i # ys) fb rejected probeErrs errs = (b, h, [])"
    using Cons by auto
  show ?case
  proof (cases "e = []")
    case True
    then show ?thesis using sk by (auto simp: j IH skips_def errIs_def)
  next
    case False
    then show ?thesis using sk by (auto simp: j IH skips_def)
  qed
qed

text \<open>The loop cannot end without an error, a fallback or a rejection once the last tier was seen.\<close>

definition conclusive :: "nat \<Rightarrow> nat list \<Rightarrow> nat option \<Rightarrow> bool \<Rightarrow> goerr list \<Rightarrow> goerr list \<Rightarrow> bool" where
  "conclusive L is fb rejected probeErrs errs \<longleftrightarrow> [] \<notin> set probeErrs \<and>
     (if is = [] then fb \<noteq> None \<or> rejected \<or> probeErrs \<noteq> [] \<or> errJoin errs \<noteq> [] else last is = L)"

lemma conclusive_Cons:
  "conclusive L (i # is) fb rejected probeErrs errs \<Longrightarrow>
   (is = [] \<Longrightarrow> fb' \<noteq> None \<or> rejected' \<or> probeErrs' \<noteq> [] \<or> errJoin errs' \<noteq> []) \<Longrightarrow> [] \<notin> set probeErrs' \<Longrightarrow>
   conclusive L is fb' rejected' probeErrs' errs'"
  by (auto simp: conclusive_def)

lemma errIs_Nil [simp]: "\<not> errIs [] k"
  by (simp add: errIs_def)

lemma errJoin_snoc: "errJoin (es @ [e]) = errJoin es @ e"
  by (simp add: errJoin_def)

lemma openRun_serves:
  assumes "openRun L want ro ans is fb rejected probeErrs errs = (b, h, [])"
    and "conclusive L is fb rejected probeErrs errs"
    and "\<And>i. fb = Some i \<Longrightarrow> serves L want ans i (fst (ans i)) (fst (snd (ans i)))"
  shows "\<exists>i. (i \<in> set is \<or> fb = Some i) \<and> serves L want ans i b h"
  using assms
proof (induction "is" arbitrary: fb rejected probeErrs errs)
  case Nil
  then show ?case by (cases probeErrs) (auto simp: conclusive_def errJoin_def split: option.splits if_splits)
next
  case (Cons i "is")
  obtain r hi e where i: "ans i = (r, hi, e)" by (metis prod.exhaust)
  have L: "is = [] \<Longrightarrow> i = L" and pr: "[] \<notin> set probeErrs" using Cons.prems(2) by (auto simp: conclusive_def)
  have step: ?case
    if "openRun L want ro ans is fb' rejected' probeErrs' errs' = (b, h, [])"
      "is = [] \<Longrightarrow> fb' \<noteq> None \<or> rejected' \<or> probeErrs' \<noteq> [] \<or> errJoin errs' \<noteq> []" "[] \<notin> set probeErrs'"
      "fb' = fb \<or> fb' = Some i \<and> serves L want ans i r hi"
    for fb' rejected' probeErrs' errs'
    using Cons.IH [OF that(1) conclusive_Cons [OF Cons.prems(2) that(2,3)]] Cons.prems(3) that(4) by (auto simp: i)
  show ?case
  proof (cases "e = []")
    case True
    show ?thesis
    proof (cases "isStale L want i hi \<or> \<not> IfRangeMisses ro (hGet hi ETagKey)")
      case True': True
      show ?thesis
      proof (cases "isStale L want i hi")
        case stale: True
        then show ?thesis
          using Cons.prems(1) True step [of fb rejected probeErrs "errs @ [[]]"] L pr by (auto simp: i isStale_def)
      next
        case False
        then have "serves L want ans i b h" using Cons.prems(1) True True' by (simp add: i serves_def)
        then show ?thesis by auto
      qed
    next
      case False
      then show ?thesis
        using Cons.prems(1) True step [of "if fb = None then Some i else fb" rejected probeErrs "errs @ [[]]"] pr
        by (auto simp: i serves_def split: if_splits)
    qed
  next
    case False
    then show ?thesis
      using Cons.prems(1) pr step [of fb rejected probeErrs "errs @ [e]"] step [of fb True probeErrs "errs @ [e]"]
        step [of fb rejected probeErrs "errs @ [[ErrNotExist]]"] step [of fb rejected "probeErrs @ [e]" "errs @ [e]"]
      by (auto simp: i errJoin_snoc split: if_splits)
  qed
qed

text \<open>
  A degraded answer, a failed precondition or the full body for a missed If-Range, means that every tier
  was asked and had nothing for the request; in particular none of them failed.
\<close>

definition degraded :: "RequestOptions \<Rightarrow> header \<Rightarrow> goerr \<Rightarrow> bool" where
  "degraded ro h e \<longleftrightarrow> e = [ErrPreconditionFailed] \<or> e = [] \<and> IfRangeMisses ro (hGet h ETagKey)"

lemma openRun_degraded:
  assumes "openRun L want ro ans is fb rejected probeErrs errs = (b, h, e)"
    and "conclusive L is fb rejected probeErrs errs"
    and "rejected \<or> errJoin errs \<noteq> [ErrPreconditionFailed]" "\<forall>p \<in> set probeErrs. hardErr p"
    and "degraded ro h e"
  shows "probeErrs = [] \<and> (\<forall>i \<in> set is. skips L want ro ans i)"
  using assms
proof (induction "is" arbitrary: fb rejected probeErrs errs)
  case Nil
  show ?case
  proof (cases probeErrs)
    case (Cons p ps)
    then obtain k p' where "p = k # p'" "k \<noteq> ErrPreconditionFailed"
      using Nil.prems(4) by (cases p) (auto simp: hardErr_def)
    then show ?thesis using Nil.prems(1,5) Cons by (auto simp: errJoin_def degraded_def)
  qed simp
next
  case (Cons i "is")
  obtain r hi ei where i: "ans i = (r, hi, ei)" by (metis prod.exhaust)
  have L: "is = [] \<Longrightarrow> i = L" and pr: "[] \<notin> set probeErrs" using Cons.prems(2) by (auto simp: conclusive_def)
  have step: ?case if "skips L want ro ans i" "openRun L want ro ans is fb' rejected' probeErrs errs' = (b, h, e)"
      "is = [] \<Longrightarrow> fb' \<noteq> None \<or> rejected' \<or> probeErrs \<noteq> [] \<or> errJoin errs' \<noteq> []"
      "rejected' \<or> errJoin errs' \<noteq> [ErrPreconditionFailed]" for fb' rejected' errs'
    using Cons.IH [OF that(2) conclusive_Cons [OF Cons.prems(2) that(3) pr] that(4) Cons.prems(4,5)] that(1) by simp
  show ?case
  proof (cases "skips L want ro ans i")
    case True
    show ?thesis
    proof (cases "ei = []")
      case ok: True
      have PF: "rejected \<or> errJoin (errs @ [[]]) \<noteq> [ErrPreconditionFailed]" using Cons.prems(3) by (simp add: errJoin_snoc)
      show ?thesis
      proof (cases "isStale L want i hi")
        case stale: True
        then have "is \<noteq> []" using L by (auto simp: isStale_def)
        moreover have "openRun L want ro ans is fb rejected probeErrs (errs @ [[]]) = (b, h, e)"
          using Cons.prems(1) ok stale by (simp add: i)
        ultimately show ?thesis using step [OF True _ _ PF] by blast
      next
        case fresh: False
        then have "IfRangeMisses ro (hGet hi ETagKey)" using True ok by (simp add: skips_def i)
        then have run: "openRun L want ro ans is (if fb = None then Some i else fb) rejected probeErrs (errs @ [[]]) = (b, h, e)"
          using Cons.prems(1) ok fresh by (simp add: i)
        show ?thesis by (rule step [OF True run _ PF]) simp
      qed
    next
      case False
      consider "errIs ei ErrNotExist" | (pf) "\<not> errIs ei ErrNotExist" "errIs ei ErrPreconditionFailed"
        | (stale) "\<not> errIs ei ErrNotExist" "\<not> errIs ei ErrPreconditionFailed" by blast
      then show ?thesis
      proof cases
        case 1
        then have run: "openRun L want ro ans is fb rejected probeErrs (errs @ [ei]) = (b, h, e)"
          using Cons.prems(1) by (simp add: i)
        have PF: "rejected \<or> errJoin (errs @ [ei]) \<noteq> [ErrPreconditionFailed]"
          using 1 False Cons.prems(3) by (cases "errJoin errs") (auto simp: errJoin_snoc errIs_def)
        show ?thesis by (rule step [OF True run _ PF]) (simp add: errJoin_snoc False)
      next
        case pf
        then have run: "openRun L want ro ans is fb True probeErrs (errs @ [ei]) = (b, h, e)"
          using Cons.prems(1) by (simp add: i)
        show ?thesis by (rule step [OF True run]) simp_all
      next
        case stale
        then have run: "openRun L want ro ans is fb rejected probeErrs (errs @ [[ErrNotExist]]) = (b, h, e)"
          using Cons.prems(1) True False by (auto simp: i skips_def)
        have PF: "rejected \<or> errJoin (errs @ [[ErrNotExist]]) \<noteq> [ErrPreconditionFailed]"
          using Cons.prems(3) by (auto simp: errJoin_snoc)
        show ?thesis by (rule step [OF True run _ PF]) (simp add: errJoin_snoc)
      qed
    qed
  next
    case False
    have "hardErr ei" if "ei \<noteq> []" "\<not> errIs ei ErrNotModified" "\<not> errIs ei ErrRangeNotSatisfiable"
      using False that by (auto simp: i skips_def hardErr_def errIs_def)
    moreover have "errJoin errs @ ei \<noteq> [ErrPreconditionFailed]" if "ei \<noteq> []" "ErrPreconditionFailed \<notin> set ei"
      using that by (cases "errJoin errs") auto
    ultimately show ?thesis
      using False Cons.prems(1,3,4,5) Cons.IH [of fb rejected "probeErrs @ [ei]" "errs @ [ei]"]
        conclusive_Cons [OF Cons.prems(2), of fb rejected "probeErrs @ [ei]" "errs @ [ei]"] pr
      by (auto simp: i skips_def degraded_def errIs_def errJoin_snoc split: if_splits)
  qed
qed

context tiered_meta
begin

lemma tieredOpen_run:
  assumes "bok (tsMeta s)" "caches t \<noteq> []" "tieredOpen t s ctxErr key opts = ((r, h, e), s')"
  shows "(readerBody r, h, e) = openRun (lastTier t) (recorded (st (tsMeta s) (tNamespace t)) key) (NewRequestOptions opts)
      (\<lambda>i. fst (cOpen (caches t ! i) (tsTiers s ! i) key opts)) [0..<length (caches t)] None False [] []"
proof (rule openTiers_run [OF assms(1) _ _ _ _ assms(3) [unfolded tieredOpen_def]])
  show "\<forall>i \<in> set [0..<length (caches t)]. i \<le> lastTier t" by (auto simp: lastTier_def)
qed simp_all

lemma conclusive_start: "caches t \<noteq> [] \<Longrightarrow> conclusive (lastTier t) [0..<length (caches t)] None False [] []"
  by (simp add: conclusive_def lastTier_def)

lemma tieredOpen_serves:
  assumes "bok (tsMeta s)" "caches t \<noteq> []" "tieredOpen t s ctxErr key opts = ((r, h, []), s')"
  shows "\<exists>i < length (caches t). fst (cOpen (caches t ! i) (tsTiers s ! i) key opts) = (readerBody r, h, []) \<and>
      \<not> isStale (lastTier t) (recorded (st (tsMeta s) (tNamespace t)) key) i h"
  using openRun_serves [OF tieredOpen_run [OF assms, symmetric] conclusive_start [OF assms(2)]]
  by (auto simp: serves_def)

lemma tieredOpen_degraded:
  assumes "bok (tsMeta s)" "caches t \<noteq> []" "tieredOpen t s ctxErr key opts = ((r, h, e), s')"
    "degraded (NewRequestOptions opts) h e" "i < length (caches t)"
  shows "skips (lastTier t) (recorded (st (tsMeta s) (tNamespace t)) key) (NewRequestOptions opts)
      (\<lambda>i. fst (cOpen (caches t ! i) (tsTiers s ! i) key opts)) i"
  using openRun_degraded [OF tieredOpen_run [OF assms(1-3), symmetric] conclusive_start [OF assms(2)] _ _ assms(4)] assms(5)
  by (auto simp: errJoin_def)

lemma tieredOpen_first:
  assumes "bok (tsMeta s)" "caches t \<noteq> []" "tieredOpen t s ctxErr key opts = ((r, h, e), s')" "i < length (caches t)"
    and "\<forall>j < i. skips (lastTier t) (recorded (st (tsMeta s) (tNamespace t)) key) (NewRequestOptions opts)
      (\<lambda>i. fst (cOpen (caches t ! i) (tsTiers s ! i) key opts)) j"
    and "serves (lastTier t) (recorded (st (tsMeta s) (tNamespace t)) key)
      (\<lambda>i. fst (cOpen (caches t ! i) (tsTiers s ! i) key opts)) i b h'"
    and "\<not> IfRangeMisses (NewRequestOptions opts) (hGet h' ETagKey)"
  shows "(readerBody r, h, e) = (b, h', [])"
proof -
  have "[0..<length (caches t)] = [0..<i] @ i # [Suc i..<length (caches t)]"
    using assms(4) by (metis Suc_leI le_add_diff_inverse less_imp_le upt_add_eq_append upt_conv_Cons zero_le)
  then show ?thesis
    using tieredOpen_run [OF assms(1-3)] openRun_first [OF _ assms(6,7), of "[0..<i]" "[Suc i..<length (caches t)]"] assms(5)
    by simp
qed

end

section \<open>Writing through all tiers\<close>

text \<open>The caller's blocks, written until the first error.\<close>

fun tieredWriteBlocks :: "('c, 'w, 'b) Tiered \<Rightarrow> 'w tieredWriter \<Rightarrow> bytes list \<Rightarrow> goerr outcome \<times> 'w tieredWriter" where
  "tieredWriteBlocks t tw [] = (Ret [], tw)"
| "tieredWriteBlocks t tw (p # ps) =
     (case tieredWrite t tw p of
        (Ret (n, e), tw') \<Rightarrow> if e \<noteq> [] then (Ret e, tw') else tieredWriteBlocks t tw' ps
      | (Blocked, tw') \<Rightarrow> (Blocked, tw')
      | (Panic, tw') \<Rightarrow> (Panic, tw'))"

lemma cancelAll_simps [simp]:
  "length ws = length (caches t) \<Longrightarrow> length (cancelAll t ws) = length (caches t)"
  "length ws = length (caches t) \<Longrightarrow> i < length (caches t) \<Longrightarrow>
   cancelAll t ws ! i = map_option (wCancel (caches t ! i)) (ws ! i)"
  by (simp_all add: cancelAll_def)

lemma createTiers_Cons:
  assumes "createTiers t key h ttl opts (j # order) ctx ws cs = res"
  obtains (fail) e c where "cCreate (caches t ! j) (cs ! j) ctx key h ttl opts = (Inl e, c)"
      "createTiers t key h ttl opts order (if ctx = [] then e else ctx) (if ctx = [] then cancelAll t ws else ws) (cs[j := c]) = res"
  | (make) w c where "cCreate (caches t ! j) (cs ! j) ctx key h ttl opts = (Inr w, c)"
      "createTiers t key h ttl opts order ctx (ws[j := Some w]) (cs[j := c]) = res"
proof -
  obtain r c where cr: "cCreate (caches t ! j) (cs ! j) ctx key h ttl opts = (r, c)" by (metis prod.exhaust)
  show ?thesis using assms by (cases r) (simp_all add: cr fail make)
qed

lemma createTiers_frame:
  assumes "createTiers t key h ttl opts order ctx ws cs = (ctx', ws', cs')" "length ws = length (caches t)"
  shows "length ws' = length (caches t) \<and> length cs' = length cs \<and>
    (\<forall>i < length (caches t). i \<notin> set order \<longrightarrow> ws ! i = None \<longrightarrow> ws' ! i = None) \<and>
    (\<forall>i. i \<notin> set order \<longrightarrow> cs' ! i = cs ! i)"
  using assms
proof (induction order arbitrary: ctx ws cs)
  case (Cons j order)
  from Cons.prems(1) show ?case
  proof (cases rule: createTiers_Cons)
    case (fail e c)
    from Cons.IH [OF fail(2)] Cons.prems(2) show ?thesis by auto
  next
    case (make w c)
    from Cons.IH [OF make(2)] Cons.prems(2) show ?thesis by auto
  qed
qed simp

lemma writeTiers_ok:
  assumes "writeTiers opss ws n p = (Ret (n', []), ws')" "length opss = length ws"
  shows "length ws' = length ws \<and> (\<forall>i < length ws. \<exists>w w' m. ws ! i = Some w \<and> ws' ! i = Some w' \<and>
      wWrite (opss ! i) w p = ((m, []), w'))"
  using assms
proof (induction opss ws n p arbitrary: ws' rule: writeTiers.induct)
  case (1 ops opss w ws n p)
  obtain w0 where w: "w = Some w0" using 1(2) by (cases w) auto
  obtain n1 e w1 where wr: "wWrite ops w0 p = ((n1, e), w1)" by (metis prod.exhaust)
  obtain r ws1 where rest: "writeTiers opss ws n1 p = (r, ws1)" by (metis prod.exhaust)
  have *: "e = []" "r = Ret (n', [])" "ws' = Some w1 # ws1"
    using 1(2) w wr rest by (auto split: if_splits)
  have "length ws1 = length ws \<and> (\<forall>i < length ws. \<exists>w w' m. ws ! i = Some w \<and> ws1 ! i = Some w' \<and>
      wWrite (opss ! i) w p = ((m, []), w'))"
    using 1(1) [OF w wr [symmetric] refl] rest * 1(3) by auto
  then show ?case using * w wr by (auto simp: less_Suc_eq_0_disj)
qed auto

lemma closeTiers_ok:
  assumes "closeTiers opss ws cs = (Ret es, ws', cs')" "length ws = length opss" "length cs = length opss"
  shows "length es = length opss \<and> length cs' = length opss \<and> (\<forall>i < length opss. \<exists>w w'. ws ! i = Some w \<and>
      wClose (opss ! i) w (cs ! i) = (Ret (es ! i), w', cs' ! i))"
  using assms
proof (induction opss ws cs arbitrary: es ws' cs' rule: closeTiers.induct)
  case (1 ops opss w ws c cs)
  obtain w0 where w: "w = Some w0" using 1(2) by (cases w) auto
  obtain r w1 c1 where cl: "wClose ops w0 c = (r, w1, c1)" by (metis prod.exhaust)
  obtain rs ws1 cs1 where rest: "closeTiers opss ws cs = (rs, ws1, cs1)" by (metis prod.exhaust)
  obtain e es1 where *: "r = Ret e" "rs = Ret es1" "es = e # es1" "cs' = c1 # cs1"
    using 1(2) w cl rest by (auto split: outcome.splits if_splits)
  have "length es1 = length opss \<and> length cs1 = length opss \<and> (\<forall>i < length opss. \<exists>w w'. ws ! i = Some w \<and>
      wClose (opss ! i) w (cs ! i) = (Ret (es1 ! i), w', cs1 ! i))"
    using 1(1) [OF w cl [symmetric] refl] rest * 1(3,4) by auto
  then show ?case using * w cl by (auto simp: less_Suc_eq_0_disj)
qed auto

lemma createETag_ok: "createETag uuid opts = (raw, q, []) \<Longrightarrow> FormatETag raw = (q, [])"
  by (auto simp: createETag_def Let_def split: if_splits prod.splits)

lemma openSpec_plain:
  assumes "openSpec ob [] = (b, h, e)"
  shows "case ob of None \<Rightarrow> e = [ErrNotExist]
    | Some (d, h0) \<Rightarrow> e = [] \<and> b = bytesReader d \<and> hGet h ETagKey = hGet h0 ETagKey"
proof (cases ob)
  case None
  then show ?thesis using assms by (simp add: openSpec_def)
next
  case (Some o')
  obtain d h0 where o': "o' = (d, h0)" by (cases o')
  have z: "oIfMatch (NewRequestOptions []) = []" "oIfNoneMatch (NewRequestOptions []) = []" "oRange (NewRequestOptions []) = []"
    by (simp_all add: NewRequestOptions_def zeroOptions_def)
  from assms [unfolded Some o'] show ?thesis
    by (cases rule: openSpec_Some) (auto simp: Some o' Check_def ResolveRange_def z)
qed

lemma createTiers_ctx: "createTiers t key h ttl opts order ctx ws cs = (ctx', ws', cs') \<Longrightarrow> ctx \<noteq> [] \<Longrightarrow> ctx' = ctx"
proof (induction order arbitrary: ws cs)
  case (Cons j order)
  from Cons.prems(1) show ?case
    by (cases rule: createTiers_Cons) (use Cons.IH Cons.prems(2) in auto)
qed simp

text \<open>A tiered cache whose tiers keep the contract of the \<^verbatim>\<open>Cache\<close> interface.\<close>

locale tiered_tiers = tiered_meta t bok st
  for t :: "('c, 'w, 'b) Tiered" and bok :: "'b \<Rightarrow> bool" and st :: "'b \<Rightarrow> string \<Rightarrow> nsState" +
  fixes obj :: "nat \<Rightarrow> 'c \<Rightarrow> Key \<Rightarrow> (bytes \<times> header) option"
    and pend :: "nat \<Rightarrow> 'w \<Rightarrow> (Key \<times> bytes \<times> string) option"
  assumes tier_ok: "i < length (caches t) \<Longrightarrow> cache_backend (caches t ! i) (obj i) (pend i)"
    and some_tier: "caches t \<noteq> []"
begin

lemmas tier_reader = tier_ok [THEN cache_backend.axioms(1)]
  and tier_create = tier_ok [THEN cache_backend.create_spec]
  and tier_create_etag = tier_ok [THEN cache_backend.create_etag]
  and tier_write = tier_ok [THEN cache_backend.write_spec]
  and tier_close = tier_ok [THEN cache_backend.close_some]
lemmas tier_stat = tier_reader [THEN cache_reader.stat_spec]
  and tier_open = tier_reader [THEN cache_reader.open_spec]
  and tier_invalidate = tier_reader [THEN cache_reader.invalidate_spec]

lemma createTiers_obj:
  assumes "createTiers t key h ttl opts order ctx ws cs = (ctx', ws', cs')" "set order \<subseteq> {..<length (caches t)}"
    "length cs = length (caches t)" "i < length (caches t)"
  shows "obj i (cs' ! i) = obj i (cs ! i)"
  using assms
proof (induction order arbitrary: ctx ws cs)
  case (Cons j order)
  have j: "j < length (caches t)" using Cons.prems(2) by simp
  from Cons.prems(1) show ?case
  proof (cases rule: createTiers_Cons)
    case (fail e c)
    from Cons.IH [OF fail(2)] Cons.prems(2,3,4) tier_create [OF j fail(1)] show ?thesis by (auto simp: nth_list_update)
  next
    case (make w c)
    from Cons.IH [OF make(2)] Cons.prems(2,3,4) tier_create [OF j make(1)] show ?thesis by (auto simp: nth_list_update)
  qed
qed simp

lemma createTiers_pend:
  assumes "createTiers t key h ttl [WithETag raw] order [] ws cs = (ctx', ws', cs')" "FormatETag raw = (q, [])"
    "distinct order" "set order \<subseteq> {..<length (caches t)}" "length ws = length (caches t)" "\<forall>i \<in> set order. ws ! i = None"
  shows "if ctx' = [] then (\<forall>i. if i \<in> set order then \<exists>w. ws' ! i = Some w \<and> pend i w = Some (key, [], q) else ws' ! i = ws ! i)
    else \<exists>i \<in> set order. ws' ! i = None"
  using assms(1,3-6)
proof (induction order arbitrary: ws cs)
  case (Cons j order)
  have j: "j < length (caches t)" "j \<notin> set order" using Cons.prems(2,3) by auto
  from Cons.prems(1) show ?case
  proof (cases rule: createTiers_Cons)
    case (fail e c)
    have "e \<noteq> []" using tier_create [OF j(1) fail(1)] by auto
    moreover have "cancelAll t ws ! j = None" using j Cons.prems(4,5) by simp
    ultimately show ?thesis
      using createTiers_ctx [OF fail(2)] createTiers_frame [OF fail(2)] j Cons.prems(4) by auto
  next
    case (make w c)
    have "pend j w = Some (key, [], q)" by (rule tier_create_etag [OF j(1) make(1) assms(2)])
    moreover have "\<forall>i \<in> set order. ws[j := Some w] ! i = None" using Cons.prems(5) j(2) by (metis list.set_intros(2) nth_list_update_neq)
    note IH = Cons.IH [OF make(2) _ _ _ this]
    ultimately show ?thesis
      using IH Cons.prems(2-4) j by (cases "ctx' = []") (auto simp: nth_list_update)
  qed
qed auto

lemma tieredCreate_pend:
  assumes "tieredCreate t s uuid order pickDone [] key h ttl opts = (Inr tw, s1)" "createETag uuid opts = (raw, q, [])"
    and "distinct order" "set order = {..<length (caches t)}" "length (tsTiers s) = length (caches t)"
  shows "length (twWriters tw) = length (caches t)" "length (tsTiers s1) = length (caches t)" "tsMeta s1 = tsMeta s"
    and "i < length (caches t) \<Longrightarrow> obj i (tsTiers s1 ! i) = obj i (tsTiers s ! i)"
    and "(\<forall>i < length (caches t). \<exists>w. twWriters tw ! i = Some w \<and> pend i w = Some (key, [], q)) \<or>
      (\<exists>i < length (caches t). twWriters tw ! i = None)"
    and "twKey tw = key" "twETag tw = q" "\<not> twClosed tw" "\<not> twAborted tw"
proof -
  have L: "lastTier t < length (caches t)" using some_tier by (simp add: lastTier_def)
  obtain rep e1 s0 where rp: "replacementETag t s key q = (rep, e1, s0)" by (metis prod.exhaust)
  obtain hs es c where stt: "cStat (caches t ! lastTier t) (tsTiers s ! lastTier t) key [] = ((hs, es), c)" by (metis prod.exhaust)
  have s0: "s0 = setTier s (lastTier t) c"
    using rp stt by (auto simp: replacementETag_def Let_def split: if_splits)
  obtain ctx ws cs where cr: "createTiers t key h ttl [WithETag raw] order [] (replicate (length (caches t)) None) (tsTiers s0) = (ctx, ws, cs)"
    by (metis prod.exhaust)
  have e1: "e1 = []" using assms(1) by (auto simp: tieredCreate_def assms(2) rp split: if_splits)
  have tw: "tw = \<lparr>twWriters = ws, twKey = key, twETag = q, twReplaceETag = rep, twClosed = False, twAborted = False\<rparr>"
    "s1 = s0\<lparr>tsTiers := cs\<rparr>"
    using assms(1) by (auto simp: tieredCreate_def assms(2) rp e1 cr split: if_splits)
  note fr = createTiers_frame [OF cr]
  show "length (twWriters tw) = length (caches t)" "length (tsTiers s1) = length (caches t)" "tsMeta s1 = tsMeta s"
    "twKey tw = key" "twETag tw = q" "\<not> twClosed tw" "\<not> twAborted tw"
    using fr assms(5) by (simp_all add: tw s0)
  show "obj i (tsTiers s1 ! i) = obj i (tsTiers s ! i)" if "i < length (caches t)"
  proof -
    have "obj (lastTier t) c = obj (lastTier t) (tsTiers s ! lastTier t)" using tier_stat [OF L stt] by (rule conjunct1)
    then have "obj i (tsTiers s0 ! i) = obj i (tsTiers s ! i)"
      using assms(5) that by (cases "i = lastTier t") (simp_all add: s0 setTier_def)
    moreover have "obj i (cs ! i) = obj i (tsTiers s0 ! i)"
      using assms(4,5) by (intro createTiers_obj [OF cr _ _ that]) (simp_all add: s0)
    ultimately show ?thesis by (simp add: tw)
  qed
  show "(\<forall>i < length (caches t). \<exists>w. twWriters tw ! i = Some w \<and> pend i w = Some (key, [], q)) \<or>
      (\<exists>i < length (caches t). twWriters tw ! i = None)"
    using createTiers_pend [OF cr createETag_ok [OF assms(2)] assms(3)] assms(4)
    by (auto simp: tw split: if_splits)
qed

end

lemma tieredWrite_ok:
  assumes "tieredWrite t tw p = (Ret (n, []), tw')" "length (twWriters tw) = length (caches t)"
  shows "\<exists>ws. tw' = tw\<lparr>twWriters := ws\<rparr> \<and> length ws = length (caches t) \<and> (\<forall>i < length ws. \<exists>w w' m.
      twWriters tw ! i = Some w \<and> ws ! i = Some w' \<and> wWrite (caches t ! i) w p = ((m, []), w'))"
proof -
  obtain r ws where r: "writeTiers (caches t) (twWriters tw) 0 p = (r, ws)" by (metis prod.exhaust)
  have ret: "r = Ret (n, [])" "tw' = tw\<lparr>twWriters := ws\<rparr>"
    using assms(1) by (auto simp: tieredWrite_def r split: outcome.splits)
  have "length ws = length (twWriters tw) \<and> (\<forall>i < length (twWriters tw). \<exists>w w' m. twWriters tw ! i = Some w \<and>
      ws ! i = Some w' \<and> wWrite (caches t ! i) w p = ((m, []), w'))"
    by (rule writeTiers_ok [OF r [unfolded ret(1)] assms(2) [symmetric]])
  then show ?thesis using assms(2) ret(2) by auto
qed

context tiered_tiers
begin

lemma tieredWriteBlocks_pend:
  assumes "tieredWriteBlocks t tw blocks = (Ret [], tw')" "length (twWriters tw) = length (caches t)"
  shows "\<exists>ws. tw' = tw\<lparr>twWriters := ws\<rparr> \<and> length ws = length (caches t) \<and>
    (\<forall>i < length ws. case twWriters tw ! i of
       Some w \<Rightarrow> (\<exists>w'. ws ! i = Some w' \<and> pend i w' = map_option (\<lambda>(k, d, q). (k, d @ concat blocks, q)) (pend i w))
     | None \<Rightarrow> ws ! i = None)"
  using assms
proof (induction blocks arbitrary: tw)
  case Nil
  then show ?case
    by (intro exI [of _ "twWriters tw"]) (auto split: option.splits simp: option.map_ident case_prod_beta option.map_id)
next
  case (Cons p ps)
  obtain n tw1 where w1: "tieredWrite t tw p = (Ret (n, []), tw1)" "tieredWriteBlocks t tw1 ps = (Ret [], tw')"
    using Cons.prems(1) by (auto split: outcome.splits prod.splits if_splits)
  obtain ws1 where ws1: "tw1 = tw\<lparr>twWriters := ws1\<rparr>" "length ws1 = length (caches t)"
    "\<forall>i < length ws1. \<exists>w w' m. twWriters tw ! i = Some w \<and> ws1 ! i = Some w' \<and> wWrite (caches t ! i) w p = ((m, []), w')"
    using tieredWrite_ok [OF w1(1) Cons.prems(2)] by blast
  obtain ws where ws: "tw' = tw1\<lparr>twWriters := ws\<rparr>" "length ws = length (caches t)"
    "\<forall>i < length ws. case twWriters tw1 ! i of
       Some w \<Rightarrow> (\<exists>w'. ws ! i = Some w' \<and> pend i w' = map_option (\<lambda>(k, d, q). (k, d @ concat ps, q)) (pend i w))
     | None \<Rightarrow> ws ! i = None"
    using Cons.IH [OF w1(2)] ws1 by auto
  have "\<exists>w w'. twWriters tw ! i = Some w \<and> ws ! i = Some w' \<and>
      pend i w' = map_option (\<lambda>(k, d, q). (k, d @ concat (p # ps), q)) (pend i w)" if i: "i < length ws" for i
  proof -
    obtain w w0 m where w: "twWriters tw ! i = Some w" "ws1 ! i = Some w0" "wWrite (caches t ! i) w p = ((m, []), w0)"
      using ws1(2,3) ws(2) i by auto
    obtain w' where w': "ws ! i = Some w'" "pend i w' = map_option (\<lambda>(k, d, q). (k, d @ concat ps, q)) (pend i w0)"
      using ws(3) [rule_format, OF i] w(2) by (auto simp: ws1(1))
    have "pend i w0 = map_option (\<lambda>(k, d, q). (k, d @ p, q)) (pend i w)"
      using tier_write [OF _ w(3)] i ws(2) by simp
    then show ?thesis using w w' by (cases "pend i w") auto
  qed
  then show ?case using ws(1,2) by (intro exI [of _ ws]) (auto simp: ws1(1) split: option.splits; fastforce)
qed

text \<open>Once a write is closed without an error, no tier holds anything but the new version.\<close>

lemma tieredPut_all:
  assumes "tieredCreate t s uuid order pickDone [] key h ttl opts = (Inr tw, s1)" "createETag uuid opts = (raw, q, [])"
    and "distinct order" "set order = {..<length (caches t)}" "length (tsTiers s) = length (caches t)"
    and "tieredWriteBlocks t tw blocks = (Ret [], tw1)" "tieredWClose t tw1 s1 = (Ret [], tw2, s2)" "bok (tsMeta s)"
  shows "length (tsTiers s2) = length (caches t)" "bok (tsMeta s2)"
    and "i < length (caches t) \<Longrightarrow> obj i (tsTiers s2 ! i) key = None \<or>
      (\<exists>h'. obj i (tsTiers s2 ! i) key = Some (concat blocks, h') \<and> hGet h' ETagKey = q)"
proof -
  note cr = tieredCreate_pend [OF assms(1-5)]
  obtain ws where ws: "tw1 = tw\<lparr>twWriters := ws\<rparr>" "length ws = length (caches t)"
    "\<forall>i < length ws. case twWriters tw ! i of
       Some w \<Rightarrow> (\<exists>w'. ws ! i = Some w' \<and> pend i w' = map_option (\<lambda>(k, d, q). (k, d @ concat blocks, q)) (pend i w))
     | None \<Rightarrow> ws ! i = None"
    using tieredWriteBlocks_pend [OF assms(6) cr(1)] by blast
  obtain rs ws1 cs where cl: "closeTiers (caches t) ws (tsTiers s1) = (rs, ws1, cs)" by (metis prod.exhaust)
  obtain es where es: "rs = Ret es" "errJoin es = []"
    using assms(7) cr(8) by (auto simp: tieredWClose_def ws(1) cl Let_def split: outcome.splits if_splits prod.splits)
  note ok = closeTiers_ok [OF cl [unfolded es(1)] ws(2) cr(2)]
  have tiers: "tsTiers s2 = cs"
    using assms(7) cr(8) by (auto simp: tieredWClose_def ws(1) cl es Let_def split: if_splits prod.splits)
  then show "length (tsTiers s2) = length (caches t)" using ok by simp
  show "bok (tsMeta s2)"
    using assms(7,8) cr(3,8) apply_bok [of "tsMeta s"]
    by (auto simp: tieredWClose_def ws(1) cl es Let_def etagsSet_def mapSet_def split: if_splits prod.splits)
  show "obj i (tsTiers s2 ! i) key = None \<or>
      (\<exists>h'. obj i (tsTiers s2 ! i) key = Some (concat blocks, h') \<and> hGet h' ETagKey = q)" if i: "i < length (caches t)"
  proof -
    obtain w w' where w: "ws ! i = Some w" "wClose (caches t ! i) w (tsTiers s1 ! i) = (Ret (es ! i), w', cs ! i)"
      using ok i by blast
    have e: "es ! i = []" using es(2) ok i by (auto simp: errJoin_def)
    have "twWriters tw ! j \<noteq> None" if "j < length (caches t)" for j
      using ok ws(2) ws(3) [rule_format, of j] that by (cases "twWriters tw ! j") auto
    then obtain w0 where "twWriters tw ! i = Some w0" "pend i w0 = Some (key, [], q)" using cr(5) i by blast
    then have "pend i w = Some (key, concat blocks, q)" using ws(2,3) i w(1) by fastforce
    from tier_close [OF i w(2) this] show ?thesis using e tiers by auto
  qed
qed

text \<open>
  After such a write a plain open answers with the new version, or with an error when it is gone from the
  authoritative tier.
\<close>

lemma tieredOpen_latest:
  assumes "bok (tsMeta s)"
    and "\<forall>i < length (caches t). obj i (tsTiers s ! i) key = None \<or>
      (\<exists>h'. obj i (tsTiers s ! i) key = Some (d, h') \<and> hGet h' ETagKey = q)"
    and "\<forall>i < length (caches t). \<not> hardErr (snd (snd (fst (cOpen (caches t ! i) (tsTiers s ! i) key []))))"
    and "tieredOpen t s ctxErr key [] = ((r, h, e), s')"
  shows "if e = [] then readerBody r = bytesReader d \<and> hGet h ETagKey = q
    else obj (lastTier t) (tsTiers s ! lastTier t) key = None"
proof -
  let ?ans = "\<lambda>i. fst (cOpen (caches t ! i) (tsTiers s ! i) key [])"
  let ?want = "recorded (st (tsMeta s) (tNamespace t)) key"
  have ans: "case obj i (tsTiers s ! i) key of
      None \<Rightarrow> errSame (snd (snd (?ans i))) [ErrNotExist]
    | Some (d, h0) \<Rightarrow> \<exists>h. ?ans i = (bytesReader d, h, []) \<and> hGet h ETagKey = hGet h0 ETagKey" if i: "i < length (caches t)" for i
  proof -
    obtain b h e c where o: "cOpen (caches t ! i) (tsTiers s ! i) key [] = ((b, h, e), c)" by (metis prod.exhaust)
    then obtain e0 where "openSpec (obj i (tsTiers s ! i) key) [] = (b, h, e0)" "errSame e e0"
      using tier_open [OF i o] assms(3) i by (metis fst_conv snd_conv)
    with openSpec_plain [OF this(1)] show ?thesis by (auto simp: o split: option.splits)
  qed
  show ?thesis
  proof (cases "e = []")
    case True
    obtain i where i: "i < length (caches t)" "?ans i = (readerBody r, h, [])"
      using tieredOpen_serves [OF assms(1) some_tier assms(4) [unfolded True]] by auto
    show ?thesis using ans [OF i(1)] assms(2) i True by (auto split: option.splits)
  next
    case False
    have L: "lastTier t < length (caches t)" using some_tier by (simp add: lastTier_def)
    have "False" if "obj (lastTier t) (tsTiers s ! lastTier t) key \<noteq> None"
    proof -
      define P where "P i \<longleftrightarrow> i < length (caches t) \<and> (\<exists>b h. serves (lastTier t) ?want ?ans i b h)" for i
      have "P (lastTier t)" using that ans [OF L] L by (auto simp: P_def serves_def isStale_def)
      then obtain i where i: "P i" "\<forall>j < i. \<not> P j" using exists_least_iff [of P] by blast
      have sk: "skips (lastTier t) ?want (NewRequestOptions []) ?ans j" if j: "j < i" for j
      proof -
        have jn: "j < length (caches t)" using i(1) j by (simp add: P_def)
        show ?thesis
          using ans [OF jn] i(2) j jn by (fastforce simp: P_def serves_def skips_def errIs_def errSame_def split: option.splits)
      qed
      obtain b h0 where sv: "serves (lastTier t) ?want ?ans i b h0" "i < length (caches t)" using i(1) by (auto simp: P_def)
      have "\<not> IfRangeMisses (NewRequestOptions []) (hGet h0 ETagKey)"
        by (simp add: IfRangeMisses_def NewRequestOptions_def zeroOptions_def)
      from tieredOpen_first [OF assms(1) some_tier assms(4) sv(2) _ sv(1) this] sk False show False by simp
    qed
    then show ?thesis using False by (simp del: not_None_eq) blast
  qed
qed

end

section \<open>Reads and the authoritative tier\<close>

text \<open>
  What a read may change: a tier may forget objects, but the last tier keeps all of them and the metadata
  stays as it is.
\<close>

definition keeps :: "nat \<Rightarrow> (nat \<Rightarrow> 'c \<Rightarrow> Key \<Rightarrow> 'o option) \<Rightarrow> ('b \<Rightarrow> string \<Rightarrow> nsState) \<Rightarrow> ('c, 'b) tieredSt \<Rightarrow> ('c, 'b) tieredSt \<Rightarrow> bool" where
  "keeps n obj st s s' \<longleftrightarrow> st (tsMeta s') = st (tsMeta s) \<and> length (tsTiers s') = length (tsTiers s) \<and>
     obj (n - 1) (tsTiers s' ! (n - 1)) = obj (n - 1) (tsTiers s ! (n - 1)) \<and>
     (\<forall>i < n. forgets (obj i) (tsTiers s ! i) (tsTiers s' ! i) {})"

lemma keeps_refl [simp]: "keeps n obj st s s"
  by (simp add: keeps_def)

lemma keeps_trans: "keeps n obj st s s1 \<Longrightarrow> keeps n obj st s1 s2 \<Longrightarrow> keeps n obj st s s2"
  by (auto simp: keeps_def intro: forgets_trans)

lemma keeps_setTier:
  "i < length (tsTiers s) \<Longrightarrow> forgets (obj i) (tsTiers s ! i) c {} \<Longrightarrow> (i = n - 1 \<Longrightarrow> obj i c = obj i (tsTiers s ! i)) \<Longrightarrow>
   keeps n obj st s (setTier s i c)"
  by (auto simp: keeps_def setTier_def nth_list_update)

lemma keeps_meta: "st b = st (tsMeta s) \<Longrightarrow> keeps n obj st s (s\<lparr>tsMeta := b\<rparr>)"
  by (simp add: keeps_def)

lemma keeps_healer: "keeps n obj st s (s\<lparr>tsHealer := hl\<rparr>)"
  by (simp add: keeps_def)

context tiered_tiers
begin

abbreviation (input) kp :: "('c, 'b) tieredSt \<Rightarrow> ('c, 'b) tieredSt \<Rightarrow> bool" where
  "kp s s' \<equiv> keeps (length (caches t)) obj st s s' \<and> bok (tsMeta s')"

lemma tier_less: "i \<le> lastTier t \<Longrightarrow> i < length (caches t)"
  using some_tier by (cases "caches t") (auto simp: lastTier_def)

lemma kp_trans: "kp s s1 \<Longrightarrow> kp s1 s2 \<Longrightarrow> kp s s2"
  using keeps_trans by blast

lemma kp_setTier:
  assumes "bok (tsMeta s)" "i < length (tsTiers s)" "obj i c = obj i (tsTiers s ! i)"
  shows "kp s (setTier s i c)"
  using assms by (auto intro!: keeps_setTier forgets_same)

lemma invalidateStale_kp:
  assumes "bok (tsMeta s)" "length (tsTiers s) = length (caches t)" "i < lastTier t" "invalidateStale t s i key h = (stale, s')"
  shows "kp s s'"
proof -
  have i: "i < length (caches t)" "i \<noteq> length (caches t) - 1" using assms(3) by (auto simp: lastTier_def)
  obtain want b where g: "etagsGet t (tsMeta s) key = (want, b)" by (metis prod.exhaust)
  note rec = etagsGet_rec [OF assms(1) g]
  obtain e c where iv: "cInvalidate (caches t ! i) (tsTiers s ! i) key = (e, c)" by (metis prod.exhaust)
  have "keeps (length (caches t)) obj st s (s\<lparr>tsMeta := b\<rparr>)" by (rule keeps_meta [OF rec(2)])
  moreover have "keeps (length (caches t)) obj st (s\<lparr>tsMeta := b\<rparr>) (setTier (s\<lparr>tsMeta := b\<rparr>) i c)"
    using tier_invalidate [OF i(1) iv] assms(2) i by (intro keeps_setTier) auto
  ultimately show ?thesis
    using assms(4) rec(3) keeps_trans by (fastforce simp: invalidateStale_def g iv Let_def split: if_splits)
qed

lemma invalidateStaleConditional_kp:
  assumes "bok (tsMeta s)" "length (tsTiers s) = length (caches t)" "i \<le> lastTier t"
    "invalidateStaleConditional t s i key h e = (stale, s')"
  shows "kp s s'"
proof (cases "i = lastTier t \<or> \<not> errIs e ErrNotModified \<and> \<not> errIs e ErrRangeNotSatisfiable")
  case True
  then have "s' = s" using assms(4) by (simp add: invalidateStaleConditional_def)
  then show ?thesis using assms(1) by simp
next
  case False
  then have "invalidateStale t s i key h = (stale, s')" "i < lastTier t"
    using assms(3,4) by (auto simp: invalidateStaleConditional_def split: if_splits)
  then show ?thesis using invalidateStale_kp assms(1,2) by blast
qed

lemma convergeTier0_kp:
  assumes "bok (tsMeta s)" "length (tsTiers s) = length (caches t)" "convergeTier0 t s ctxErr key r h tier part = (r', s')"
  shows "kp s s'"
proof -
  have z: "0 < length (caches t)" using some_tier by simp
  obtain want b where g: "etagsGet t (tsMeta s) key = (want, b)" by (metis prod.exhaust)
  note rec = etagsGet_rec [OF assms(1) g]
  obtain started hl where tr: "trigger (tsHealer s) (tNamespace t, key) = (started, hl)" by (metis prod.exhaust)
  obtain cr c where cr: "cCreate (caches t ! 0) (tsTiers s ! 0) ctxErr key h 0 (backfillCreateOptions h) = (cr, c)" by (metis prod.exhaust)
  have "kp s (setTier s 0 c)" using tier_create [OF z cr] assms(1,2) z by (intro kp_setTier) auto
  moreover have "keeps (length (caches t)) obj st s (s\<lparr>tsMeta := b\<rparr>)" by (rule keeps_meta [OF rec(2)])
  ultimately show ?thesis
    using assms(1,3) rec(3) keeps_trans [OF _ keeps_healer]
    by (auto simp: convergeTier0_def backfillReader_def healTier0_def g cr tr Let_def split: if_splits sum.splits)
qed

lemma openTiers_kp:
  assumes "bok (tsMeta s)" "length (tsTiers s) = length (caches t)" "\<forall>i \<in> set is. i \<le> lastTier t"
    "openTiers t ctxErr key opts is fallback rejected probeErrs errs s = (res, s')"
  shows "kp s s'"
  using assms
proof (induction "is" arbitrary: s fallback rejected probeErrs errs)
  case (Cons i "is")
  have i: "i \<le> lastTier t" "i < length (caches t)" using Cons.prems(3) tier_less by auto
  obtain r0 h0 e0 c where op: "cOpen (caches t ! i) (tsTiers s ! i) key opts = ((r0, h0, e0), c)" by (metis prod.exhaust)
  have k1: "kp s (setTier s i c)" using tier_open [OF i(2) op] Cons.prems(1,2) i by (intro kp_setTier) auto
  have IH: "kp s s'" if "kp s s1" "openTiers t ctxErr key opts is fallback1 rejected1 probeErrs1 errs1 s1 = (res, s')"
    for s1 fallback1 rejected1 probeErrs1 errs1
    using Cons.IH [OF _ _ _ that(2)] that(1) Cons.prems(2,3) kp_trans [of s s1 s'] by (auto simp: keeps_def)
  obtain cs s2 where cs: "invalidateStaleConditional t (setTier s i c) i key h0 e0 = (cs, s2)" by (metis prod.exhaust)
  have k2: "kp s s2" using invalidateStaleConditional_kp [OF _ _ i(1) cs] k1 Cons.prems(2) kp_trans [OF k1, of s2] by auto
  obtain sl s3 where sl: "(if i < lastTier t then invalidateStale t s2 i key h0 else (False, s2)) = (sl, s3)" by (metis prod.exhaust)
  have len2: "length (tsTiers s2) = length (caches t)" using k2 Cons.prems(2) by (simp add: keeps_def)
  have k3: "kp s s3"
    using invalidateStale_kp [of s2 i key h0 sl s3] k2 len2 sl kp_trans [OF k2, of s3] by (auto split: if_splits)
  have len3: "length (tsTiers s3) = length (caches t)" using k3 Cons.prems(2) by (simp add: keeps_def)
  obtain r4 s4 where cv: "convergeTier0 t s3 ctxErr key r0 h0 i (oRange (NewRequestOptions opts) \<noteq> '''') = (r4, s4)"
    by (metis prod.exhaust)
  have k4: "kp s s4" using convergeTier0_kp [OF _ len3 cv] k3 kp_trans [OF k3, of s4] by auto
  note run = Cons.prems(4) [simplified openTiers.simps op prod.case Let_def cs sl cv]
  note steps = IH [OF k1] IH [OF k2] IH [OF k3]
  show ?case
    using run steps k2 k4 by (simp split: if_splits)
qed simp

lemma statTiers_kp:
  assumes "bok (tsMeta s)" "length (tsTiers s) = length (caches t)" "\<forall>i \<in> set is. i \<le> lastTier t"
    "statTiers t key opts is rejected probeErrs errs s = (res, s')"
  shows "kp s s'"
  using assms
proof (induction "is" arbitrary: s rejected probeErrs errs)
  case (Cons i "is")
  have i: "i \<le> lastTier t" "i < length (caches t)" using Cons.prems(3) tier_less by auto
  obtain h0 e0 c where op: "cStat (caches t ! i) (tsTiers s ! i) key opts = ((h0, e0), c)" by (metis prod.exhaust)
  have k1: "kp s (setTier s i c)" using tier_stat [OF i(2) op] Cons.prems(1,2) i by (intro kp_setTier) auto
  have IH: "kp s s'" if "kp s s1" "statTiers t key opts is rejected1 probeErrs1 errs1 s1 = (res, s')"
    for s1 rejected1 probeErrs1 errs1
    using Cons.IH [OF _ _ _ that(2)] that(1) Cons.prems(2,3) kp_trans [of s s1 s'] by (auto simp: keeps_def)
  obtain sl s3 where sl: "(if i < lastTier t then invalidateStale t (setTier s i c) i key h0 else (False, setTier s i c)) = (sl, s3)"
    by (metis prod.exhaust)
  have k3: "kp s s3"
    using invalidateStale_kp [of "setTier s i c" i key h0 sl s3] k1 Cons.prems(2) sl kp_trans [OF k1, of s3] by (auto split: if_splits)
  note run = Cons.prems(4) [simplified statTiers.simps op prod.case Let_def sl]
  show ?case
    using run IH [OF k1] IH [OF k3] k1 k3 by (auto split: if_splits)
qed simp

lemma tieredOpen_kp: "bok (tsMeta s) \<Longrightarrow> length (tsTiers s) = length (caches t) \<Longrightarrow>
    tieredOpen t s ctxErr key opts = (res, s') \<Longrightarrow> kp s s'"
  unfolding tieredOpen_def by (rule openTiers_kp) (auto simp: lastTier_def)

lemma tieredStat_kp: "bok (tsMeta s) \<Longrightarrow> length (tsTiers s) = length (caches t) \<Longrightarrow>
    tieredStat t s key opts = (res, s') \<Longrightarrow> kp s s'"
  unfolding tieredStat_def by (rule statTiers_kp) (auto simp: lastTier_def)

lemma tieredInvalidate_kp:
  assumes "bok (tsMeta s)" "length (tsTiers s) = length (caches t)" "tieredInvalidate t s key = (e, s')"
  shows "kp s s' \<and> (e = [] \<longrightarrow> (\<forall>i < length (caches t) - 1. obj i (tsTiers s' ! i) key = None))"
proof (cases "length (caches t) \<le> 1")
  case True
  then show ?thesis using assms by (simp add: tieredInvalidate_def)
next
  case False
  let ?n = "length (caches t)"
  let ?iv = "\<lambda>i. cInvalidate (caches t ! i) (tsTiers s ! i) key"
  have ne: "tsTiers s \<noteq> []" "length (tsTiers s) = ?n" using False assms(2) by auto
  have s': "s' = s\<lparr>tsTiers := map snd (map2 (\<lambda>ops c. cInvalidate ops c key) (butlast (caches t)) (butlast (tsTiers s))) @ [last (tsTiers s)]\<rparr>"
    "e = errJoin (map fst (map2 (\<lambda>ops c. cInvalidate ops c key) (butlast (caches t)) (butlast (tsTiers s))))"
    using assms(3) False by (simp_all add: tieredInvalidate_def eachTier_def Let_def)
  have below: "tsTiers s' ! i = snd (?iv i)" if "i < ?n - 1" for i
    using that ne by (simp add: s' nth_append nth_butlast)
  have top: "tsTiers s' ! (?n - 1) = tsTiers s ! (?n - 1)"
    using ne by (simp add: s' nth_append last_conv_nth)
  have iv: "forgets (obj i) (tsTiers s ! i) (snd (?iv i)) {} \<and> (fst (?iv i) = [] \<longrightarrow> obj i (snd (?iv i)) key = None)"
    if "i < ?n" for i
    using tier_invalidate [OF that, of "tsTiers s ! i" key "fst (?iv i)" "snd (?iv i)"] by simp
  have "forgets (obj i) (tsTiers s ! i) (tsTiers s' ! i) {}" if "i < ?n" for i
    using that below iv top by (cases "i = ?n - 1") auto
  then have "kp s s'" using assms(1,2) top ne False by (auto simp: keeps_def s' min_def)
  moreover have "fst (?iv i) = []" if "e = []" "i < ?n - 1" for i
  proof -
    have "fst (?iv i) \<in> set (map fst (map2 (\<lambda>ops c. cInvalidate ops c key) (butlast (caches t)) (butlast (tsTiers s))))"
      unfolding set_map set_zip using that(2) ne by (force simp: nth_butlast)
    then show ?thesis using that(1) by (auto simp: s'(2) errJoin_def)
  qed
  ultimately show ?thesis using below iv by auto
qed

end

section \<open>Tiers of memory caches\<close>

definition memTiered :: "(time \<Rightarrow> string) \<Rightarrow> MemoryConfig list \<Rightarrow> Namespace \<Rightarrow> (memTier, memoryWriter, MemoryBackend) Tiered" where
  "memTiered httpTime cfgs ns =
     \<lparr>caches = map (\<lambda>config. memoryOps httpTime config ns) cfgs, metadata = memoryBackendOps, tNamespace = ns\<rparr>"

interpretation tm: tiered_meta "t\<lparr>metadata := memoryBackendOps\<rparr>" "\<lambda>_. True" memNsState for t :: "('c, 'w, MemoryBackend) Tiered"
proof -
  have "metadata (t\<lparr>metadata := memoryBackendOps\<rparr>) = memoryBackendOps" by simp
  then show "tiered_meta (t\<lparr>metadata := memoryBackendOps\<rparr>) (\<lambda>_. True) memNsState"
    using memdb.metadata_backend_axioms by (simp add: tiered_meta_def)
qed

interpretation mt: tiered_tiers "memTiered httpTime (config # configs) ns" "\<lambda>_. True" memNsState
  "\<lambda>i. memObj ((config # configs) ! i) ns" "\<lambda>_. memPend ns" for httpTime config configs ns
proof (intro tiered_tiers.intro tiered_tiers_axioms.intro, goal_cases)
  case 1
  then show ?case using memdb.metadata_backend_axioms by (simp add: tiered_meta_def memTiered_def)
next
  case (2 i)
  then have "caches (memTiered httpTime (config # configs) ns) ! i = memoryOps httpTime ((config # configs) ! i) ns"
    unfolding memTiered_def by (simp del: nth_Cons_Suc list.map add: nth_map)
  then show ?case using mem.cache_backend_axioms by simp
qed (simp add: memTiered_def)

lemma openSpec_soft: "openSpec ob opts = (b, h, e) \<Longrightarrow> \<not> hardErr e"
proof (cases ob)
  case None
  then show "openSpec ob opts = (b, h, e) \<Longrightarrow> \<not> hardErr e" by (auto simp: openSpec_def hardErr_def)
next
  case (Some o')
  obtain d h0 where o': "o' = (d, h0)" by (cases o')
  assume "openSpec ob opts = (b, h, e)"
  from this [unfolded Some o'] show "\<not> hardErr e"
    by (cases rule: openSpec_Some) (auto simp: hardErr_def Check_def split: if_splits)
qed

lemma memOpen_soft: "\<not> hardErr (snd (snd (fst (cOpen (memoryOps httpTime config ns) c key opts))))"
  using openSpec_soft [of "memObj config ns c key" opts] by (simp add: memoryOps_def MemOpen_spec memObj_def prod_eq_iff)

section \<open>Properties\<close>

text \<open>
  C17: a tiered cache never serves a superseded version.  When an ETag is recorded for the key, whatever
  \<^verbatim>\<open>Open\<close> returns without an error, from whatever tiers and for whatever conditions, ranges and fallbacks, is
  the unchanged answer of one tier, and that tier is the authoritative last one or its version carries
  the recorded ETag.
\<close>

theorem tiered_never_stale:
  assumes "metadata t = memoryBackendOps" "caches t \<noteq> []" "tieredOpen t s ctxErr key opts = ((r, h, []), s')"
  shows "\<exists>i < length (caches t). fst (cOpen (caches t ! i) (tsTiers s ! i) key opts) = (readerBody r, h, []) \<and>
      (i = length (caches t) - 1 \<or>
       recorded (memNsState (tsMeta s) (tNamespace t)) key \<in> {None, Some (hGet h ETagKey)})"
proof -
  have t: "t\<lparr>metadata := memoryBackendOps\<rparr> = t" using assms(1) by simp
  show ?thesis
    using tm.tieredOpen_serves [of t s ctxErr key opts r h s', unfolded t] assms(2,3)
    by (auto simp: isStale_def lastTier_def)
qed


text \<open>
  C18: a write through all tiers replaces the object for every reader.  Once \<^verbatim>\<open>Create\<close>, the writes and
  \<^verbatim>\<open>Close\<close> of a tiered writer return without an error, whatever the order in which the tiers' goroutines
  ran, no tier holds another version, and \<^verbatim>\<open>Open\<close> returns exactly the bytes written with the new ETag,
  never an older version; it can only fail when the authoritative tier has dropped the object.
\<close>

theorem tiered_write_read:
  assumes "t = memTiered httpTime configs ns" "configs \<noteq> []" "length (tsTiers s) = length configs"
    and "distinct order" "set order = {..<length configs}" "createETag uuid opts = (raw, q, [])"
    and "tieredCreate t s uuid order pickDone [] key h ttl opts = (Inr tw, s1)"
    and "tieredWriteBlocks t tw blocks = (Ret [], tw1)" "tieredWClose t tw1 s1 = (Ret [], tw2, s2)"
    and "tieredOpen t s2 ctxErr key [] = ((r, h', e), s3)"
  shows "if e = [] then readerBody r = bytesReader (concat blocks) \<and> hGet h' ETagKey = q
    else memObj (last configs) ns (last (tsTiers s2)) key = None"
proof -
  obtain config rest where cfg: "configs = config # rest" using assms(2) by (cases configs) auto
  have n: "length (caches t) = length configs" by (simp add: assms(1) memTiered_def)
  note put = mt.tieredPut_all [of httpTime config rest ns, folded cfg, folded assms(1), OF assms(7,6,4) _ _ assms(8,9)]
  have soft: "\<not> hardErr (snd (snd (fst (cOpen (caches t ! i) (tsTiers s2 ! i) key []))))" if "i < length configs" for i
    using that memOpen_soft by (simp add: assms(1) memTiered_def)
  have "if e = [] then readerBody r = bytesReader (concat blocks) \<and> hGet h' ETagKey = q
      else memObj (configs ! lastTier t) ns (tsTiers s2 ! lastTier t) key = None"
    using put assms(3,5) soft
    by (intro mt.tieredOpen_latest [of httpTime config rest ns, folded cfg, folded assms(1), OF _ _ _ assms(10)]) (auto simp: n)
  moreover have "length (tsTiers s2) = length configs" using put(1) assms(3,5) n by simp
  then have "last configs = configs ! lastTier t" "last (tsTiers s2) = tsTiers s2 ! lastTier t"
    using assms(2) by (cases "tsTiers s2 = []"; simp add: lastTier_def n last_conv_nth)+
  ultimately show ?thesis by simp
qed

text \<open>
  C20: reads and invalidation never touch the authoritative tier.  \<^verbatim>\<open>Open\<close>, \<^verbatim>\<open>Stat\<close> and \<^verbatim>\<open>Invalidate\<close> leave
  every object of the last tier and every recorded ETag as they were; in the other tiers they can only
  make objects disappear, never change one; and a successful \<^verbatim>\<open>Invalidate\<close> removes the object from all of
  them.
\<close>

theorem tiered_keeps_authority:
  assumes "t = memTiered httpTime configs ns" "configs \<noteq> []" "length (tsTiers s) = length configs"
    and "s' \<in> {snd (tieredOpen t s ctxErr key opts), snd (tieredStat t s key opts), snd (tieredInvalidate t s key)}"
  shows "memObj (last configs) ns (last (tsTiers s')) = memObj (last configs) ns (last (tsTiers s)) \<and>
    memNsState (tsMeta s') = memNsState (tsMeta s) \<and>
    (\<forall>i < length configs. \<forall>k. memObj (configs ! i) ns (tsTiers s' ! i) k \<in> {memObj (configs ! i) ns (tsTiers s ! i) k, None}) \<and>
    (if fst (tieredInvalidate t s key) = [] then
       (\<forall>i < length configs - 1. memObj (configs ! i) ns (tsTiers (snd (tieredInvalidate t s key)) ! i) key = None) else True)"
proof -
  obtain config rest where cfg: "configs = config # rest" using assms(2) by (cases configs) auto
  have n: "length (caches t) = length configs" by (simp add: assms(1) memTiered_def)
  note kp = mt.tieredOpen_kp [of s httpTime config rest ns ctxErr key opts, folded cfg, folded assms(1)]
    mt.tieredStat_kp [of s httpTime config rest ns key opts, folded cfg, folded assms(1)]
    mt.tieredInvalidate_kp [of s httpTime config rest ns key, folded cfg, folded assms(1)]
  have iv: "keeps (length configs) (\<lambda>i. memObj (configs ! i) ns) memNsState s (snd (tieredInvalidate t s key)) \<and>
      (fst (tieredInvalidate t s key) = [] \<longrightarrow>
       (\<forall>i < length configs - 1. memObj (configs ! i) ns (tsTiers (snd (tieredInvalidate t s key)) ! i) key = None))"
    using kp(3) [of "fst (tieredInvalidate t s key)" "snd (tieredInvalidate t s key)"] assms(3) n by simp
  have "keeps (length configs) (\<lambda>i. memObj (configs ! i) ns) memNsState s s'"
    using assms(3,4) n iv kp(1) [of "fst (tieredOpen t s ctxErr key opts)" "snd (tieredOpen t s ctxErr key opts)"]
      kp(2) [of "fst (tieredStat t s key opts)" "snd (tieredStat t s key opts)"] by auto
  then show ?thesis
    using iv assms(2,3) by (auto simp: keeps_def forgets_def last_conv_nth simp flip: length_greater_0_conv)
qed

section \<open>Witnesses\<close>

text \<open>Two memory tiers: the first holds a stale version, the second the recorded one.\<close>

definition wTier :: "(Key \<rightharpoonup> memoryEntry) \<Rightarrow> memTier" where
  "wTier es = \<lparr>tOpen = True, tStore = \<lparr>entries = [''ns'' \<mapsto> es], currentSize = 0\<rparr>, tNow = 1, tUuid = ''u'', tOrder = (\<lambda>_. [])\<rparr>"

definition wCfg :: MemoryConfig where "wCfg = \<lparr>LimitMB = 0, MaxTTL = 100\<rparr>"

definition wEntry :: "string \<Rightarrow> bytes \<Rightarrow> memoryEntry" where
  "wEntry q d = \<lparr>mData = d, mExpiresAt = 50, mHeaders = [''Etag'' \<mapsto> [q]]\<rparr>"

definition wTiered :: "(memTier, memoryWriter, MemoryBackend) Tiered" where
  "wTiered = memTiered (\<lambda>_. ''now'') [wCfg, wCfg] ''ns''"

definition wState :: "(memTier, MemoryBackend) tieredSt" where
  "wState = \<lparr>tsTiers = [wTier [[5] \<mapsto> wEntry ''a'' [1]], wTier [[5] \<mapsto> wEntry ''b'' [2]]],
     tsMeta = [''ns'' \<mapsto> [tieredETagsMap \<mapsto> VMap [marshalKey (keyJson [5]) \<mapsto> VStr ''b'']]], tsHealer = newTieredHealer\<rparr>"

lemma wMemOpen: "MemOpen \<lparr>mConfig = wCfg, mNamespace = ''ns'', mOpen = True\<rparr> \<lparr>entries = [''ns'' \<mapsto> [[5] \<mapsto> wEntry q d]], currentSize = 0\<rparr> 1 [5] [] =
   (bytesReader d, [''Etag'' \<mapsto> [q], ''Content-Length'' \<mapsto> [FormatInt (int (length d))]], [])"
  by (simp add: MemOpen_def memFind_def Let_def wEntry_def conditionalShortCircuit_def rangeShortCircuit_def ResolveRange_def hSet_def hDel_def hGet_def)

lemma wFormat: "FormatETag ''n'' = ([CHR 0x22, CHR ''n'', CHR 0x22], [])"
  by (simp add: FormatETag_def ValidateRawETag_def isRawETagChar_def less_eq_char_def)

lemma wCreateETag: "createETag ''u'' [WithETag ''n''] = (''n'', [CHR 0x22, CHR ''n'', CHR 0x22], [])"
  by (simp add: createETag_def go_simps wFormat Let_def)

lemma wCreate: "\<exists>h'. cCreate (memoryOps (\<lambda>_. ''now'') wCfg ''ns'') (wTier es) [] [5] h 0 [WithETag ''n''] =
  (Inr \<lparr>mwNamespace = ''ns'', mwKey = [5], mwBuf = [], mwExpiresAt = 101, mwHeaders = h', mwClosed = False, mwCtxErr = []\<rparr>, wTier es)"
  by (simp add: memoryOps_def tierView_def wTier_def MemCreate_def Let_def setCreateETag_def wCreateETag wCfg_def)

definition wWriter :: "header \<Rightarrow> bytes \<Rightarrow> memoryWriter" where
  "wWriter h d = \<lparr>mwNamespace = ''ns'', mwKey = [5], mwBuf = d, mwExpiresAt = 101, mwHeaders = h, mwClosed = False, mwCtxErr = []\<rparr>"

lemma wCaches: "caches wTiered = [memoryOps (\<lambda>_. ''now'') wCfg ''ns'', memoryOps (\<lambda>_. ''now'') wCfg ''ns'']"
  by (simp add: wTiered_def memTiered_def)

lemma wStat: "\<exists>h. cStat (memoryOps (\<lambda>_. ''now'') wCfg ''ns'') (wTier [[5] \<mapsto> wEntry q d]) [5] [] = ((h, []), wTier [[5] \<mapsto> wEntry q d])"
  by (simp add: memoryOps_def tierView_def wTier_def MemStat_spec statSpec_def memFind_def wEntry_def conditionalShortCircuit_def Let_def)

lemma wTieredCreate: "\<exists>h1 h2 b. tieredCreate wTiered wState ''u'' [1, 0] False [] [5] Map.empty 0 [WithETag ''n''] =
    (Inr \<lparr>twWriters = [Some (wWriter h1 []), Some (wWriter h2 [])], twKey = [5], twETag = [CHR 0x22, CHR ''n'', CHR 0x22],
      twReplaceETag = b, twClosed = False, twAborted = False\<rparr>, wState)"
proof -
  obtain h where st: "cStat (memoryOps (\<lambda>_. ''now'') wCfg ''ns'') (wTier [[5] \<mapsto> wEntry ''b'' [2]]) [5] [] = ((h, []), wTier [[5] \<mapsto> wEntry ''b'' [2]])"
    using wStat by blast
  obtain h1 where c1: "cCreate (memoryOps (\<lambda>_. ''now'') wCfg ''ns'') (wTier [[5] \<mapsto> wEntry ''a'' [1]]) [] [5] Map.empty 0 [WithETag ''n''] =
      (Inr (wWriter h1 []), wTier [[5] \<mapsto> wEntry ''a'' [1]])" unfolding wWriter_def using wCreate by blast
  obtain h2 where c2: "cCreate (memoryOps (\<lambda>_. ''now'') wCfg ''ns'') (wTier [[5] \<mapsto> wEntry ''b'' [2]]) [] [5] Map.empty 0 [WithETag ''n''] =
      (Inr (wWriter h2 []), wTier [[5] \<mapsto> wEntry ''b'' [2]])" unfolding wWriter_def using wCreate by blast
  show ?thesis
    by (intro exI [of _ h1] exI [of _ h2])
      (simp add: tieredCreate_def wCreateETag replacementETag_def lastTier_def wCaches wState_def st c1 c2 setTier_def Let_def)
qed

lemma wWrites: "tieredWriteBlocks wTiered \<lparr>twWriters = [Some (wWriter h1 []), Some (wWriter h2 [])], twKey = [5], twETag = q,
      twReplaceETag = b, twClosed = False, twAborted = False\<rparr> [[7], [8]] = (Ret [], \<lparr>twWriters = [Some (wWriter h1 [7, 8]), Some (wWriter h2 [7, 8])], twKey = [5], twETag = q,
      twReplaceETag = b, twClosed = False, twAborted = False\<rparr>)"
  by (simp add: tieredWrite_def wCaches memoryOps_def wWriter_def MemWrite_def)

lemma wClose: "\<exists>w' c'. wClose (memoryOps (\<lambda>_. ''now'') wCfg ''ns'') (wWriter h d) (wTier es) = (Ret [], w', c')"
  by (simp add: memoryOps_def wWriter_def wTier_def tierView_def MemWriterClose_def Let_def wCfg_def split: prod.splits)

lemma wCloses: "\<exists>tw s2. tieredWClose wTiered \<lparr>twWriters = [Some (wWriter h1 d), Some (wWriter h2 d)], twKey = [5], twETag = q,
      twReplaceETag = b, twClosed = False, twAborted = False\<rparr> wState = (Ret [], tw, s2)"
proof -
  obtain w1 c1 where c1: "wClose (memoryOps (\<lambda>_. ''now'') wCfg ''ns'') (wWriter h1 d) (wTier [[5] \<mapsto> wEntry ''a'' [1]]) = (Ret [], w1, c1)"
    using wClose by blast
  obtain w2 c2 where c2: "wClose (memoryOps (\<lambda>_. ''now'') wCfg ''ns'') (wWriter h2 d) (wTier [[5] \<mapsto> wEntry ''b'' [2]]) = (Ret [], w2, c2)"
    using wClose by blast
  have "metadata wTiered = memoryBackendOps" by (simp add: wTiered_def memTiered_def)
  then have "fst (etagsSet wTiered m [5] q) = []" for m
    using memBackendApply_st by (simp add: etagsSet_def mapSet_def memoryBackendOps_def)
  then show ?thesis
    by (auto simp: tieredWClose_def wCaches wState_def c1 c2 Let_def errJoin_def split: prod.splits) (metis fst_conv)
qed

lemma wRecorded: "recorded (memNsState (tsMeta wState) ''ns'') [5] = Some ''b''"
  by (simp add: recorded_def memNsState_def wState_def getOrCreateSubmap_def asMap_def)

lemma wMeta: "metadata wTiered = memoryBackendOps" "tNamespace wTiered = ''ns''" "wTiered\<lparr>metadata := memoryBackendOps\<rparr> = wTiered"
  by (simp_all add: wTiered_def memTiered_def)

lemma wOpen: "fst (cOpen (memoryOps (\<lambda>_. ''now'') wCfg ''ns'') (wTier [[5] \<mapsto> wEntry q d]) [5] []) =
   (bytesReader d, [''Etag'' \<mapsto> [q], ''Content-Length'' \<mapsto> [FormatInt (int (length d))]], [])"
  by (simp add: memoryOps_def tierView_def wTier_def wMemOpen)

lemma wTrim: "TrimSpace ''x'' = ''x''"
  by code_simp

lemma wOpenMatch: "fst (cOpen (memoryOps (\<lambda>_. ''now'') wCfg ''ns'') (wTier [[5] \<mapsto> wEntry [c] d]) [5] [IfMatch ''x'']) =
   (if c = CHR ''x'' then (bytesReader d, [''Etag'' \<mapsto> [[c]], ''Content-Length'' \<mapsto> [FormatInt (int (length d))]], [])
    else (nilBody, Map.empty, [ErrPreconditionFailed]))"
  by (simp add: memoryOps_def tierView_def wTier_def MemOpen_def memFind_def Let_def wEntry_def conditionalShortCircuit_def
     rangeShortCircuit_def ResolveRange_def hSet_def hDel_def hGet_def go_simps Check_def etagListMatches_def wTrim)

lemma wTiers: "tsTiers wState = [wTier [[5] \<mapsto> wEntry ''a'' [1]], wTier [[5] \<mapsto> wEntry ''b'' [2]]]"
  by (simp add: wState_def)

lemmas wEval = wMeta wCaches wTiers lastTier_def wRecorded wOpen wOpenMatch isStale_def hGet_def numeral_2_eq_2 less_Suc_eq IfRangeMisses_def errIs_def

theorem tiered_never_stale_witness:
  "\<exists>r h s'. tieredOpen wTiered wState [] [5] [] = ((r, h, []), s') \<and> hGet h ETagKey = ''b''"
proof -
  obtain r h e s' where op: "tieredOpen wTiered wState [] [5] [] = ((r, h, e), s')" by (metis prod.exhaust)
  have "e = []"
    using tm.tieredOpen_run [of wTiered wState "[]" "[5]" "[]" r h e s', unfolded wMeta] op by (simp add: wEval)
  then show ?thesis
    using tiered_never_stale [of wTiered wState "[]" "[5]" "[]" r h s'] op by (auto simp: wEval)
qed


theorem tiered_write_read_witness:
  "\<exists>tw s1 tw1 tw2 s2 r h e s3. tieredCreate wTiered wState ''u'' [1, 0] False [] [5] Map.empty 0 [WithETag ''n''] = (Inr tw, s1) \<and>
     tieredWriteBlocks wTiered tw [[7], [8]] = (Ret [], tw1) \<and> tieredWClose wTiered tw1 s1 = (Ret [], tw2, s2) \<and>
     tieredOpen wTiered s2 [] [5] [] = ((r, h, e), s3) \<and>
     (if e = [] then readerBody r = bytesReader [7, 8] else memObj wCfg ''ns'' (last (tsTiers s2)) [5] = None)"
proof -
  obtain h1 h2 b where cr: "tieredCreate wTiered wState ''u'' [1, 0] False [] [5] Map.empty 0 [WithETag ''n''] =
    (Inr \<lparr>twWriters = [Some (wWriter h1 []), Some (wWriter h2 [])], twKey = [5], twETag = [CHR 0x22, CHR ''n'', CHR 0x22],
      twReplaceETag = b, twClosed = False, twAborted = False\<rparr>, wState)"
    using wTieredCreate by blast
  note wr = wWrites [of h1 h2 "[CHR 0x22, CHR ''n'', CHR 0x22]" b]
  obtain tw2 s2 where cl: "tieredWClose wTiered \<lparr>twWriters = [Some (wWriter h1 [7, 8]), Some (wWriter h2 [7, 8])], twKey = [5],
      twETag = [CHR 0x22, CHR ''n'', CHR 0x22], twReplaceETag = b, twClosed = False, twAborted = False\<rparr> wState = (Ret [], tw2, s2)"
    using wCloses by blast
  obtain r h e s3 where op: "tieredOpen wTiered s2 [] [5] [] = ((r, h, e), s3)" by (metis prod.exhaust)
  have "set [1, 0] = {..<length [wCfg, wCfg]}" by auto
  then have "if e = [] then readerBody r = bytesReader (concat [[7], [8]]) \<and> hGet h ETagKey = [CHR 0x22, CHR ''n'', CHR 0x22]
      else memObj (last [wCfg, wCfg]) ''ns'' (last (tsTiers s2)) [5] = None"
    by (intro tiered_write_read [OF wTiered_def _ _ _ _ wCreateETag cr wr cl op]) (simp_all add: wTiers)
  then show ?thesis using cr wr cl op by (auto split: if_splits)
qed

theorem tiered_keeps_authority_witness:
  "memObj wCfg ''ns'' (last (tsTiers (snd (tieredOpen wTiered wState [] [5] [])))) [5] \<noteq> None"
proof -
  have "memObj (last [wCfg, wCfg]) ''ns'' (last (tsTiers (snd (tieredOpen wTiered wState [] [5] [])))) =
      memObj (last [wCfg, wCfg]) ''ns'' (last (tsTiers wState))"
    using tiered_keeps_authority [OF wTiered_def, of wState "snd (tieredOpen wTiered wState [] [5] [])" "[]" "[5]" "[]"]
    by (simp add: wTiers)
  then show ?thesis by (simp add: wTiers memObj_def wTier_def tierView_def memFind_def wEntry_def)
qed

end
