(* ===== verification/Backfill.thy ===== *)
theory Backfill
  imports Tiered
begin

text \<open>
  The reader that \<^verbatim>\<open>Tiered.Open\<close> returns when a lower tier answered, \<^verbatim>\<open>backfillReadCloser\<close> of
  \<^verbatim>\<open>internal/cache/tiered.go\<close>: every chunk the caller reads is put into a buffered channel, and a goroutine
  writes the chunks to a writer of tier 0 and closes it.

  The caller's thread and the goroutine interleave.  The caller's thread is a program counter between the
  points where the other thread can observe a difference: the send on the channel, the close of the
  channel, the cancellation of the writer's context and the wait for the goroutine.  Each thread's step is
  a function; \<open>bf_step\<close> lets any thread take its next step, and the request's context may be cancelled
  at any time.
\<close>

section \<open>Model\<close>

definition backfillBufSize :: nat where
  "backfillBufSize = 128"

text \<open>
  Where the caller's thread is: between calls; in \<^verbatim>\<open>Read\<close> before the send, between the close of the full
  channel and \<^verbatim>\<open>b.cancel()\<close>, before the handling of the source's error, before \<^verbatim>\<open>b.closeChan()\<close>; in \<^verbatim>\<open>Close\<close>
  before the test of \<^verbatim>\<open>eof\<close>, before \<^verbatim>\<open>b.closeChan()\<close>, at the receive from \<^verbatim>\<open>b.done\<close>, and returned.
\<close>

datatype bfPc = RIdle | RSend bytes goerr | RCancel goerr | RErr goerr | RShut | CStart | CShut | CJoin | CDone goerr

text \<open>
  The state of the reader, its source with the results of its future reads, its writer and the tier.
  \<open>bfGot\<close> is what the caller has received and \<open>bfOver\<close> whether the channel was ever found full.
\<close>

record ('c, 'w) backfillReadCloser =
  bfSrc :: "(bytes \<times> goerr) list"
  bfSrcClose :: goerr
  bfCh :: "bytes list"
  bfClosed :: bool
  bfEof :: bool
  bfPc :: bfPc
  bfDst :: 'w
  bfErr :: goerr
  bfDone :: "goerr option"
  bfCache :: 'c
  bfGot :: bytes
  bfOver :: bool

definition newBackfillReadCloser :: "(bytes \<times> goerr) list \<Rightarrow> goerr \<Rightarrow> 'w \<Rightarrow> 'c \<Rightarrow> ('c, 'w) backfillReadCloser" where
  "newBackfillReadCloser src closeErr dst c =
     \<lparr>bfSrc = src, bfSrcClose = closeErr, bfCh = [], bfClosed = False, bfEof = False, bfPc = RIdle, bfDst = dst,
      bfErr = [], bfDone = None, bfCache = c, bfGot = [], bfOver = False\<rparr>"

definition bfCancel :: "('c, 'w) cacheOps \<Rightarrow> ('c, 'w) backfillReadCloser \<Rightarrow> ('c, 'w) backfillReadCloser" where
  "bfCancel ops b = b\<lparr>bfDst := wCancel ops (bfDst b)\<rparr>"

definition closeChan :: "('c, 'w) backfillReadCloser \<Rightarrow> ('c, 'w) backfillReadCloser" where
  "closeChan b = (if \<not> bfClosed b then b\<lparr>bfClosed := True\<rparr> else b)"

definition afterChunk :: "goerr \<Rightarrow> bfPc" where
  "afterChunk e = (if e \<noteq> [] then RErr e else RIdle)"

text \<open>\<^verbatim>\<open>Read\<close>: the call of the source, and what follows it.\<close>

definition bfReadCall :: "('c, 'w) backfillReadCloser \<Rightarrow> ('c, 'w) backfillReadCloser option" where
  "bfReadCall b =
     (case (bfPc b, bfSrc b) of
        (RIdle, (p, e) # rest) \<Rightarrow>
          Some (b\<lparr>bfSrc := rest, bfGot := bfGot b @ p, bfPc := (if p \<noteq> [] then RSend p e else afterChunk e)\<rparr>)
      | _ \<Rightarrow> None)"

fun bfReadNext :: "('c, 'w) cacheOps \<Rightarrow> ('c, 'w) backfillReadCloser \<Rightarrow> bfPc \<Rightarrow> ('c, 'w) backfillReadCloser option" where
  "bfReadNext ops b (RSend p e) =
     Some (if bfClosed b then b\<lparr>bfPc := afterChunk e\<rparr>
           else if length (bfCh b) < backfillBufSize then b\<lparr>bfCh := bfCh b @ [p], bfPc := afterChunk e\<rparr>
           else b\<lparr>bfClosed := True, bfOver := True, bfPc := RCancel e\<rparr>)"
| "bfReadNext ops b (RCancel e) = Some ((bfCancel ops b)\<lparr>bfPc := afterChunk e\<rparr>)"
| "bfReadNext ops b (RErr e) =
     Some (if errIs e EOF then b\<lparr>bfEof := True, bfPc := RShut\<rparr> else (bfCancel ops b)\<lparr>bfPc := RShut\<rparr>)"
| "bfReadNext ops b RShut = Some ((closeChan b)\<lparr>bfPc := RIdle\<rparr>)"
| "bfReadNext ops b pc = None"

text \<open>\<^verbatim>\<open>Close\<close>: its call, and what follows it; it waits until the goroutine is done.\<close>

definition bfCloseCall :: "('c, 'w) backfillReadCloser \<Rightarrow> ('c, 'w) backfillReadCloser option" where
  "bfCloseCall b = (if bfPc b = RIdle then Some (b\<lparr>bfPc := CStart\<rparr>) else None)"

fun bfCloseNext :: "('c, 'w) cacheOps \<Rightarrow> ('c, 'w) backfillReadCloser \<Rightarrow> bfPc \<Rightarrow> ('c, 'w) backfillReadCloser option" where
  "bfCloseNext ops b CStart = Some ((if \<not> bfEof b then bfCancel ops b else b)\<lparr>bfPc := CShut\<rparr>)"
| "bfCloseNext ops b CShut = Some ((closeChan b)\<lparr>bfPc := CJoin\<rparr>)"
| "bfCloseNext ops b CJoin =
     (case bfDone b of
        None \<Rightarrow> None
      | Some bgErr \<Rightarrow>
          Some (if bfSrcClose b \<noteq> [] \<or> bgErr \<noteq> [] then (bfCancel ops b)\<lparr>bfPc := CDone (bfSrcClose b)\<rparr>
                else b\<lparr>bfPc := CDone []\<rparr>))"
| "bfCloseNext ops b pc = None"

text \<open>
  The goroutine: it takes a chunk from the channel, or closes the writer when the channel is closed and
  empty.  A panic of the writer ends the program, and a blocked one waits.
\<close>

definition bfGoStep :: "('c, 'w) cacheOps \<Rightarrow> ('c, 'w) backfillReadCloser \<Rightarrow> ('c, 'w) backfillReadCloser option" where
  "bfGoStep ops b =
     (if bfDone b \<noteq> None then None
      else (case bfCh b of
         chunk # rest \<Rightarrow>
           Some (if bfErr b \<noteq> [] then b\<lparr>bfCh := rest\<rparr>
                 else (case wWrite ops (bfDst b) chunk of ((n, e), w) \<Rightarrow>
                   b\<lparr>bfCh := rest, bfErr := e, bfDst := (if e \<noteq> [] then wCancel ops w else w)\<rparr>))
       | [] \<Rightarrow>
           if \<not> bfClosed b then None
           else (case wClose ops (bfDst b) (bfCache b) of
              (Ret closeErr, w, c) \<Rightarrow>
                Some (b\<lparr>bfDone := Some (if bfErr b \<noteq> [] then bfErr b else closeErr), bfCache := c,
                        bfDst := (if bfErr b = [] \<and> closeErr \<noteq> [] then wCancel ops w else w)\<rparr>)
            | _ \<Rightarrow> None)))"

inductive bf_step :: "('c, 'w) cacheOps \<Rightarrow> ('c, 'w) backfillReadCloser \<Rightarrow> ('c, 'w) backfillReadCloser \<Rightarrow> bool"
  for ops where
  read: "bfReadCall b = Some b' \<Longrightarrow> bf_step ops b b'"
| readNext: "bfReadNext ops b (bfPc b) = Some b' \<Longrightarrow> bf_step ops b b'"
| close: "bfCloseCall b = Some b' \<Longrightarrow> bf_step ops b b'"
| closeNext: "bfCloseNext ops b (bfPc b) = Some b' \<Longrightarrow> bf_step ops b b'"
| goroutine: "bfGoStep ops b = Some b' \<Longrightarrow> bf_step ops b b'"
| cancel: "bf_step ops b (bfCancel ops b)"

section \<open>Whole objects only\<close>

text \<open>What the source delivers up to its first error, and whether that error is the end of the stream.\<close>

fun wholeOf :: "(bytes \<times> goerr) list \<Rightarrow> bytes" where
  "wholeOf [] = []"
| "wholeOf ((p, e) # rest) = (if e \<noteq> [] then p else p @ wholeOf rest)"

fun endsClean :: "(bytes \<times> goerr) list \<Rightarrow> bool" where
  "endsClean [] = False"
| "endsClean ((p, e) # rest) = (if e \<noteq> [] then errIs e EOF else endsClean rest)"

text \<open>
  What is still to come to the channel from the program counter and the source; after the first error,
  nothing.
\<close>

fun pcRest :: "bfPc \<Rightarrow> (bytes \<times> goerr) list \<Rightarrow> bytes \<times> bool" where
  "pcRest (RSend p e) src = (if e \<noteq> [] then (p, errIs e EOF) else (p @ wholeOf src, endsClean src))"
| "pcRest (RErr e) src = ([], errIs e EOF)"
| "pcRest RIdle src = (wholeOf src, endsClean src)"
| "pcRest pc src = ([], False)"

text \<open>
  The invariant of runs in which the channel was never full: as long as the writer is live, what was
  written, what is in the channel and what is still to come make up the whole object, and the channel is
  only closed after the end of the stream was seen.
\<close>

definition bf_inv :: "('w \<Rightarrow> (Key \<times> bytes \<times> string) option) \<Rightarrow> Key \<Rightarrow> string \<Rightarrow> bytes \<Rightarrow> bool \<Rightarrow> ('c, 'w) backfillReadCloser \<Rightarrow> bool" where
  "bf_inv pend key q whole clean b \<longleftrightarrow> bfOver b \<or> bfDone b \<noteq> None \<or> pend (bfDst b) = None \<or>
     (bfErr b = [] \<and> (\<exists>d. pend (bfDst b) = Some (key, d, q) \<and>
       (if bfEof b then clean \<and> d @ concat (bfCh b) = whole \<and> (bfClosed b \<or> bfPc b = RShut)
        else \<not> bfClosed b \<and> bfPc b \<in> {RIdle, CStart} \<union> range RErr \<union> {RSend p e |p e. True} \<and>
             (bfPc b \<noteq> CStart \<longrightarrow> (d @ concat (bfCh b) @ fst (pcRest (bfPc b) (bfSrc b)) = whole \<and>
                                   snd (pcRest (bfPc b) (bfSrc b)) = clean)))))"

definition bf_commit :: "('c \<Rightarrow> Key \<Rightarrow> (bytes \<times> header) option) \<Rightarrow> Key \<Rightarrow> string \<Rightarrow> bytes \<Rightarrow> bool \<Rightarrow> 'c \<Rightarrow> ('c, 'w) backfillReadCloser \<Rightarrow> bool" where
  "bf_commit obj key q whole clean c0 b \<longleftrightarrow>
     (if bfDone b = None then bfCache b = c0
      else bfOver b \<or> forgets obj c0 (bfCache b) {key} \<and>
        (obj (bfCache b) key \<in> {None, obj c0 key} \<or>
         clean \<and> (\<exists>h. obj (bfCache b) key = Some (whole, h) \<and> hGet h ETagKey = q)))"

lemma closeChan_sel [simp]:
  "bfSrc (closeChan b) = bfSrc b" "bfCh (closeChan b) = bfCh b" "bfClosed (closeChan b)" "bfEof (closeChan b) = bfEof b"
  "bfPc (closeChan b) = bfPc b" "bfDst (closeChan b) = bfDst b" "bfErr (closeChan b) = bfErr b" "bfDone (closeChan b) = bfDone b"
  "bfCache (closeChan b) = bfCache b" "bfOver (closeChan b) = bfOver b" "bfGot (closeChan b) = bfGot b"
  "bfSrcClose (closeChan b) = bfSrcClose b"
  by (simp_all add: closeChan_def)

lemma bfCancel_sel [simp]:
  "bfSrc (bfCancel ops b) = bfSrc b" "bfCh (bfCancel ops b) = bfCh b" "bfClosed (bfCancel ops b) = bfClosed b"
  "bfEof (bfCancel ops b) = bfEof b" "bfPc (bfCancel ops b) = bfPc b" "bfDst (bfCancel ops b) = wCancel ops (bfDst b)"
  "bfErr (bfCancel ops b) = bfErr b" "bfDone (bfCancel ops b) = bfDone b" "bfCache (bfCancel ops b) = bfCache b"
  "bfOver (bfCancel ops b) = bfOver b" "bfGot (bfCancel ops b) = bfGot b" "bfSrcClose (bfCancel ops b) = bfSrcClose b"
  by (simp_all add: bfCancel_def)

text \<open>The caller's steps never touch the tier or the goroutine's result.\<close>

lemma bf_reader_frame:
  assumes "bfReadCall b = Some b' \<or> bfReadNext ops b (bfPc b) = Some b' \<or> bfCloseCall b = Some b' \<or>
    bfCloseNext ops b (bfPc b) = Some b' \<or> b' = bfCancel ops b"
  shows "bfDone b' = bfDone b \<and> bfCache b' = bfCache b \<and> (bfOver b \<longrightarrow> bfOver b')"
  using assms
proof (elim disjE)
  assume "bfReadNext ops b (bfPc b) = Some b'"
  then show ?thesis by (cases "bfPc b") (auto split: if_splits)
next
  assume "bfCloseNext ops b (bfPc b) = Some b'"
  then show ?thesis by (cases "bfPc b") (auto split: if_splits option.splits)
qed (auto simp: bfReadCall_def bfCloseCall_def split: bfPc.splits list.splits if_splits)

context cache_backend
begin

lemma bf_inv_readNext:
  assumes "bf_inv pend key q whole clean b" "bfReadNext ops b (bfPc b) = Some b'"
  shows "bf_inv pend key q whole clean b'"
proof (cases "bfPc b")
  case (RSend p e)
  then show ?thesis using assms
    by (cases "bfEof b"; cases "e = []") (auto simp: bf_inv_def afterChunk_def split: if_splits)
next
  case (RErr e)
  then show ?thesis using assms cancel_spec by (auto simp: bf_inv_def split: if_splits)
qed (use assms cancel_spec in \<open>auto simp: bf_inv_def split: if_splits\<close>)

lemma bf_inv_read:
  assumes "bf_inv pend key q whole clean b" "bfReadCall b = Some b'"
  shows "bf_inv pend key q whole clean b'"
proof -
  obtain p e rest where b: "bfPc b = RIdle" "bfSrc b = (p, e) # rest"
    "b' = b\<lparr>bfSrc := rest, bfGot := bfGot b @ p, bfPc := (if p \<noteq> [] then RSend p e else afterChunk e)\<rparr>"
    using assms(2) by (auto simp: bfReadCall_def split: bfPc.splits list.splits)
  show ?thesis
    using assms(1) b by (cases "bfEof b"; cases "e = []"; cases "p = []") (auto simp: bf_inv_def afterChunk_def)
qed

lemma bf_inv_close:
  assumes "bf_inv pend key q whole clean b" "bfCloseCall b = Some b' \<or> bfCloseNext ops b (bfPc b) = Some b'"
  shows "bf_inv pend key q whole clean b'"
  using assms(2)
proof
  assume "bfCloseCall b = Some b'"
  then show ?thesis using assms(1) by (auto simp: bfCloseCall_def bf_inv_def split: if_splits)
next
  assume "bfCloseNext ops b (bfPc b) = Some b'"
  then show ?thesis
    using assms(1) cancel_spec by (cases "bfPc b") (auto simp: bf_inv_def split: if_splits option.splits)
qed

lemma bf_inv_go:
  assumes "bf_inv pend key q whole clean b" "bfGoStep ops b = Some b'"
  shows "bf_inv pend key q whole clean b'"
proof (cases "bfCh b")
  case Nil
  then have "bfDone b' \<noteq> None" using assms(2) by (auto simp: bfGoStep_def split: if_splits prod.splits outcome.splits)
  then show ?thesis by (simp add: bf_inv_def)
next
  case (Cons chunk rest)
  obtain n e w where w: "wWrite ops (bfDst b) chunk = ((n, e), w)" by (metis prod.exhaust)
  have "pend w = map_option (\<lambda>(k, d, q). (k, d @ chunk, q)) (pend (bfDst b))" if "e = []"
    using write_spec w that by blast
  then show ?thesis
    using assms Cons w cancel_spec by (cases "e = []"; cases "bfErr b = []") (auto simp: bfGoStep_def bf_inv_def split: if_splits)
qed

lemma bf_commit_go:
  assumes "bf_inv pend key q whole clean b" "bf_commit obj key q whole clean c0 b" "bfGoStep ops b = Some b'"
  shows "bf_commit obj key q whole clean c0 b'"
proof (cases "bfCh b")
  case (Cons chunk rest)
  then show ?thesis using assms(2,3) by (auto simp: bfGoStep_def bf_commit_def split: if_splits prod.splits)
next
  case Nil
  obtain ce w c where cl: "wClose ops (bfDst b) (bfCache b) = (Ret ce, w, c)" and dn: "bfDone b = None" and closed: "bfClosed b"
    and b': "bfDone b' \<noteq> None" "bfCache b' = c" "bfOver b' = bfOver b"
    using assms(3) Nil by (auto simp: bfGoStep_def split: if_splits prod.splits outcome.splits)
  have c0: "bfCache b = c0" using assms(2) dn by (simp add: bf_commit_def)
  show ?thesis
  proof (cases "pend (bfDst b)")
    case None
    then have "forgets obj c0 c {}" using close_none [OF cl] c0 by simp
    then show ?thesis using b' by (auto simp: bf_commit_def forgets_def)
  next
    case (Some x)
    then have live: "bfOver b \<or> clean \<and> pend (bfDst b) = Some (key, whole, q)"
      using assms(1) dn closed Nil by (auto simp: bf_inv_def split: if_splits)
    then show ?thesis
      using b' close_some [OF cl, of key whole q] c0 by (auto simp: bf_commit_def)
  qed
qed

lemma bf_reach_inv:
  assumes "rtranclp (bf_step ops) b b'" "bf_inv pend key q whole clean b" "bf_commit obj key q whole clean c0 b"
  shows "bf_inv pend key q whole clean b' \<and> bf_commit obj key q whole clean c0 b'"
  using assms
proof (induction rule: rtranclp_induct)
  case (step y z)
  then have inv: "bf_inv pend key q whole clean y" and com: "bf_commit obj key q whole clean c0 y" by simp_all
  have frame: "bf_commit obj key q whole clean c0 z"
    if "bfDone z = bfDone y \<and> bfCache z = bfCache y \<and> (bfOver y \<longrightarrow> bfOver z)"
    using that com by (auto simp: bf_commit_def)
  from step.hyps(2) show ?case
  proof cases
    case cancel
    then show ?thesis using inv cancel_spec frame bf_reader_frame [of y z ops] by (auto simp: bf_inv_def)
  qed (use inv com frame bf_reader_frame [of y z ops] in
      \<open>auto intro: bf_inv_read bf_inv_readNext bf_inv_close bf_inv_go bf_commit_go\<close>)
qed simp

text \<open>Whatever the interleaving, a backfill that never found its channel full commits the whole object or nothing.\<close>

lemma bf_whole_or_nothing:
  assumes "rtranclp (bf_step ops) (newBackfillReadCloser src closeErr w c) b" "pend w = Some (key, [], q) \<or> pend w = None"
    and "\<not> bfOver b"
  shows "forgets obj c (bfCache b) {key} \<and> (obj (bfCache b) key \<in> {None, obj c key} \<or>
    endsClean src \<and> (\<exists>h. obj (bfCache b) key = Some (wholeOf src, h) \<and> hGet h ETagKey = q))"
proof -
  have "bf_inv pend key q (wholeOf src) (endsClean src) (newBackfillReadCloser src closeErr w c)"
    using assms(2) by (auto simp: bf_inv_def newBackfillReadCloser_def)
  moreover have "bf_commit obj key q (wholeOf src) (endsClean src) c (newBackfillReadCloser src closeErr w c)"
    by (simp add: bf_commit_def newBackfillReadCloser_def)
  ultimately have "bf_commit obj key q (wholeOf src) (endsClean src) c b" using bf_reach_inv [OF assms(1)] by blast
  then show ?thesis using assms(3) by (auto simp: bf_commit_def split: if_splits)
qed

end

section \<open>The reader that an open returns\<close>

lemma convergeTier0_backfill:
  "convergeTier0 t s ctxErr key r h tier part = (TBackfill b w, s') \<Longrightarrow>
   \<not> part \<and> b = r \<and> cCreate (caches t ! 0) (tsTiers s ! 0) ctxErr key h 0 (backfillCreateOptions h) = (Inr w, tsTiers s' ! 0) \<or>
   tsTiers s = []"
  by (auto simp: convergeTier0_def backfillReader_def setTier_def split: if_splits prod.splits sum.splits)

text \<open>A backfilling reader was created in tier 0 for a request without a range, with the headers that are returned.\<close>

lemma openTiers_backfill:
  assumes "openTiers t ctxErr key opts is fallback rejected probeErrs errs s = ((TBackfill b w, h, e), s')" "tsTiers s \<noteq> []"
  shows "e = [] \<and> oRange (NewRequestOptions opts) = '''' \<and>
    (\<exists>c. cCreate (caches t ! 0) c ctxErr key h 0 (backfillCreateOptions h) = (Inr w, tsTiers s' ! 0))"
  using assms(1,2)
proof (induction "is" arbitrary: s fallback rejected probeErrs errs)
  case Nil
  then show ?case by (auto split: if_splits option.splits)
next
  case (Cons i "is")
  obtain r0 h0 e0 c where op: "cOpen (caches t ! i) (tsTiers s ! i) key opts = ((r0, h0, e0), c)" by (metis prod.exhaust)
  obtain cs s2 where cs: "invalidateStaleConditional t (setTier s i c) i key h0 e0 = (cs, s2)" by (metis prod.exhaust)
  obtain sl s3 where sl: "(if i < lastTier t then invalidateStale t s2 i key h0 else (False, s2)) = (sl, s3)" by (metis prod.exhaust)
  have inv: "tsTiers s' \<noteq> []" if "invalidateStale t s i key h = (x, s')" "tsTiers s \<noteq> []" for s s' h x
    using that by (auto simp: invalidateStale_def setTier_def Let_def split: if_splits prod.splits)
  have ne: "tsTiers (setTier s i c) \<noteq> []" "tsTiers s2 \<noteq> []" "tsTiers s3 \<noteq> []"
    using Cons.prems(2) cs sl inv by (auto simp: invalidateStaleConditional_def setTier_def split: if_splits)
  obtain r4 s4 where cv: "convergeTier0 t s3 ctxErr key r0 h0 i (oRange (NewRequestOptions opts) \<noteq> '''') = (r4, s4)"
    by (metis prod.exhaust)
  note run = Cons.prems(1) [simplified openTiers.simps op prod.case Let_def cs sl cv]
  have conv: "oRange (NewRequestOptions opts) = [] \<and>
      (\<exists>c. cCreate (caches t ! 0) c ctxErr key h0 0 (backfillCreateOptions h0) = (Inr w, tsTiers s4 ! 0))" if "r4 = TBackfill b w"
    using convergeTier0_backfill [OF cv [unfolded that]] ne(3) by blast
  show ?case
    using run Cons.IH [OF _ ne(1)] Cons.IH [OF _ ne(2)] Cons.IH [OF _ ne(3)] conv by (auto split: if_splits)
qed

lemma openSpec_noRange:
  assumes "openSpec ob opts = (b, h, [])" "oRange (NewRequestOptions opts) = ''''"
  shows "\<exists>d h0. ob = Some (d, h0) \<and> b = bytesReader d \<and> hGet h ETagKey = hGet h0 ETagKey"
proof (cases ob)
  case None
  then show ?thesis using assms(1) by (simp add: openSpec_def)
next
  case (Some o')
  obtain d h0 where o': "o' = (d, h0)" by (cases o')
  from assms(1) [unfolded Some o'] show ?thesis
    by (cases rule: openSpec_Some) (use assms(2) in \<open>auto simp: Some o' ResolveRange_def\<close>)
qed

context tiered_tiers
begin

lemma tieredOpen_backfill:
  assumes "bok (tsMeta s)" "length (tsTiers s) = length (caches t)"
    and "tieredOpen t s ctxErr key opts = ((TBackfill b w, h, e), s1)" "RawETagFromHeader (hGet h ETagKey) = (raw, [])"
  shows "e = [] \<and> (pend 0 w = Some (key, [], hGet h ETagKey) \<or> pend 0 w = None)"
    and "\<exists>i < length (caches t). \<exists>d h0. obj i (tsTiers s ! i) key = Some (d, h0) \<and> b = bytesReader d \<and>
      hGet h0 ETagKey = hGet h ETagKey \<and> \<not> isStale (lastTier t) (recorded (st (tsMeta s) (tNamespace t)) key) i h"
proof -
  have z: "0 < length (caches t)" "tsTiers s \<noteq> []" using some_tier assms(2) by auto
  obtain c where op: "e = []" "oRange (NewRequestOptions opts) = ''''"
    "cCreate (caches t ! 0) c ctxErr key h 0 (backfillCreateOptions h) = (Inr w, tsTiers s1 ! 0)"
    using openTiers_backfill [OF assms(3) [unfolded tieredOpen_def] z(2)] by blast
  have "pend 0 w = Some (key, [], hGet h ETagKey)" if "ctxErr = []"
    using tier_create_etag [OF z(1) _ Format_RawETag [OF assms(4)]] op(3) that by (simp add: backfillCreateOptions_def assms(4))
  moreover have "pend 0 w = None" if "ctxErr \<noteq> []" using tier_create [OF z(1) op(3)] that by simp
  ultimately show "e = [] \<and> (pend 0 w = Some (key, [], hGet h ETagKey) \<or> pend 0 w = None)" using op(1) by (cases "ctxErr = []") simp_all
  obtain i where i: "i < length (caches t)" "fst (cOpen (caches t ! i) (tsTiers s ! i) key opts) = (b, h, [])"
    "\<not> isStale (lastTier t) (recorded (st (tsMeta s) (tNamespace t)) key) i h"
    using tieredOpen_serves [OF assms(1) some_tier assms(3) [unfolded op(1)]] by auto
  obtain c' where c': "cOpen (caches t ! i) (tsTiers s ! i) key opts = ((b, h, []), c')" using i(2) by (metis fst_conv surj_pair)
  have "openSpec (obj i (tsTiers s ! i) key) opts = (b, h, [])" using tier_open [OF i(1) c'] by (auto simp: hardErr_def)
  then show "\<exists>i < length (caches t). \<exists>d h0. obj i (tsTiers s ! i) key = Some (d, h0) \<and> b = bytesReader d \<and>
      hGet h0 ETagKey = hGet h ETagKey \<and> \<not> isStale (lastTier t) (recorded (st (tsMeta s) (tNamespace t)) key) i h"
    using openSpec_noRange op(2) i by metis
qed

end

section \<open>Properties\<close>

text \<open>
  C21: a backfill commits the whole object or nothing.  When \<^verbatim>\<open>Open\<close> returns a reader that copies into
  tier 0, then in every interleaving of the caller's reads and close with the writing goroutine, with
  any failure of the source, of a write or of the request's context, and as long as the channel is never
  found full, tier 0 has for the key what it had before, or nothing, or exactly the object that one of
  the tiers held, complete and with the same ETag, and this only after the source ended cleanly.
\<close>

theorem backfill_whole_or_nothing:
  assumes "t = memTiered httpTime configs ns" "configs \<noteq> []" "length (tsTiers s) = length configs"
    and "tieredOpen t s ctxErr key opts = ((TBackfill body w, h, e), s1)" "RawETagFromHeader (hGet h ETagKey) = (raw, [])"
    and "endsClean src \<Longrightarrow> wholeOf src = concat (bBlocks body)"
    and "rtranclp (bf_step (caches t ! 0)) (newBackfillReadCloser src closeErr w (tsTiers s1 ! 0)) b" "\<not> bfOver b"
  shows "memObj (configs ! 0) ns (bfCache b) key \<in> {None, memObj (configs ! 0) ns (tsTiers s1 ! 0) key} \<or>
    endsClean src \<and> (\<exists>i < length configs. \<exists>d h0 h'. memObj (configs ! i) ns (tsTiers s ! i) key = Some (d, h0) \<and>
       memObj (configs ! 0) ns (bfCache b) key = Some (d, h') \<and> hGet h' ETagKey = hGet h0 ETagKey)"
proof -
  obtain config rest where cfg: "configs = config # rest" using assms(2) by (cases configs) auto
  have n: "length (caches t) = length configs" by (simp add: assms(1) memTiered_def)
  have ops: "caches t ! 0 = memoryOps httpTime (configs ! 0) ns" by (simp add: assms(1) memTiered_def cfg)
  note op = mt.tieredOpen_backfill [of s httpTime config rest ns ctxErr key opts, folded cfg, folded assms(1), OF _ _ assms(4,5)]
  have w: "memPend ns w = Some (key, [], hGet h ETagKey) \<or> memPend ns w = None" using op(1) assms(3) n by simp
  obtain i d h0 where i: "i < length configs" "memObj (configs ! i) ns (tsTiers s ! i) key = Some (d, h0)"
    "body = bytesReader d" "hGet h0 ETagKey = hGet h ETagKey"
    using op(2) assms(3) n by auto
  have "wholeOf src = d" if "endsClean src" using assms(6) that i(3) by (simp add: bytesReader_def)
  then show ?thesis
    using mem.bf_whole_or_nothing [OF assms(7) [unfolded ops] w assms(8)] i by (metis (no_types, lifting))
qed

section \<open>A full channel\<close>

text \<open>Runs of the caller alone and of the goroutine alone.\<close>

lemma bf_fill:
  assumes "bfPc b = RIdle" "\<not> bfClosed b" "bfSrc b = replicate k (p, []) @ rest" "p \<noteq> []" "length (bfCh b) + k \<le> backfillBufSize"
  shows "rtranclp (bf_step ops) b (b\<lparr>bfSrc := rest, bfGot := bfGot b @ concat (replicate k p), bfCh := bfCh b @ replicate k p\<rparr>)"
  using assms
proof (induction k arbitrary: b)
  case 0
  then have "b\<lparr>bfSrc := rest, bfGot := bfGot b @ concat (replicate 0 p), bfCh := bfCh b @ replicate 0 p\<rparr> = b" by (cases b) simp
  then show ?case by simp
next
  case (Suc k)
  let ?b1 = "b\<lparr>bfSrc := replicate k (p, []) @ rest, bfGot := bfGot b @ p, bfPc := RSend p []\<rparr>"
  let ?b2 = "?b1\<lparr>bfCh := bfCh b @ [p], bfPc := RIdle\<rparr>"
  have "bf_step ops b ?b1" using Suc.prems by (intro bf_step.read) (simp add: bfReadCall_def)
  moreover have "bf_step ops ?b1 ?b2" using Suc.prems by (intro bf_step.readNext) (simp add: afterChunk_def)
  moreover have "rtranclp (bf_step ops) ?b2 (?b2\<lparr>bfSrc := rest, bfGot := bfGot ?b2 @ concat (replicate k p), bfCh := bfCh ?b2 @ replicate k p\<rparr>)"
    using Suc.prems by (intro Suc.IH) simp_all
  moreover have "?b2\<lparr>bfSrc := rest, bfGot := bfGot ?b2 @ concat (replicate k p), bfCh := bfCh ?b2 @ replicate k p\<rparr> =
      b\<lparr>bfSrc := rest, bfGot := bfGot b @ concat (replicate (Suc k) p), bfCh := bfCh b @ replicate (Suc k) p\<rparr>"
    using Suc.prems(1) by simp
  ultimately show ?case by (auto intro: converse_rtranclp_into_rtranclp)
qed

lemma bf_drain:
  assumes "bfErr b = []" "bfDone b = None" "bfDst b = wWriter h d"
  shows "rtranclp (bf_step (memoryOps httpTime config ns)) b (b\<lparr>bfCh := [], bfDst := wWriter h (d @ concat (bfCh b))\<rparr>)"
  using assms
proof (induction "bfCh b" arbitrary: b d)
  case Nil
  then have "b\<lparr>bfCh := [], bfDst := wWriter h (d @ concat (bfCh b))\<rparr> = b" by (cases b) simp
  then show ?case by simp
next
  case (Cons p ps)
  let ?b1 = "b\<lparr>bfCh := ps, bfDst := wWriter h (d @ p)\<rparr>"
  have "bf_step (memoryOps httpTime config ns) b ?b1"
    using Cons.prems Cons.hyps(2) [symmetric] by (intro bf_step.goroutine) (simp add: bfGoStep_def memoryOps_def MemWrite_def wWriter_def)
  moreover have "rtranclp (bf_step (memoryOps httpTime config ns)) ?b1 (?b1\<lparr>bfCh := [], bfDst := wWriter h ((d @ p) @ concat (bfCh ?b1))\<rparr>)"
    using Cons.prems by (intro Cons.hyps(1)) simp_all
  moreover have "?b1\<lparr>bfCh := [], bfDst := wWriter h ((d @ p) @ concat (bfCh ?b1))\<rparr> = b\<lparr>bfCh := [], bfDst := wWriter h (d @ concat (bfCh b))\<rparr>"
    using Cons.hyps(2) [symmetric] by simp
  ultimately show ?case by (auto intro: converse_rtranclp_into_rtranclp)
qed

text \<open>The rest of the caller's run once the goroutine is done: it cancels, reads the end of the stream and closes.\<close>

lemma bf_finish:
  assumes "bfPc b = RCancel []" "bfSrc b = [([], [EOF])]" "bfClosed b" "bfDone b = Some []" "bfSrcClose b = []"
  shows "\<exists>b'. rtranclp (bf_step ops) b b' \<and> bfPc b' = CDone [] \<and> bfGot b' = bfGot b \<and> bfCache b' = bfCache b"
proof -
  note snoc = rtranclp.rtrancl_into_rtrancl [of "bf_step ops" b]
  define b1 where "b1 = (bfCancel ops b)\<lparr>bfPc := RIdle\<rparr>"
  have r1: "bf_step ops b b1" using assms by (intro bf_step.readNext) (simp add: b1_def afterChunk_def)
  define b2 where "b2 = b1\<lparr>bfSrc := [], bfPc := RErr [EOF]\<rparr>"
  have r2: "bf_step ops b1 b2" using assms by (intro bf_step.read) (simp add: bfReadCall_def b2_def b1_def afterChunk_def)
  define b3 where "b3 = b2\<lparr>bfEof := True, bfPc := RShut\<rparr>"
  have r3: "bf_step ops b2 b3" by (intro bf_step.readNext) (simp add: b3_def b2_def errIs_def)
  define b4 where "b4 = b3\<lparr>bfPc := RIdle\<rparr>"
  have closed: "bfClosed b4" using assms by (simp add: b4_def b3_def b2_def b1_def)
  have r4: "bf_step ops b3 b4" using closed by (intro bf_step.readNext) (simp add: b4_def b3_def closeChan_def)
  have r5: "bf_step ops b4 (b4\<lparr>bfPc := CStart\<rparr>)" by (intro bf_step.close) (simp add: b4_def bfCloseCall_def)
  have r6: "bf_step ops (b4\<lparr>bfPc := CStart\<rparr>) (b4\<lparr>bfPc := CShut\<rparr>)" by (intro bf_step.closeNext) (simp add: b4_def b3_def)
  have r7: "bf_step ops (b4\<lparr>bfPc := CShut\<rparr>) (b4\<lparr>bfPc := CJoin\<rparr>)"
    using closed by (intro bf_step.closeNext) (simp add: closeChan_def)
  have r8: "bf_step ops (b4\<lparr>bfPc := CJoin\<rparr>) (b4\<lparr>bfPc := CDone []\<rparr>)"
    using assms by (intro bf_step.closeNext) (simp add: b4_def b3_def b2_def b1_def)
  have "rtranclp (bf_step ops) b (b4\<lparr>bfPc := CDone []\<rparr>)"
    by (rule snoc [OF snoc [OF snoc [OF snoc [OF snoc [OF snoc [OF snoc [OF snoc [OF rtranclp.rtrancl_refl r1] r2] r3] r4] r5] r6] r7] r8])
  then show ?thesis by (intro exI [of _ "b4\<lparr>bfPc := CDone []\<rparr>"]) (simp add: b4_def b3_def b2_def b1_def)
qed

lemma concat_replicate_single: "concat (replicate k [x]) = replicate k x"
  by (induction k) auto

lemma replicate_129: "replicate 129 x = replicate 128 x @ [x]"
  using replicate_append_same [of 128 x] by (simp add: numeral_eq_Suc)

lemma wCloseObj:
  "\<exists>w' c'. wClose (memoryOps (\<lambda>_. ''now'') wCfg ''ns'') (wWriter h d) (wTier es) = (Ret [], w', c') \<and>
     memObj wCfg ''ns'' c' [5] = Some (d, h)"
  by (simp add: memoryOps_def wWriter_def wTier_def tierView_def MemWriterClose_def Let_def wCfg_def memObj_def memFind_def)

text \<open>
  C22: a full channel can leave a truncated object in tier 0.  When the channel is full, \<^verbatim>\<open>Read\<close> closes it
  before it cancels the writer, and between the two the goroutine can drain the channel and commit: the
  caller receives all 129 bytes and closes without an error, and tier 0 then holds the first 128 of them
  as the object, with the ETag of the whole one.
\<close>

theorem backfill_overflow_truncates:
  "\<exists>b. rtranclp (bf_step (memoryOps (\<lambda>_. ''now'') wCfg ''ns''))
       (newBackfillReadCloser (replicate 129 ([7], []) @ [([], [EOF])]) [] (wWriter h []) (wTier es)) b \<and>
     bfPc b = CDone [] \<and> bfGot b = replicate 129 7 \<and>
     memObj wCfg ''ns'' (bfCache b) [5] = Some (replicate 128 7, h)"
proof -
  let ?ops = "memoryOps (\<lambda>_. ''now'') wCfg ''ns''"
  let ?S = "rtranclp (bf_step ?ops)"
  let ?rest = "[([7], []), ([], [EOF])] :: (bytes \<times> goerr) list"
  define b0 where "b0 = newBackfillReadCloser (replicate 129 ([7 :: 8 word], []) @ [([], [EOF])]) [] (wWriter h []) (wTier es)"
  note b0 = b0_def newBackfillReadCloser_def
  define b1 where "b1 = b0\<lparr>bfSrc := ?rest, bfGot := replicate 128 7, bfCh := replicate 128 [7]\<rparr>"
  have "?S b0 (b0\<lparr>bfSrc := ?rest, bfGot := bfGot b0 @ concat (replicate 128 [7]), bfCh := bfCh b0 @ replicate 128 [7]\<rparr>)"
    by (rule bf_fill) (simp_all add: b0 backfillBufSize_def replicate_129)
  then have r1: "?S b0 b1" by (simp add: b1_def b0 concat_replicate_single)
  define b2 where "b2 = b1\<lparr>bfSrc := [([], [EOF])], bfGot := replicate 129 7, bfPc := RSend [7] []\<rparr>"
  have r2: "bf_step ?ops b1 b2"
    by (intro bf_step.read) (simp add: bfReadCall_def b1_def b2_def b0 replicate_129)
  define b3 where "b3 = b2\<lparr>bfClosed := True, bfOver := True, bfPc := RCancel []\<rparr>"
  have r3: "bf_step ?ops b2 b3" by (intro bf_step.readNext) (simp add: b3_def b2_def b1_def b0 backfillBufSize_def)
  define b4 where "b4 = b3\<lparr>bfCh := [], bfDst := wWriter h (replicate 128 7)\<rparr>"
  have "?S b3 (b3\<lparr>bfCh := [], bfDst := wWriter h ([] @ concat (bfCh b3))\<rparr>)"
    by (rule bf_drain) (simp_all add: b3_def b2_def b1_def b0)
  then have r4: "?S b3 b4" by (simp add: b4_def b3_def b2_def b1_def concat_replicate_single)
  obtain w' c' where cl: "wClose ?ops (wWriter h (replicate 128 7)) (wTier es) = (Ret [], w', c')"
    and obj: "memObj wCfg ''ns'' c' [5] = Some (replicate 128 7, h)"
    using wCloseObj by blast
  define b5 where "b5 = b4\<lparr>bfDone := Some [], bfCache := c', bfDst := w'\<rparr>"
  note states = b5_def b4_def b3_def b2_def b1_def b0
  have r5: "bf_step ?ops b4 b5" by (intro bf_step.goroutine) (simp add: bfGoStep_def cl states)
  obtain b where b: "?S b5 b" "bfPc b = CDone []" "bfGot b = bfGot b5" "bfCache b = bfCache b5"
    using bf_finish [of b5 ?ops] by (auto simp: states)
  have "?S b0 b3" using r1 r2 r3 by (meson rtranclp.rtrancl_into_rtrancl)
  then have "?S b0 b5" using r4 r5 by (meson rtranclp.rtrancl_into_rtrancl rtranclp_trans)
  then show ?thesis using b obj rtranclp_trans [of "bf_step ?ops" b0 b5 b] by (intro exI [of _ b]) (simp add: states)
qed

section \<open>Witness\<close>

text \<open>An empty first tier and an object in the second.\<close>

definition bQuoted :: string where
  "bQuoted = [CHR 0x22, CHR ''b'', CHR 0x22]"

definition bState :: "(memTier, MemoryBackend) tieredSt" where
  "bState = \<lparr>tsTiers = [wTier Map.empty, wTier [[5] \<mapsto> wEntry bQuoted [2, 3]]], tsMeta = Map.empty, tsHealer = newTieredHealer\<rparr>"

lemma bMiss: "cOpen (memoryOps (\<lambda>_. ''now'') wCfg ''ns'') (wTier Map.empty) [5] [] = ((nilBody, Map.empty, [ErrNotExist]), wTier Map.empty)"
  by (simp add: memoryOps_def tierView_def wTier_def MemOpen_def memFind_def)

lemma bHit: "cOpen (memoryOps (\<lambda>_. ''now'') wCfg ''ns'') (wTier [[5] \<mapsto> wEntry q d]) [5] [] =
   ((bytesReader d, [''Etag'' \<mapsto> [q], ''Content-Length'' \<mapsto> [FormatInt (int (length d))]], []), wTier [[5] \<mapsto> wEntry q d])"
  using wOpen [of q d] by (simp add: memoryOps_def tierView_def prod_eq_iff)

lemma bRaw: "RawETagFromHeader bQuoted = (''b'', [])"
  by (simp add: RawETagFromHeader_def bQuoted_def ValidateRawETag_def isRawETagChar_def Let_def less_eq_char_def)

lemma bOpen: "\<exists>w h s1. tieredOpen wTiered bState [] [5] [] = ((TBackfill (bytesReader [2, 3]) w, h, []), s1) \<and> hGet h ETagKey = bQuoted"
proof -
  have fe: "FormatETag ''b'' = (bQuoted, [])" by (rule Format_RawETag [OF bRaw])
  show ?thesis
    by (simp add: tieredOpen_def wCaches bState_def numeral_2_eq_2 bMiss bHit errIs_def lastTier_def setTier_def Let_def
      invalidateStaleConditional_def IfRangeMisses_def convergeTier0_def backfillReader_def backfillCreateOptions_def hGet_def bRaw
      memoryOps_def [THEN arg_cong [where f = cCreate]] MemCreate_def setCreateETag_def createETag_def go_simps fe)
qed

theorem backfill_whole_or_nothing_witness:
  "\<exists>w h s1 b. tieredOpen wTiered bState [] [5] [] = ((TBackfill (bytesReader [2, 3]) w, h, []), s1) \<and>
     rtranclp (bf_step (caches wTiered ! 0)) (newBackfillReadCloser [([2, 3], [EOF])] [] w (tsTiers s1 ! 0)) b \<and>
     bfGot b = [2, 3] \<and>
     (memObj wCfg ''ns'' (bfCache b) [5] \<in> {None, memObj wCfg ''ns'' (tsTiers s1 ! 0) [5]} \<or>
      (\<exists>d h'. memObj wCfg ''ns'' (bfCache b) [5] = Some (d, h')))"
proof -
  obtain w h s1 where op: "tieredOpen wTiered bState [] [5] [] = ((TBackfill (bytesReader [2, 3]) w, h, []), s1)" "hGet h ETagKey = bQuoted"
    using bOpen by blast
  let ?init = "newBackfillReadCloser [([2, 3], [EOF])] [] w (tsTiers s1 ! 0)"
  let ?b = "?init\<lparr>bfSrc := [], bfGot := [2, 3], bfPc := RSend [2, 3] [EOF]\<rparr>"
  have "bf_step (caches wTiered ! 0) ?init ?b"
    by (intro bf_step.read) (simp add: bfReadCall_def newBackfillReadCloser_def)
  then have run: "rtranclp (bf_step (caches wTiered ! 0)) ?init ?b" by (rule r_into_rtranclp)
  have "memObj ([wCfg, wCfg] ! 0) ''ns'' (bfCache ?b) [5] \<in> {None, memObj ([wCfg, wCfg] ! 0) ''ns'' (tsTiers s1 ! 0) [5]} \<or>
    endsClean [([2, 3], [EOF])] \<and> (\<exists>i < length [wCfg, wCfg]. \<exists>d h0 h'. memObj ([wCfg, wCfg] ! i) ''ns'' (tsTiers bState ! i) [5] = Some (d, h0) \<and>
       memObj ([wCfg, wCfg] ! 0) ''ns'' (bfCache ?b) [5] = Some (d, h') \<and> hGet h' ETagKey = hGet h0 ETagKey)"
    by (rule backfill_whole_or_nothing [OF wTiered_def _ _ op(1) bRaw [folded op(2)] _ run])
      (simp_all add: bState_def bytesReader_def newBackfillReadCloser_def)
  then show ?thesis using op(1) run by (intro exI [of _ w] exI [of _ h] exI [of _ s1] exI [of _ ?b]) auto
qed

end
