(* ===== verification/Scheduler.thy ===== *)
theory Scheduler
  imports Prelude
begin

text \<open>
  The background job scheduler, \<^verbatim>\<open>internal/jobscheduler/jobs.go\<close>: jobs wait in one list, a fixed number of
  workers take them, at most one job per queue runs at a time, and clone jobs are limited.

  The fields behind the mutex are the record \<open>RootScheduler\<close>; its operations are functions.  The workers
  sleep on a condition variable: \<open>sched_step\<close> interleaves the critical sections of the workers, the
  callers of \<^verbatim>\<open>Submit\<close>, the timers of periodic jobs and the shutdown.  \<^verbatim>\<open>Submit\<close> signals after it has released
  the mutex, so a signal can be pending; a signal wakes one sleeping worker, any of them, or is lost when
  nobody sleeps.
\<close>

section \<open>Model\<close>

text \<open>A job with its queue and id, and its interval when it is periodic.\<close>

record queueJob =
  jQueue :: string
  jId :: string
  jInterval :: "duration option"

definition jobKey :: "string \<Rightarrow> string \<Rightarrow> string" where
  "jobKey queue ident = ident @ '':'' @ queue"

text \<open>The store of last runs is nil when no database is configured.\<close>

record RootScheduler =
  rDone :: bool
  rDraining :: bool
  rQueue :: "queueJob list"
  rActive :: "string \<rightharpoonup> string"
  rActiveClones :: int
  rMaxClones :: int
  rStore :: "(string \<rightharpoonup> time) option"

definition newMaxClones :: "int \<Rightarrow> int \<Rightarrow> int" where
  "newMaxClones concurrency maxClones =
     (if maxClones = 0 \<and> concurrency > 1 then max 1 (concurrency div 2) else maxClones)"

definition newRootScheduler :: "int \<Rightarrow> int \<Rightarrow> int \<Rightarrow> (string \<rightharpoonup> time) option \<Rightarrow> nat \<times> RootScheduler" where
  "newRootScheduler numCPU concurrency maxClones store =
     (let c = (if concurrency = 0 then numCPU else concurrency)
      in (nat c, \<lparr>rDone = False, rDraining = False, rQueue = [], rActive = Map.empty, rActiveClones = 0,
                   rMaxClones = newMaxClones c maxClones, rStore = store\<rparr>))"

definition isCloneJob :: "string \<Rightarrow> bool" where
  "isCloneJob ident \<longleftrightarrow> HasSuffix ident ''clone'' \<or> HasSuffix ident ''deferred-mirror-restore''"

definition jobType :: "string \<Rightarrow> string" where
  "jobType ident =
     (if HasSuffix ident ''clone'' then ''clone''
      else if HasSuffix ident ''deferred-mirror-restore'' then ''clone''
      else if HasSuffix ident ''fetch'' then ''fetch''
      else if HasSuffix ident ''snapshot-periodic'' \<or> HasSuffix ident ''mirror-snapshot-periodic'' then ''snapshot''
      else if HasSuffix ident ''repack-periodic'' then ''repack''
      else ''other'')"

definition Drain :: "RootScheduler \<Rightarrow> RootScheduler" where
  "Drain q = (if rDraining q then q else q\<lparr>rDraining := True\<rparr>)"

text \<open>\<^verbatim>\<open>Submit\<close> and \<^verbatim>\<open>TrySubmit\<close>; the flag says whether the job was added, and then a signal follows.\<close>

definition Submit :: "RootScheduler \<Rightarrow> queueJob \<Rightarrow> bool \<times> RootScheduler" where
  "Submit q job = (if rDone q \<or> rDraining q then (False, q) else (True, q\<lparr>rQueue := rQueue q @ [job]\<rparr>))"

definition TrySubmit :: "RootScheduler \<Rightarrow> int \<Rightarrow> queueJob \<Rightarrow> bool \<times> RootScheduler" where
  "TrySubmit q maxQueued job =
     (if rDone q \<or> rDraining q \<or> maxQueued \<le> 0 \<or> int (length (rQueue q)) \<ge> maxQueued then (False, q)
      else (True, q\<lparr>rQueue := rQueue q @ [job]\<rparr>))"

text \<open>The prefix that a scheduler made by \<^verbatim>\<open>WithQueuePrefix\<close> puts before every job id.\<close>

definition rootPrefix :: "string \<Rightarrow> string" where
  "rootPrefix prefix = prefix @ ''-''"

definition nestedPrefix :: "string \<Rightarrow> string \<Rightarrow> string" where
  "nestedPrefix outer prefix = outer @ ''-'' @ prefix"

definition prefixedJob :: "string \<Rightarrow> queueJob \<Rightarrow> queueJob" where
  "prefixedJob prefix job = job\<lparr>jId := prefix @ jId job\<rparr>"

definition canRun :: "RootScheduler \<Rightarrow> queueJob \<Rightarrow> bool" where
  "canRun q job \<longleftrightarrow> rActive q (jQueue job) = None \<and>
     \<not> (rMaxClones q > 0 \<and> isCloneJob (jId job) \<and> rActiveClones q \<ge> rMaxClones q)"

definition activate :: "RootScheduler \<Rightarrow> queueJob \<Rightarrow> RootScheduler" where
  "activate q job =
     q\<lparr>rActive := (rActive q)(jQueue job \<mapsto> jId job),
       rActiveClones := rActiveClones q + (if isCloneJob (jId job) then 1 else 0)\<rparr>"

fun takeFrom :: "RootScheduler \<Rightarrow> queueJob list \<Rightarrow> queueJob list \<Rightarrow> (queueJob \<times> RootScheduler) option" where
  "takeFrom q before [] = None"
| "takeFrom q before (job # jobs) =
     (if rActive q (jQueue job) \<noteq> None then takeFrom q (before @ [job]) jobs
      else if rMaxClones q > 0 \<and> isCloneJob (jId job) \<and> rActiveClones q \<ge> rMaxClones q then takeFrom q (before @ [job]) jobs
      else Some (job, activate (q\<lparr>rQueue := before @ jobs\<rparr>) job))"

definition takeNextJobLocked :: "RootScheduler \<Rightarrow> (queueJob \<times> RootScheduler) option" where
  "takeNextJobLocked q = takeFrom q [] (rQueue q)"

definition markQueueInactive :: "RootScheduler \<Rightarrow> string \<Rightarrow> RootScheduler" where
  "markQueueInactive q queue =
     q\<lparr>rActiveClones := rActiveClones q -
         (case rActive q queue of None \<Rightarrow> (if isCloneJob '''' then 1 else 0) | Some ident \<Rightarrow> if isCloneJob ident then 1 else 0),
       rActive := (rActive q)(queue := None)\<rparr>"

definition periodicDelay :: "RootScheduler \<Rightarrow> time \<Rightarrow> string \<Rightarrow> duration \<Rightarrow> duration" where
  "periodicDelay q now key interval =
     (case rStore q of
        None \<Rightarrow> 0
      | Some st \<Rightarrow>
          (case st key of
             None \<Rightarrow> 0
           | Some lastRun \<Rightarrow> (let remaining = lastRun + interval - now in if remaining > 0 then remaining else 0)))"

definition SetLastRun :: "RootScheduler \<Rightarrow> string \<Rightarrow> time \<Rightarrow> RootScheduler" where
  "SetLastRun q key now = q\<lparr>rStore := map_option (\<lambda>st. st(key \<mapsto> now)) (rStore q)\<rparr>"

section \<open>Model: workers and timers\<close>

text \<open>
  A worker is about to look for a job, asleep on the condition variable, running a job, or gone.  A timer
  of a periodic job submits it when it is due, or registers it again, after the run that set it.
\<close>

datatype worker = WCheck | WSleep | WRun queueJob | WExit

datatype timer = TSubmit time queueJob | TRearm time queueJob

fun timerDue :: "timer \<Rightarrow> time" where
  "timerDue (TSubmit d job) = d"
| "timerDue (TRearm d job) = d"

record sched =
  sRoot :: RootScheduler
  sWorkers :: "worker list"
  sSignals :: nat
  sTimers :: "timer list"
  sNow :: time

definition initSched :: "nat \<times> RootScheduler \<Rightarrow> time \<Rightarrow> sched" where
  "initSched nq now =
     \<lparr>sRoot = snd nq, sWorkers = replicate (fst nq) WCheck, sSignals = 0, sTimers = [], sNow = now\<rparr>"

text \<open>\<^verbatim>\<open>cond.Signal\<close> wakes one sleeping worker if there is one, \<^verbatim>\<open>cond.Broadcast\<close> all of them.\<close>

definition wake1 :: "worker list \<Rightarrow> worker list \<Rightarrow> bool" where
  "wake1 ws ws' \<longleftrightarrow> (if WSleep \<in> set ws then \<exists>i < length ws. ws ! i = WSleep \<and> ws' = ws[i := WCheck] else ws' = ws)"

definition wakeAll :: "worker list \<Rightarrow> worker list" where
  "wakeAll ws = map (\<lambda>w. if w = WSleep then WCheck else w) ws"

definition submitNow :: "sched \<Rightarrow> queueJob \<Rightarrow> sched" where
  "submitNow s job =
     (case Submit (sRoot s) job of (added, q) \<Rightarrow>
        s\<lparr>sRoot := q, sSignals := sSignals s + (if added then 1 else 0)\<rparr>)"

text \<open>\<^verbatim>\<open>SubmitPeriodicJob\<close>: submit at once, or start a timer for the rest of the interval.\<close>

definition SubmitPeriodicJob :: "sched \<Rightarrow> queueJob \<Rightarrow> sched" where
  "SubmitPeriodicJob s job =
     (if rDone (sRoot s) \<or> rDraining (sRoot s) then s
      else (let delay = periodicDelay (sRoot s) (sNow s) (jobKey (jQueue job) (jId job))
                          (case jInterval job of None \<Rightarrow> 0 | Some d \<Rightarrow> d)
            in if delay \<le> 0 then submitNow s job
               else s\<lparr>sTimers := sTimers s @ [TSubmit (sNow s + delay) job]\<rparr>))"

text \<open>
  The end of a job.  A periodic job records its run and starts the timer that registers it again, except
  when it panicked: then neither happens.
\<close>

definition jobDone :: "sched \<Rightarrow> queueJob \<Rightarrow> bool \<Rightarrow> sched" where
  "jobDone s job panicked =
     (case jInterval job of
        None \<Rightarrow> s
      | Some d \<Rightarrow>
          if panicked then s
          else s\<lparr>sRoot := SetLastRun (sRoot s) (jobKey (jQueue job) (jId job)) (sNow s),
                 sTimers := sTimers s @ [TRearm (sNow s + d) job]\<rparr>)"

definition fireTimer :: "sched \<Rightarrow> timer \<Rightarrow> sched" where
  "fireTimer s tm = (case tm of TSubmit _ job \<Rightarrow> submitNow s job | TRearm _ job \<Rightarrow> SubmitPeriodicJob s job)"

inductive sched_step :: "sched \<Rightarrow> sched \<Rightarrow> bool" where
  submit: "sched_step s (submitNow s job)"
| trySubmit: "TrySubmit (sRoot s) maxQueued job = (added, q) \<Longrightarrow>
    sched_step s (s\<lparr>sRoot := q, sSignals := sSignals s + (if added then 1 else 0)\<rparr>)"
| periodic: "sched_step s (SubmitPeriodicJob s job)"
| signal: "sSignals s = Suc n \<Longrightarrow> wake1 (sWorkers s) ws \<Longrightarrow> sched_step s (s\<lparr>sSignals := n, sWorkers := ws\<rparr>)"
| exit: "i < length (sWorkers s) \<Longrightarrow> sWorkers s ! i = WCheck \<Longrightarrow> rDone (sRoot s) \<Longrightarrow>
    sched_step s (s\<lparr>sWorkers := (sWorkers s)[i := WExit]\<rparr>)"
| take: "i < length (sWorkers s) \<Longrightarrow> sWorkers s ! i = WCheck \<Longrightarrow> \<not> rDone (sRoot s) \<Longrightarrow>
    takeNextJobLocked (sRoot s) = Some (job, q) \<Longrightarrow> wake1 ((sWorkers s)[i := WRun job]) ws \<Longrightarrow>
    sched_step s (s\<lparr>sRoot := q, sWorkers := ws\<rparr>)"
| wait: "i < length (sWorkers s) \<Longrightarrow> sWorkers s ! i = WCheck \<Longrightarrow> \<not> rDone (sRoot s) \<Longrightarrow>
    takeNextJobLocked (sRoot s) = None \<Longrightarrow> sched_step s (s\<lparr>sWorkers := (sWorkers s)[i := WSleep]\<rparr>)"
| finish: "i < length (sWorkers s) \<Longrightarrow> sWorkers s ! i = WRun job \<Longrightarrow> s1 = jobDone s job panicked \<Longrightarrow>
    wake1 ((sWorkers s)[i := WCheck]) ws \<Longrightarrow>
    sched_step s (s1\<lparr>sRoot := markQueueInactive (sRoot s1) (jQueue job), sWorkers := ws\<rparr>)"
| timer: "tm \<in> set (sTimers s) \<Longrightarrow> timerDue tm \<le> sNow s \<Longrightarrow>
    sched_step s (fireTimer (s\<lparr>sTimers := remove1 tm (sTimers s)\<rparr>) tm)"
| timerStop: "tm \<in> set (sTimers s) \<Longrightarrow> rDone (sRoot s) \<or> rDraining (sRoot s) \<Longrightarrow>
    sched_step s (s\<lparr>sTimers := remove1 tm (sTimers s)\<rparr>)"
| drain: "sched_step s (s\<lparr>sRoot := Drain (sRoot s)\<rparr>)"
| stop: "sched_step s (s\<lparr>sRoot := (sRoot s)\<lparr>rDone := True\<rparr>\<rparr>)"
| broadcast: "rDone (sRoot s) \<Longrightarrow> sched_step s (s\<lparr>sWorkers := wakeAll (sWorkers s)\<rparr>)"
| tick: "sNow s \<le> now \<Longrightarrow> sched_step s (s\<lparr>sNow := now\<rparr>)"

section \<open>Which jobs run\<close>

fun running :: "worker list \<Rightarrow> queueJob list" where
  "running [] = []"
| "running (WRun job # ws) = job # running ws"
| "running (w # ws) = running ws"

lemma running_append [simp]: "running (xs @ ys) = running xs @ running ys"
  by (induction xs rule: running.induct) auto

lemma running_set: "set (running ws) = {job. WRun job \<in> set ws}"
  by (induction ws rule: running.induct) auto

lemma running_upd:
  assumes "i < length ws"
  obtains xs ys where "ws = xs @ ws ! i # ys" "\<And>w. ws[i := w] = xs @ w # ys"
  using assms id_take_nth_drop upd_conv_take_nth_drop by metis

lemma wake1_running: "wake1 ws ws' \<Longrightarrow> running ws' = running ws"
proof -
  assume "wake1 ws ws'"
  then consider "ws' = ws" | i where "i < length ws" "ws ! i = WSleep" "ws' = ws[i := WCheck]"
    by (auto simp: wake1_def split: if_splits)
  then show ?thesis
  proof cases
    case (2 i)
    obtain xs ys where xy: "ws = xs @ ws ! i # ys" "\<And>w. ws[i := w] = xs @ w # ys" using running_upd [OF 2(1)] by metis
    have "running ws = running xs @ running ys" using 2(2) by (subst xy(1)) simp
    then show ?thesis using 2(3) xy(2) by simp
  qed simp
qed

lemma wake1_check: "wake1 ws ws' \<Longrightarrow> (WSleep \<in> set ws' \<longrightarrow> WCheck \<in> set ws') \<and> (WCheck \<in> set ws \<longrightarrow> WCheck \<in> set ws') \<and> length ws' = length ws"
  by (auto simp: wake1_def set_update_memI in_set_conv_nth nth_list_update split: if_splits)

lemma wakeAll_running [simp]: "running (wakeAll ws) = running ws"
  by (induction ws rule: running.induct) (auto simp: wakeAll_def)

section \<open>Taking a job\<close>

lemma takeFrom_None: "takeFrom q before jobs = None \<longleftrightarrow> (\<forall>job \<in> set jobs. \<not> canRun q job)"
  by (induction jobs arbitrary: before) (auto simp: canRun_def)

lemma takeFrom_Some:
  "takeFrom q before jobs = Some (job, q') \<Longrightarrow>
   \<exists>xs ys. jobs = xs @ job # ys \<and> (\<forall>j \<in> set xs. \<not> canRun q j) \<and> canRun q job \<and> q' = activate (q\<lparr>rQueue := before @ xs @ ys\<rparr>) job"
proof (induction jobs arbitrary: before)
  case (Cons j jobs)
  show ?case
  proof (cases "canRun q j")
    case True
    then have "j = job" "q' = activate (q\<lparr>rQueue := before @ jobs\<rparr>) job" using Cons.prems by (auto simp: canRun_def split: if_splits)
    then show ?thesis using True by (intro exI [of _ "[]"] exI [of _ jobs]) simp
  next
    case False
    then have "takeFrom q (before @ [j]) jobs = Some (job, q')" using Cons.prems by (auto simp: canRun_def split: if_splits)
    from Cons.IH [OF this] obtain xs ys where "jobs = xs @ job # ys" "\<forall>j \<in> set xs. \<not> canRun q j" "canRun q job"
      "q' = activate (q\<lparr>rQueue := (before @ [j]) @ xs @ ys\<rparr>) job" by blast
    then show ?thesis using False by (intro exI [of _ "j # xs"] exI [of _ ys]) simp
  qed
qed simp

section \<open>The invariant\<close>

text \<open>
  The map of active queues and the counter of clones describe the running jobs, no two of which share a
  queue, and the clone limit holds.
\<close>

definition run_inv :: "RootScheduler \<Rightarrow> queueJob list \<Rightarrow> bool" where
  "run_inv q jobs \<longleftrightarrow> distinct (map jQueue jobs) \<and>
     (\<forall>queue ident. rActive q queue = Some ident \<longleftrightarrow> (\<exists>j \<in> set jobs. jQueue j = queue \<and> jId j = ident)) \<and>
     rActiveClones q = int (length (filter (\<lambda>j. isCloneJob (jId j)) jobs)) \<and>
     (rMaxClones q > 0 \<longrightarrow> rActiveClones q \<le> rMaxClones q)"

text \<open>
  A job that could run while a worker sleeps is never overlooked: a signal is on its way or a worker is
  about to look.
\<close>

definition wake_inv :: "sched \<Rightarrow> bool" where
  "wake_inv s \<longleftrightarrow> rDone (sRoot s) \<or> WSleep \<notin> set (sWorkers s) \<or> sSignals s > 0 \<or> WCheck \<in> set (sWorkers s) \<or>
     (\<forall>job \<in> set (rQueue (sRoot s)). \<not> canRun (sRoot s) job)"

definition sched_inv :: "sched \<Rightarrow> bool" where
  "sched_inv s \<longleftrightarrow> run_inv (sRoot s) (running (sWorkers s)) \<and> wake_inv s"

lemma run_inv_cong:
  "rActive q' = rActive q \<Longrightarrow> rActiveClones q' = rActiveClones q \<Longrightarrow> rMaxClones q' = rMaxClones q \<Longrightarrow> run_inv q' jobs = run_inv q jobs"
  by (simp add: run_inv_def)

lemma run_inv_perm: "mset jobs = mset jobs' \<Longrightarrow> run_inv q jobs = run_inv q jobs'"
proof -
  assume m: "mset jobs = mset jobs'"
  have "distinct (map jQueue jobs) = distinct (map jQueue jobs')" using m by (metis mset_eq_imp_distinct_iff mset_map)
  moreover have "length (filter P jobs) = length (filter P jobs')" for P using m by (metis mset_filter size_mset)
  ultimately show ?thesis using mset_eq_setD [OF m] by (simp add: run_inv_def)
qed

lemma run_inv_activate:
  assumes "run_inv q jobs" "canRun q job"
  shows "run_inv (activate q job) (job # jobs)"
proof -
  have none: "\<forall>j \<in> set jobs. jQueue j \<noteq> jQueue job"
    using assms unfolding run_inv_def canRun_def by (metis option.distinct(1))
  have act: "rActive (activate q job) queue = Some ident \<longleftrightarrow> (\<exists>j \<in> set (job # jobs). jQueue j = queue \<and> jId j = ident)" for queue ident
    using assms(1) none by (cases "queue = jQueue job") (auto simp: run_inv_def activate_def)
  have "rMaxClones q > 0 \<longrightarrow> isCloneJob (jId job) \<longrightarrow> rActiveClones q < rMaxClones q" using assms(2) by (auto simp: canRun_def)
  then show ?thesis
    using assms(1) none act by (auto simp: run_inv_def activate_def)
qed

lemma run_inv_inactive:
  assumes "run_inv q (job # jobs)"
  shows "run_inv (markQueueInactive q (jQueue job)) jobs"
proof -
  have "distinct (map jQueue (job # jobs))" using assms unfolding run_inv_def by blast
  then have none: "\<forall>j \<in> set jobs. jQueue j \<noteq> jQueue job" by (metis distinct.simps(2) image_eqI list.simps(9) set_map)
  have act: "rActive q (jQueue job) = Some (jId job)" using assms unfolding run_inv_def by (metis list.set_intros(1))
  have "((rActive q)(jQueue job := None)) queue = Some ident \<longleftrightarrow> (\<exists>j \<in> set jobs. jQueue j = queue \<and> jId j = ident)" for queue ident
    using assms none by (cases "queue = jQueue job") (auto simp: run_inv_def)
  then show ?thesis using assms by (auto simp: run_inv_def markQueueInactive_def act split: if_splits)
qed

lemma Submit_frame:
  "Submit q job = (added, q') \<Longrightarrow> rActive q' = rActive q \<and> rActiveClones q' = rActiveClones q \<and> rMaxClones q' = rMaxClones q \<and>
   rDone q' = rDone q \<and> rDraining q' = rDraining q \<and> (\<not> added \<longrightarrow> q' = q)"
  by (auto simp: Submit_def split: if_splits)

lemma submitNow_inv:
  assumes "sched_inv s"
  shows "sched_inv (submitNow s job)"
proof -
  obtain added q where sub: "Submit (sRoot s) job = (added, q)" by (metis prod.exhaust)
  note fr = Submit_frame [OF sub]
  have "run_inv q (running (sWorkers s))" using assms fr run_inv_cong [of q "sRoot s"] by (simp add: sched_inv_def)
  moreover have "wake_inv (submitNow s job)"
    using assms fr by (cases added) (auto simp: sched_inv_def wake_inv_def submitNow_def sub)
  ultimately show ?thesis by (simp add: sched_inv_def submitNow_def sub)
qed

lemma sched_inv_timers [simp]: "sched_inv (s\<lparr>sTimers := tms\<rparr>) = sched_inv s"
  by (simp add: sched_inv_def wake_inv_def)

lemma SubmitPeriodicJob_inv: "sched_inv s \<Longrightarrow> sched_inv (SubmitPeriodicJob s job)"
  by (auto simp: SubmitPeriodicJob_def Let_def submitNow_inv)

lemma take_inv:
  assumes "sched_inv s" "i < length (sWorkers s)" "sWorkers s ! i = WCheck"
    "takeNextJobLocked (sRoot s) = Some (job, q)" "wake1 ((sWorkers s)[i := WRun job]) ws"
  shows "sched_inv (s\<lparr>sRoot := q, sWorkers := ws\<rparr>)"
proof -
  obtain xs ys where w: "sWorkers s = xs @ sWorkers s ! i # ys" "\<And>w. (sWorkers s)[i := w] = xs @ w # ys"
    using running_upd [OF assms(2)] by metis
  obtain before after where t: "canRun (sRoot s) job" "q = activate ((sRoot s)\<lparr>rQueue := before @ after\<rparr>) job"
    using takeFrom_Some [OF assms(4) [unfolded takeNextJobLocked_def]] by auto
  have "running (sWorkers s) = running xs @ running ys" using assms(3) by (subst w(1)) simp
  then have "run_inv (sRoot s) (running xs @ running ys)" using assms(1) by (simp add: sched_inv_def)
  then have "run_inv ((sRoot s)\<lparr>rQueue := before @ after\<rparr>) (running xs @ running ys)"
    by (subst run_inv_cong [of _ "sRoot s"]) simp_all
  moreover have "canRun ((sRoot s)\<lparr>rQueue := before @ after\<rparr>) job" using t(1) by (simp add: canRun_def)
  ultimately have "run_inv q (job # running xs @ running ys)" unfolding t(2) by (rule run_inv_activate)
  then have "run_inv q (running ws)"
    using wake1_running [OF assms(5)] run_inv_perm [of "running ws" "job # running xs @ running ys" q] by (simp add: w(2))
  then show ?thesis using wake1_check [OF assms(5)] by (auto simp: sched_inv_def wake_inv_def)
qed

lemma sched_inv_root:
  assumes "rActive q = rActive (sRoot s)" "rActiveClones q = rActiveClones (sRoot s)" "rMaxClones q = rMaxClones (sRoot s)"
    "rQueue q = rQueue (sRoot s)" "rDone q = rDone (sRoot s)"
  shows "sched_inv (s\<lparr>sRoot := q\<rparr>) = sched_inv s"
proof -
  have "canRun q = canRun (sRoot s)" using assms by (intro ext) (simp add: canRun_def)
  then show ?thesis using assms run_inv_cong [of q "sRoot s"] by (simp add: sched_inv_def wake_inv_def)
qed

lemma jobDone_inv: "sched_inv s \<Longrightarrow> sched_inv (jobDone s job panicked) \<and> sWorkers (jobDone s job panicked) = sWorkers s"
  using sched_inv_root [of "SetLastRun (sRoot s) (jobKey (jQueue job) (jId job)) (sNow s)" s]
  by (simp add: jobDone_def SetLastRun_def split: option.split)

lemma finish_inv:
  assumes "sched_inv s" "i < length (sWorkers s)" "sWorkers s ! i = WRun job" "wake1 ((sWorkers s)[i := WCheck]) ws"
  shows "sched_inv (s\<lparr>sRoot := markQueueInactive (sRoot s) (jQueue job), sWorkers := ws\<rparr>)"
proof -
  obtain xs ys where w: "sWorkers s = xs @ sWorkers s ! i # ys" "\<And>w. (sWorkers s)[i := w] = xs @ w # ys"
    using running_upd [OF assms(2)] by metis
  have "running (sWorkers s) = running xs @ job # running ys" using assms(3) by (subst w(1)) simp
  then have "run_inv (sRoot s) (job # running xs @ running ys)"
    using assms(1) run_inv_perm [of "job # running xs @ running ys" "running xs @ job # running ys"] by (simp add: sched_inv_def)
  then have "run_inv (markQueueInactive (sRoot s) (jQueue job)) (running ws)"
    using run_inv_inactive wake1_running [OF assms(4)] by (simp add: w(2))
  moreover have "WCheck \<in> set ws" using wake1_check [OF assms(4)] by (simp add: w(2))
  ultimately show ?thesis by (simp add: sched_inv_def wake_inv_def)
qed

lemma worker_upd_inv:
  assumes "sched_inv s" "i < length (sWorkers s)" "sWorkers s ! i = WCheck" "w \<in> {WSleep, WExit}"
    and "rDone (sRoot s) \<or> (\<forall>job \<in> set (rQueue (sRoot s)). \<not> canRun (sRoot s) job)"
  shows "sched_inv (s\<lparr>sWorkers := (sWorkers s)[i := w]\<rparr>)"
proof -
  obtain xs ys where x: "sWorkers s = xs @ sWorkers s ! i # ys" "\<And>w. (sWorkers s)[i := w] = xs @ w # ys"
    using running_upd [OF assms(2)] by metis
  have "running (sWorkers s) = running xs @ running ys" using assms(3) by (subst x(1)) simp
  then have "running ((sWorkers s)[i := w]) = running (sWorkers s)" using assms(4) by (auto simp: x(2))
  then show ?thesis using assms(1,5) by (auto simp: sched_inv_def wake_inv_def)
qed

lemma sched_step_inv: "sched_step s s' \<Longrightarrow> sched_inv s \<Longrightarrow> sched_inv s'"
proof (induction rule: sched_step.induct)
  case (trySubmit s maxQueued job added q)
  then show ?case
    by (auto simp: TrySubmit_def sched_inv_def wake_inv_def run_inv_def canRun_def split: if_splits)
next
  case (signal s n ws)
  then show ?case using wake1_running [OF signal(2)] wake1_check [OF signal(2)] by (auto simp: sched_inv_def wake_inv_def)
next
  case (finish i s job s1 panicked ws)
  then show ?case using finish_inv [of s1 i job ws] jobDone_inv [of s job panicked] by simp
next
  case (wait i s)
  then show ?case
    by (intro worker_upd_inv) (auto simp: takeNextJobLocked_def takeFrom_None)
next
  case (timer tm s)
  then have "sched_inv (s\<lparr>sTimers := remove1 tm (sTimers s)\<rparr>)" by simp
  then show ?case by (simp add: fireTimer_def submitNow_inv SubmitPeriodicJob_inv split: timer.split)
next
  case (drain s)
  then show ?case using sched_inv_root [of "Drain (sRoot s)" s] by (simp add: Drain_def)
next
  case (stop s)
  then show ?case using run_inv_cong [of "(sRoot s)\<lparr>rDone := True\<rparr>" "sRoot s"] by (simp add: sched_inv_def wake_inv_def)
next
  case (broadcast s)
  then show ?case by (simp add: sched_inv_def wake_inv_def)
next
  case (tick s now)
  then show ?case by (simp add: sched_inv_def wake_inv_def)
next
  case (exit i s)
  then show ?case by (intro worker_upd_inv) auto
qed (simp_all add: submitNow_inv SubmitPeriodicJob_inv take_inv)

lemma initSched_inv: "sched_inv (initSched (newRootScheduler numCPU concurrency maxClones store) now)"
proof -
  have "running (replicate n WCheck) = []" for n by (induction n) auto
  moreover have "WSleep \<notin> set (replicate n WCheck)" for n by simp
  ultimately show ?thesis
    by (auto simp: sched_inv_def initSched_def newRootScheduler_def Let_def run_inv_def wake_inv_def)
qed

lemma sched_step_const:
  "sched_step s s' \<Longrightarrow> rMaxClones (sRoot s') = rMaxClones (sRoot s) \<and> length (sWorkers s') = length (sWorkers s)"
proof (induction rule: sched_step.induct)
  case (take i s job q ws)
  then show ?case
    using takeFrom_Some [OF take(4) [unfolded takeNextJobLocked_def]] wake1_check [OF take(5)] by (auto simp: activate_def)
next
  case (finish i s job s1 panicked ws)
  then show ?case
    using wake1_check [OF finish(4)] by (auto simp: markQueueInactive_def jobDone_def SetLastRun_def split: option.splits)
next
  case (signal s n ws)
  then show ?case using wake1_check [OF signal(2)] by simp
qed (auto simp: submitNow_def Submit_def TrySubmit_def SubmitPeriodicJob_def Let_def fireTimer_def Drain_def wakeAll_def
    split: if_splits timer.splits)

lemma sched_reach:
  assumes "rtranclp sched_step (initSched (newRootScheduler numCPU concurrency maxClones store) now) s"
  shows "sched_inv s \<and> rMaxClones (sRoot s) = newMaxClones (if concurrency = 0 then numCPU else concurrency) maxClones \<and>
    length (sWorkers s) = nat (if concurrency = 0 then numCPU else concurrency)"
  using assms
proof (induction rule: rtranclp_induct)
  case base
  then show ?case using initSched_inv by (simp add: initSched_def newRootScheduler_def Let_def)
next
  case (step s s')
  then show ?case using sched_step_inv sched_step_const by simp
qed

section \<open>Properties\<close>

text \<open>
  C23: queues are serialised and clones limited.  In every reachable state of the scheduler, whatever the
  order of submissions, timers, wake-ups and shutdown, no two running jobs belong to the same queue, the
  map of active queues names exactly the running jobs, there are no more of them than workers, and when
  there is a clone limit, by default half the workers, at most that many of them are clones.
\<close>

theorem scheduler_serialised:
  assumes "rtranclp sched_step (initSched (newRootScheduler numCPU concurrency maxClones store) now) s"
    and "c = (if concurrency = 0 then numCPU else concurrency)" "jobs = running (sWorkers s)"
  shows "distinct (map jQueue jobs) \<and>
    (\<forall>queue ident. rActive (sRoot s) queue = Some ident \<longleftrightarrow> (\<exists>j \<in> set jobs. jQueue j = queue \<and> jId j = ident)) \<and>
    length jobs \<le> nat c \<and>
    (if newMaxClones c maxClones > 0 then int (length (filter (\<lambda>j. isCloneJob (jId j)) jobs)) \<le> newMaxClones c maxClones else True)"
proof -
  have inv: "run_inv (sRoot s) jobs" and con: "rMaxClones (sRoot s) = newMaxClones c maxClones" "length (sWorkers s) = nat c"
    using sched_reach [OF assms(1)] assms(2,3) by (simp_all add: sched_inv_def)
  have "length (running ws) \<le> length ws" for ws by (induction ws rule: running.induct) auto
  then have len: "length jobs \<le> nat c" using con(2) assms(3) by metis
  show ?thesis using inv len con(1) by (auto simp: run_inv_def)
qed

text \<open>
  C24: no wake-up is lost.  In every reachable state in which no signal is on its way, no worker is about
  to look for a job and the scheduler is not shut down, a worker that sleeps has nothing to do: every
  waiting job's queue is running a job, or it is a clone and the clone limit is used up by running clones.
\<close>

theorem scheduler_no_lost_wakeup:
  assumes "rtranclp sched_step (initSched (newRootScheduler numCPU concurrency maxClones store) now) s"
    and "sSignals s = 0" "WCheck \<notin> set (sWorkers s)" "WSleep \<in> set (sWorkers s)" "\<not> rDone (sRoot s)"
    and "job \<in> set (rQueue (sRoot s))"
  shows "(\<exists>j. WRun j \<in> set (sWorkers s) \<and> jQueue j = jQueue job) \<or>
    isCloneJob (jId job) \<and> rMaxClones (sRoot s) > 0 \<and>
      int (length (filter (\<lambda>j. isCloneJob (jId j)) (running (sWorkers s)))) = rMaxClones (sRoot s)"
proof -
  have inv: "run_inv (sRoot s) (running (sWorkers s))" "wake_inv s" using sched_reach [OF assms(1)] by (simp_all add: sched_inv_def)
  have "\<not> canRun (sRoot s) job" using inv(2) assms(2-6) by (auto simp: wake_inv_def)
  then consider ident where "rActive (sRoot s) (jQueue job) = Some ident"
    | "rMaxClones (sRoot s) > 0" "isCloneJob (jId job)" "rActiveClones (sRoot s) \<ge> rMaxClones (sRoot s)"
    by (auto simp: canRun_def)
  then show ?thesis
  proof cases
    case 1
    then obtain j where "j \<in> set (running (sWorkers s))" "jQueue j = jQueue job" using inv(1) unfolding run_inv_def by blast
    then show ?thesis by (auto simp: running_set)
  next
    case 2
    then show ?thesis using inv(1) by (auto simp: run_inv_def)
  qed
qed

section \<open>Witness\<close>

text \<open>Two workers and two jobs of one queue: one runs, the other waits, and the second worker sleeps.\<close>

definition jobA :: queueJob where
  "jobA = \<lparr>jQueue = ''repo'', jId = ''clone'', jInterval = None\<rparr>"

definition jobB :: queueJob where
  "jobB = \<lparr>jQueue = ''repo'', jId = ''fetch'', jInterval = None\<rparr>"

definition twoJobs :: sched where
  "twoJobs = \<lparr>sRoot = \<lparr>rDone = False, rDraining = False, rQueue = [jobB], rActive = [''repo'' \<mapsto> ''clone''],
     rActiveClones = 1, rMaxClones = 1, rStore = None\<rparr>, sWorkers = [WRun jobA, WSleep], sSignals = 0, sTimers = [], sNow = 0\<rparr>"

lemma clone_jobs: "isCloneJob ''clone''" "\<not> isCloneJob ''fetch''"
  by (simp_all add: isCloneJob_def HasSuffix_def)

lemma twoJobs_reach: "rtranclp sched_step (initSched (newRootScheduler 8 2 0 None) 0) twoJobs"
proof -
  let ?q = "\<lambda>js. \<lparr>rDone = False, rDraining = False, rQueue = js, rActive = Map.empty, rActiveClones = 0, rMaxClones = 1, rStore = None\<rparr>"
  let ?s = "\<lambda>js ws n. \<lparr>sRoot = ?q js, sWorkers = ws, sSignals = n, sTimers = [], sNow = 0\<rparr>"
  have init: "initSched (newRootScheduler 8 2 0 None) 0 = ?s [] [WCheck, WCheck] 0"
    by (simp add: initSched_def newRootScheduler_def newMaxClones_def numeral_2_eq_2)
  have s1: "sched_step (?s [] [WCheck, WCheck] 0) (?s [jobA] [WCheck, WCheck] 1)"
    using sched_step.submit [of "?s [] [WCheck, WCheck] 0" jobA] by (simp add: submitNow_def Submit_def)
  have s2: "sched_step (?s [jobA] [WCheck, WCheck] 1) (?s [jobA, jobB] [WCheck, WCheck] 2)"
    using sched_step.submit [of "?s [jobA] [WCheck, WCheck] 1" jobB] by (simp add: submitNow_def Submit_def numeral_2_eq_2)
  have s3: "sched_step (?s [jobA, jobB] [WCheck, WCheck] (Suc n)) (?s [jobA, jobB] [WCheck, WCheck] n)" for n
    using sched_step.signal [of "?s [jobA, jobB] [WCheck, WCheck] (Suc n)" n "[WCheck, WCheck]"] by (simp add: wake1_def)
  have s4: "sched_step (?s [jobA, jobB] [WCheck, WCheck] 0) (twoJobs\<lparr>sWorkers := [WRun jobA, WCheck]\<rparr>)"
    using sched_step.take [of 0 "?s [jobA, jobB] [WCheck, WCheck] 0" jobA "sRoot twoJobs" "[WRun jobA, WCheck]"]
    by (simp add: takeNextJobLocked_def activate_def wake1_def twoJobs_def jobA_def clone_jobs)
  have s5: "sched_step (twoJobs\<lparr>sWorkers := [WRun jobA, WCheck]\<rparr>) twoJobs"
    using sched_step.wait [of 1 "twoJobs\<lparr>sWorkers := [WRun jobA, WCheck]\<rparr>"]
    by (simp add: takeNextJobLocked_def twoJobs_def jobB_def)
  show ?thesis
    unfolding init using s1 s2 s3 [of 1] s3 [of 0] s4 s5
    by (simp add: numeral_2_eq_2 converse_rtranclp_into_rtranclp)
qed

theorem scheduler_serialised_witness:
  "distinct (map jQueue (running (sWorkers twoJobs))) \<and>
   int (length (filter (\<lambda>j. isCloneJob (jId j)) (running (sWorkers twoJobs)))) \<le> 1"
  using scheduler_serialised [OF twoJobs_reach refl refl] by (simp add: newMaxClones_def)

theorem scheduler_no_lost_wakeup_witness:
  "(\<exists>j. WRun j \<in> set (sWorkers twoJobs) \<and> jQueue j = jQueue jobB) \<or> isCloneJob (jId jobB)"
  using scheduler_no_lost_wakeup [OF twoJobs_reach, of jobB] by (auto simp: twoJobs_def)

end
