(* ===== verification/Httputil.thy ===== *)
theory Httputil
  imports CacheCore
begin

text \<open>
  Serving cache results over HTTP: \<^verbatim>\<open>internal/httputil/conditional.go\<close>, \<^verbatim>\<open>path.go\<close> and \<^verbatim>\<open>error.go\<close>.

  A response writer is the header map that the handler edits, the status and headers that were sent (later
  edits have no effect), the bytes that reached the client and how many more the connection takes.
\<close>

section \<open>Model: requests and responses\<close>

record request =
  rqMethod :: string
  rqUrl :: string
  rqPath :: string
  rqHeader :: header

record ResponseWriter =
  rwHeader :: header
  rwSent :: "(int \<times> header) option"
  rwBody :: bytes
  rwCap :: "nat option"

definition rwSet :: "string \<Rightarrow> string \<Rightarrow> ResponseWriter \<Rightarrow> ResponseWriter" where
  "rwSet k v w = w\<lparr>rwHeader := hSet (rwHeader w) k v\<rparr>"

text \<open>\<^verbatim>\<open>maps.Copy(w.Header(), h)\<close>\<close>

definition rwCopy :: "header \<Rightarrow> ResponseWriter \<Rightarrow> ResponseWriter" where
  "rwCopy h w = w\<lparr>rwHeader := rwHeader w ++ h\<rparr>"

definition rwWriteHeader :: "int \<Rightarrow> ResponseWriter \<Rightarrow> ResponseWriter" where
  "rwWriteHeader code w = (if rwSent w = None then w\<lparr>rwSent := Some (code, rwHeader w)\<rparr> else w)"

definition rwWrite :: "ResponseWriter \<Rightarrow> bytes \<Rightarrow> (nat \<times> goerr) \<times> ResponseWriter" where
  "rwWrite w p =
     (let w1 = rwWriteHeader 200 w;
          n = (case rwCap w of None \<Rightarrow> length p | Some c \<Rightarrow> min c (length p))
      in ((n, if n < length p then [ErrTransport] else []),
          w1\<lparr>rwBody := rwBody w @ take n p, rwCap := map_option (\<lambda>c. c - n) (rwCap w)\<rparr>))"

text \<open>What the client sees when the handler returns: a response that was never started is a 200.\<close>

definition response :: "ResponseWriter \<Rightarrow> int \<times> header \<times> bytes" where
  "response w = (case rwSent w of None \<Rightarrow> (200, rwHeader w, rwBody w) | Some (code, h) \<Rightarrow> (code, h, rwBody w))"

text \<open>
  \<^verbatim>\<open>io.Copy\<close> from a body to the client: the number of bytes and the first error of either side.  An empty
  read is not written.
\<close>

fun copyBlocks :: "bytes list \<Rightarrow> goerr \<Rightarrow> nat \<Rightarrow> ResponseWriter \<Rightarrow> (nat \<times> goerr) \<times> ResponseWriter" where
  "copyBlocks [] re n w = ((n, re), w)"
| "copyBlocks (b # bs) re n w =
     (if b = [] then copyBlocks bs re n w
      else case rwWrite w b of ((m, e), w1) \<Rightarrow> if e \<noteq> [] then ((n + m, e), w1) else copyBlocks bs re (n + m) w1)"

text \<open>\<^verbatim>\<open>http.Error\<close>\<close>

definition httpError :: "string \<Rightarrow> int \<Rightarrow> ResponseWriter \<Rightarrow> ResponseWriter" where
  "httpError msg status w =
     (let w1 = rwSet ''X-Content-Type-Options'' ''nosniff''
                 (rwSet ''Content-Type'' ''text/plain; charset=utf-8'' (w\<lparr>rwHeader := hDel (rwHeader w) ''Content-Length''\<rparr>))
      in snd (rwWrite (rwWriteHeader status w1) (map of_char (msg @ [CHR 0x0A]))))"

definition ErrorResponse :: "ResponseWriter \<Rightarrow> int \<Rightarrow> string \<Rightarrow> ResponseWriter" where
  "ErrorResponse w status msg = httpError msg status w"

text \<open>\<^verbatim>\<open>Errorf\<close> and \<^verbatim>\<open>HTTPError.WriteHTTP\<close>; the text of an error is a parameter.\<close>

definition Errorf :: "int \<Rightarrow> goerr \<Rightarrow> goerr" where
  "Errorf status e = HTTPError status # e"

definition WriteHTTP :: "(goerr \<Rightarrow> string) \<Rightarrow> int \<Rightarrow> goerr \<Rightarrow> ResponseWriter \<Rightarrow> ResponseWriter" where
  "WriteHTTP errText status e w = ErrorResponse w status (errText e)"

section \<open>Model: conditional requests\<close>

definition ConditionalOptions :: "request \<Rightarrow> RequestOption list" where
  "ConditionalOptions r =
     (let get = hGet (rqHeader r)
      in (if get ''If-Match'' \<noteq> '''' then [IfMatch (get ''If-Match'')] else []) @
         (if get ''If-None-Match'' \<noteq> '''' then [IfNoneMatch (get ''If-None-Match'')] else []) @
         (if get ''Range'' \<noteq> '''' then [\<lambda>opts. opts\<lparr>oRange := get ''Range''\<rparr>] else []) @
         (if get ''If-Range'' \<noteq> '''' then [IfRange (get ''If-Range'')] else []))"

definition CheckConditionals :: "request \<Rightarrow> string \<Rightarrow> int" where
  "CheckConditionals r etag =
     (let e = Check (NewRequestOptions (ConditionalOptions r)) etag
      in if errIs e ErrNotModified then 304 else if errIs e ErrPreconditionFailed then 412 else 0)"

text \<open>
  \<^verbatim>\<open>ServeCacheHit\<close>: whether the outcome was handled, the bytes written, the error, and the writer.  The
  decorator of \<^verbatim>\<open>WithResponseDecorator\<close> edits the response header, given the stored one.
\<close>

type_synonym decorator = "header \<Rightarrow> header \<Rightarrow> header"

definition WithResponseDecorator :: "decorator \<Rightarrow> decorator option \<Rightarrow> decorator option" where
  "WithResponseDecorator f cfg = Some f"

definition runDecorator :: "decorator option \<Rightarrow> header \<Rightarrow> ResponseWriter \<Rightarrow> ResponseWriter" where
  "runDecorator d h w = (case d of None \<Rightarrow> w | Some f \<Rightarrow> w\<lparr>rwHeader := f (rwHeader w) h\<rparr>)"

definition ServeCacheHit :: "decorator option \<Rightarrow> ResponseWriter \<Rightarrow> header \<Rightarrow> body \<Rightarrow> goerr
    \<Rightarrow> (bool \<times> nat \<times> goerr) \<times> ResponseWriter" where
  "ServeCacheHit d w h b openErr =
     (if openErr = [] then
        (let w1 = runDecorator d h (rwSet ''Accept-Ranges'' ''bytes'' (rwCopy h w));
             w2 = (if hGet h ''Content-Range'' \<noteq> '''' then rwWriteHeader 206 w1 else w1)
         in case copyBlocks (bBlocks b) (bErr b) 0 w2 of ((n, e), w3) \<Rightarrow> ((True, n, errJoin [e, bCloseErr b]), w3))
      else if errIs openErr ErrNotModified then ((True, 0, []), rwWriteHeader 304 (rwCopy h w))
      else if errIs openErr ErrPreconditionFailed then ((True, 0, []), rwWriteHeader 412 w)
      else if errIs openErr ErrRangeNotSatisfiable then
        ((True, 0, []), rwWriteHeader 416 (runDecorator d h (rwSet ''Accept-Ranges'' ''bytes'' (rwCopy h w))))
      else ((False, 0, []), w))"

definition ServeCacheStat :: "ResponseWriter \<Rightarrow> header \<Rightarrow> goerr \<Rightarrow> bool \<times> ResponseWriter" where
  "ServeCacheStat w h statErr =
     (if statErr = [] then (True, rwWriteHeader 200 (rwSet ''Accept-Ranges'' ''bytes'' (rwCopy h w)))
      else if errIs statErr ErrNotModified then (True, rwWriteHeader 304 (rwCopy h w))
      else if errIs statErr ErrPreconditionFailed then (True, rwWriteHeader 412 w)
      else (False, w))"

section \<open>Model: paths\<close>

definition ValidatePath :: "string \<Rightarrow> goerr" where
  "ValidatePath path =
     (if \<exists>c \<in> set path. c = CHR 0x5C \<or> c = CHR 0x00 then [ErrOther ''invalid path'']
      else if \<exists>seg \<in> set (Split (CHR ''/'') path). seg = ''.'' \<or> seg = ''..'' then [ErrOther ''contains dot segment'']
      else [])"

definition ValidatePathSegment :: "string \<Rightarrow> goerr" where
  "ValidatePathSegment s =
     (if s = '''' \<or> CHR ''/'' \<in> set s then [ErrOther ''invalid path segment''] else ValidatePath s)"

definition RejectTraversal :: "(ResponseWriter \<Rightarrow> request \<Rightarrow> ResponseWriter) \<Rightarrow> ResponseWriter \<Rightarrow> request \<Rightarrow> ResponseWriter" where
  "RejectTraversal continue w r =
     (if ValidatePath (rqPath r) \<noteq> [] then httpError ''invalid request path'' 400 w else continue w r)"

section \<open>Lemmas\<close>

lemma rwWriteHeader_sel [simp]:
  "rwHeader (rwWriteHeader code w) = rwHeader w" "rwBody (rwWriteHeader code w) = rwBody w" "rwCap (rwWriteHeader code w) = rwCap w"
  "rwSent (rwWriteHeader code w) = (case rwSent w of None \<Rightarrow> Some (code, rwHeader w) | Some x \<Rightarrow> Some x)"
  by (auto simp: rwWriteHeader_def split: option.splits)

text \<open>A client that takes everything receives the whole body under the status and header it would have had.\<close>

lemma rwWrite_all:
  "rwCap w = None \<Longrightarrow> rwWrite w b = ((length b, []), (rwWriteHeader 200 w)\<lparr>rwBody := rwBody w @ b, rwCap := None\<rparr>)"
  by (simp add: rwWrite_def Let_def)

lemma copyBlocks_all:
  assumes "rwCap w = None" "copyBlocks bs re n w = ((m, e), w')"
  shows "m = n + length (concat bs) \<and> e = re \<and> rwCap w' = None \<and>
    response w' = (case response w of (code, h, d) \<Rightarrow> (code, h, d @ concat bs))"
  using assms
proof (induction bs arbitrary: n w)
  case (Cons b bs)
  let ?w1 = "(rwWriteHeader 200 w)\<lparr>rwBody := rwBody w @ b, rwCap := None\<rparr>"
  show ?case
  proof (cases "b = []")
    case False
    then have "copyBlocks bs re (n + length b) ?w1 = ((m, e), w')"
      using Cons.prems by (simp add: rwWrite_all)
    from Cons.IH [OF _ this] show ?thesis by (auto simp: response_def split: option.splits)
  qed (use Cons in auto)
qed (simp split: prod.splits)

end
