(* ===== verification/Handler.thy ===== *)
theory Handler
  imports Httputil Memory
begin

text \<open>
  The caching HTTP handler of the proxy strategies, \<^verbatim>\<open>internal/strategy/handler/handler.go\<close>.

  The upstream client is the function \<open>hClient\<close> from a request to a response or an error, the cache any
  record of \<open>cacheOps\<close>.  A connection fixes what the goroutines of one request can observe of each other:
  the error of the request context when the cache entry is created, the number of blocks after which that
  context is cancelled (if it ever is), and whether the block at which the client failed had already been
  taken whole from the pipe.
\<close>

section \<open>Model\<close>

record CacheKeyParts =
  Path :: string
  Vary :: "(string \<times> string) list"

definition NewCacheKeyParts :: "string \<Rightarrow> CacheKeyParts" where
  "NewCacheKeyParts path = \<lparr>Path = path, Vary = []\<rparr>"

text \<open>\<^verbatim>\<open>Vary\<close> is a Go map: an association list without duplicate keys.\<close>

definition setVary :: "string \<Rightarrow> string \<Rightarrow> CacheKeyParts \<Rightarrow> CacheKeyParts" where
  "setVary k v p = p\<lparr>Vary := (k, v) # filter (\<lambda>x. fst x \<noteq> k) (Vary p)\<rparr>"

definition PartsKey :: "(string \<Rightarrow> bytes) \<Rightarrow> CacheKeyParts \<Rightarrow> Key" where
  "PartsKey sha256 p =
     (if Vary p = [] then NewKey sha256 (Path p)
      else NewKey sha256 (Path p @ concat (map (\<lambda>k. CHR 0x0A # k @ CHR ''='' # the (map_of (Vary p) k))
             (sort (map fst (Vary p))))))"

record httpResponse =
  rsStatus :: int
  rsHeader :: header
  rsBody :: body

record ('c, 'w) Handler =
  hClient :: "request \<Rightarrow> goerr + httpResponse"
  hCache :: "('c, 'w) cacheOps"
  cacheKeyFunc :: "request \<Rightarrow> CacheKeyParts"
  transformFunc :: "request \<Rightarrow> goerr + request"
  errorHandler :: "goerr \<Rightarrow> ResponseWriter \<Rightarrow> request \<Rightarrow> ResponseWriter"
  ttlFunc :: "request \<Rightarrow> duration"

text \<open>The nearest \<^verbatim>\<open>HTTPResponder\<close> of the error chain answers, with the text of what it wraps.\<close>

fun asResponder :: "goerr \<Rightarrow> (int \<times> goerr) option" where
  "asResponder [] = None"
| "asResponder (HTTPError status # e) = Some (status, e)"
| "asResponder (k # e) = asResponder e"

definition defaultErrorHandler :: "(goerr \<Rightarrow> string) \<Rightarrow> goerr \<Rightarrow> ResponseWriter \<Rightarrow> request \<Rightarrow> ResponseWriter" where
  "defaultErrorHandler errText e w r =
     (case asResponder e of
        Some (status, inner) \<Rightarrow> WriteHTTP errText status inner w
      | None \<Rightarrow> ErrorResponse w 500 (errText e))"

definition NewHandler :: "(goerr \<Rightarrow> string) \<Rightarrow> (request \<Rightarrow> goerr + httpResponse) \<Rightarrow> ('c, 'w) cacheOps \<Rightarrow> ('c, 'w) Handler" where
  "NewHandler errText client c =
     \<lparr>hClient = client, hCache = c, cacheKeyFunc = (\<lambda>r. NewCacheKeyParts (rqUrl r)),
      transformFunc = Inr, errorHandler = defaultErrorHandler errText, ttlFunc = (\<lambda>r. 0)\<rparr>"

definition CacheKey :: "(request \<Rightarrow> string) \<Rightarrow> ('c, 'w) Handler \<Rightarrow> ('c, 'w) Handler" where
  "CacheKey f h = h\<lparr>cacheKeyFunc := (\<lambda>r. NewCacheKeyParts (f r))\<rparr>"

definition Transform :: "(request \<Rightarrow> goerr + request) \<Rightarrow> ('c, 'w) Handler \<Rightarrow> ('c, 'w) Handler" where
  "Transform f h = h\<lparr>transformFunc := f\<rparr>"

definition OnError :: "(goerr \<Rightarrow> ResponseWriter \<Rightarrow> request \<Rightarrow> ResponseWriter) \<Rightarrow> ('c, 'w) Handler \<Rightarrow> ('c, 'w) Handler" where
  "OnError f h = h\<lparr>errorHandler := f\<rparr>"

definition TTL :: "(request \<Rightarrow> duration) \<Rightarrow> ('c, 'w) Handler \<Rightarrow> ('c, 'w) Handler" where
  "TTL f h = h\<lparr>ttlFunc := f\<rparr>"

record conn =
  cnCtxErr :: goerr
  cnGone :: "nat option"
  cnLate :: bool

text \<open>
  \<^verbatim>\<open>cacheTee.Write\<close>: the first error of the cache writer is kept and stops further cache writes; the
  caller never sees it.  The request context may be cancelled before the write.
\<close>

definition teeWrite :: "('c, 'w) cacheOps \<Rightarrow> nat option \<Rightarrow> bytes \<Rightarrow> goerr \<Rightarrow> 'w \<Rightarrow> goerr \<times> 'w" where
  "teeWrite ops gone p te cw =
     (let cw' = (if gone = Some 0 then wCancel ops cw else cw)
      in if te = [] then (case wWrite ops cw' p of ((_, e), cw'') \<Rightarrow> (e, cw'')) else (te, cw'))"

text \<open>
  The goroutine of \<^verbatim>\<open>streamAndCache\<close> and the copy to the client, in lock step through the pipe: a block
  goes to the client, then to the tee.  When the client fails, the pipe's reader is closed: the pending
  or the next write to the pipe fails with \<^verbatim>\<open>ErrClosedPipe\<close>, unless the failing block was the last one
  and had been taken already.  The result is \<^verbatim>\<open>copyErr\<close> of the goroutine, the error of the client, the
  tee's error and the cache writer.
\<close>

fun teeCopy :: "('c, 'w) cacheOps \<Rightarrow> bool \<Rightarrow> nat option \<Rightarrow> bytes list \<Rightarrow> goerr \<Rightarrow> goerr \<Rightarrow> 'w \<Rightarrow> ResponseWriter
    \<Rightarrow> (goerr \<times> goerr \<times> goerr \<times> nat option \<times> 'w) \<times> ResponseWriter" where
  "teeCopy ops late gone [] re te cw w = ((re, [], te, gone, cw), w)"
| "teeCopy ops late gone (b # bs) re te cw w =
     (if b = [] then teeCopy ops late gone bs re te cw w
      else case rwWrite w b of ((_, e), w1) \<Rightarrow>
        if e \<noteq> [] \<and> \<not> late then (([ErrClosedPipe], e, te, gone, cw), w1)
        else (case teeWrite ops gone b te cw of (te', cw') \<Rightarrow>
          if e \<noteq> [] then ((if concat bs = [] then re else [ErrClosedPipe], e, te', map_option (\<lambda>k. k - 1) gone, cw'), w1)
          else teeCopy ops late (map_option (\<lambda>k. k - 1) gone) bs re te' cw' w1))"

text \<open>\<^verbatim>\<open>streamAndCache\<close>: the outcome, the writer and the cache.\<close>

definition streamAndCache :: "('c, 'w) Handler \<Rightarrow> conn \<Rightarrow> ResponseWriter \<Rightarrow> request \<Rightarrow> Key \<Rightarrow> httpResponse \<Rightarrow> 'c
    \<Rightarrow> goerr outcome \<times> ResponseWriter \<times> 'c" where
  "streamAndCache h cn w r key resp c =
     (let ops = hCache h; w0 = rwCopy (rsHeader resp) w
      in case cCreate ops c (cnCtxErr cn) key (rsHeader resp) (ttlFunc h r) [] of (res, c1) \<Rightarrow>
        (case res of
           Inl e \<Rightarrow>
             (case copyBlocks (bBlocks (rsBody resp)) (bErr (rsBody resp)) 0 w0 of
                ((_, copyErr), w1) \<Rightarrow> (Ret (errJoin [e, copyErr]), w1, c1))
         | Inr cw \<Rightarrow>
             (case teeCopy ops (cnLate cn) (cnGone cn) (bBlocks (rsBody resp)) (bErr (rsBody resp)) [] cw w0 of
                ((copyErr, clientErr, te, gone, cw1), w1) \<Rightarrow>
                  (let abortErr = (if copyErr \<noteq> [] then copyErr else te);
                       cw2 = (if abortErr \<noteq> [] \<or> gone = Some 0 then wCancel ops cw1 else cw1);
                       sErr = (if clientErr \<noteq> [] then clientErr else copyErr)
                   in case wClose ops cw2 c1 of (res', _, c2) \<Rightarrow>
                        ((case res' of
                            Ret ce \<Rightarrow> Ret (errJoin [sErr, if abortErr \<noteq> [] then errJoin [te, ce] else ce])
                          | Blocked \<Rightarrow> Blocked
                          | Panic \<Rightarrow> Panic), w1, c2)))))"

definition streamNonOKResponse :: "ResponseWriter \<Rightarrow> httpResponse \<Rightarrow> goerr \<times> ResponseWriter" where
  "streamNonOKResponse w resp =
     (case copyBlocks (bBlocks (rsBody resp)) (bErr (rsBody resp)) 0 (rwWriteHeader (rsStatus resp) w) of
        ((_, e), w1) \<Rightarrow> (e, w1))"

text \<open>The request sent upstream: safe headers are forwarded unless the transform has set them.\<close>

definition forwardHeaders :: "request \<Rightarrow> request \<Rightarrow> request" where
  "forwardHeaders r up =
     up\<lparr>rqHeader := (\<lambda>key. case FilterHeaders (rqHeader r) HopByHopHeaders key of
          None \<Rightarrow> rqHeader up key
        | Some values \<Rightarrow> if hGet (rqHeader up) key = '''' then Some values else rqHeader up key)\<rparr>"

definition fetchAndCache :: "('c, 'w) Handler \<Rightarrow> conn \<Rightarrow> ResponseWriter \<Rightarrow> request \<Rightarrow> Key \<Rightarrow> 'c
    \<Rightarrow> goerr outcome \<times> ResponseWriter \<times> 'c" where
  "fetchAndCache h cn w r key c =
     (case transformFunc h r of
        Inl e \<Rightarrow> (Ret [], errorHandler h e w r, c)
      | Inr up \<Rightarrow>
          (case hClient h (forwardHeaders r up) of
             Inl e \<Rightarrow> (Ret [], errorHandler h (Errorf 502 e) w r, c)
           | Inr resp \<Rightarrow>
               if rsStatus resp \<noteq> 200 then
                 (case streamNonOKResponse w resp of (e, w1) \<Rightarrow> (Ret e, w1, c))
               else streamAndCache h cn w r key resp c))"

definition serveCached :: "('c, 'w) Handler \<Rightarrow> ResponseWriter \<Rightarrow> request \<Rightarrow> Key \<Rightarrow> 'c
    \<Rightarrow> (bool \<times> goerr) \<times> ResponseWriter \<times> 'c" where
  "serveCached h w r key c =
     (case cOpen (hCache h) c key (ConditionalOptions r) of ((cr, headers, e), c1) \<Rightarrow>
        (case ServeCacheHit None w headers cr e of ((handled, _, serveErr), w1) \<Rightarrow>
           if handled then ((True, serveErr), w1, c1)
           else if errIs e ErrNotExist then ((False, []), w1, c1)
           else ((True, []), errorHandler h (Errorf 500 e) w1 r, c1)))"

definition requestKey :: "(string \<Rightarrow> bytes) \<Rightarrow> ('c, 'w) Handler \<Rightarrow> request \<Rightarrow> Key" where
  "requestKey sha256 h r =
     (let parts = cacheKeyFunc h r; ae = hGet (rqHeader r) ''Accept-Encoding''
      in PartsKey sha256 (if ae \<noteq> '''' then setVary ''Accept-Encoding'' ae parts else parts))"

definition ServeHTTP :: "(string \<Rightarrow> bytes) \<Rightarrow> ('c, 'w) Handler \<Rightarrow> conn \<Rightarrow> ResponseWriter \<Rightarrow> request \<Rightarrow> 'c
    \<Rightarrow> unit outcome \<times> ResponseWriter \<times> 'c" where
  "ServeHTTP sha256 h cn w r c =
     (let key = requestKey sha256 h r
      in case serveCached h w r key c of ((served, _), w1, c1) \<Rightarrow>
           if served then (Ret (), w1, c1)
           else (case fetchAndCache h cn w1 r key c1 of (res, w2, c2) \<Rightarrow>
             ((case res of Ret _ \<Rightarrow> Ret () | Blocked \<Rightarrow> Blocked | Panic \<Rightarrow> Panic), w2, c2)))"

section \<open>Lemmas: the client\<close>

text \<open>The writer of a new response whose connection takes \<open>cap\<close> bytes.\<close>

definition newWriter :: "nat option \<Rightarrow> ResponseWriter" where
  "newWriter cap = \<lparr>rwHeader = Map.empty, rwSent = None, rwBody = [], rwCap = cap\<rparr>"

lemma teeCopy_client:
  assumes "rwCap w = None" "teeCopy ops late gone bs re te cw w = ((ce, cle, te', gone', cw'), w')"
  shows "ce = re \<and> cle = [] \<and> response w' = (case response w of (code, h, d) \<Rightarrow> (code, h, d @ concat bs))"
  using assms
proof (induction bs arbitrary: gone te cw w)
  case (Cons b bs)
  show ?case
  proof (cases "b = []")
    case False
    let ?w1 = "(rwWriteHeader 200 w)\<lparr>rwBody := rwBody w @ b, rwCap := None\<rparr>"
    obtain te1 cw1 where t: "teeWrite ops gone b te cw = (te1, cw1)" by (metis prod.exhaust)
    then have "teeCopy ops late (map_option (\<lambda>k. k - 1) gone) bs re te1 cw1 ?w1 = ((ce, cle, te', gone', cw'), w')"
      using Cons.prems False by (simp add: rwWrite_all)
    from Cons.IH [OF _ this] show ?thesis by (auto simp: response_def split: option.splits)
  qed (use Cons in auto)
qed (simp split: prod.splits)

lemma streamAndCache_client:
  assumes "rwCap w = None" "streamAndCache h cn w r key resp c = (res, w', c')"
  shows "response w' = (case response (rwCopy (rsHeader resp) w) of (code, hs, d) \<Rightarrow> (code, hs, d @ concat (bBlocks (rsBody resp))))"
proof -
  have cap: "rwCap (rwCopy (rsHeader resp) w) = None" using assms(1) by (simp add: rwCopy_def)
  obtain x c1 where cr: "cCreate (hCache h) c (cnCtxErr cn) key (rsHeader resp) (ttlFunc h r) [] = (x, c1)"
    by (metis prod.exhaust)
  show ?thesis
  proof (cases x)
    case (Inl e)
    obtain n e1 w1 where cb: "copyBlocks (bBlocks (rsBody resp)) (bErr (rsBody resp)) 0 (rwCopy (rsHeader resp) w) = ((n, e1), w1)"
      by (metis prod.exhaust)
    have "w' = w1" using assms(2) cr Inl cb by (simp add: streamAndCache_def)
    then show ?thesis using copyBlocks_all [OF cap cb] by simp
  next
    case (Inr cw)
    obtain ce cle te gone cw1 w1 where tc: "teeCopy (hCache h) (cnLate cn) (cnGone cn) (bBlocks (rsBody resp)) (bErr (rsBody resp)) [] cw
        (rwCopy (rsHeader resp) w) = ((ce, cle, te, gone, cw1), w1)" by (metis prod.exhaust)
    have "w' = w1" using assms(2) cr Inr tc by (auto simp: streamAndCache_def Let_def split: prod.splits)
    then show ?thesis using teeCopy_client [OF cap tc] by simp
  qed
qed

section \<open>Lemmas: the cache\<close>

text \<open>What the handler leaves in a cache that keeps the contract of the interface.\<close>

context cache_backend
begin

lemma teeWrite_pend:
  "teeWrite ops gone p te cw = (te', cw') \<Longrightarrow>
   (te' = [] \<longrightarrow> te = [] \<and> (pend cw' = None \<or> pend cw' = map_option (\<lambda>(k, d, q). (k, d @ p, q)) (pend cw)))"
  using write_spec [of cw p] write_spec [of "wCancel ops cw" p] cancel_spec [of cw]
  by (fastforce simp: teeWrite_def Let_def split: if_splits prod.splits)

lemma teeCopy_pend:
  assumes "teeCopy ops late gone bs re te cw w = ((ce, cle, te', gone', cw'), w')" "ce = []" "te' = []"
  shows "re = [] \<and> te = [] \<and> (pend cw' = None \<or> pend cw' = map_option (\<lambda>(k, d, q). (k, d @ concat bs, q)) (pend cw))"
  using assms
proof (induction bs arbitrary: gone te cw w)
  case Nil
  then show ?case by (simp add: option.map_id [unfolded id_def] case_prod_beta)
next
  case (Cons b bs)
  show ?case
  proof (cases "b = []")
    case False
    obtain n e w1 where rw: "rwWrite w b = ((n, e), w1)" by (metis prod.exhaust)
    obtain te1 cw1 where t: "teeWrite ops gone b te cw = (te1, cw1)" by (metis prod.exhaust)
    show ?thesis
    proof (cases "e = []")
      case True
      then have "teeCopy ops late (map_option (\<lambda>k. k - 1) gone) bs re te1 cw1 w1 = ((ce, cle, te', gone', cw'), w')"
        using Cons.prems(1) False rw t by simp
      from Cons.IH [OF this Cons.prems(2,3)] teeWrite_pend [OF t] show ?thesis by (cases "pend cw") auto
    next
      case err: False
      then have "late \<and> concat bs = [] \<and> re = [] \<and> te' = te1 \<and> cw' = cw1"
        using Cons.prems False rw t by (auto split: if_splits)
      moreover from this have "concat (b # bs) = b" by simp
      ultimately show ?thesis using teeWrite_pend [OF t] Cons.prems(3) by metis
    qed
  qed (use Cons in auto)
qed

lemma streamAndCache_keeps:
  assumes "streamAndCache h cn w r key resp c = (res, w', c')" "hCache h = ops"
  shows "forgets obj c c' {key} \<and>
    (obj c' key = None \<or> obj c' key = obj c key \<or>
     bErr (rsBody resp) = [] \<and> (\<exists>hs. obj c' key = Some (concat (bBlocks (rsBody resp)), hs)))"
proof -
  obtain x c1 where cr: "cCreate ops c (cnCtxErr cn) key (rsHeader resp) (ttlFunc h r) [] = (x, c1)"
    by (metis prod.exhaust)
  have same: "obj c1 = obj c" using create_spec [OF cr] by blast
  show ?thesis
  proof (cases x)
    case (Inl e)
    then have "c' = c1" using assms cr by (auto simp: streamAndCache_def split: prod.splits)
    then show ?thesis using same by (simp add: forgets_same)
  next
    case (Inr cw)
    obtain ce cle te gone cw1 w1 where tc: "teeCopy ops (cnLate cn) (cnGone cn) (bBlocks (rsBody resp)) (bErr (rsBody resp)) [] cw
        (rwCopy (rsHeader resp) w) = ((ce, cle, te, gone, cw1), w1)" by (metis prod.exhaust)
    define cw2 where "cw2 = (if (if ce \<noteq> [] then ce else te) \<noteq> [] \<or> gone = Some 0 then wCancel ops cw1 else cw1)"
    obtain res' cw3 c2 where cl: "wClose ops cw2 c1 = (res', cw3, c2)" by (metis prod.exhaust)
    have c2: "c' = c2" using assms cr Inr tc cl by (simp add: streamAndCache_def Let_def cw2_def)
    have "pend cw2 = None \<or> bErr (rsBody resp) = [] \<and> (\<exists>q. pend cw2 = Some (key, concat (bBlocks (rsBody resp)), q))"
    proof (cases "ce = [] \<and> te = [] \<and> gone \<noteq> Some 0")
      case True
      then show ?thesis using teeCopy_pend [OF tc] create_spec [OF cr] Inr by (auto simp: cw2_def split: if_splits)
    next
      case False
      then show ?thesis using cancel_spec by (auto simp: cw2_def)
    qed
    then show ?thesis
    proof (elim disjE conjE exE)
      assume "pend cw2 = None"
      from close_none [OF cl this] same show ?thesis by (auto simp: forgets_def c2)
    next
      fix q assume "bErr (rsBody resp) = []" "pend cw2 = Some (key, concat (bBlocks (rsBody resp)), q)"
      with close_some [OF cl this(2)] same show ?thesis by (auto simp: forgets_def c2)
    qed
  qed
qed

end

section \<open>Lemmas: hits and misses\<close>

text \<open>What a request for an object with data \<open>d\<close> and stored ETag \<open>et\<close> is answered with.\<close>

definition hitResponse :: "bytes \<Rightarrow> string \<Rightarrow> request \<Rightarrow> int \<times> bytes" where
  "hitResponse d et r =
     (if CheckConditionals r et \<noteq> 0 then (CheckConditionals r et, [])
      else case ResolveRange (NewRequestOptions (ConditionalOptions r)) (int (length d)) et of (start, len, outc) \<Rightarrow>
        (case outc of
           RangeFull \<Rightarrow> (200, d)
         | RangePartial \<Rightarrow> (206, take (nat len) (drop (nat start) d))
         | RangeNotSatisfiable \<Rightarrow> (416, [])))"

lemma ServeCacheHit_body:
  assumes "ServeCacheHit None (newWriter None) hs b [] = ((handled, n, se), w')"
  shows "handled \<and> response w' =
    (if hGet hs ''Content-Range'' \<noteq> '''' then 206 else 200, hSet hs ''Accept-Ranges'' ''bytes'', concat (bBlocks b))"
proof -
  let ?w1 = "rwSet ''Accept-Ranges'' ''bytes'' (rwCopy hs (newWriter None))"
  let ?w2 = "if hGet hs ''Content-Range'' \<noteq> '''' then rwWriteHeader 206 ?w1 else ?w1"
  obtain m e w3 where cb: "copyBlocks (bBlocks b) (bErr b) 0 ?w2 = ((m, e), w3)" by (metis prod.exhaust)
  have w3: "w3 = w'" "handled" using assms cb by (auto simp: ServeCacheHit_def runDecorator_def Let_def)
  have "rwCap ?w2 = None" "response ?w2 = (if hGet hs ''Content-Range'' \<noteq> '''' then 206 else 200, hSet hs ''Accept-Ranges'' ''bytes'', [])"
    by (auto simp: rwSet_def rwCopy_def newWriter_def rwWriteHeader_def response_def)
  then show ?thesis using copyBlocks_all [OF _ cb] w3 by simp
qed

lemma accept_ranges_etag [simp]: "hGet (hSet hs ''Accept-Ranges'' v) ETagKey = hGet hs ETagKey"
  by (simp add: hGet_hSet)

text \<open>
  \<^verbatim>\<open>ServeCacheHit\<close> on what \<^verbatim>\<open>Open\<close> answers for an existing object: always handled, with the response
  the object and the request's conditions determine; a 200 or 206 carries the object's ETag, and a 206 the
  window it holds.
\<close>

definition hitHeaders :: "bytes \<Rightarrow> string \<Rightarrow> request \<Rightarrow> header \<Rightarrow> bool" where
  "hitHeaders d et r hs \<longleftrightarrow>
     (case hitResponse d et r of (code, bd) \<Rightarrow>
        if code = 206 then
          hGet hs ETagKey = et \<and>
          (case ResolveRange (NewRequestOptions (ConditionalOptions r)) (int (length d)) et of (start, len, _) \<Rightarrow>
             hGet hs ''Content-Range'' =
               ''bytes '' @ FormatInt start @ ''-'' @ FormatInt (start + len - 1) @ ''/'' @ FormatInt (int (length d)) \<and>
             int (length bd) = len)
        else if code = 200 then hGet hs ETagKey = et \<and> hGet hs ''Content-Range'' = ''''
        else True)"

lemma ServeCacheHit_spec:
  assumes "openSpec (Some (d, h)) (ConditionalOptions r) = (b, hs, e)"
    and "ServeCacheHit None (newWriter None) hs b e = ((handled, n, se), w')"
  shows "handled \<and> (\<exists>hs'. response w' = (fst (hitResponse d (hGet h ETagKey) r), hs', snd (hitResponse d (hGet h ETagKey) r)) \<and>
    hitHeaders d (hGet h ETagKey) r hs')"
  using assms(1)
proof (cases rule: openSpec_Some)
  case full
  have "CheckConditionals r (hGet h ETagKey) = 0" using full(5) by (simp add: CheckConditionals_def errIs_def)
  then show ?thesis using ServeCacheHit_body [OF assms(2) [unfolded full(1)]] full
    by (auto simp: hitResponse_def hitHeaders_def bytesReader_def hGet_hSet)
next
  case (part start len)
  have "CheckConditionals r (hGet h ETagKey) = 0" using part(5) by (simp add: CheckConditionals_def errIs_def)
  moreover have "nat len \<le> length d - nat start" using part(7-9) by linarith
  ultimately show ?thesis using ServeCacheHit_body [OF assms(2) [unfolded part(1)]] part
    by (auto simp: hitResponse_def hitHeaders_def bytesReader_def hGet_hSet min_def)
next
  case unsat
  then have "CheckConditionals r (hGet h ETagKey) = 0"
    using assms(1) by (auto simp: openSpec_def CheckConditionals_def errIs_def conditionalShortCircuit_def Let_def hGet_hDel hGet_hSet
        split: prod.splits if_splits)
  then show ?thesis using assms(2) unsat
    by (auto simp: ServeCacheHit_def errIs_def hitResponse_def hitHeaders_def response_def rwWriteHeader_def rwSet_def rwCopy_def
        newWriter_def runDecorator_def)
next
  case cond
  then show ?thesis using assms(2) Check_cases [of "NewRequestOptions (ConditionalOptions r)" "hGet h ETagKey"]
    by (auto simp: ServeCacheHit_def errIs_def hitResponse_def hitHeaders_def response_def rwWriteHeader_def rwCopy_def
        newWriter_def CheckConditionals_def)
qed

text \<open>A key that the cache does not have goes to the upstream with the response untouched.\<close>

lemma serveCached_miss:
  assumes "cOpen (hCache h) c key (ConditionalOptions r) = ((b, hs, [ErrNotExist]), c1)"
  shows "serveCached h w r key c = ((False, []), w, c1)"
  using assms by (simp add: serveCached_def ServeCacheHit_def errIs_def)

text \<open>Without errors the tee writes exactly the blocks.\<close>

lemma teeCopy_writes:
  "rwCap w = None \<Longrightarrow> writeBlocks ops cw (filter (\<lambda>b. b \<noteq> []) bs) = ([], cw1) \<Longrightarrow>
   \<exists>w1. teeCopy ops late None bs re [] cw w = ((re, [], [], None, cw1), w1)"
  by (induction bs arbitrary: cw w) (auto simp: rwWrite_all teeWrite_def split: prod.splits if_splits)

lemma concat_filter_nonempty: "concat (filter (\<lambda>b. b \<noteq> []) bs) = concat bs"
  by (induction bs) auto

text \<open>A complete response that is streamed without interruption is in the memory cache afterwards.\<close>

lemma streamAndCache_fills:
  assumes "streamAndCache h cn w r key resp c = (res, w', c')" "hCache h = memoryOps httpTime config ns"
    and "rwCap w = None" "cnCtxErr cn = []" "cnGone cn = None" "bErr (rsBody resp) = []" "tOpen c"
    and "FormatETag (tUuid c) = (q, [])" "0 \<le> (if ttlFunc h r = 0 then MaxTTL config else ttlFunc h r)"
  shows "\<exists>hs. memObj config ns c' key = Some (concat (bBlocks (rsBody resp)), hs) \<and> hGet hs ETagKey = q"
proof -
  let ?v = "tierView config ns c"
  let ?bs = "bBlocks (rsBody resp)"
  obtain cw where cw: "MemCreate httpTime (tUuid c) ?v (tNow c) [] key (rsHeader resp) (ttlFunc h r) [] = Inr cw"
    using assms(8) by (auto simp: MemCreate_def Let_def setCreateETag_def createETag_def)
  note wr = MemCreate_writer [OF cw]
  define cw1 where "cw1 = cw\<lparr>mwBuf := concat ?bs\<rparr>"
  have wb: "writeBlocks (memoryOps httpTime config ns) cw (filter (\<lambda>b. b \<noteq> []) ?bs) = ([], cw1)"
    using writeBlocks_memory [of httpTime config ns cw "filter (\<lambda>b. b \<noteq> []) ?bs"] wr
    by (cases "writeBlocks (memoryOps httpTime config ns) cw (filter (\<lambda>b. b \<noteq> []) ?bs)")
       (simp add: cw1_def concat_filter_nonempty)
  obtain w1 where tc: "teeCopy (memoryOps httpTime config ns) (cnLate cn) None ?bs [] [] cw (rwCopy (rsHeader resp) w) = (([], [], [], None, cw1), w1)"
    using teeCopy_writes [OF _ wb, of "rwCopy (rsHeader resp) w"] assms(3) by (auto simp: rwCopy_def)
  obtain r' cw3 s where cl: "MemWriterClose (tOrder c) ?v cw1 (tStore c) = (r', cw3, s)" by (metis prod.exhaust)
  have c': "c' = c\<lparr>tStore := s\<rparr>"
    using assms(1) cw tc cl assms(4-6) unfolding streamAndCache_def assms(2) Let_def by (simp add: memoryOps_def)
  have "r' \<noteq> Panic" using cl wr assms(7) MemWriterClose_live [of cw1 ?v "tOrder c" "tStore c"]
    by (auto simp: cw1_def tierView_def Let_def)
  then have "lookupEntry s (ns, key) = Some \<lparr>mData = concat ?bs, mExpiresAt = mwExpiresAt cw, mHeaders = mwHeaders cw\<rparr>"
    using MemWriterClose_lookup [OF cl] wr by (auto simp: cw1_def tierView_def)
  then show ?thesis
    using wr assms(7-9) by (auto simp: c' memObj_def memFind_lookup tierView_def split: if_splits)
qed

section \<open>Properties\<close>

text \<open>
  C25: a request for a cached object is answered from the cache alone.  Whatever conditions and range the
  request carries, the client gets exactly the response the stored object determines: 304 or 412 when the
  conditions say so, 416 for a range outside the object, 206 with exactly the bytes of the resolved range,
  a matching \<^verbatim>\<open>Content-Range\<close> and the object's ETag, or 200 with the whole object; the cache keeps its contents
  and neither the upstream nor the transform has any influence.
\<close>

theorem handler_hit:
  assumes "hCache h = memoryOps httpTime config ns"
    and "memObj config ns c (requestKey sha256 h r) = Some (d, stored0)"
    and "ServeHTTP sha256 h cn (newWriter None) r c = (res, w', c')"
  shows "res = Ret () \<and> memObj config ns c' = memObj config ns c \<and>
    (\<exists>hs. response w' = (fst (hitResponse d (hGet stored0 ETagKey) r), hs, snd (hitResponse d (hGet stored0 ETagKey) r)) \<and>
       hitHeaders d (hGet stored0 ETagKey) r hs)"
proof -
  let ?key = "requestKey sha256 h r"
  obtain b hs e c1 where op: "cOpen (memoryOps httpTime config ns) c ?key (ConditionalOptions r) = ((b, hs, e), c1)"
    by (metis prod.exhaust)
  then have spec: "openSpec (Some (d, stored0)) (ConditionalOptions r) = (b, hs, e)"
    using assms(2) by (auto simp: memoryOps_def MemOpen_spec memObj_def)
  have same: "memObj config ns c1 = memObj config ns c" using mem.open_spec [OF op] by blast
  obtain handled n se w1 where sh: "ServeCacheHit None (newWriter None) hs b e = ((handled, n, se), w1)"
    by (metis prod.exhaust)
  note hit = ServeCacheHit_spec [OF spec sh]
  then have "serveCached h (newWriter None) r ?key c = ((True, se), w1, c1)"
    using op sh assms(1) by (simp add: serveCached_def)
  then have "res = Ret ()" "w' = w1" "c' = c1" using assms(3) by (auto simp: ServeHTTP_def Let_def)
  with hit same show ?thesis by simp
qed

text \<open>
  C26: a miss is streamed and cached without either side hurting the other.  When the upstream answers 200,
  a client that keeps reading receives the upstream's headers and its whole body, whatever the cache does;
  whatever the client does (disconnects at any byte, cancels the request at any block) and however the upstream's body
  ends, the cache has afterwards either nothing for the key or the complete body, never a part of it, and a
  body that ended in an error is never kept.  Other objects are untouched or evicted.  And if nothing
  went wrong the object is there, so that the next request with the same key is a hit.
\<close>

theorem handler_miss:
  assumes "hCache h = memoryOps httpTime config ns"
    and "memObj config ns c (requestKey sha256 h r) = None"
    and "transformFunc h r = Inr up" "hClient h (forwardHeaders r up) = Inr resp" "rsStatus resp = 200"
    and "ServeHTTP sha256 h cn (newWriter cap) r c = (res, w', c')"
  shows "(cap = None \<longrightarrow> response w' = (200, rsHeader resp, concat (bBlocks (rsBody resp)))) \<and>
    (memObj config ns c' (requestKey sha256 h r) = None \<or>
     bErr (rsBody resp) = [] \<and> (\<exists>hs. memObj config ns c' (requestKey sha256 h r) = Some (concat (bBlocks (rsBody resp)), hs))) \<and>
    (\<forall>k. k \<noteq> requestKey sha256 h r \<longrightarrow> memObj config ns c' k = memObj config ns c k \<or> memObj config ns c' k = None) \<and>
    (cap = None \<and> cnCtxErr cn = [] \<and> cnGone cn = None \<and> bErr (rsBody resp) = [] \<and> tOpen c \<and> FormatETag (tUuid c) = (q, []) \<and>
       0 \<le> (if ttlFunc h r = 0 then MaxTTL config else ttlFunc h r) \<longrightarrow>
     (\<exists>hs. memObj config ns c' (requestKey sha256 h r) = Some (concat (bBlocks (rsBody resp)), hs) \<and> hGet hs ETagKey = q))"
proof -
  let ?key = "requestKey sha256 h r"
  let ?w = "newWriter cap"
  have op: "cOpen (hCache h) c ?key (ConditionalOptions r) = ((nilBody, Map.empty, [ErrNotExist]), c)"
    using assms(1,2) by (simp add: memoryOps_def MemOpen_spec memObj_def openSpec_def)
  obtain res1 where sc: "streamAndCache h cn ?w r ?key resp c = (res1, w', c')"
    using assms(3-6) serveCached_miss [OF op, of ?w]
    by (auto simp: ServeHTTP_def Let_def fetchAndCache_def split: prod.splits)
  have keep: "forgets (memObj config ns) c c' {?key} \<and>
      (memObj config ns c' ?key = None \<or> memObj config ns c' ?key = memObj config ns c ?key \<or>
       bErr (rsBody resp) = [] \<and> (\<exists>hs. memObj config ns c' ?key = Some (concat (bBlocks (rsBody resp)), hs)))"
    by (rule mem.streamAndCache_keeps [OF sc assms(1)])
  have client: "response w' = (200, rsHeader resp, concat (bBlocks (rsBody resp)))" if "cap = None"
    using streamAndCache_client [OF _ sc] that by (simp add: newWriter_def rwCopy_def response_def)
  have fills: "\<exists>hs. memObj config ns c' ?key = Some (concat (bBlocks (rsBody resp)), hs) \<and> hGet hs ETagKey = q"
    if "cap = None" "cnCtxErr cn = []" "cnGone cn = None" "bErr (rsBody resp) = []" "tOpen c" "FormatETag (tUuid c) = (q, [])"
      "0 \<le> (if ttlFunc h r = 0 then MaxTTL config else ttlFunc h r)"
    using streamAndCache_fills [OF sc assms(1)] that by (simp add: newWriter_def)
  show ?thesis using keep client fills assms(2) by (auto simp: forgets_def)
qed

section \<open>Concrete requests\<close>

definition demoResponse :: httpResponse where
  "demoResponse = \<lparr>rsStatus = 200, rsHeader = [''Content-Type'' \<mapsto> [''text/plain'']],
     rsBody = \<lparr>bBlocks = [[1, 2], [], [3]], bErr = [], bCloseErr = []\<rparr>\<rparr>"

definition demoHandler :: "(memTier, memoryWriter) Handler" where
  "demoHandler = NewHandler (\<lambda>e. ''failed'') (\<lambda>r. Inr demoResponse) (memoryOps (\<lambda>t. ''now'') \<lparr>LimitMB = 1, MaxTTL = 100\<rparr> ''ns'')"

definition demoTier :: memTier where
  "demoTier = \<lparr>tOpen = True, tStore = twoEntries 10 10, tNow = 5, tUuid = ''a'', tOrder = twoOrder\<rparr>"

definition demoRequest :: request where
  "demoRequest = \<lparr>rqMethod = ''GET'', rqUrl = ''http://x/y'', rqPath = ''/y'', rqHeader = [''Range'' \<mapsto> [''bytes=-3'']]\<rparr>"

definition demoConn :: conn where
  "demoConn = \<lparr>cnCtxErr = [], cnGone = None, cnLate = False\<rparr>"

lemma demoRequest_options:
  "NewRequestOptions (ConditionalOptions demoRequest) = zeroOptions\<lparr>oRange := ''bytes=-3''\<rparr>" "requestKey (\<lambda>s. k) demoHandler demoRequest = k"
  by (simp_all add: ConditionalOptions_def demoRequest_def hGet_def canonical_eval toUpper_def toLower_def is_digit_def Let_def
      requestKey_def PartsKey_def NewKey_def demoHandler_def NewHandler_def NewCacheKeyParts_def NewRequestOptions_def)

theorem handler_hit_witness:
  "\<exists>w' c' hs. ServeHTTP (\<lambda>s. [1]) demoHandler demoConn (newWriter None) demoRequest demoTier = (Ret (), w', c') \<and>
     response w' = (206, hs, [0, 0, 0]) \<and> hGet hs ''Content-Range'' = ''bytes 7-9/10''"
proof -
  obtain res w' c' where run: "ServeHTTP (\<lambda>s. [1]) demoHandler demoConn (newWriter None) demoRequest demoTier = (res, w', c')"
    by (metis prod.exhaust)
  have cache: "hCache demoHandler = memoryOps (\<lambda>t. ''now'') \<lparr>LimitMB = 1, MaxTTL = 100\<rparr> ''ns''"
    by (simp add: demoHandler_def NewHandler_def)
  have obj: "memObj \<lparr>LimitMB = 1, MaxTTL = 100\<rparr> ''ns'' demoTier (requestKey (\<lambda>s. [1]) demoHandler demoRequest) =
      Some (replicate 10 0, Map.empty)"
    by (simp add: demoRequest_options memObj_def memFind_lookup tierView_def demoTier_def twoEntries_lookup)
  have hit: "hitResponse (replicate 10 0) (hGet Map.empty ETagKey) demoRequest = (206, [0, 0, 0])"
    by (simp add: hitResponse_def CheckConditionals_def demoRequest_options ResolveRange_def IfRangeMisses_def
        resolve_suffix_eval errIs_def numeral_eq_Suc)
  have "FormatInt 7 = ''7''" "FormatInt 9 = ''9''" "FormatInt 10 = ''10''" by code_simp+
  then show ?thesis
    using handler_hit [OF cache obj run] run hit
    by (auto simp: hitHeaders_def demoRequest_options ResolveRange_def IfRangeMisses_def resolve_suffix_eval)
qed

theorem handler_miss_witness:
  "\<exists>res w' c' hs. ServeHTTP (\<lambda>s. [7]) demoHandler demoConn (newWriter None) demoRequest demoTier = (res, w', c') \<and>
     response w' = (200, rsHeader demoResponse, [1, 2, 3]) \<and>
     memObj \<lparr>LimitMB = 1, MaxTTL = 100\<rparr> ''ns'' c' [7] = Some ([1, 2, 3], hs)"
proof -
  obtain res w' c' where run: "ServeHTTP (\<lambda>s. [7]) demoHandler demoConn (newWriter None) demoRequest demoTier = (res, w', c')"
    by (metis prod.exhaust)
  have cache: "hCache demoHandler = memoryOps (\<lambda>t. ''now'') \<lparr>LimitMB = 1, MaxTTL = 100\<rparr> ''ns''"
    by (simp add: demoHandler_def NewHandler_def)
  have obj: "memObj \<lparr>LimitMB = 1, MaxTTL = 100\<rparr> ''ns'' demoTier (requestKey (\<lambda>s. [7]) demoHandler demoRequest) = None"
    by (simp add: demoRequest_options memObj_def memFind_lookup tierView_def demoTier_def twoEntries_lookup)
  have fe: "FormatETag ''a'' = ([CHR 0x22, CHR ''a'', CHR 0x22], [])"
    by (simp add: FormatETag_def ValidateRawETag_def isRawETagChar_def less_eq_char_def)
  have ttl: "ttlFunc demoHandler demoRequest = 0" by (simp add: demoHandler_def NewHandler_def)
  have env: "transformFunc demoHandler demoRequest = Inr demoRequest"
      "hClient demoHandler (forwardHeaders demoRequest demoRequest) = Inr demoResponse" "rsStatus demoResponse = 200"
    by (simp_all add: demoHandler_def NewHandler_def demoResponse_def)
  show ?thesis
    using handler_miss [OF cache obj env run, of "[CHR 0x22, CHR ''a'', CHR 0x22]"] run fe ttl
    by (auto simp: demoRequest_options demoConn_def demoTier_def demoResponse_def)
qed

end
