(* ===== verification/Disk.thy ===== *)
theory Disk
  imports CacheCore Keys
begin

text \<open>
  The disk cache, \<^verbatim>\<open>internal/cache/disk.go\<close>, with its metadata database, \<^verbatim>\<open>internal/cache/disk_metadb.go\<close>.

  The state holds the files under the cache root (a path is the list of its components), the two buckets
  of the bbolt database, the atomic size counter and the clock.  Any one call to the operating system or
  the database may fail: \<open>dkFault\<close> is the number of calls that still succeed before one that fails.  The
  temporary file of a writer is part of the writer, which alone knows its name; \<open>dwRoom\<close> is how many more
  bytes the device takes for it and \<open>dwMod\<close> its modification time.  Header values are valid UTF-8, which the JSON encoding in the database keeps.
\<close>

unbundle bit_operations_syntax

section \<open>Model: the file system and the database\<close>

record DiskConfig =
  dcRoot :: string
  dcLimitMB :: int
  dcMaxTTL :: duration
  dcEvictInterval :: duration

record diskFile =
  fData :: bytes
  fMod :: time

record diskState =
  dkFiles :: "string list \<Rightarrow> diskFile option"
  dkTtl :: "string \<Rightarrow> time option"
  dkHeaders :: "string \<Rightarrow> header option"
  dkNamespaces :: "Namespace set"
  dkSize :: int
  dkNow :: time
  dkUuid :: string
  dkFault :: "nat option"
  dkClosed :: bool

definition ioErr :: goerr where
  "ioErr = [ErrOther ''i/o error'']"

definition osCall :: "diskState \<Rightarrow> goerr \<times> diskState" where
  "osCall c = (case dkFault c of
       None \<Rightarrow> ([], c)
     | Some 0 \<Rightarrow> (ioErr, c\<lparr>dkFault := None\<rparr>)
     | Some (Suc n) \<Rightarrow> ([], c\<lparr>dkFault := Some n\<rparr>))"

definition dbCall :: "diskState \<Rightarrow> goerr \<times> diskState" where
  "dbCall c = (if dkClosed c then ([ErrOther ''database not open''], c) else osCall c)"

definition osStat :: "string list \<Rightarrow> diskState \<Rightarrow> (goerr + diskFile) \<times> diskState" where
  "osStat path c = (case osCall c of (e, c1) \<Rightarrow>
     (if e \<noteq> [] then Inl e else case dkFiles c path of None \<Rightarrow> Inl [ErrNotExist] | Some f \<Rightarrow> Inr f, c1))"

definition osRemove :: "string list \<Rightarrow> diskState \<Rightarrow> goerr \<times> diskState" where
  "osRemove path c = (case osCall c of (e, c1) \<Rightarrow>
     if e \<noteq> [] then (e, c1)
     else if dkFiles c path = None then ([ErrNotExist], c1)
     else ([], c1\<lparr>dkFiles := (dkFiles c1)(path := None)\<rparr>))"

definition compositeKey :: "Namespace \<Rightarrow> Key \<Rightarrow> string" where
  "compositeKey namespace key = (if namespace = '''' then KeyString key else namespace @ ''/'' @ KeyString key)"

definition setTTL :: "Namespace \<Rightarrow> Key \<Rightarrow> time \<Rightarrow> diskState \<Rightarrow> goerr \<times> diskState" where
  "setTTL namespace key expiresAt c = (case dbCall c of (e, c1) \<Rightarrow>
     if e \<noteq> [] then (e, c1)
     else ([], c1\<lparr>dkTtl := (dkTtl c1)(compositeKey namespace key \<mapsto> expiresAt),
                  dkNamespaces := (if namespace \<noteq> '''' then insert namespace (dkNamespaces c1) else dkNamespaces c1)\<rparr>))"

definition metaSet :: "Key \<Rightarrow> Namespace \<Rightarrow> time \<Rightarrow> header \<Rightarrow> diskState \<Rightarrow> goerr \<times> diskState" where
  "metaSet key namespace expiresAt headers c = (case dbCall c of (e, c1) \<Rightarrow>
     if e \<noteq> [] then (e, c1)
     else ([], c1\<lparr>dkTtl := (dkTtl c1)(compositeKey namespace key \<mapsto> expiresAt),
                  dkHeaders := (dkHeaders c1)(compositeKey namespace key \<mapsto> headers),
                  dkNamespaces := (if namespace \<noteq> '''' then insert namespace (dkNamespaces c1) else dkNamespaces c1)\<rparr>))"

definition getTTL :: "Namespace \<Rightarrow> Key \<Rightarrow> diskState \<Rightarrow> (goerr + time) \<times> diskState" where
  "getTTL namespace key c = (case dbCall c of (e, c1) \<Rightarrow>
     (if e \<noteq> [] then Inl e
      else case dkTtl c (compositeKey namespace key) of None \<Rightarrow> Inl [ErrNotExist] | Some t \<Rightarrow> Inr t, c1))"

definition getHeaders :: "Namespace \<Rightarrow> Key \<Rightarrow> diskState \<Rightarrow> (goerr + header) \<times> diskState" where
  "getHeaders namespace key c = (case dbCall c of (e, c1) \<Rightarrow>
     (if e \<noteq> [] then Inl e
      else case dkHeaders c (compositeKey namespace key) of None \<Rightarrow> Inl [ErrNotExist] | Some h \<Rightarrow> Inr h, c1))"

text \<open>A transaction takes effect as a whole or, when it fails, not at all.\<close>

definition dropEntries :: "(Namespace \<times> Key) list \<Rightarrow> diskState \<Rightarrow> diskState" where
  "dropEntries es c =
     (let ks = set (map (\<lambda>(ns, k). compositeKey ns k) es)
      in c\<lparr>dkTtl := (\<lambda>k. if k \<in> ks then None else dkTtl c k),
           dkHeaders := (\<lambda>k. if k \<in> ks then None else dkHeaders c k)\<rparr>)"

definition metaDelete :: "Namespace \<Rightarrow> Key \<Rightarrow> diskState \<Rightarrow> goerr \<times> diskState" where
  "metaDelete namespace key c = (case dbCall c of (e, c1) \<Rightarrow>
     if e \<noteq> [] then (e, c1) else ([], dropEntries [(namespace, key)] c1))"

definition deleteAll :: "(Namespace \<times> Key) list \<Rightarrow> diskState \<Rightarrow> goerr \<times> diskState" where
  "deleteAll es c =
     (if es = [] then ([], c)
      else case dbCall c of (e, c1) \<Rightarrow> if e \<noteq> [] then (e, c1) else ([], dropEntries es c1))"

text \<open>
  The entry a database key stands for; keys without 64 characters after the namespace are skipped.  \<^verbatim>\<open>walk\<close> visits the
  keys in byte order.
\<close>

definition parseComposite :: "(string \<Rightarrow> bytes) \<Rightarrow> string \<Rightarrow> (Namespace \<times> Key) option" where
  "parseComposite sha256 k =
     (case (if CHR ''/'' \<in> set k then (takeWhile (\<lambda>x. x \<noteq> CHR ''/'') k, tl (dropWhile (\<lambda>x. x \<noteq> CHR ''/'') k)) else ('''', k)) of
        (namespace, hexKey) \<Rightarrow>
          if length hexKey \<noteq> 64 then None else Some (namespace, KeyUnmarshalText sha256 hexKey))"

definition walk :: "(string \<Rightarrow> bytes) \<Rightarrow> diskState \<Rightarrow> (Namespace \<times> Key \<times> time) list" where
  "walk sha256 c = List.map_filter (\<lambda>k. map_option (\<lambda>(ns, key). (ns, key, the (dkTtl c k))) (parseComposite sha256 k))
     (sorted_list_of_set (dom (dkTtl c)))"

definition metaCount :: "diskState \<Rightarrow> goerr + int" where
  "metaCount c = (case dbCall c of (e, _) \<Rightarrow> if e \<noteq> [] then Inl e else Inr (int (card (dom (dkTtl c)))))"

definition metaListNamespaces :: "diskState \<Rightarrow> string list \<times> goerr" where
  "metaListNamespaces c = (sorted_list_of_set (dkNamespaces c), [])"

section \<open>Model: the cache\<close>

text \<open>FNV-1a of 32 bits over the namespace and the key selects one of the 1024 locks.\<close>

definition diskLockStripes :: nat where
  "diskLockStripes = 1024"

fun fnv32a :: "32 word \<Rightarrow> bytes \<Rightarrow> 32 word" where
  "fnv32a h [] = h"
| "fnv32a h (b # bs) = fnv32a ((h XOR ucast b) * 16777619) bs"

definition keyLock :: "Namespace \<Rightarrow> Key \<Rightarrow> nat" where
  "keyLock namespace key =
     unat (fnv32a (fnv32a 2166136261 (map of_char namespace)) key AND (of_nat diskLockStripes - 1))"

definition keyToPath :: "Namespace \<Rightarrow> Key \<Rightarrow> string list" where
  "keyToPath namespace key =
     (let hexKey = KeyString key
      in if namespace \<noteq> '''' then [namespace, take 2 hexKey, hexKey] else [take 2 hexKey, hexKey])"

text \<open>
  \<^verbatim>\<open>NewDisk\<close> on a root that already holds files and a database: the defaults, the initial size over all
  files but the database, and the namespaces of the stored keys.
\<close>

definition NewDisk :: "DiskConfig \<Rightarrow> (string list \<Rightarrow> diskFile option) \<Rightarrow> (string \<Rightarrow> time option) \<Rightarrow> (string \<Rightarrow> header option)
    \<Rightarrow> time \<Rightarrow> string \<Rightarrow> goerr + (DiskConfig \<times> diskState)" where
  "NewDisk config files ttl headers now uuid =
     (if dcRoot config = '''' then Inl [ErrOther ''root directory is required'']
      else Inr (config\<lparr>dcLimitMB := (if dcLimitMB config = 0 then 10240 else dcLimitMB config),
                   dcMaxTTL := (if dcMaxTTL config = 0 then 3600 * 1000000000 else dcMaxTTL config),
                   dcEvictInterval := (if dcEvictInterval config = 0 then 60 * 1000000000 else dcEvictInterval config)\<rparr>,
            \<lparr>dkFiles = files, dkTtl = ttl, dkHeaders = headers,
             dkNamespaces = {ns. ns \<noteq> '''' \<and> (\<exists>k. ns @ ''/'' @ k \<in> dom ttl \<and> CHR ''/'' \<notin> set ns)},
             dkSize = (\<Sum>p \<in> {p \<in> dom files. last p \<noteq> ''metadata.db''}. int (length (fData (the (files p))))),
             dkNow = now, dkUuid = uuid, dkFault = None, dkClosed = False\<rparr>))"

definition DiskDelete :: "Namespace \<Rightarrow> diskState \<Rightarrow> Key \<Rightarrow> goerr \<times> diskState" where
  "DiskDelete ns c key =
     (case getTTL ns key c of (t, c1) \<Rightarrow>
        (let expired = (case t of Inl _ \<Rightarrow> False | Inr expiresAt \<Rightarrow> dkNow c > expiresAt)
         in case osStat (keyToPath ns key) c1 of (info, c2) \<Rightarrow>
              (case info of
                 Inl e \<Rightarrow> (e, c2)
               | Inr f \<Rightarrow>
                   (case osRemove (keyToPath ns key) c2 of (e, c3) \<Rightarrow>
                      if e \<noteq> [] then (e, c3)
                      else (case metaDelete ns key c3 of (e, c4) \<Rightarrow>
                        if e \<noteq> [] then (e, c4)
                        else (if expired then [ErrNotExist] else [],
                              c4\<lparr>dkSize := dkSize c4 - int (length (fData f))\<rparr>))))))"

definition DiskInvalidate :: "Namespace \<Rightarrow> diskState \<Rightarrow> Key \<Rightarrow> goerr \<times> diskState" where
  "DiskInvalidate ns c key =
     (case DiskDelete ns c key of (e, c1) \<Rightarrow> if errIs e ErrNotExist then ([], c1) else (e, c1))"

definition DiskStat :: "Namespace \<Rightarrow> diskState \<Rightarrow> Key \<Rightarrow> RequestOption list \<Rightarrow> (header \<times> goerr) \<times> diskState" where
  "DiskStat ns c key opts =
     (case osStat (keyToPath ns key) c of (info, c1) \<Rightarrow>
        (case info of
           Inl e \<Rightarrow> ((Map.empty, e), c1)
         | Inr f \<Rightarrow>
             (case getTTL ns key c1 of (t, c2) \<Rightarrow>
                (case t of
                   Inl e \<Rightarrow> ((Map.empty, e), c2)
                 | Inr expiresAt \<Rightarrow>
                     if dkNow c > expiresAt then
                       (case DiskDelete ns c2 key of (e, c3) \<Rightarrow> ((Map.empty, errJoin [[ErrNotExist], e]), c3))
                     else (case getHeaders ns key c2 of (hr, c3) \<Rightarrow>
                       (case hr of
                          Inl e \<Rightarrow> ((Map.empty, e), c3)
                        | Inr h \<Rightarrow>
                            (case conditionalShortCircuit (hSet h ''Content-Length'' (FormatInt (int (length (fData f))))) opts of
                               (h1, hc, e) \<Rightarrow> if e \<noteq> [] then ((hc, e), c3) else ((h1, []), c3))))))))"

text \<open>\<^verbatim>\<open>openLocked\<close>: an error, or the open file with its headers unless the entry is expired.\<close>

definition openLocked :: "DiskConfig \<Rightarrow> Namespace \<Rightarrow> diskState \<Rightarrow> Key \<Rightarrow> (goerr + diskFile \<times> header option) \<times> diskState" where
  "openLocked config ns c key =
     (case osStat (keyToPath ns key) c of (info, c1) \<Rightarrow>
        (case info of
           Inl e \<Rightarrow> (Inl e, c1)
         | Inr f \<Rightarrow>
             (case getTTL ns key c1 of (t, c2) \<Rightarrow>
                (case t of
                   Inl e \<Rightarrow> (case osCall c2 of (ce, c3) \<Rightarrow> (Inl (errJoin [e, ce]), c3))
                 | Inr expiresAt \<Rightarrow>
                     if dkNow c > expiresAt then (Inr (f, None), c2)
                     else (case getHeaders ns key c2 of (hr, c3) \<Rightarrow>
                       (case hr of
                          Inl e \<Rightarrow> (case osCall c3 of (ce, c4) \<Rightarrow> (Inl (errJoin [e, ce]), c4))
                        | Inr h \<Rightarrow>
                            (case setTTL ns key (dkNow c + min (timeSub expiresAt (dkNow c)) (dcMaxTTL config)) c3 of (e, c4) \<Rightarrow>
                               if e \<noteq> [] then (case osCall c4 of (ce, c5) \<Rightarrow> (Inl (errJoin [e, ce]), c5))
                               else (Inr (f, Some h), c4))))))))"

text \<open>An open file from an offset on.\<close>

definition fileReader :: "diskFile \<Rightarrow> int \<Rightarrow> body" where
  "fileReader f start = bytesReader (drop (nat start) (fData f))"

definition DiskOpen :: "DiskConfig \<Rightarrow> Namespace \<Rightarrow> diskState \<Rightarrow> Key \<Rightarrow> RequestOption list \<Rightarrow> (body \<times> header \<times> goerr) \<times> diskState" where
  "DiskOpen config ns c key opts =
     (case openLocked config ns c key of (r, c1) \<Rightarrow>
        (case r of
           Inl e \<Rightarrow> ((nilBody, Map.empty, e), c1)
         | Inr (f, None) \<Rightarrow>
             (case osCall c1 of (ce, c2) \<Rightarrow>
                (case DiskDelete ns c2 key of (e, c3) \<Rightarrow> ((nilBody, Map.empty, errJoin [[ErrNotExist], ce, e]), c3)))
         | Inr (f, Some headers) \<Rightarrow>
             (case osCall c1 of (se, c2) \<Rightarrow>
                if se \<noteq> [] then (case osCall c2 of (ce, c3) \<Rightarrow> ((nilBody, Map.empty, errJoin [se, ce]), c3))
                else (case conditionalShortCircuit (hSet headers ''Content-Length'' (FormatInt (int (length (fData f))))) opts of
                  (h1, hc, e) \<Rightarrow>
                    if e \<noteq> [] then (case osCall c2 of (ce, c3) \<Rightarrow> ((nilBody, hc, errJoin [e, ce]), c3))
                    else (case rangeShortCircuit h1 (int (length (fData f))) opts of (h2, start, len, part, re) \<Rightarrow>
                      if re \<noteq> [] then (case osCall c2 of (ce, c3) \<Rightarrow> ((nilBody, h2, errJoin [re, ce]), c3))
                      else if part then
                        (case osCall c2 of (ke, c3) \<Rightarrow>
                           if ke \<noteq> [] then (case osCall c3 of (ce, c4) \<Rightarrow> ((nilBody, h2, errJoin [ke, ce]), c4))
                           else ((newLimitedReadCloser (fileReader f start) len, h2, []), c3))
                      else ((fileReader f 0, h2, []), c2))))))"

section \<open>Model: writers\<close>

text \<open>The path of the committed file is that of the writer's namespace and key.\<close>

record diskWriter =
  dwData :: bytes
  dwKey :: Key
  dwNamespace :: Namespace
  dwExpiresAt :: time
  dwHeaders :: header
  dwSize :: int
  dwCtxErr :: goerr
  dwClosed :: bool
  dwRoom :: "nat option"
  dwMod :: time

definition dwPath :: "diskWriter \<Rightarrow> string list" where
  "dwPath w = keyToPath (dwNamespace w) (dwKey w)"

definition DiskCreate :: "(time \<Rightarrow> string) \<Rightarrow> DiskConfig \<Rightarrow> Namespace \<Rightarrow> nat option \<times> time \<Rightarrow> diskState \<Rightarrow> goerr \<Rightarrow> Key \<Rightarrow> header \<Rightarrow> duration
    \<Rightarrow> RequestOption list \<Rightarrow> (goerr + diskWriter) \<times> diskState" where
  "DiskCreate httpTime config ns dev c ctxErr key headers ttl0 opts =
     (let ttl = (if ttl0 > dcMaxTTL config \<or> ttl0 = 0 then dcMaxTTL config else ttl0);
          h1 = FilterHeaders headers TransportHeaders;
          h2 = (if hGet h1 ''Last-Modified'' = '''' then hSet h1 ''Last-Modified'' (httpTime (dkNow c)) else h1)
      in case setCreateETag (dkUuid c) h2 opts of (h3, e) \<Rightarrow>
           if e \<noteq> [] then (Inl e, c)
           else (case osCall c of (e, c1) \<Rightarrow>
             if e \<noteq> [] then (Inl e, c1)
             else (case osCall c1 of (e, c2) \<Rightarrow>
               if e \<noteq> [] then (Inl e, c2)
               else (Inr \<lparr>dwData = [], dwKey = key, dwNamespace = ns,
                          dwExpiresAt = dkNow c + ttl, dwHeaders = h3, dwSize = 0, dwCtxErr = ctxErr,
                          dwClosed = False, dwRoom = fst dev, dwMod = snd dev\<rparr>, c2))))"

definition DiskWrite :: "diskWriter \<Rightarrow> bytes \<Rightarrow> (nat \<times> goerr) \<times> diskWriter" where
  "DiskWrite w p =
     (if dwClosed w then ((0, [ErrOther ''file already closed'']), w)
      else (let n = (case dwRoom w of None \<Rightarrow> length p | Some r \<Rightarrow> min r (length p))
            in ((n, if n < length p then [ErrOther ''no space left on device''] else []),
                w\<lparr>dwData := dwData w @ take n p, dwSize := dwSize w + int n, dwRoom := map_option (\<lambda>r. r - n) (dwRoom w)\<rparr>)))"

definition commitLocked :: "diskWriter \<Rightarrow> diskState \<Rightarrow> goerr \<times> diskState" where
  "commitLocked w c =
     (case osStat (dwPath w) c of (info, c1) \<Rightarrow>
        (let c2 = (case info of Inl _ \<Rightarrow> c1 | Inr f \<Rightarrow> c1\<lparr>dkSize := dkSize c1 - int (length (fData f))\<rparr>)
         in case osCall c2 of (e, c3) \<Rightarrow>
              if e \<noteq> [] then (e, c3)
              else (let c4 = c3\<lparr>dkFiles := (dkFiles c3)(dwPath w \<mapsto> \<lparr>fData = dwData w, fMod = dwMod w\<rparr>)\<rparr>
                    in case metaSet (dwKey w) (dwNamespace w) (dwExpiresAt w) (dwHeaders w) c4 of (e, c5) \<Rightarrow>
                         if e \<noteq> [] then (case osRemove (dwPath w) c5 of (re, c6) \<Rightarrow> (errJoin [e, re], c6))
                         else ([], c5))))"

text \<open>\<^verbatim>\<open>Close\<close>; the signal to the eviction loop has no effect of its own: the loop may run at any time.\<close>

definition DiskWriterClose :: "diskWriter \<Rightarrow> diskState \<Rightarrow> goerr outcome \<times> diskWriter \<times> diskState" where
  "DiskWriterClose w c =
     (if dwClosed w then (Ret [], w, c)
      else (let w1 = w\<lparr>dwClosed := True\<rparr>
            in case osCall c of (e, c1) \<Rightarrow>
                 if e \<noteq> [] then (Ret e, w1, c1)
                 else if dwCtxErr w \<noteq> [] then
                   (case osCall c1 of (re, c2) \<Rightarrow> (Ret (errJoin [dwCtxErr w, re]), w1, c2))
                 else (case osCall c1 of (e, c2) \<Rightarrow>
                   if e \<noteq> [] then (Ret e, w1, c2)
                   else (case commitLocked w c2 of (e, c3) \<Rightarrow>
                     if e \<noteq> [] then (Ret e, w1, c3)
                     else (Ret [], w1, c3\<lparr>dkSize := dkSize c3 + dwSize w\<rparr>)))))"

definition DiskCancel :: "diskWriter \<Rightarrow> diskWriter" where
  "DiskCancel w = w\<lparr>dwCtxErr := (if dwCtxErr w = [] then [ErrCanceled] else dwCtxErr w)\<rparr>"

definition DiskAbort :: "diskWriter \<Rightarrow> diskState \<Rightarrow> goerr outcome \<times> diskWriter \<times> diskState" where
  "DiskAbort w c = DiskWriterClose (DiskCancel w) c"

definition DiskStats :: "DiskConfig \<Rightarrow> diskState \<Rightarrow> Stats \<times> goerr" where
  "DiskStats config c =
     (case metaCount c of
        Inl e \<Rightarrow> (\<lparr>Objects = 0, Size = 0, Capacity = 0\<rparr>, e)
      | Inr n \<Rightarrow> (\<lparr>Objects = n, Size = dkSize c, Capacity = dcLimitMB config * 1024 * 1024\<rparr>, []))"

definition DiskClose :: "diskState \<Rightarrow> goerr \<times> diskState" where
  "DiskClose c = (case osCall c of (e, c1) \<Rightarrow> (e, c1\<lparr>dkClosed := True\<rparr>))"

definition diskOps :: "(time \<Rightarrow> string) \<Rightarrow> DiskConfig \<Rightarrow> Namespace \<Rightarrow> nat option \<times> time \<Rightarrow> (diskState, diskWriter) cacheOps" where
  "diskOps httpTime config ns dev =
     \<lparr>cStat = DiskStat ns, cOpen = DiskOpen config ns, cCreate = DiskCreate httpTime config ns dev,
      cDelete = DiskDelete ns, cInvalidate = DiskInvalidate ns, cStats = DiskStats config,
      cListNamespaces = metaListNamespaces, cClose = DiskClose, wWrite = DiskWrite, wCancel = DiskCancel,
      wClose = DiskWriterClose\<rparr>"

section \<open>Model: eviction\<close>

record evictFileInfo =
  efNamespace :: Namespace
  efKey :: Key
  efSize :: int
  efExpiresAt :: time
  efAccessedAt :: time

text \<open>
  The walk of \<^verbatim>\<open>evict\<close>: it removes the files of expired entries and collects the entries without a file and
  the expired ones, and the files that remain.
\<close>

fun evictWalk :: "time \<Rightarrow> (Namespace \<times> Key \<times> time) list \<Rightarrow> evictFileInfo list \<Rightarrow> (Namespace \<times> Key) list \<Rightarrow> diskState
    \<Rightarrow> (goerr \<times> evictFileInfo list \<times> (Namespace \<times> Key) list) \<times> diskState" where
  "evictWalk now [] fs gone c = (([], fs, gone), c)"
| "evictWalk now ((ns, key, expiresAt) # es) fs gone c =
     (case osStat (keyToPath ns key) c of (info, c1) \<Rightarrow>
        (case info of
           Inl e \<Rightarrow> evictWalk now es fs (if errIs e ErrNotExist then gone @ [(ns, key)] else gone) c1
         | Inr f \<Rightarrow>
             if now > expiresAt then
               (case osRemove (keyToPath ns key) c1 of (e, c2) \<Rightarrow>
                  if e \<noteq> [] \<and> \<not> errIs e ErrNotExist then ((e, fs, gone), c2)
                  else evictWalk now es fs (gone @ [(ns, key)]) (c2\<lparr>dkSize := dkSize c2 - int (length (fData f))\<rparr>))
             else evictWalk now es (fs @ [\<lparr>efNamespace = ns, efKey = key, efSize = int (length (fData f)),
                                          efExpiresAt = expiresAt, efAccessedAt = fMod f\<rparr>]) gone c1))"

fun evictFiles :: "int \<Rightarrow> evictFileInfo list \<Rightarrow> (Namespace \<times> Key) list \<Rightarrow> diskState \<Rightarrow> (goerr \<times> (Namespace \<times> Key) list) \<times> diskState" where
  "evictFiles limit [] gone c = (([], gone), c)"
| "evictFiles limit (f # fs) gone c =
     (if dkSize c \<le> limit then (([], gone), c)
      else (case osRemove (keyToPath (efNamespace f) (efKey f)) c of (e, c1) \<Rightarrow>
        if e \<noteq> [] \<and> \<not> errIs e ErrNotExist then ((e, gone), c1)
        else evictFiles limit fs (gone @ [(efNamespace f, efKey f)]) (c1\<lparr>dkSize := dkSize c1 - efSize f\<rparr>)))"

text \<open>\<^verbatim>\<open>sort.Slice\<close> is not stable, so the order among equal times is the parameter \<open>srt\<close>.\<close>

definition evictBySize :: "(evictFileInfo list \<Rightarrow> evictFileInfo list) \<Rightarrow> DiskConfig \<Rightarrow> evictFileInfo list \<Rightarrow> diskState \<Rightarrow> goerr \<times> diskState" where
  "evictBySize srt config fs c =
     (let limit = dcLimitMB config * 1024 * 1024
      in if dkSize c \<le> limit then ([], c)
         else (case evictFiles limit (srt fs) [] c of ((e, gone), c1) \<Rightarrow>
           if e \<noteq> [] then (e, c1) else deleteAll gone c1))"

definition evict :: "(string \<Rightarrow> bytes) \<Rightarrow> (evictFileInfo list \<Rightarrow> evictFileInfo list) \<Rightarrow> DiskConfig \<Rightarrow> diskState \<Rightarrow> goerr \<times> diskState" where
  "evict sha256 srt config c =
     (case dbCall c of (e, c0) \<Rightarrow>
        if e \<noteq> [] then (e, c0)
        else (case evictWalk (dkNow c) (walk sha256 c0) [] [] c0 of ((e, fs, gone), c1) \<Rightarrow>
          if e \<noteq> [] then (e, c1)
          else (case deleteAll gone c1 of (e, c2) \<Rightarrow>
            if e \<noteq> [] then (e, c2) else evictBySize srt config fs c2)))"

section \<open>Lemmas: calls that can fail\<close>

text \<open>The part of the state that decides which objects are visible.\<close>

definition dview :: "diskState \<Rightarrow> (string list \<Rightarrow> diskFile option) \<times> (string \<Rightarrow> time option) \<times> (string \<Rightarrow> header option) \<times> time \<times> bool" where
  "dview c = (dkFiles c, dkTtl c, dkHeaders c, dkNow c, dkClosed c)"

definition quiet :: "goerr \<Rightarrow> bool" where
  "quiet e \<longleftrightarrow> e = [] \<or> hardErr e"

lemma quiet_simps [simp]: "quiet []" "quiet ioErr" "quiet [ErrOther s]" "ioErr \<noteq> []" "quiet e \<Longrightarrow> quiet e' \<Longrightarrow> quiet (e @ e')"
  by (auto simp: quiet_def ioErr_def hardErr_def)

lemma osCall_cases:
  assumes "osCall c = (e, c')"
  shows "dview c' = dview c" "dkSize c' = dkSize c" "dkUuid c' = dkUuid c" "quiet e" "dkFault c = None \<Longrightarrow> e = [] \<and> c' = c"
    "e \<noteq> [] \<Longrightarrow> dkFault c' = None"
  using assms by (auto simp: osCall_def dview_def split: option.splits nat.splits)

lemma dbCall_cases:
  assumes "dbCall c = (e, c')"
  shows "dview c' = dview c" "dkSize c' = dkSize c" "dkUuid c' = dkUuid c" "quiet e"
    "dkFault c = None \<Longrightarrow> \<not> dkClosed c \<Longrightarrow> e = [] \<and> c' = c" "e \<noteq> [] \<Longrightarrow> dkClosed c \<or> dkFault c' = None"
  using assms osCall_cases [of c e c'] by (auto simp: dbCall_def split: if_splits)

lemma dview_sel:
  "dview c' = dview c \<Longrightarrow> dkFiles c' = dkFiles c" "dview c' = dview c \<Longrightarrow> dkTtl c' = dkTtl c"
  "dview c' = dview c \<Longrightarrow> dkHeaders c' = dkHeaders c" "dview c' = dview c \<Longrightarrow> dkNow c' = dkNow c" "dview c' = dview c \<Longrightarrow> dkClosed c' = dkClosed c"
  by (simp_all add: dview_def)

lemma osStat_cases:
  assumes "osStat path c = (r, c')"
  shows "dview c' = dview c" "dkSize c' = dkSize c"
    "case r of Inl e \<Rightarrow> hardErr e \<or> e = [ErrNotExist] \<and> dkFiles c path = None | Inr f \<Rightarrow> dkFiles c path = Some f"
    "dkFault c = None \<Longrightarrow> c' = c \<and> r = (case dkFiles c path of None \<Rightarrow> Inl [ErrNotExist] | Some f \<Rightarrow> Inr f)"
proof -
  obtain e c1 where o: "osCall c = (e, c1)" by (metis prod.exhaust)
  note f = osCall_cases [OF o]
  have r: "r = (if e \<noteq> [] then Inl e else case dkFiles c path of None \<Rightarrow> Inl [ErrNotExist] | Some f \<Rightarrow> Inr f)" "c' = c1"
    using assms o by (simp_all add: osStat_def split: if_splits)
  show "dview c' = dview c" "dkSize c' = dkSize c" using f(1,2) r(2) by simp_all
  show "case r of Inl e \<Rightarrow> hardErr e \<or> e = [ErrNotExist] \<and> dkFiles c path = None | Inr f \<Rightarrow> dkFiles c path = Some f"
    using f(4) r(1) by (auto simp: quiet_def split: option.splits)
  show "dkFault c = None \<Longrightarrow> c' = c \<and> r = (case dkFiles c path of None \<Rightarrow> Inl [ErrNotExist] | Some f \<Rightarrow> Inr f)"
    using f(5) r by simp
qed

lemma db_lookup_cases:
  assumes "(case dbCall c of (e, c1) \<Rightarrow> (if e \<noteq> [] then Inl e else case bucket k of None \<Rightarrow> Inl [ErrNotExist] | Some x \<Rightarrow> Inr x, c1)) = (r, c')"
  shows "dview c' = dview c" "dkSize c' = dkSize c"
    "case r of Inl e \<Rightarrow> hardErr e \<or> e = [ErrNotExist] \<and> bucket k = None | Inr x \<Rightarrow> \<not> dkClosed c \<and> bucket k = Some x"
    "dkFault c = None \<Longrightarrow> c' = c"
proof -
  obtain e c1 where o: "dbCall c = (e, c1)" by (metis prod.exhaust)
  note f = dbCall_cases [OF o]
  have r: "r = (if e \<noteq> [] then Inl e else case bucket k of None \<Rightarrow> Inl [ErrNotExist] | Some x \<Rightarrow> Inr x)" "c' = c1"
    using assms o by (simp_all split: if_splits)
  have cl: "dkClosed c \<Longrightarrow> e \<noteq> []" using o by (auto simp: dbCall_def)
  show "dview c' = dview c" "dkSize c' = dkSize c" using f(1,2) r(2) by simp_all
  show "case r of Inl e \<Rightarrow> hardErr e \<or> e = [ErrNotExist] \<and> bucket k = None | Inr x \<Rightarrow> \<not> dkClosed c \<and> bucket k = Some x"
    using f(4) r(1) cl by (auto simp: quiet_def split: option.splits)
  show "dkFault c = None \<Longrightarrow> c' = c" using f(5) r o by (cases "dkClosed c") (auto simp: dbCall_def)
qed

lemmas getTTL_cases = db_lookup_cases [of "dkTtl c" "compositeKey ns key" c for c ns key, folded getTTL_def]
  and getHeaders_cases = db_lookup_cases [of "dkHeaders c" "compositeKey ns key" c for c ns key, folded getHeaders_def]

lemma osRemove_cases:
  assumes "osRemove path c = (e, c')"
  shows "e = [] \<and> dkFiles c path \<noteq> None \<and> dview c' = dview (c\<lparr>dkFiles := (dkFiles c)(path := None)\<rparr>) \<or>
      dview c' = dview c \<and> (hardErr e \<or> e = [ErrNotExist] \<and> dkFiles c path = None)" "dkSize c' = dkSize c"
    "dkFault c = None \<Longrightarrow> e = (if dkFiles c path = None then [ErrNotExist] else []) \<and> c' = c\<lparr>dkFiles := (dkFiles c)(path := None)\<rparr>"
proof -
  obtain e1 c1 where o: "osCall c = (e1, c1)" by (metis prod.exhaust)
  note f = osCall_cases [OF o]
  have r: "(e, c') = (if e1 \<noteq> [] then (e1, c1) else if dkFiles c path = None then ([ErrNotExist], c1)
     else ([], c1\<lparr>dkFiles := (dkFiles c1)(path := None)\<rparr>))"
    using assms o by (simp add: osRemove_def split: if_splits)
  show "e = [] \<and> dkFiles c path \<noteq> None \<and> dview c' = dview (c\<lparr>dkFiles := (dkFiles c)(path := None)\<rparr>) \<or>
      dview c' = dview c \<and> (hardErr e \<or> e = [ErrNotExist] \<and> dkFiles c path = None)"
    using r f(1,4) by (auto simp: quiet_def dview_def split: if_splits)
  show "dkSize c' = dkSize c" using r f(2) by (auto split: if_splits)
  have "c\<lparr>dkFiles := (dkFiles c)(path := None)\<rparr> = c" if "dkFiles c path = None" using that by (simp add: fun_upd_idem)
  then show "dkFault c = None \<Longrightarrow> e = (if dkFiles c path = None then [ErrNotExist] else []) \<and> c' = c\<lparr>dkFiles := (dkFiles c)(path := None)\<rparr>"
    using r f(5) by (auto split: if_splits)
qed

section \<open>Lemmas: the contract of the interface\<close>

text \<open>The object a key has: a file with unexpired metadata, in an open cache.\<close>

definition diskObj :: "Namespace \<Rightarrow> diskState \<Rightarrow> Key \<Rightarrow> (bytes \<times> header) option" where
  "diskObj ns c key =
     (if dkClosed c then None
      else case (dkFiles c (keyToPath ns key), dkTtl c (compositeKey ns key), dkHeaders c (compositeKey ns key)) of
        (Some f, Some t, Some h) \<Rightarrow> if dkNow c > t then None else Some (fData f, h)
      | _ \<Rightarrow> None)"

definition diskPend :: "Namespace \<Rightarrow> diskWriter \<Rightarrow> (Key \<times> bytes \<times> string) option" where
  "diskPend ns w =
     (if dwClosed w \<or> dwCtxErr w \<noteq> [] \<or> dwNamespace w \<noteq> ns then None
      else Some (dwKey w, dwData w, hGet (dwHeaders w) ETagKey))"

lemma diskObj_cong: "dview c' = dview c \<Longrightarrow> diskObj ns c' = diskObj ns c"
  by (rule ext) (auto simp: diskObj_def dview_def split: option.splits)

lemma KeyString_inject: "KeyString k = KeyString k' \<longleftrightarrow> k = k'"
  by (metis KeyString_def hexDecode_hexEncode option.inject)

lemma KeyString_no_slash: "CHR ''/'' \<notin> set (KeyString k)"
proof -
  have "hexDigit n \<noteq> CHR ''/''" if "n < 16" for n
    using that hexVal_hexDigit [of n] by (auto simp: hexVal_def)
  moreover have "unat b div 16 < 16" "unat b mod 16 < 16" for b :: "8 word"
  proof -
    have "unat b < 256" using unsigned_less [of b] by simp
    then show "unat b div 16 < 16" "unat b mod 16 < 16" by simp_all
  qed
  ultimately have d: "CHR ''/'' \<noteq> hexDigit (unat b div 16)" "CHR ''/'' \<noteq> hexDigit (unat b mod 16)" for b :: "8 word" by metis+
  have "CHR ''/'' \<notin> set (hexEncode bs)" for bs by (induction bs) (simp_all add: d)
  then show ?thesis by (simp add: KeyString_def)
qed

text \<open>Files and database keys never collide, not even across namespaces.\<close>

lemma keyToPath_inject [simp]: "keyToPath ns k = keyToPath ns' k' \<longleftrightarrow> ns = ns' \<and> k = k'"
  by (auto simp: keyToPath_def Let_def KeyString_inject)

lemma compositeKey_inject [simp]: "compositeKey ns k = compositeKey ns' k' \<longleftrightarrow> ns = ns' \<and> k = k'"
proof -
  have tw: "takeWhile (\<lambda>x. x \<noteq> CHR ''/'') (rev (n @ ''/'' @ KeyString x)) = rev (KeyString x)" for n x
    using KeyString_no_slash [of x] by (subst rev_append, subst rev_append) (simp add: takeWhile_append takeWhile_eq_all_conv [THEN iffD2])
  have "KeyString k = KeyString k'" if "ns @ ''/'' @ KeyString k = ns' @ ''/'' @ KeyString k'"
    using tw [of ns k] tw [of ns' k'] that by (metis rev_rev_ident)
  then have "ns = ns' \<and> KeyString k = KeyString k'" if "ns @ ''/'' @ KeyString k = ns' @ ''/'' @ KeyString k'" using that by simp
  moreover have "n @ CHR ''/'' # x \<noteq> KeyString y" for n x y by (metis KeyString_no_slash in_set_conv_decomp)
  ultimately show ?thesis by (auto simp: compositeKey_def KeyString_inject dest: sym)
qed

lemma diskObj_removed:
  "dview c' = dview (c\<lparr>dkFiles := (dkFiles c)(keyToPath ns key := None)\<rparr>) \<Longrightarrow> diskObj ns c' = (diskObj ns c)(key := None)"
  by (rule ext) (auto simp: diskObj_def dview_def split: option.splits)

lemma forgets_removed: "obj c' = (obj c)(key := None) \<Longrightarrow> forgets obj c c' {}"
  by (auto simp: forgets_def)

text \<open>
  \<^verbatim>\<open>Delete\<close>: it fails and changes nothing, finds nothing, or removes the object (whether or not the
  metadata could be removed too).
\<close>

lemma DiskDelete_cases:
  assumes "DiskDelete ns c key = (e, c')"
  obtains (same) "diskObj ns c' = diskObj ns c" "hardErr e \<or> e = [ErrNotExist] \<and> dkFiles c (keyToPath ns key) = None"
  | (removed) "diskObj ns c' = (diskObj ns c)(key := None)" "quiet e \<or> e = [ErrNotExist]"
proof -
  let ?p = "keyToPath ns key"
  obtain t c1 where t: "getTTL ns key c = (t, c1)" by (metis prod.exhaust)
  obtain info c2 where st: "osStat ?p c1 = (info, c2)" by (metis prod.exhaust)
  obtain e3 c3 where rm: "osRemove ?p c2 = (e3, c3)" by (metis prod.exhaust)
  obtain e4 c4 where dl: "dbCall c3 = (e4, c4)" by (metis prod.exhaust)
  note v1 = getTTL_cases(1) [OF t] and v2 = osStat_cases [OF st]
  have fc: "dkFiles c1 = dkFiles c" using v1 by (rule dview_sel)
  show ?thesis
  proof (cases info)
    case (Inl e')
    then have "e = e'" "c' = c2" using assms t st by (auto simp: DiskDelete_def Let_def)
    then show ?thesis using same v1 v2(1,3) Inl fc diskObj_cong [of c' c] by auto
  next
    case (Inr f)
    show ?thesis
    proof (cases "e3 = []")
      case False
      then have "e = e3" "c' = c3" using assms t st rm Inr by (auto simp: DiskDelete_def Let_def)
      then show ?thesis using same v1 v2(1) osRemove_cases(1) [OF rm] False diskObj_cong [of c' c] fc dview_sel(1) [OF v2(1)] by auto
    next
      case True
      have "dview c3 = dview (c2\<lparr>dkFiles := (dkFiles c2)(?p := None)\<rparr>)"
        using osRemove_cases(1) [OF rm] True by (auto simp: hardErr_def)
      then have v3: "dview c4 = dview (c\<lparr>dkFiles := (dkFiles c)(?p := None)\<rparr>)"
        using dbCall_cases(1) [OF dl] v1 v2(1) by (simp add: dview_def)
      have "c' = (if e4 \<noteq> [] then c4 else (dropEntries [(ns, key)] c4)\<lparr>dkSize := dkSize (dropEntries [(ns, key)] c4) - int (length (fData f))\<rparr>)"
        "quiet e \<or> e = [ErrNotExist]"
        using assms t st rm Inr True dl dbCall_cases(4) [OF dl]
        by (auto simp: DiskDelete_def Let_def metaDelete_def split: if_splits)
      moreover have "diskObj ns c4 = (diskObj ns c)(key := None)" using diskObj_removed [OF v3] .
      moreover have "diskObj ns (dropEntries [(ns, key)] x\<lparr>dkSize := s\<rparr>) = diskObj ns x" if "diskObj ns x key = None" for x s
        using that by (intro ext) (auto simp: diskObj_def dropEntries_def Let_def split: option.splits if_splits)
      ultimately show ?thesis using removed by (auto simp: fun_upd_def split: if_splits)
    qed
  qed
qed

lemma DiskDelete_forgets: "DiskDelete ns c key = (e, c') \<Longrightarrow> forgets (diskObj ns) c c' {} \<and> (hardErr e \<or> diskObj ns c' key = None)"
  by (erule DiskDelete_cases) (auto simp: forgets_removed forgets_same diskObj_def)

text \<open>An expired or absent object stays absent under \<^verbatim>\<open>Delete\<close>, and nothing else changes.\<close>

lemma DiskDelete_absent:
  "DiskDelete ns c key = (e, c') \<Longrightarrow> diskObj ns c key = None \<Longrightarrow>
   diskObj ns c' = diskObj ns c \<and> (quiet e \<or> e = [ErrNotExist])"
  by (erule DiskDelete_cases) (auto simp: fun_upd_idem quiet_def)

lemma diskObj_iff:
  "diskObj ns c key = Some (d, h) \<longleftrightarrow> \<not> dkClosed c \<and>
     (\<exists>f t. dkFiles c (keyToPath ns key) = Some f \<and> dkTtl c (compositeKey ns key) = Some t \<and> \<not> dkNow c > t \<and>
        dkHeaders c (compositeKey ns key) = Some h \<and> d = fData f)"
  by (auto simp: diskObj_def split: option.splits if_splits)

lemma diskObj_None:
  "dkFiles c (keyToPath ns key) = None \<Longrightarrow> diskObj ns c key = None"
  "dkTtl c (compositeKey ns key) = None \<Longrightarrow> diskObj ns c key = None"
  "dkTtl c (compositeKey ns key) = Some t \<Longrightarrow> dkNow c > t \<Longrightarrow> diskObj ns c key = None"
  "dkHeaders c (compositeKey ns key) = None \<Longrightarrow> diskObj ns c key = None"
  by (auto simp: diskObj_def split: option.splits)

lemma hardErr_app: "quiet e' \<Longrightarrow> hardErr e \<Longrightarrow> hardErr (e @ e')"
  by (auto simp: quiet_def hardErr_def)

lemma errSame_quiet: "quiet e' \<Longrightarrow> e \<noteq> [] \<Longrightarrow> errSame (e @ e') e"
  by (auto simp: quiet_def hardErr_def errSame_def errIs_def)

lemma statSpec_None [simp]: "statSpec None opts = (Map.empty, [ErrNotExist])"
  by (simp add: statSpec_def)

lemma openSpec_None [simp]: "openSpec None opts = (nilBody, Map.empty, [ErrNotExist])"
  by (simp add: openSpec_def)

lemma reports_absent:
  "hardErr e \<or> e = [ErrNotExist] \<Longrightarrow> quiet e' \<Longrightarrow> hardErr (e @ e') \<or> errSame (e @ e') [ErrNotExist]"
  using hardErr_app [of e' e] errSame_quiet [of e' e] by blast

lemma DiskStat_law:
  assumes "DiskStat ns c key opts = ((h, e), c')"
  shows "diskObj ns c' = diskObj ns c \<and> (hardErr e \<or> (\<exists>e0. (h, e0) = statSpec (diskObj ns c key) opts \<and> errSame e e0))"
proof -
  obtain info c1 where st: "osStat (keyToPath ns key) c = (info, c1)" by (metis prod.exhaust)
  obtain t c2 where tt: "getTTL ns key c1 = (t, c2)" by (metis prod.exhaust)
  obtain hr c3 where hh: "getHeaders ns key c2 = (hr, c3)" by (metis prod.exhaust)
  obtain e4 c4 where dl: "DiskDelete ns c2 key = (e4, c4)" by (metis prod.exhaust)
  note a1 = osStat_cases [OF st] and a2 = getTTL_cases [OF tt] and a3 = getHeaders_cases [OF hh]
  have o: "diskObj ns c1 = diskObj ns c" "diskObj ns c2 = diskObj ns c" "diskObj ns c3 = diskObj ns c"
    by (simp_all add: diskObj_cong [OF a1(1)] diskObj_cong [OF a2(1)] diskObj_cong [OF a3(1)])
  note sel = dview_sel [OF a1(1)] dview_sel [OF a2(1)]
  show ?thesis
  proof (cases info)
    case (Inl e')
    then show ?thesis using assms st a1(3) o diskObj_None(1) [of c ns key] by (auto simp: DiskStat_def)
  next
    case info: (Inr f)
    show ?thesis
    proof (cases t)
      case (Inl e')
      then show ?thesis using assms st info tt a2(3) o sel diskObj_None(2) [of c ns key] by (auto simp: DiskStat_def)
    next
      case t: (Inr x)
      show ?thesis
      proof (cases "dkNow c > x")
        case True
        have none: "diskObj ns c key = None" using diskObj_None(3) [of c ns key x] True a2(3) t sel by simp
        have "h = Map.empty" "e = [ErrNotExist] @ e4" "c' = c4"
          using assms st info tt t True dl by (auto simp: DiskStat_def errJoin_def)
        moreover have "diskObj ns c4 = diskObj ns c" "quiet e4 \<or> e4 = [ErrNotExist]"
          using DiskDelete_absent [OF dl] o none by auto
        ultimately show ?thesis using none errSame_quiet [of e4 "[ErrNotExist]"] by (auto simp: errSame_def errIs_def)
      next
        case live: False
        show ?thesis
        proof (cases hr)
          case (Inl e')
          then show ?thesis using assms st info tt t live hh a3(3) o sel diskObj_None(4) [of c ns key] by (auto simp: DiskStat_def)
        next
          case (Inr h0)
          have "diskObj ns c key = Some (fData f, h0)" using a1(3) a2(3) a3(3) info t Inr live sel by (auto simp: diskObj_iff)
          then show ?thesis using assms st info tt t live hh Inr o
            by (auto simp: DiskStat_def statSpec_def split: prod.splits if_splits)
        qed
      qed
    qed
  qed
qed

lemma setTTL_law:
  assumes "setTTL ns key t' c = (e, c')" "dkTtl c (compositeKey ns key) = Some t" "\<not> dkNow c > t" "\<not> dkNow c > t'"
  shows "diskObj ns c' = diskObj ns c \<and> quiet e"
proof -
  obtain e1 c1 where d: "dbCall c = (e1, c1)" by (metis prod.exhaust)
  note f = dbCall_cases [OF d]
  note sel = dview_sel [OF f(1)]
  show ?thesis
  proof (cases "e1 = []")
    case False
    then show ?thesis using assms(1) d f(4) diskObj_cong [OF f(1)] by (auto simp: setTTL_def)
  next
    case True
    have "diskObj ns c' k = diskObj ns c1 k" for k
      using assms d True sel by (cases "k = key") (auto simp: setTTL_def diskObj_def split: option.splits)
    then show ?thesis using assms(1) d True diskObj_cong [OF f(1)] by (auto simp: setTTL_def fun_eq_iff)
  qed
qed

lemma openLocked_law:
  assumes "openLocked config ns c key = (r, c')" "0 \<le> dcMaxTTL config"
  shows "diskObj ns c' = diskObj ns c \<and>
    (case r of
       Inl e \<Rightarrow> hardErr e \<or> errSame e [ErrNotExist] \<and> diskObj ns c key = None
     | Inr (f, None) \<Rightarrow> diskObj ns c key = None
     | Inr (f, Some h) \<Rightarrow> diskObj ns c key = Some (fData f, h))"
proof -
  obtain info c1 where st: "osStat (keyToPath ns key) c = (info, c1)" by (metis prod.exhaust)
  obtain t c2 where tt: "getTTL ns key c1 = (t, c2)" by (metis prod.exhaust)
  obtain hr c3 where hh: "getHeaders ns key c2 = (hr, c3)" by (metis prod.exhaust)
  obtain e2 c2' where k2: "osCall c2 = (e2, c2')" by (metis prod.exhaust)
  obtain e3 c3' where k3: "osCall c3 = (e3, c3')" by (metis prod.exhaust)
  note a1 = osStat_cases [OF st] and a2 = getTTL_cases [OF tt] and a3 = getHeaders_cases [OF hh]
  note q2 = osCall_cases [OF k2] and q3 = osCall_cases [OF k3]
  have o: "diskObj ns c1 = diskObj ns c" "diskObj ns c2 = diskObj ns c" "diskObj ns c3 = diskObj ns c"
    "diskObj ns c2' = diskObj ns c" "diskObj ns c3' = diskObj ns c"
    by (simp_all add: diskObj_cong [OF a1(1)] diskObj_cong [OF a2(1)] diskObj_cong [OF a3(1)] diskObj_cong [OF q2(1)] diskObj_cong [OF q3(1)])
  note sel = dview_sel [OF a1(1)] dview_sel [OF a2(1)] dview_sel [OF a3(1)]
  show ?thesis
  proof (cases info)
    case (Inl e')
    then show ?thesis using assms st a1(3) o diskObj_None(1) [of c ns key] by (auto simp: openLocked_def)
  next
    case info: (Inr f)
    show ?thesis
    proof (cases t)
      case (Inl e')
      then have "r = Inl (e' @ e2)" "c' = c2'" using assms st info tt k2 by (auto simp: openLocked_def errJoin_def)
      then show ?thesis using a2(3) Inl q2(4) reports_absent [of e' e2] hardErr_app [of e2 e'] o sel diskObj_None(2) [of c ns key] by auto
    next
      case t: (Inr x)
      show ?thesis
      proof (cases "dkNow c > x")
        case True
        then show ?thesis using assms st info tt t o diskObj_None(3) [of c ns key x] a2(3) sel by (auto simp: openLocked_def)
      next
        case live: False
        show ?thesis
        proof (cases hr)
          case (Inl e')
          then have "r = Inl (e' @ e3)" "c' = c3'" using assms st info tt t live hh k3 by (auto simp: openLocked_def errJoin_def)
          then show ?thesis using a3(3) Inl q3(4) reports_absent [of e' e3] hardErr_app [of e3 e'] o sel diskObj_None(4) [of c ns key] by auto
        next
          case hr: (Inr h0)
          have obj: "diskObj ns c key = Some (fData f, h0)" using a1(3) a2(3) a3(3) info t hr live sel by (auto simp: diskObj_iff)
          let ?t' = "dkNow c + min (timeSub x (dkNow c)) (dcMaxTTL config)"
          obtain e4 c4 where s4: "setTTL ns key ?t' c3 = (e4, c4)" by (metis prod.exhaust)
          obtain e5 c5 where k5: "osCall c4 = (e5, c5)" by (metis prod.exhaust)
          note q5 = osCall_cases [OF k5]
          have law: "diskObj ns c4 = diskObj ns c \<and> quiet e4"
            using setTTL_law [OF s4, of x] o a2(3) t live sel assms(2) by (simp add: timeSub_def)
          then have "diskObj ns c5 = diskObj ns c" by (simp add: diskObj_cong [OF q5(1)])
          then show ?thesis using assms(1) st info tt t live hh hr s4 k5 law obj q5(4) hardErr_app [of e5 e4]
            by (auto simp: openLocked_def errJoin_def quiet_def split: if_splits)
        qed
      qed
    qed
  qed
qed

lemma fileReader_window:
  "0 < len \<Longrightarrow> newLimitedReadCloser (fileReader f start) len = bytesReader (take (nat len) (drop (nat start) (fData f)))"
  by (simp add: newLimitedReadCloser_def fileReader_def bytesReader_def)

lemma rangeShortCircuit_partial:
  "rangeShortCircuit h sz opts = (h2, start, len, part, re) \<Longrightarrow> 0 \<le> sz \<Longrightarrow> part \<Longrightarrow> 0 < len \<and> re = []"
  using ResolveRange_cases [of "NewRequestOptions opts" sz "hGet h ETagKey"]
  by (cases "ResolveRange (NewRequestOptions opts) sz (hGet h ETagKey)")
     (auto simp: rangeShortCircuit_def split: RangeOutcome.splits)

text \<open>The answer for a file that \<^verbatim>\<open>openLocked\<close> has opened is that of the interface, or an error of its own.\<close>

lemma DiskOpen_file:
  assumes "openLocked config ns c key = (Inr (f, Some headers), c1)" "DiskOpen config ns c key opts = ((b, h, e), c')"
  shows "dview c' = dview c1 \<and> (hardErr e \<or> (\<exists>e0. (b, h, e0) = openSpec (Some (fData f, headers)) opts \<and> errSame e e0))"
proof -
  obtain e2 c2 where k2: "osCall c1 = (e2, c2)" by (metis prod.exhaust)
  obtain e3 c3 where k3: "osCall c2 = (e3, c3)" by (metis prod.exhaust)
  obtain e4 c4 where k4: "osCall c3 = (e4, c4)" by (metis prod.exhaust)
  note q = osCall_cases(1,4) [OF k2] osCall_cases(1,4) [OF k3] osCall_cases(1,4) [OF k4]
  obtain h1 hc ce where cs: "conditionalShortCircuit (hSet headers ''Content-Length'' (FormatInt (int (length (fData f))))) opts = (h1, hc, ce)"
    by (metis prod.exhaust)
  obtain h2 start len part re where rs: "rangeShortCircuit h1 (int (length (fData f))) opts = (h2, start, len, part, re)"
    by (metis prod.exhaust)
  consider (stat) "e2 \<noteq> []" | (cond) "e2 = []" "ce \<noteq> []" | (range) "e2 = []" "ce = []" "re \<noteq> []"
    | (seek) "e2 = []" "ce = []" "re = []" "part" | (full) "e2 = []" "ce = []" "re = []" "\<not> part" by blast
  then show ?thesis
  proof cases
    case stat
    then show ?thesis using assms k2 k3 q hardErr_app [of e3 e2] by (auto simp: DiskOpen_def errJoin_def quiet_def)
  next
    case cond
    then show ?thesis using assms k2 k3 q cs errSame_quiet [of e3 ce] by (auto simp: DiskOpen_def errJoin_def openSpec_def)
  next
    case range
    then show ?thesis using assms k2 k3 q cs rs errSame_quiet [of e3 re] by (auto simp: DiskOpen_def errJoin_def openSpec_def)
  next
    case seek
    have "0 < len" using rangeShortCircuit_partial [OF rs] seek by simp
    then show ?thesis using seek assms k2 k3 k4 q cs rs hardErr_app [of e4 e3]
      by (auto simp: DiskOpen_def errJoin_def openSpec_def fileReader_window quiet_def split: if_splits)
  next
    case full
    then show ?thesis using assms k2 q cs rs by (auto simp: DiskOpen_def openSpec_def fileReader_def)
  qed
qed

lemma DiskOpen_law:
  assumes "DiskOpen config ns c key opts = ((b, h, e), c')" "0 \<le> dcMaxTTL config"
  shows "diskObj ns c' = diskObj ns c \<and> (hardErr e \<or> (\<exists>e0. (b, h, e0) = openSpec (diskObj ns c key) opts \<and> errSame e e0))"
proof -
  obtain r c1 where ol: "openLocked config ns c key = (r, c1)" by (metis prod.exhaust)
  note law = openLocked_law [OF ol assms(2)]
  show ?thesis
  proof (cases r)
    case (Inl e')
    then show ?thesis using assms ol law by (auto simp: DiskOpen_def)
  next
    case (Inr fh)
    show ?thesis
    proof (cases "snd fh")
      case (Some headers)
      then have r: "r = Inr (fst fh, Some headers)" using Inr by (metis prod.collapse)
      then have "diskObj ns c key = Some (fData (fst fh), headers)" using law by simp
      with DiskOpen_file [OF ol [unfolded r] assms(1)] law diskObj_cong [of c' c1] show ?thesis by simp
    next
      case None
      then have r: "r = Inr (fst fh, None)" using Inr by (metis prod.collapse)
      then have none: "diskObj ns c key = None" using law by simp
      obtain e2 c2 where k2: "osCall c1 = (e2, c2)" by (metis prod.exhaust)
      obtain e3 c3 where dl: "DiskDelete ns c2 key = (e3, c3)" by (metis prod.exhaust)
      note q = osCall_cases(1,4) [OF k2]
      have "b = nilBody" "h = Map.empty" "e = [ErrNotExist] @ e2 @ e3" "c' = c3"
        using assms ol r k2 dl by (auto simp: DiskOpen_def errJoin_def)
      moreover have "diskObj ns c3 = diskObj ns c" "quiet e3 \<or> e3 = [ErrNotExist]"
        using DiskDelete_absent [OF dl] law none diskObj_cong [OF q(1)] by auto
      ultimately show ?thesis using none q(2) by (auto simp: errSame_def errIs_def quiet_def hardErr_def)
    qed
  qed
qed

lemma DiskCreate_law:
  assumes "DiskCreate httpTime config ns dev c ctxErr key h ttl opts = (r, c')"
  shows "dview c' = dview c \<and> dkSize c' = dkSize c \<and>
    (case r of
       Inl e \<Rightarrow> e \<noteq> []
     | Inr w \<Rightarrow> dwData w = [] \<and> dwSize w = 0 \<and> dwKey w = key \<and> dwNamespace w = ns \<and>
         \<not> dwClosed w \<and> dwCtxErr w = ctxErr \<and> dwExpiresAt w = dkNow c + (if ttl > dcMaxTTL config \<or> ttl = 0 then dcMaxTTL config else ttl) \<and>
         FormatETag (if oETagSet (NewRequestOptions opts) then oETag (NewRequestOptions opts) else dkUuid c) = (hGet (dwHeaders w) ETagKey, []))"
proof -
  obtain e1 c1 where k1: "osCall c = (e1, c1)" by (metis prod.exhaust)
  obtain e2 c2 where k2: "osCall c1 = (e2, c2)" by (metis prod.exhaust)
  note q = osCall_cases(1,2) [OF k1] osCall_cases(1,2) [OF k2]
  show ?thesis
    using assms k1 k2 q
    by (auto simp: DiskCreate_def Let_def setCreateETag_def createETag_def hGet_hSet split: prod.splits if_splits)
qed

text \<open>
  The commit under the key's lock, with at most one failing call: the new object in one piece, the old one,
  or nothing.
\<close>

lemma metaSet_cases:
  assumes "metaSet key ns expiresAt h c = (e, c')"
  shows "dkSize c' = dkSize c" "e = [] \<Longrightarrow> \<not> dkClosed c \<and> dview c' = dview (c\<lparr>dkTtl := (dkTtl c)(compositeKey ns key \<mapsto> expiresAt),
      dkHeaders := (dkHeaders c)(compositeKey ns key \<mapsto> h)\<rparr>)"
    "e \<noteq> [] \<Longrightarrow> dview c' = dview c \<and> (dkClosed c \<or> dkFault c' = None)" "quiet e" "dkFault c = None \<Longrightarrow> \<not> dkClosed c \<Longrightarrow> e = [] \<and> dkFault c' = None"
proof -
  obtain e1 c1 where d: "dbCall c = (e1, c1)" by (metis prod.exhaust)
  note f = dbCall_cases [OF d]
  have cl: "dkClosed c \<Longrightarrow> e1 \<noteq> []" using d by (auto simp: dbCall_def)
  show "dkSize c' = dkSize c" "e = [] \<Longrightarrow> \<not> dkClosed c \<and> dview c' = dview (c\<lparr>dkTtl := (dkTtl c)(compositeKey ns key \<mapsto> expiresAt),
      dkHeaders := (dkHeaders c)(compositeKey ns key \<mapsto> h)\<rparr>)"
    "e \<noteq> [] \<Longrightarrow> dview c' = dview c \<and> (dkClosed c \<or> dkFault c' = None)" "quiet e" "dkFault c = None \<Longrightarrow> \<not> dkClosed c \<Longrightarrow> e = [] \<and> dkFault c' = None"
    using assms d f cl by (auto simp: metaSet_def dview_def split: if_splits)
qed

lemma diskObj_closed: "dkClosed c \<Longrightarrow> diskObj ns c = (\<lambda>_. None)"
  by (simp add: diskObj_def fun_eq_iff)

lemma commitLocked_view:
  assumes "commitLocked w c = (e, c')"
  shows "if e = [] then \<not> dkClosed c \<and> dview c' = dview (c\<lparr>dkFiles := (dkFiles c)(dwPath w \<mapsto> \<lparr>fData = dwData w, fMod = dwMod w\<rparr>),
        dkTtl := (dkTtl c)(compositeKey (dwNamespace w) (dwKey w) \<mapsto> dwExpiresAt w),
        dkHeaders := (dkHeaders c)(compositeKey (dwNamespace w) (dwKey w) \<mapsto> dwHeaders w)\<rparr>)
    else dview c' = dview c \<or> dview c' = dview (c\<lparr>dkFiles := (dkFiles c)(dwPath w := None)\<rparr>) \<or> dkClosed c \<and> dkClosed c'"
proof -
  obtain info c1 where st: "osStat (dwPath w) c = (info, c1)" by (metis prod.exhaust)
  define c2 where "c2 = (case info of Inl _ \<Rightarrow> c1 | Inr f \<Rightarrow> c1\<lparr>dkSize := dkSize c1 - int (length (fData f))\<rparr>)"
  obtain e3 c3 where k3: "osCall c2 = (e3, c3)" by (metis prod.exhaust)
  define c4 where "c4 = c3\<lparr>dkFiles := (dkFiles c3)(dwPath w \<mapsto> \<lparr>fData = dwData w, fMod = dwMod w\<rparr>)\<rparr>"
  obtain e5 c5 where ms: "metaSet (dwKey w) (dwNamespace w) (dwExpiresAt w) (dwHeaders w) c4 = (e5, c5)" by (metis prod.exhaust)
  obtain e6 c6 where rm: "osRemove (dwPath w) c5 = (e6, c6)" by (metis prod.exhaust)
  have "dview c2 = dview c" using osStat_cases(1) [OF st] by (simp add: c2_def dview_def split: sum.splits)
  then have v3: "dview c3 = dview c" using osCall_cases(1) [OF k3] by simp
  note q5 = metaSet_cases [OF ms]
  have run: "(e, c') = (if e3 \<noteq> [] then (e3, c3) else if e5 \<noteq> [] then (e5 @ e6, c6) else ([], c5))"
    using assms(1) st k3 ms rm by (auto simp: commitLocked_def Let_def c2_def c4_def errJoin_def split: if_splits)
  consider (rename) "e3 \<noteq> []" | (set) "e3 = []" "e5 \<noteq> []" | (ok) "e3 = []" "e5 = []" by blast
  then show ?thesis
  proof cases
    case rename
    then show ?thesis using run v3 by simp
  next
    case set
    note q = q5(3) [OF set(2)]
    have e: "e \<noteq> []" "c' = c6" using run set by simp_all
    show ?thesis
    proof (cases "dkClosed c4")
      case True
      have "dkClosed c" "dkClosed c6"
        using True v3 dview_sel(5) [OF conjunct1 [OF q]] osRemove_cases(1) [OF rm] by (auto simp: c4_def dview_def)
      then show ?thesis using e by simp
    next
      case False
      then have "c6 = c5\<lparr>dkFiles := (dkFiles c5)(dwPath w := None)\<rparr>" using q osRemove_cases(3) [OF rm] by simp
      then show ?thesis using q v3 e by (simp add: dview_def c4_def)
    qed
  next
    case ok
    then show ?thesis using run q5(2) [OF ok(2)] v3 by (simp add: dview_def c4_def)
  qed
qed

lemma commitLocked_law:
  assumes "commitLocked w c = (e, c')"
  shows "if dwNamespace w \<noteq> ns then diskObj ns c' = diskObj ns c
    else if e = [] then diskObj ns c' = (diskObj ns c)(dwKey w := if dkNow c > dwExpiresAt w then None else Some (dwData w, dwHeaders w))
    else diskObj ns c' = diskObj ns c \<or> diskObj ns c' = (diskObj ns c)(dwKey w := None)"
proof -
  let ?upd = "\<lambda>v. if dwNamespace w \<noteq> ns then diskObj ns c else (diskObj ns c)(dwKey w := v)"
  have new: "diskObj ns c' = ?upd (if dkNow c > dwExpiresAt w then None else Some (dwData w, dwHeaders w))" if "e = []"
  proof (rule ext)
    fix k
    show "diskObj ns c' k = ?upd (if dkNow c > dwExpiresAt w then None else Some (dwData w, dwHeaders w)) k"
      using commitLocked_view [OF assms] that
      by (cases "ns = dwNamespace w \<and> k = dwKey w") (auto simp: dview_def dwPath_def diskObj_def split: option.splits)
  qed
  have gone: "diskObj ns c' = ?upd None" if "dview c' = dview (c\<lparr>dkFiles := (dkFiles c)(dwPath w := None)\<rparr>)"
    using that by (intro ext) (auto simp: dview_def dwPath_def diskObj_def split: option.splits)
  have same: "diskObj ns c' = diskObj ns c" if "dview c' = dview c \<or> dkClosed c \<and> dkClosed c'"
    using that diskObj_cong [of c' c] by (auto simp: diskObj_closed)
  show ?thesis
  proof (cases "e = []")
    case True
    then show ?thesis using new by simp
  next
    case False
    then have "dview c' = dview (c\<lparr>dkFiles := (dkFiles c)(dwPath w := None)\<rparr>) \<or> (dview c' = dview c \<or> dkClosed c \<and> dkClosed c')"
      using commitLocked_view [OF assms] by auto
    then show ?thesis using gone same False by (elim disjE) auto
  qed
qed

lemma DiskWriterClose_law:
  assumes "DiskWriterClose w c = (r, w', c')"
  shows "case diskPend ns w of
      None \<Rightarrow> diskObj ns c' = diskObj ns c
    | Some (key, d, q) \<Rightarrow>
        (if r = Ret [] then diskObj ns c' = (diskObj ns c)(key := if dkNow c > dwExpiresAt w then None else Some (d, dwHeaders w))
         else diskObj ns c' = diskObj ns c \<or> diskObj ns c' = (diskObj ns c)(key := None))"
proof -
  obtain e1 c1 where k1: "osCall c = (e1, c1)" by (metis prod.exhaust)
  obtain e2 c2 where k2: "osCall c1 = (e2, c2)" by (metis prod.exhaust)
  obtain e3 c3 where cm: "commitLocked w c2 = (e3, c3)" by (metis prod.exhaust)
  note o = diskObj_cong [OF osCall_cases(1) [OF k1]] diskObj_cong [OF osCall_cases(1) [OF k2]]
  have now: "dkNow c2 = dkNow c" using osCall_cases(1) [OF k1] osCall_cases(1) [OF k2] by (simp add: dview_def)
  have sz: "diskObj ns (c3\<lparr>dkSize := n\<rparr>) = diskObj ns c3" for n by (rule diskObj_cong) (simp add: dview_def)
  show ?thesis
    using assms k1 k2 cm o now sz commitLocked_law [OF cm, of ns]
    by (auto simp: DiskWriterClose_def diskPend_def Let_def errJoin_def split: if_splits)
qed

text \<open>
  A disk cache with a maximal TTL that is not negative satisfies the contract of the interface; the default
  configuration is one.
\<close>

locale disk_cache =
  fixes httpTime :: "time \<Rightarrow> string" and config :: DiskConfig and ns :: Namespace and dev :: "nat option \<times> time"
  assumes max_ttl: "0 \<le> dcMaxTTL config"

sublocale disk_cache \<subseteq> cache_backend "diskOps httpTime config ns dev" "diskObj ns" "diskPend ns"
proof (unfold_locales, goal_cases)
  case (1 c key opts h e c')
  then show ?case using DiskStat_law by (simp add: diskOps_def)
next
  case (2 c key opts b h e c')
  then show ?case using DiskOpen_law max_ttl by (simp add: diskOps_def)
next
  case (3 c key e c')
  obtain e1 c1 where d: "DiskDelete ns c key = (e1, c1)" by (metis prod.exhaust)
  from 3 d DiskDelete_forgets [OF d] show ?case
    by (auto simp: diskOps_def DiskInvalidate_def errIs_def hardErr_def split: if_splits)
next
  case (4 c key e c')
  then show ?case using DiskDelete_forgets by (simp add: diskOps_def)
next
  case (5 c ctxErr key h ttl opts r c')
  then have "DiskCreate httpTime config ns dev c ctxErr key h ttl opts = (r, c')" by (simp add: diskOps_def)
  from DiskCreate_law [OF this] show ?case
    using diskObj_cong [of c' c] by (cases r) (auto simp: diskPend_def)
next
  case (6 c key h ttl raw w c' q)
  then have "DiskCreate httpTime config ns dev c [] key h ttl [WithETag raw] = (Inr w, c')" by (simp add: diskOps_def)
  from DiskCreate_law [OF this] 6(2) show ?case by (auto simp: diskPend_def go_simps)
next
  case (7 w p n w')
  then show ?case by (auto simp: diskOps_def DiskWrite_def diskPend_def Let_def split: if_splits option.splits)
next
  case (8 w p n e w')
  then show ?case by (auto simp: diskOps_def DiskWrite_def diskPend_def Let_def split: if_splits)
next
  case (9 w)
  then show ?case by (simp add: diskOps_def DiskCancel_def diskPend_def)
next
  case (10 w c res w' c')
  then have "DiskWriterClose w c = (res, w', c')" by (simp add: diskOps_def)
  from DiskWriterClose_law [OF this, of ns] 10(2) show ?case by (simp add: forgets_same)
next
  case (11 w c res w' c' key d q)
  then have "DiskWriterClose w c = (res, w', c')" by (simp add: diskOps_def)
  from DiskWriterClose_law [OF this, of ns] 11(2) show ?case
    by (auto simp: diskPend_def forgets_def split: if_splits)
qed

definition defaultDisk :: DiskConfig where
  "defaultDisk = \<lparr>dcRoot = ''/cache'', dcLimitMB = 10240, dcMaxTTL = 3600 * 1000000000, dcEvictInterval = 60 * 1000000000\<rparr>"

interpretation dk: disk_cache httpTime defaultDisk ns dev for httpTime ns dev
  by unfold_locales (simp add: defaultDisk_def)

section \<open>Lemmas: the size counter\<close>

definition fileSize :: "diskState \<Rightarrow> string list \<Rightarrow> int" where
  "fileSize c p = int (length (fData (the (dkFiles c p))))"

text \<open>The counter is the number of bytes in the files.\<close>

definition disk_ok :: "diskState \<Rightarrow> bool" where
  "disk_ok c \<longleftrightarrow> finite (dom (dkFiles c)) \<and> dkSize c = (\<Sum>p \<in> dom (dkFiles c). fileSize c p)"

lemma disk_ok_cong: "dkFiles c' = dkFiles c \<Longrightarrow> dkSize c' = dkSize c \<Longrightarrow> disk_ok c' \<longleftrightarrow> disk_ok c"
  by (simp add: disk_ok_def fileSize_def)

lemma disk_ok_remove:
  assumes "disk_ok c" "dkFiles c p = Some f" "dkFiles c' = (dkFiles c)(p := None)" "dkSize c' = dkSize c - int (length (fData f))"
  shows "disk_ok c'"
proof -
  have p: "p \<in> dom (dkFiles c)" "finite (dom (dkFiles c))" using assms(1,2) by (auto simp: disk_ok_def)
  have d: "dom (dkFiles c') = dom (dkFiles c) - {p}" using assms(3) by auto
  have "(\<Sum>q \<in> dom (dkFiles c). fileSize c q) = fileSize c p + (\<Sum>q \<in> dom (dkFiles c) - {p}. fileSize c q)"
    by (rule sum.remove [OF p(2,1)])
  moreover have "(\<Sum>q \<in> dom (dkFiles c) - {p}. fileSize c q) = (\<Sum>q \<in> dom (dkFiles c'). fileSize c' q)"
    unfolding d by (rule sum.cong) (auto simp: fileSize_def assms(3))
  moreover have "fileSize c p = int (length (fData f))" using assms(2) by (simp add: fileSize_def)
  ultimately show ?thesis using assms(1,4) d p(2) by (simp add: disk_ok_def)
qed

lemma disk_ok_insert:
  assumes "disk_ok c" "dkFiles c' = (dkFiles c)(p \<mapsto> f)"
    and "dkSize c' = dkSize c - (case dkFiles c p of None \<Rightarrow> 0 | Some g \<Rightarrow> int (length (fData g))) + int (length (fData f))"
  shows "disk_ok c'"
proof -
  define c0 where "c0 = c\<lparr>dkFiles := (dkFiles c)(p := None), dkSize := dkSize c - (case dkFiles c p of None \<Rightarrow> 0 | Some g \<Rightarrow> int (length (fData g)))\<rparr>"
  have ok: "disk_ok c0"
  proof (cases "dkFiles c p")
    case None
    then have "(dkFiles c)(p := None) = dkFiles c" by (simp add: fun_upd_idem)
    then show ?thesis using None assms(1) disk_ok_cong [of c0 c] by (simp add: c0_def)
  next
    case (Some g)
    then show ?thesis using disk_ok_remove [OF assms(1) Some, of c0] by (simp add: c0_def)
  qed
  have "dom (dkFiles c') = insert p (dom (dkFiles c0))" "p \<notin> dom (dkFiles c0)" using assms(2) by (auto simp: c0_def)
  moreover have "(\<Sum>q \<in> dom (dkFiles c0). fileSize c' q) = (\<Sum>q \<in> dom (dkFiles c0). fileSize c0 q)"
    by (rule sum.cong) (auto simp: fileSize_def assms(2) c0_def)
  moreover have "fileSize c' p = int (length (fData f))" by (simp add: fileSize_def assms(2))
  ultimately show ?thesis using ok assms(3) by (simp add: disk_ok_def) (simp add: c0_def)
qed

text \<open>Calls that succeed.\<close>

definition calm :: "diskState \<Rightarrow> bool" where
  "calm c \<longleftrightarrow> dkFault c = None \<and> \<not> dkClosed c"

lemma calm_calls [simp]:
  "calm c \<Longrightarrow> osCall c = ([], c)" "calm c \<Longrightarrow> dbCall c = ([], c)"
  by (simp_all add: calm_def osCall_def dbCall_def)

lemma calm_ops:
  "calm c \<Longrightarrow> osStat p c = (case dkFiles c p of None \<Rightarrow> Inl [ErrNotExist] | Some f \<Rightarrow> Inr f, c)"
  "calm c \<Longrightarrow> osRemove p c = (if dkFiles c p = None then ([ErrNotExist], c) else ([], c\<lparr>dkFiles := (dkFiles c)(p := None)\<rparr>))"
  "calm c \<Longrightarrow> getTTL ns key c = (case dkTtl c (compositeKey ns key) of None \<Rightarrow> Inl [ErrNotExist] | Some t \<Rightarrow> Inr t, c)"
  "calm c \<Longrightarrow> metaDelete ns key c = ([], dropEntries [(ns, key)] c)"
  "calm c \<Longrightarrow> deleteAll es c = ([], dropEntries es c)"
  by (simp_all add: osStat_def osRemove_def getTTL_def metaDelete_def deleteAll_def dropEntries_def)

lemma dropEntries_sel [simp]:
  "dkFiles (dropEntries es c) = dkFiles c" "dkSize (dropEntries es c) = dkSize c" "dkNow (dropEntries es c) = dkNow c"
  "calm (dropEntries es c) = calm c"
  by (simp_all add: dropEntries_def Let_def calm_def)

lemma calm_upd [simp]: "calm (c\<lparr>dkFiles := x\<rparr>) = calm c" "calm (c\<lparr>dkSize := y\<rparr>) = calm c"
  by (simp_all add: calm_def)

lemma DiskDelete_calm:
  assumes "DiskDelete ns c key = (e, c')" "calm c" "disk_ok c"
  shows "disk_ok c' \<and> calm c' \<and> (e = [] \<or> e = [ErrNotExist])"
proof (cases "dkFiles c (keyToPath ns key)")
  case None
  then show ?thesis using assms by (auto simp: DiskDelete_def calm_ops Let_def)
next
  case (Some f)
  have "disk_ok c'" using assms(1,2) Some disk_ok_remove [OF assms(3) Some, of c'] by (auto simp: DiskDelete_def calm_ops Let_def)
  then show ?thesis using assms(1,2) Some by (auto simp: DiskDelete_def calm_ops Let_def)
qed

lemma commitLocked_calm:
  assumes "commitLocked w c = (e, c')" "calm c"
  shows "e = [] \<and> calm c' \<and> dkFiles c' = (dkFiles c)(dwPath w \<mapsto> \<lparr>fData = dwData w, fMod = dwMod w\<rparr>) \<and>
    dkSize c' = dkSize c - (case dkFiles c (dwPath w) of None \<Rightarrow> 0 | Some g \<Rightarrow> int (length (fData g)))"
  using assms by (auto simp: commitLocked_def calm_ops Let_def metaSet_def split: option.splits) (simp_all add: calm_def)

section \<open>Lemmas: eviction\<close>

abbreviation (input) entryId :: "Namespace \<times> Key \<times> time \<Rightarrow> Namespace \<times> Key" where
  "entryId x \<equiv> (fst x, fst (snd x))"

definition expiredPaths :: "time \<Rightarrow> (Namespace \<times> Key \<times> time) list \<Rightarrow> string list set" where
  "expiredPaths now es = {keyToPath ns k | ns k t. (ns, k, t) \<in> set es \<and> now > t}"

definition infoOf :: "diskState \<Rightarrow> Namespace \<times> Key \<times> time \<Rightarrow> evictFileInfo" where
  "infoOf c x = (let f = the (dkFiles c (keyToPath (fst x) (fst (snd x))))
     in \<lparr>efNamespace = fst x, efKey = fst (snd x), efSize = int (length (fData f)), efExpiresAt = snd (snd x), efAccessedAt = fMod f\<rparr>)"

text \<open>
  The walk removes exactly the files of expired entries, keeps the counter right, and collects every
  entry: the unexpired ones with a file as files, all others as gone.
\<close>

lemma evictWalk_spec:
  assumes "evictWalk now es fs gone c = ((e, fs', gone'), c')" "calm c" "disk_ok c" "distinct (map entryId es)"
  shows "e = [] \<and> calm c' \<and> disk_ok c' \<and> dkTtl c' = dkTtl c \<and> dkHeaders c' = dkHeaders c \<and> dkNow c' = dkNow c \<and>
    dkFiles c' = (\<lambda>p. if p \<in> expiredPaths now es then None else dkFiles c p) \<and>
    fs' = fs @ map (infoOf c) (filter (\<lambda>(ns, k, t). \<not> now > t \<and> dkFiles c (keyToPath ns k) \<noteq> None) es) \<and>
    gone' = gone @ map entryId (filter (\<lambda>(ns, k, t). now > t \<or> dkFiles c (keyToPath ns k) = None) es)"
  using assms
proof (induction es arbitrary: fs gone c)
  case Nil
  then show ?case by (simp add: expiredPaths_def)
next
  case (Cons x es)
  obtain ns k t where x: "x = (ns, k, t)" by (metis prod.exhaust)
  have ex: "expiredPaths now ((ns, k, t) # es) = (if now > t then insert (keyToPath ns k) (expiredPaths now es) else expiredPaths now es)"
    by (auto simp: expiredPaths_def x)
  have dist: "distinct (map entryId es)" using Cons.prems(4) by simp
  show ?case
  proof (cases "dkFiles c (keyToPath ns k)")
    case None
    have "evictWalk now es fs (gone @ [(ns, k)]) c = ((e, fs', gone'), c')"
      using Cons.prems(1,2) None by (simp add: x calm_ops errIs_def)
    from Cons.IH [OF this Cons.prems(2,3) dist] show ?thesis by (auto simp: x ex None fun_eq_iff)
  next
    case (Some f)
    show ?thesis
    proof (cases "now > t")
      case False
      have "evictWalk now es (fs @ [infoOf c x]) gone c = ((e, fs', gone'), c')"
        using Cons.prems(1,2) Some False by (simp add: x calm_ops infoOf_def)
      from Cons.IH [OF this Cons.prems(2,3) dist] show ?thesis using False by (simp add: x ex Some)
    next
      case True
      let ?c = "c\<lparr>dkFiles := (dkFiles c)(keyToPath ns k := None), dkSize := dkSize c - int (length (fData f))\<rparr>"
      have run: "evictWalk now es fs (gone @ [(ns, k)]) ?c = ((e, fs', gone'), c')"
        using Cons.prems(1,2) Some True by (simp add: x calm_ops)
      have ok: "calm ?c" "disk_ok ?c" using Cons.prems(2) disk_ok_remove [OF Cons.prems(3) Some] by simp_all
      have other: "dkFiles ?c (keyToPath n q) = dkFiles c (keyToPath n q)" if "(n, q, t') \<in> set es" for n q t'
        using that Cons.prems(4) by (force simp: x)
      have new: "(ns, k, t') \<notin> set es" for t' using Cons.prems(4) by (force simp: x)
      have f1: "filter (\<lambda>(ns, k, t). \<not> now > t \<and> dkFiles ?c (keyToPath ns k) \<noteq> None) es = filter (\<lambda>(ns, k, t). \<not> now > t \<and> dkFiles c (keyToPath ns k) \<noteq> None) es"
        "filter (\<lambda>(ns, k, t). now > t \<or> dkFiles ?c (keyToPath ns k) = None) es = filter (\<lambda>(ns, k, t). now > t \<or> dkFiles c (keyToPath ns k) = None) es"
        using other by (auto intro!: filter_cong)
      have f2: "map (infoOf ?c) (filter P es) = map (infoOf c) (filter P es)" for P
        using new by (auto simp: infoOf_def Let_def)
      from Cons.IH [OF run ok dist] show ?thesis using True unfolding f1 f2 by (auto simp: x ex fun_eq_iff)
    qed
  qed
qed

text \<open>The eviction by size removes a prefix of the files, just long enough.\<close>

definition infosOk :: "diskState \<Rightarrow> evictFileInfo list \<Rightarrow> bool" where
  "infosOk c fs \<longleftrightarrow> distinct (map (\<lambda>f. (efNamespace f, efKey f)) fs) \<and>
     (\<forall>f \<in> set fs. \<exists>g. dkFiles c (keyToPath (efNamespace f) (efKey f)) = Some g \<and> efSize f = int (length (fData g)) \<and> efAccessedAt f = fMod g)"

abbreviation (input) infoPath :: "evictFileInfo \<Rightarrow> string list" where
  "infoPath f \<equiv> keyToPath (efNamespace f) (efKey f)"

lemma evictFiles_spec:
  assumes "evictFiles limit fs gone c = ((e, gone'), c')" "calm c" "disk_ok c" "infosOk c fs"
  shows "e = [] \<and> calm c' \<and> disk_ok c' \<and> dkTtl c' = dkTtl c \<and> dkHeaders c' = dkHeaders c \<and> dkNow c' = dkNow c \<and>
    (\<exists>n \<le> length fs. gone' = gone @ map (\<lambda>f. (efNamespace f, efKey f)) (take n fs) \<and>
       dkFiles c' = (\<lambda>p. if p \<in> infoPath ` set (take n fs) then None else dkFiles c p) \<and>
       (dkSize c' \<le> limit \<or> n = length fs))"
  using assms
proof (induction fs arbitrary: gone c)
  case Nil
  then show ?case by simp
next
  case (Cons f fs)
  show ?case
  proof (cases "dkSize c \<le> limit")
    case True
    then show ?thesis using Cons.prems by (auto intro!: exI [of _ 0])
  next
    case False
    obtain g where g: "dkFiles c (infoPath f) = Some g" "efSize f = int (length (fData g))"
      using Cons.prems(4) by (auto simp: infosOk_def)
    let ?c = "c\<lparr>dkFiles := (dkFiles c)(infoPath f := None), dkSize := dkSize c - efSize f\<rparr>"
    have run: "evictFiles limit fs (gone @ [(efNamespace f, efKey f)]) ?c = ((e, gone'), c')"
      using Cons.prems(1,2) False g by (simp add: calm_ops)
    have ok: "calm ?c" "disk_ok ?c" using Cons.prems(2) disk_ok_remove [OF Cons.prems(3) g(1)] g(2) by simp_all
    have "(efNamespace f', efKey f') \<noteq> (efNamespace f, efKey f)" if "f' \<in> set fs" for f'
      using Cons.prems(4) that by (simp add: infosOk_def image_iff) metis
    then have "infosOk ?c fs" using Cons.prems(4) by (auto simp: infosOk_def)
    from Cons.IH [OF run ok this] obtain n where n: "n \<le> length fs"
      "gone' = gone @ [(efNamespace f, efKey f)] @ map (\<lambda>f. (efNamespace f, efKey f)) (take n fs)"
      "dkFiles c' = (\<lambda>p. if p \<in> infoPath ` set (take n fs) then None else dkFiles ?c p)" "dkSize c' \<le> limit \<or> n = length fs"
      and rest: "e = []" "calm c'" "disk_ok c'" "dkTtl c' = dkTtl c" "dkHeaders c' = dkHeaders c" "dkNow c' = dkNow c" by auto
    have "dkFiles c' = (\<lambda>p. if p \<in> infoPath ` set (take (Suc n) (f # fs)) then None else dkFiles c p)"
      using n(3) by (auto simp: fun_eq_iff)
    then show ?thesis using n rest by (intro conjI exI [of _ "Suc n"]) auto
  qed
qed

text \<open>A well-formed database: finitely many keys, all of them written by \<^verbatim>\<open>compositeKey\<close> for keys of 32 bytes.\<close>

definition goodId :: "Namespace \<times> Key \<Rightarrow> bool" where
  "goodId x \<longleftrightarrow> CHR ''/'' \<notin> set (fst x) \<and> length (snd x) = 32"

abbreviation (input) ck :: "Namespace \<times> Key \<Rightarrow> string" where "ck x \<equiv> compositeKey (fst x) (snd x)"
abbreviation (input) pathOf :: "Namespace \<times> Key \<Rightarrow> string list" where "pathOf x \<equiv> keyToPath (fst x) (snd x)"

definition db_ok :: "diskState \<Rightarrow> bool" where
  "db_ok c \<longleftrightarrow> finite (dom (dkTtl c)) \<and> dom (dkTtl c) \<subseteq> ck ` Collect goodId"

lemma cut_at: "x \<notin> set xs \<Longrightarrow> takeWhile (\<lambda>y. y \<noteq> x) (xs @ x # ys) = xs \<and> dropWhile (\<lambda>y. y \<noteq> x) (xs @ x # ys) = x # ys"
  by (induction xs) auto

lemma parse_compositeKey:
  assumes "goodId (ns, k)"
  shows "parseComposite sha256 (compositeKey ns k) = Some (ns, k)"
proof -
  have k: "KeyUnmarshalText sha256 (KeyString k) = k" "length (KeyString k) = 64"
    using assms ParseKey_KeyString [of k sha256] by (simp_all add: goodId_def ParseKey_def KeyString_def)
  have "takeWhile (\<lambda>x. x \<noteq> CHR ''/'') (ns @ CHR ''/'' # y) = ns" "dropWhile (\<lambda>x. x \<noteq> CHR ''/'') (ns @ CHR ''/'' # y) = CHR ''/'' # y" for y
    using assms cut_at [of "CHR ''/''" ns y] by (auto simp: goodId_def)
  then show ?thesis using k KeyString_no_slash [of k] by (simp add: parseComposite_def compositeKey_def)
qed

lemma map_filter_total: "(\<And>x. x \<in> set xs \<Longrightarrow> f x \<noteq> None) \<Longrightarrow> List.map_filter f xs = map (\<lambda>x. the (f x)) xs"
  by (induction xs) (auto simp: List.map_filter_def)

lemma distinct_map_filter: "distinct (map f xs) \<Longrightarrow> distinct (map f (filter P xs))"
  by (induction xs) auto

lemma walk_spec:
  assumes "db_ok c"
  shows "distinct (map entryId (walk sha256 c))"
    and "(ns, k, t) \<in> set (walk sha256 c) \<longleftrightarrow> dkTtl c (compositeKey ns k) = Some t"
proof -
  let ?ks = "sorted_list_of_set (dom (dkTtl c))"
  let ?g = "\<lambda>s. map_option (\<lambda>(ns, key). (ns, key, the (dkTtl c s))) (parseComposite sha256 s)"
  have ks: "set ?ks = dom (dkTtl c)" "distinct ?ks" using assms by (simp_all add: db_ok_def)
  have parse: "\<exists>x. goodId x \<and> s = ck x \<and> ?g s = Some (fst x, snd x, the (dkTtl c s))" if "s \<in> dom (dkTtl c)" for s
  proof -
    from that assms obtain x where x: "goodId x" "s = ck x" by (auto simp: db_ok_def)
    then show ?thesis using parse_compositeKey [of "fst x" "snd x" sha256] by (intro exI [of _ x]) (simp add: split_beta)
  qed
  have m: "walk sha256 c = map (\<lambda>s. the (?g s)) ?ks"
    unfolding walk_def using parse ks(1) by (intro map_filter_total) fastforce
  show "(ns, k, t) \<in> set (walk sha256 c) \<longleftrightarrow> dkTtl c (compositeKey ns k) = Some t"
  proof
    assume "(ns, k, t) \<in> set (walk sha256 c)"
    then obtain s where s: "s \<in> dom (dkTtl c)" "(ns, k, t) = the (?g s)" using m ks(1) by auto
    then show "dkTtl c (compositeKey ns k) = Some t" using parse [OF s(1)] by fastforce
  next
    assume a: "dkTtl c (compositeKey ns k) = Some t"
    then have g: "the (?g (compositeKey ns k)) = (ns, k, t)" using parse [of "compositeKey ns k"] by fastforce
    show "(ns, k, t) \<in> set (walk sha256 c)"
      unfolding m set_map ks(1) by (rule image_eqI [where x = "compositeKey ns k"]) (use g a in auto)
  qed
  have "inj_on (\<lambda>s. entryId (the (?g s))) (dom (dkTtl c))"
  proof (rule inj_onI)
    fix s s' assume "s \<in> dom (dkTtl c)" "s' \<in> dom (dkTtl c)" "entryId (the (?g s)) = entryId (the (?g s'))"
    then show "s = s'" using parse [of s] parse [of s'] by fastforce
  qed
  then show "distinct (map entryId (walk sha256 c))" using ks by (simp add: m distinct_map o_def comp_inj_on inj_on_def)
qed

text \<open>The entries that may stay: unexpired and with a file.\<close>

definition liveIds :: "diskState \<Rightarrow> (Namespace \<times> Key) set" where
  "liveIds c = {x. \<exists>t. dkTtl c (ck x) = Some t \<and> \<not> dkNow c > t \<and> dkFiles c (pathOf x) \<noteq> None}"

lemma ck_inject: "ck x = ck y \<longleftrightarrow> x = y" "pathOf x = pathOf y \<longleftrightarrow> x = y"
  by (simp_all add: prod_eq_iff)

lemma dropEntries_db:
  "dkTtl (dropEntries es c) = (\<lambda>s. if s \<in> ck ` set es then None else dkTtl c s)"
  "dkHeaders (dropEntries es c) = (\<lambda>s. if s \<in> ck ` set es then None else dkHeaders c s)"
  by (simp_all add: dropEntries_def Let_def split_beta)

lemma ck_image: "ck x \<in> ck ` A \<longleftrightarrow> x \<in> A" "pathOf x \<in> pathOf ` A \<longleftrightarrow> x \<in> A"
  by (auto simp only: image_iff ck_inject)

text \<open>The state after the walk and the deletion of the entries it found gone.\<close>

lemma evict_walked:
  assumes "calm c" "disk_ok c" "db_ok c" "evictWalk (dkNow c) (walk sha256 c) [] [] c = ((e, fs, gone), c1)"
  shows "e = [] \<and> calm (dropEntries gone c1) \<and> disk_ok (dropEntries gone c1) \<and> infosOk (dropEntries gone c1) fs \<and>
    (\<lambda>f. (efNamespace f, efKey f)) ` set fs = liveIds c \<and>
    dkTtl (dropEntries gone c1) = (\<lambda>s. if s \<in> ck ` liveIds c then dkTtl c s else None) \<and>
    (\<forall>x \<in> liveIds c. dkHeaders (dropEntries gone c1) (ck x) = dkHeaders c (ck x) \<and> dkFiles (dropEntries gone c1) (pathOf x) = dkFiles c (pathOf x)) \<and>
    dkNow c1 = dkNow c \<and> dkSize (dropEntries gone c1) \<le> dkSize c"
proof -
  let ?es = "walk sha256 c"
  note w = walk_spec [OF assms(3)]
  note spec = evictWalk_spec [OF assms(4,1,2) w(1)]
  have key: "(ns, k, t) \<in> set ?es \<Longrightarrow> (ns, k, t') \<in> set ?es \<Longrightarrow> t = t'" for ns k t t' using w(2) by simp
  have fs: "fs = map (infoOf c) (filter (\<lambda>(ns, k, t). \<not> dkNow c > t \<and> dkFiles c (keyToPath ns k) \<noteq> None) ?es)"
    and gone: "gone = map entryId (filter (\<lambda>(ns, k, t). dkNow c > t \<or> dkFiles c (keyToPath ns k) = None) ?es)" using spec by auto
  have c1: "e = []" "calm c1" "disk_ok c1" "dkTtl c1 = dkTtl c" "dkHeaders c1 = dkHeaders c" "dkNow c1 = dkNow c" using spec by auto
  have gone_iff: "x \<in> set gone \<longleftrightarrow> ck x \<in> dom (dkTtl c) \<and> x \<notin> liveIds c" for x
    using w(2) unfolding gone liveIds_def by (cases x) (force simp: image_iff)
  have ids: "(\<lambda>f. (efNamespace f, efKey f)) ` set fs = liveIds c"
    unfolding fs liveIds_def using w(2) by (force simp: infoOf_def Let_def image_iff)
  have keep: "dkFiles c1 (pathOf x) = dkFiles c (pathOf x)" if "x \<in> liveIds c" for x
    using spec that w(2) by (auto simp: expiredPaths_def liveIds_def)
  have "distinct (map (\<lambda>f. (efNamespace f, efKey f)) fs)"
    using w(1) unfolding fs by (simp add: o_def infoOf_def Let_def distinct_map_filter)
  moreover have "\<exists>g. dkFiles c1 (infoPath f) = Some g \<and> efSize f = int (length (fData g)) \<and> efAccessedAt f = fMod g" if "f \<in> set fs" for f
  proof -
    have "(efNamespace f, efKey f) \<in> liveIds c" using ids that by blast
    from keep [OF this] this show ?thesis using that unfolding fs by (auto simp: infoOf_def Let_def)
  qed
  ultimately have "infosOk c1 fs" by (simp add: infosOk_def)
  moreover have "dkTtl (dropEntries gone c1) = (\<lambda>s. if s \<in> ck ` liveIds c then dkTtl c s else None)"
  proof (rule ext)
    fix s
    show "dkTtl (dropEntries gone c1) s = (if s \<in> ck ` liveIds c then dkTtl c s else None)"
    proof (cases "s \<in> dom (dkTtl c)")
      case True
      then obtain x where x: "s = ck x" using assms(3) by (auto simp: db_ok_def)
      then show ?thesis using gone_iff [of x] True unfolding dropEntries_db c1(4) x ck_image by simp
    next
      case False
      then show ?thesis unfolding dropEntries_db c1(4) by (simp add: domIff)
    qed
  qed
  moreover have "ck x \<notin> ck ` set gone" if "x \<in> liveIds c" for x
    unfolding ck_image using gone_iff that by blast
  moreover have "dkSize c1 \<le> dkSize c"
  proof -
    have "(\<Sum>p \<in> dom (dkFiles c1). fileSize c1 p) = (\<Sum>p \<in> dom (dkFiles c1). fileSize c p)"
      using spec by (intro sum.cong) (auto simp: fileSize_def split: if_splits)
    also have "\<dots> \<le> (\<Sum>p \<in> dom (dkFiles c). fileSize c p)"
      using spec assms(2) by (intro sum_mono2) (auto simp: disk_ok_def fileSize_def split: if_splits)
    finally show ?thesis using spec assms(2) by (simp add: disk_ok_def)
  qed
  ultimately show ?thesis
    using c1 ids keep disk_ok_cong [of "dropEntries gone c1" c1] by (simp add: infosOk_def dropEntries_db(2))
qed

text \<open>What \<^verbatim>\<open>evict\<close> leaves: the live entries except those that were evicted for their size, \<open>R\<close>.\<close>

definition evicts :: "int \<Rightarrow> diskState \<Rightarrow> diskState \<Rightarrow> (Namespace \<times> Key) set \<Rightarrow> bool" where
  "evicts limit c c' R \<longleftrightarrow> R \<subseteq> liveIds c \<and> calm c' \<and> disk_ok c' \<and> dkNow c' = dkNow c \<and>
     dkTtl c' = (\<lambda>s. if s \<in> ck ` (liveIds c - R) then dkTtl c s else None) \<and>
     (\<forall>x \<in> liveIds c - R. dkHeaders c' (ck x) = dkHeaders c (ck x) \<and> dkFiles c' (pathOf x) = dkFiles c (pathOf x)) \<and>
     (dkSize c' \<le> limit \<or> R = liveIds c) \<and> (dkSize c \<le> limit \<longrightarrow> R = {}) \<and>
     (\<forall>x \<in> R. \<forall>y \<in> liveIds c - R. fMod (the (dkFiles c (pathOf x))) \<le> fMod (the (dkFiles c (pathOf y))))"

lemma take_sorted_before:
  assumes "sorted (map f xs)" "x \<in> set (take n xs)" "y \<in> set (drop n xs)"
  shows "f x \<le> f y"
proof -
  have "sorted (map f (take n xs) @ map f (drop n xs))" using assms(1) by (simp flip: map_append)
  then show ?thesis using assms(2,3) by (auto simp: sorted_append)
qed

lemma evictBySize_spec:
  assumes "evictBySize srt config fs c2 = (e, c')" "calm c2" "disk_ok c2" "infosOk c2 fs"
    and srt: "\<And>xs. mset (srt xs) = mset xs" "\<And>xs. sorted (map efAccessedAt (srt xs))"
  shows "e = [] \<and> calm c' \<and> disk_ok c' \<and> dkNow c' = dkNow c2 \<and>
    (\<exists>R \<subseteq> (\<lambda>f. (efNamespace f, efKey f)) ` set fs.
       dkTtl c' = (\<lambda>s. if s \<in> ck ` R then None else dkTtl c2 s) \<and> dkHeaders c' = (\<lambda>s. if s \<in> ck ` R then None else dkHeaders c2 s) \<and>
       dkFiles c' = (\<lambda>p. if p \<in> pathOf ` R then None else dkFiles c2 p) \<and>
       (dkSize c' \<le> dcLimitMB config * 1024 * 1024 \<or> R = (\<lambda>f. (efNamespace f, efKey f)) ` set fs) \<and>
       (dkSize c2 \<le> dcLimitMB config * 1024 * 1024 \<longrightarrow> R = {}) \<and>
       (\<forall>x \<in> R. \<forall>y \<in> (\<lambda>f. (efNamespace f, efKey f)) ` set fs - R.
          fMod (the (dkFiles c2 (pathOf x))) \<le> fMod (the (dkFiles c2 (pathOf y)))))"
proof -
  let ?limit = "dcLimitMB config * 1024 * 1024"
  let ?id = "\<lambda>f. (efNamespace f, efKey f)"
  show ?thesis
  proof (cases "dkSize c2 \<le> ?limit")
    case True
    then show ?thesis using assms(1-3) by (auto simp: evictBySize_def intro!: exI [of _ "{}"])
  next
    case False
    have set: "set (srt fs) = set fs" using srt(1) by (metis set_mset_mset)
    have "distinct (map ?id (srt fs)) \<longleftrightarrow> distinct (map ?id fs)"
      by (rule mset_eq_imp_distinct_iff) (simp add: srt(1))
    then have ok: "infosOk c2 (srt fs)" using assms(4) set by (simp add: infosOk_def)
    obtain e1 gone c3 where ef: "evictFiles ?limit (srt fs) [] c2 = ((e1, gone), c3)" by (metis prod.exhaust)
    from evictFiles_spec [OF ef assms(2,3) ok] obtain n where n: "n \<le> length (srt fs)" "gone = map ?id (take n (srt fs))"
      "dkFiles c3 = (\<lambda>p. if p \<in> infoPath ` set (take n (srt fs)) then None else dkFiles c2 p)" "dkSize c3 \<le> ?limit \<or> n = length (srt fs)"
      and r: "e1 = []" "calm c3" "disk_ok c3" "dkTtl c3 = dkTtl c2" "dkHeaders c3 = dkHeaders c2" "dkNow c3 = dkNow c2" by auto
    have c': "e = []" "c' = dropEntries gone c3"
      using assms(1) False ef r(1,2) by (simp_all add: evictBySize_def Let_def calm_ops(5))
    have files: "infoPath ` set (take n (srt fs)) = pathOf ` set gone" by (simp add: n(2) image_image)
    have old: "fMod (the (dkFiles c2 (pathOf x))) \<le> fMod (the (dkFiles c2 (pathOf y)))"
      if x: "x \<in> set gone" and y: "y \<in> ?id ` set fs - set gone" for x y
    proof -
      obtain f where f: "f \<in> set (take n (srt fs))" "x = ?id f" using x n(2) by auto
      obtain g where g: "g \<in> set (srt fs)" "y = ?id g" using y set by auto
      have "g \<notin> set (take n (srt fs))" using g(2) y n(2) by auto
      moreover have "g \<in> set (take n (srt fs)) \<union> set (drop n (srt fs))" using g(1) by (simp flip: set_append)
      ultimately have "g \<in> set (drop n (srt fs))" by blast
      then have "efAccessedAt f \<le> efAccessedAt g" using take_sorted_before [OF srt(2) f(1)] by blast
      moreover have "fMod (the (dkFiles c2 (infoPath i))) = efAccessedAt i" if "i \<in> set (srt fs)" for i
        using ok that by (auto simp: infosOk_def)
      ultimately show ?thesis using f g in_set_takeD [OF f(1)] by simp
    qed
    have all: "set gone = ?id ` set fs" if "n = length (srt fs)" using that n(2) set by simp
    have "set gone \<subseteq> ?id ` set fs" using n(2) set in_set_takeD by fastforce
    then show ?thesis
      using c' r n(4) all old False disk_ok_cong [of c' c3]
      by (intro conjI exI [of _ "set gone"]) (auto simp: dropEntries_db n(3) files)
  qed
qed

lemma evict_spec:
  assumes "evict sha256 srt config c = (e, c')" "calm c" "disk_ok c" "db_ok c"
    and srt: "\<And>xs. mset (srt xs) = mset xs" "\<And>xs. sorted (map efAccessedAt (srt xs))"
  shows "e = [] \<and> (\<exists>R. evicts (dcLimitMB config * 1024 * 1024) c c' R)"
proof -
  obtain e1 fs gone c1 where ew: "evictWalk (dkNow c) (walk sha256 c) [] [] c = ((e1, fs, gone), c1)" by (metis prod.exhaust)
  define c2 where "c2 = dropEntries gone c1"
  note w = evict_walked [OF assms(2-4) ew, folded c2_def]
  have "calm c1" using w by (simp add: c2_def)
  then have run: "evictBySize srt config fs c2 = (e, c')"
    using assms(1,2) ew w calm_ops(5) [of c1 gone] by (simp add: evict_def c2_def)
  from evictBySize_spec [OF run _ _ _ srt] w obtain R where R: "R \<subseteq> liveIds c"
    "dkTtl c' = (\<lambda>s. if s \<in> ck ` R then None else dkTtl c2 s)" "dkHeaders c' = (\<lambda>s. if s \<in> ck ` R then None else dkHeaders c2 s)"
    "dkFiles c' = (\<lambda>p. if p \<in> pathOf ` R then None else dkFiles c2 p)"
    "dkSize c' \<le> dcLimitMB config * 1024 * 1024 \<or> R = liveIds c" "dkSize c2 \<le> dcLimitMB config * 1024 * 1024 \<longrightarrow> R = {}"
    "\<forall>x \<in> R. \<forall>y \<in> liveIds c - R. fMod (the (dkFiles c2 (pathOf x))) \<le> fMod (the (dkFiles c2 (pathOf y)))"
    and ok: "e = []" "calm c'" "disk_ok c'" "dkNow c' = dkNow c2" by (auto simp del: split_paired_All split_paired_Ex)
  have files: "dkFiles c2 (pathOf x) = dkFiles c (pathOf x)" "dkHeaders c2 (ck x) = dkHeaders c (ck x)" if "x \<in> liveIds c" for x
    using w that by blast+
  have "evicts (dcLimitMB config * 1024 * 1024) c c' R"
    unfolding evicts_def
  proof (intro conjI)
    show "dkTtl c' = (\<lambda>s. if s \<in> ck ` (liveIds c - R) then dkTtl c s else None)"
      using R(2) w by (auto simp: fun_eq_iff prod_eq_iff image_iff)
    show "\<forall>x \<in> liveIds c - R. dkHeaders c' (ck x) = dkHeaders c (ck x) \<and> dkFiles c' (pathOf x) = dkFiles c (pathOf x)"
      unfolding R(3,4) using files by (simp add: ck_image)
    show "\<forall>x \<in> R. \<forall>y \<in> liveIds c - R. fMod (the (dkFiles c (pathOf x))) \<le> fMod (the (dkFiles c (pathOf y)))"
    proof (intro ballI)
      fix x y assume a: "x \<in> R" "y \<in> liveIds c - R"
      then have "dkFiles c2 (pathOf x) = dkFiles c (pathOf x)" "dkFiles c2 (pathOf y) = dkFiles c (pathOf y)"
        using files R(1) by blast+
      moreover have "fMod (the (dkFiles c2 (pathOf x))) \<le> fMod (the (dkFiles c2 (pathOf y)))" using R(7) a by blast
      ultimately show "fMod (the (dkFiles c (pathOf x))) \<le> fMod (the (dkFiles c (pathOf y)))" by simp
    qed
    show "dkNow c' = dkNow c" using ok(4) w by (simp add: c2_def)
    show "dkSize c \<le> dcLimitMB config * 1024 * 1024 \<longrightarrow> R = {}" using R(6) w by auto
  qed (use R ok in auto)
  then show ?thesis using ok(1) by blast
qed

lemma evicts_obj:
  assumes "evicts limit c c' R" "calm c"
  shows "diskObj ns c' k = (if (ns, k) \<in> liveIds c - R then diskObj ns c k else None)"
proof (cases "(ns, k) \<in> liveIds c - R")
  case True
  have "dkTtl c' = (\<lambda>s. if s \<in> ck ` (liveIds c - R) then dkTtl c s else None)"
    and keep: "\<forall>x \<in> liveIds c - R. dkHeaders c' (ck x) = dkHeaders c (ck x) \<and> dkFiles c' (pathOf x) = dkFiles c (pathOf x)"
    using assms(1) unfolding evicts_def by blast+
  then have "dkTtl c' (compositeKey ns k) = dkTtl c (compositeKey ns k)"
    using True ck_image(1) [of "(ns, k)" "liveIds c - R"] by simp
  moreover have "dkFiles c' (keyToPath ns k) = dkFiles c (keyToPath ns k)" "dkHeaders c' (compositeKey ns k) = dkHeaders c (compositeKey ns k)"
    using bspec [OF keep True] by simp_all
  ultimately show ?thesis using True assms by (auto simp: diskObj_def evicts_def calm_def split: option.splits)
next
  case False
  then have "dkTtl c' (compositeKey ns k) = None"
    using assms(1) ck_image(1) [of "(ns, k)" "liveIds c - R"] by (auto simp: evicts_def)
  then show ?thesis using False diskObj_None(2) by auto
qed

lemma liveIds_obj: "diskObj ns c k \<noteq> None \<Longrightarrow> (ns, k) \<in> liveIds c"
  by (auto simp: diskObj_iff liveIds_def)

section \<open>Properties\<close>

lemma writeBlocks_disk:
  "writeBlocks (diskOps httpTime config ns dev) w blocks = (e, w') \<Longrightarrow> \<not> dwClosed w \<Longrightarrow>
   \<not> dwClosed w' \<and> dwCtxErr w' = dwCtxErr w \<and> dwNamespace w' = dwNamespace w \<and> dwKey w' = dwKey w \<and> dwHeaders w' = dwHeaders w \<and>
   dwExpiresAt w' = dwExpiresAt w \<and> dwSize w' - int (length (dwData w')) = dwSize w - int (length (dwData w)) \<and>
   (e = [] \<longrightarrow> dwData w' = dwData w @ concat blocks)"
proof (induction blocks arbitrary: w)
  case (Cons b bs)
  obtain n e1 w1 where w1: "DiskWrite w b = ((n, e1), w1)" by (metis prod.exhaust)
  have step: "\<not> dwClosed w1 \<and> dwCtxErr w1 = dwCtxErr w \<and> dwNamespace w1 = dwNamespace w \<and> dwKey w1 = dwKey w \<and> dwHeaders w1 = dwHeaders w \<and>
      dwExpiresAt w1 = dwExpiresAt w \<and> dwSize w1 - int (length (dwData w1)) = dwSize w - int (length (dwData w)) \<and>
      (e1 = [] \<longrightarrow> dwData w1 = dwData w @ b)"
    using w1 Cons.prems(2) by (auto simp: DiskWrite_def Let_def split: option.splits if_splits)
  show ?case
  proof (cases "e1 = []")
    case True
    then have "writeBlocks (diskOps httpTime config ns dev) w1 bs = (e, w')" using Cons.prems(1) w1 by (simp add: diskOps_def)
    from Cons.IH [OF this] step True show ?thesis by auto
  next
    case False
    then show ?thesis using Cons.prems w1 step by (simp add: diskOps_def)
  qed
qed simp

text \<open>
  C27: a write to the disk cache is atomic, whichever system or database call fails.  After a write through
  \<^verbatim>\<open>Create\<close>, any blocks and \<^verbatim>\<open>Close\<close> or \<^verbatim>\<open>Abort\<close>, with at most one failing call anywhere, a disk that may
  run full at any byte and a context that may be cancelled, the key has its old object, nothing, or the
  complete new object with the writer's headers, never a part and never new bytes under an old ETag; no
  other key is affected.  If the write returned no error and the entry is not expired, the new object
  is there, and \<^verbatim>\<open>Open\<close> returns its bytes or fails with an error of its own.
\<close>

theorem disk_atomic_write:
  assumes "0 \<le> dcMaxTTL config"
    and "WriteFunc (diskOps httpTime config ns dev) c ctxErr key h ttl blocks fnErr opts = (r, c')"
    and "DiskOpen config ns c' key [] = ((b, hr, e), c'')"
  shows "(\<forall>k. k \<noteq> key \<longrightarrow> diskObj ns c' k = diskObj ns c k) \<and>
    (diskObj ns c' key \<in> {None, diskObj ns c key} \<or>
     ctxErr = [] \<and> fnErr = [] \<and> (\<exists>h'. diskObj ns c' key = Some (concat blocks, h') \<and>
       FormatETag (if oETagSet (NewRequestOptions opts) then oETag (NewRequestOptions opts) else dkUuid c) = (hGet h' ETagKey, []))) \<and>
    (r = Ret [] \<and> (if ttl > dcMaxTTL config \<or> ttl = 0 then dcMaxTTL config else ttl) \<ge> 0 \<longrightarrow>
     (\<exists>h'. diskObj ns c' key = Some (concat blocks, h')) \<and> (hardErr e \<or> e = [] \<and> b = bytesReader (concat blocks)))"
proof -
  let ?ops = "diskOps httpTime config ns dev"
  obtain x c1 where cr: "DiskCreate httpTime config ns dev c ctxErr key h ttl opts = (x, c1)" by (metis prod.exhaust)
  note crl = DiskCreate_law [OF cr]
  have o1: "diskObj ns c1 = diskObj ns c" using crl diskObj_cong by blast
  have cr': "cCreate ?ops c ctxErr key h ttl opts = (x, c1)" using cr by (simp add: diskOps_def)
  have read: "hardErr e \<or> e = [] \<and> b = bytesReader d" if "diskObj ns c' key = Some (d, h')" for d h'
  proof -
    have "openSpec (Some (d, h')) [] = (b, hr, e0) \<Longrightarrow> e0 = [] \<and> b = bytesReader d" for e0
      by (auto simp: openSpec_def conditionalShortCircuit_def rangeShortCircuit_def ResolveRange_def Let_def errIs_def)
    then show ?thesis using DiskOpen_law [OF assms(3,1)] that by (metis errSame_nil(2))
  qed
  show ?thesis
  proof (cases x)
    case (Inl e0)
    then have "r = Ret e0" "c' = c1" "e0 \<noteq> []" using assms(2) cr' crl by (simp_all add: WriteFunc_def)
    then show ?thesis using o1 by simp
  next
    case (Inr w)
    have w: "dwData w = []" "dwKey w = key" "dwNamespace w = ns" "\<not> dwClosed w" "dwCtxErr w = ctxErr"
      "dwExpiresAt w = dkNow c + (if ttl > dcMaxTTL config \<or> ttl = 0 then dcMaxTTL config else ttl)"
      "FormatETag (if oETagSet (NewRequestOptions opts) then oETag (NewRequestOptions opts) else dkUuid c) = (hGet (dwHeaders w) ETagKey, [])"
      using crl Inr by simp_all
    obtain we w1 where wb: "writeBlocks ?ops w blocks = (we, w1)" by (metis prod.exhaust)
    note wr = writeBlocks_disk [OF wb w(4)]
    define e1 where "e1 = (if we \<noteq> [] then we else fnErr)"
    define w2 where "w2 = (if e1 \<noteq> [] then DiskCancel w1 else w1)"
    obtain r' w3 c2 where cl: "DiskWriterClose w2 c1 = (r', w3, c2)" by (metis prod.exhaust)
    have run: "c' = c2" "r = Ret [] \<longrightarrow> e1 = [] \<and> r' = Ret []"
      using assms(2) cr' Inr wb cl
      by (auto simp: WriteFunc_def e1_def w2_def diskOps_def errJoin_def Let_def split: if_splits outcome.splits)
    note law = DiskWriterClose_law [OF cl, of ns]
    have now: "dkNow c1 = dkNow c" using crl by (simp add: dview_def)
    show ?thesis
    proof (cases "e1 = [] \<and> ctxErr = []")
      case False
      have "diskPend ns w2 = None" using False wr w by (auto simp: diskPend_def w2_def DiskCancel_def)
      then have same: "diskObj ns c2 = diskObj ns c" using law o1 by simp
      have "r \<noteq> Ret []"
      proof
        assume "r = Ret []"
        then have "e1 = []" "r' = Ret []" "ctxErr \<noteq> []" using run False by auto
        then show False using cl wr w by (auto simp: w2_def DiskWriterClose_def errJoin_def Let_def split: if_splits prod.splits)
      qed
      then show ?thesis using same run(1) by simp
    next
      case True
      then have pend: "diskPend ns w2 = Some (key, concat blocks, hGet (dwHeaders w) ETagKey)" "dwHeaders w2 = dwHeaders w" "dwExpiresAt w2 = dwExpiresAt w"
        using wr w by (auto simp: diskPend_def w2_def e1_def split: if_splits)
      have fn: "fnErr = []" using True by (simp add: e1_def split: if_splits)
      show ?thesis
      proof (cases "r' = Ret []")
        case ok: True
        then have obj: "diskObj ns c' = (diskObj ns c)(key := if dkNow c > dwExpiresAt w then None else Some (concat blocks, dwHeaders w))"
          using law pend o1 run(1) now by simp
        then show ?thesis using read [of "concat blocks" "dwHeaders w"] w(6,7) fn True by (auto split: if_splits)
      next
        case False
        then have "diskObj ns c' = diskObj ns c \<or> diskObj ns c' = (diskObj ns c)(key := None)" using law pend o1 run(1) by simp
        then show ?thesis using run(2) False by (elim disjE) auto
      qed
    qed
  qed
qed

text \<open>
  The size counter of the disk cache is right.  As long as no call fails, every operation keeps the
  counter equal to the number of bytes in the files: reading, deleting, expiring, committing a new or a
  replacing object, and eviction.
\<close>

lemma disk_counter:
  assumes "calm c" "disk_ok c" "db_ok c" "dwSize w = int (length (dwData w))"
    and "\<And>xs. mset (srt xs) = mset xs" "\<And>xs. sorted (map efAccessedAt (srt xs))"
  shows "disk_ok (snd (DiskStat ns c key opts)) \<and> disk_ok (snd (DiskOpen config ns c key opts)) \<and>
    disk_ok (snd (DiskDelete ns c key)) \<and> disk_ok (snd (DiskInvalidate ns c key)) \<and>
    disk_ok (snd (DiskCreate httpTime config ns dev c ctxErr key h ttl opts)) \<and>
    disk_ok (snd (snd (DiskWriterClose w c))) \<and> disk_ok (snd (evict sha256 srt config c))"
proof -
  have del: "disk_ok (snd (DiskDelete ns c key))"
    using DiskDelete_calm [OF _ assms(1,2)] by (metis prod.collapse)
  have stat: "disk_ok (snd (DiskStat ns c key opts))"
    using del assms(1,2) by (auto simp: DiskStat_def calm_ops getHeaders_def split: option.splits prod.splits)
  have set: "setTTL ns key t c = ([], c\<lparr>dkTtl := (dkTtl c)(compositeKey ns key \<mapsto> t),
      dkNamespaces := (if ns \<noteq> '''' then insert ns (dkNamespaces c) else dkNamespaces c)\<rparr>)" for t
    using assms(1) by (simp add: setTTL_def)
  have upd: "calm (c\<lparr>dkTtl := x, dkNamespaces := y\<rparr>)" "disk_ok (c\<lparr>dkTtl := x, dkNamespaces := y\<rparr>)"
      "calm (c\<lparr>dkTtl := x\<rparr>)" "disk_ok (c\<lparr>dkTtl := x\<rparr>)" for x y
    using assms(1) disk_ok_cong [of "c\<lparr>dkTtl := x, dkNamespaces := y\<rparr>" c] disk_ok_cong [of "c\<lparr>dkTtl := x\<rparr>" c] assms(2)
    by (simp_all add: calm_def)
  have opn: "disk_ok (snd (DiskOpen config ns c key opts))"
    using del assms(1,2) upd
    by (auto simp: DiskOpen_def openLocked_def calm_ops getHeaders_def set split: option.splits prod.splits)
  have inv: "disk_ok (snd (DiskInvalidate ns c key))"
    using del by (auto simp: DiskInvalidate_def split: prod.splits)
  have cre: "disk_ok (snd (DiskCreate httpTime config ns dev c ctxErr key h ttl opts))"
    using assms(1,2) by (auto simp: DiskCreate_def Let_def split: prod.splits)
  obtain e c1 where cm: "commitLocked w c = (e, c1)" by (metis prod.exhaust)
  have "disk_ok (c1\<lparr>dkSize := dkSize c1 + dwSize w\<rparr>)"
    using commitLocked_calm [OF cm assms(1)] assms(4)
    by (intro disk_ok_insert [OF assms(2), of _ "dwPath w" "\<lparr>fData = dwData w, fMod = dwMod w\<rparr>"]) auto
  then have clo: "disk_ok (snd (snd (DiskWriterClose w c)))"
    using assms(1,2) cm commitLocked_calm [OF cm assms(1)] by (auto simp: DiskWriterClose_def Let_def)
  have evi: "disk_ok (snd (evict sha256 srt config c))"
  proof -
    obtain e2 c2 where ev: "evict sha256 srt config c = (e2, c2)" by (metis prod.exhaust)
    then obtain R where "evicts (dcLimitMB config * 1024 * 1024) c c2 R" using evict_spec [OF ev assms(1-3,5,6)] by blast
    then show ?thesis unfolding ev evicts_def by simp
  qed
  show ?thesis using stat opn del inv cre clo evi by blast
qed


section \<open>Concrete caches\<close>

definition oneKey :: Key where "oneKey = replicate 32 1"

text \<open>A cache with one object of \<open>n\<close> bytes in the namespace \<^verbatim>\<open>ns\<close>.\<close>

definition oneDisk :: "nat \<Rightarrow> diskState" where
  "oneDisk n = \<lparr>dkFiles = [keyToPath ''ns'' oneKey \<mapsto> \<lparr>fData = replicate n 0, fMod = 1\<rparr>],
     dkTtl = [compositeKey ''ns'' oneKey \<mapsto> 100], dkHeaders = [compositeKey ''ns'' oneKey \<mapsto> Map.empty],
     dkNamespaces = {''ns''}, dkSize = int n, dkNow = 5, dkUuid = ''a'', dkFault = None, dkClosed = False\<rparr>"

lemma oneDisk_ok: "calm (oneDisk n)" "disk_ok (oneDisk n)" "db_ok (oneDisk n)"
  by (auto simp: calm_def disk_ok_def fileSize_def db_ok_def goodId_def oneDisk_def oneKey_def image_iff)

theorem disk_atomic_write_witness:
  "\<exists>c' h'. WriteFunc (diskOps (\<lambda>t. ''now'') defaultDisk ''ns'' (None, 7)) (oneDisk 3) [] oneKey Map.empty 0 [[7], [8, 9]] [] [] = (Ret [], c') \<and>
     diskObj ''ns'' c' oneKey = Some ([7, 8, 9], h')"
proof -
  let ?ops = "diskOps (\<lambda>t. ''now'') defaultDisk ''ns'' (None, 7)"
  have fe: "FormatETag ''a'' = ([CHR 0x22, CHR ''a'', CHR 0x22], [])"
    by (simp add: FormatETag_def ValidateRawETag_def isRawETagChar_def less_eq_char_def)
  obtain r c' where run: "WriteFunc ?ops (oneDisk 3) [] oneKey Map.empty 0 [[7], [8, 9]] [] [] = (r, c')" by (metis prod.exhaust)
  obtain b hr e c'' where op: "DiskOpen defaultDisk ''ns'' c' oneKey [] = ((b, hr, e), c'')" by (metis prod.exhaust)
  have ttl: "0 \<le> dcMaxTTL defaultDisk" by (simp add: defaultDisk_def)
  obtain w c1 where cr: "DiskCreate (\<lambda>t. ''now'') defaultDisk ''ns'' (None, 7) (oneDisk 3) [] oneKey Map.empty 0 [] = (Inr w, c1)" "calm c1"
    "\<not> dwClosed w" "dwCtxErr w = []" "dwRoom w = None"
    using oneDisk_ok(1) [of 3] fe
    by (auto simp: DiskCreate_def Let_def setCreateETag_def createETag_def) (auto simp: oneDisk_def)
  define w1 where "w1 = snd (DiskWrite (snd (DiskWrite w [7])) [8, 9])"
  have wb: "writeBlocks ?ops w [[7], [8, 9]] = ([], w1)" "\<not> dwClosed w1" "dwCtxErr w1 = []"
    using cr by (simp_all add: diskOps_def DiskWrite_def w1_def)
  obtain e2 c2 where cm: "commitLocked w1 c1 = (e2, c2)" by (metis prod.exhaust)
  have ops: "cCreate ?ops = DiskCreate (\<lambda>t. ''now'') defaultDisk ''ns'' (None, 7)" "wClose ?ops = DiskWriterClose" by (simp_all add: diskOps_def)
  have "fst (DiskWriterClose w1 c1) = Ret []"
    using wb(2,3) cr(2) cm commitLocked_calm [OF cm cr(2)] by (simp add: DiskWriterClose_def Let_def)
  then have "r = Ret []"
    using run cr(1) unfolding WriteFunc_def ops by (simp add: wb(1) split_beta del: writeBlocks.simps)
  then show ?thesis using disk_atomic_write [OF ttl run op] run ttl by auto
qed

lemma disk_counter_witness:
  "disk_ok (snd (evict (\<lambda>s. oneKey) (sort_key efAccessedAt) (defaultDisk\<lparr>dcLimitMB := 1\<rparr>) (oneDisk 2000000)))"
  using disk_counter [OF oneDisk_ok, of "\<lparr>dwData = [], dwKey = oneKey, dwNamespace = '''', dwExpiresAt = 0, dwHeaders = Map.empty,
      dwSize = 0, dwCtxErr = [], dwClosed = False, dwRoom = None, dwMod = 0\<rparr>" "sort_key efAccessedAt"]
  by simp


end
