(* ===== verification/Remote.thy ===== *)
theory Remote
  imports Handler Disk
begin

text \<open>
  A cache behind the HTTP API: the server side \<^verbatim>\<open>internal/strategy/apiv1.go\<close>, the client \<^verbatim>\<open>client/client.go\<close> and
  the backend \<^verbatim>\<open>internal/cache/remote.go\<close> that wraps it, composed through an HTTP exchange.

  The exchange is one step of the server's state.  Its record \<open>net\<close> says what the transport does to it: an error
  before the request arrives, a response that gets lost, the headers the server's HTTP stack adds, and
  Go's transparent decompression.  An upload is exchanged when its writer is closed: the server sees the
  blocks written so far, and a body that breaks off if the upload was cancelled.  The forms of durations
  and statistics on the wire are parameters.
\<close>

section \<open>Model: the API server\<close>

record apiCodec =
  parseDuration :: "string \<Rightarrow> duration option"
  formatDuration :: "duration \<Rightarrow> string"
  encodeStats :: "Stats \<Rightarrow> bytes"
  decodeStats :: "bytes \<Rightarrow> Stats option"
  encodeNames :: "string list \<Rightarrow> bytes"
  decodeNames :: "bytes \<Rightarrow> string list option"

text \<open>Every object handler first parses the namespace and the key of the path.\<close>

definition objectTarget :: "(string \<Rightarrow> bytes) \<Rightarrow> string \<Rightarrow> string \<Rightarrow> ResponseWriter \<Rightarrow> 'c \<Rightarrow> (Namespace \<Rightarrow> Key \<Rightarrow> ResponseWriter outcome \<times> 'c)
    \<Rightarrow> ResponseWriter outcome \<times> 'c" where
  "objectTarget sha256 nsText keyText w c go =
     (case ParseNamespace nsText of (ns, e) \<Rightarrow>
        if e \<noteq> [] then (Ret (httpError ''Invalid namespace'' 400 w), c)
        else case ParseKey sha256 keyText of (key, e) \<Rightarrow>
          if e \<noteq> [] then (Ret (httpError ''Invalid key'' 400 w), c) else go ns key)"

definition statObject :: "(string \<Rightarrow> bytes) \<Rightarrow> (Namespace \<Rightarrow> ('c, 'w) cacheOps) \<Rightarrow> string \<Rightarrow> string \<Rightarrow> request \<Rightarrow> ResponseWriter \<Rightarrow> 'c
    \<Rightarrow> ResponseWriter outcome \<times> 'c" where
  "statObject sha256 ops nsText keyText r w c =
     objectTarget sha256 nsText keyText w c (\<lambda>ns key.
       case cStat (ops ns) c key (ConditionalOptions r) of ((h, e), c1) \<Rightarrow>
         (case ServeCacheStat w h e of (handled, w1) \<Rightarrow>
            (Ret (if handled then w1
                  else if errIs e ErrNotExist then httpError ''Cache object not found'' 404 w1
                  else httpError ''Failed to open cache object'' 500 w1), c1)))"

definition getObject :: "(string \<Rightarrow> bytes) \<Rightarrow> (Namespace \<Rightarrow> ('c, 'w) cacheOps) \<Rightarrow> string \<Rightarrow> string \<Rightarrow> request \<Rightarrow> ResponseWriter \<Rightarrow> 'c
    \<Rightarrow> ResponseWriter outcome \<times> 'c" where
  "getObject sha256 ops nsText keyText r w c =
     objectTarget sha256 nsText keyText w c (\<lambda>ns key.
       case cOpen (ops ns) c key (ConditionalOptions r) of ((b, h, e), c1) \<Rightarrow>
         (case ServeCacheHit None w h b e of ((handled, _, _), w1) \<Rightarrow>
            (Ret (if handled then w1
                  else if errIs e ErrNotExist then httpError ''Cache object not found'' 404 w1
                  else httpError ''Failed to open cache object'' 500 w1), c1)))"

definition apiObjectHeaders :: "header \<Rightarrow> header" where
  "apiObjectHeaders h =
     hDel (hDel (hDel (FilterHeaders h TransportHeaders) ''Authorization'') ''Cookie'') ''Proxy-Authorization''"

text \<open>\<^verbatim>\<open>io.Copy\<close> into the cache writer, followed by \<^verbatim>\<open>Abort\<close> or \<^verbatim>\<open>Close\<close>.\<close>

definition storeBody :: "('c, 'w) cacheOps \<Rightarrow> 'w \<Rightarrow> body \<Rightarrow> ResponseWriter \<Rightarrow> 'c \<Rightarrow> ResponseWriter outcome \<times> 'c" where
  "storeBody ops cw b w c =
     (case writeBlocks ops cw (filter (\<lambda>x. x \<noteq> []) (bBlocks b)) of (we, cw1) \<Rightarrow>
        (let copyErr = (if we \<noteq> [] then we else bErr b)
         in case wClose ops (if copyErr \<noteq> [] then wCancel ops cw1 else cw1) c of (res, _, c1) \<Rightarrow>
              ((case res of
                  Ret e \<Rightarrow> Ret (if copyErr \<noteq> [] then httpError ''Failed to copy request body to cache writer'' 500 w
                                else if e \<noteq> [] then httpError ''Failed to close cache writer'' 500 w else w)
                | Blocked \<Rightarrow> Blocked
                | Panic \<Rightarrow> Panic), c1)))"

definition putObject :: "apiCodec \<Rightarrow> (string \<Rightarrow> bytes) \<Rightarrow> (Namespace \<Rightarrow> ('c, 'w) cacheOps) \<Rightarrow> string \<Rightarrow> string \<Rightarrow> request \<Rightarrow> body
    \<Rightarrow> ResponseWriter \<Rightarrow> 'c \<Rightarrow> ResponseWriter outcome \<times> 'c" where
  "putObject codec sha256 ops nsText keyText r b w c =
     objectTarget sha256 nsText keyText w c (\<lambda>ns key.
       let ttlh = hGet (rqHeader r) ''Time-To-Live'';
           ttl = (if ttlh = '''' then Some 0 else parseDuration codec ttlh);
           headers = apiObjectHeaders (rqHeader r);
           etag = hGet headers ETagKey;
           raw = (if etag = '''' then ('''', []) else RawETagFromHeader etag);
           opts = (if etag = '''' then [] else [WithETag (fst raw)]);
           headers' = (if etag = '''' then headers else hDel headers ETagKey)
       in case ttl of
            None \<Rightarrow> (Ret (httpError ''Invalid Time-To-Live header format, must be in Go duration format eg. 1h'' 400 w), c)
          | Some t \<Rightarrow>
              if snd raw \<noteq> [] then (Ret (httpError ''Invalid ETag header'' 400 w), c)
              else (case cCreate (ops ns) c [] key headers' t opts of (res, c1) \<Rightarrow>
                (case res of
                   Inl e \<Rightarrow> (Ret (httpError ''Failed to create cache writer'' 500 w), c1)
                 | Inr cw \<Rightarrow> storeBody (ops ns) cw b w c1)))"

definition deleteObject :: "(string \<Rightarrow> bytes) \<Rightarrow> (Namespace \<Rightarrow> ('c, 'w) cacheOps) \<Rightarrow> string \<Rightarrow> string \<Rightarrow> ResponseWriter \<Rightarrow> 'c
    \<Rightarrow> ResponseWriter outcome \<times> 'c" where
  "deleteObject sha256 ops nsText keyText w c =
     objectTarget sha256 nsText keyText w c (\<lambda>ns key.
       case cDelete (ops ns) c key of (e, c1) \<Rightarrow>
         (Ret (if e = [] then w
               else if errIs e ErrNotExist then httpError ''Cache object not found'' 404 w
               else httpError ''Failed to delete cache object'' 500 w), c1))"

definition invalidateObject :: "(string \<Rightarrow> bytes) \<Rightarrow> (Namespace \<Rightarrow> ('c, 'w) cacheOps) \<Rightarrow> string \<Rightarrow> string \<Rightarrow> ResponseWriter \<Rightarrow> 'c
    \<Rightarrow> ResponseWriter outcome \<times> 'c" where
  "invalidateObject sha256 ops nsText keyText w c =
     objectTarget sha256 nsText keyText w c (\<lambda>ns key.
       case cInvalidate (ops ns) c key of (e, c1) \<Rightarrow>
         (Ret (if e = [] then w else httpError ''Failed to invalidate cache object'' 500 w), c1))"

text \<open>The server's own cache is the view of the empty namespace.\<close>

definition getStats :: "apiCodec \<Rightarrow> (Namespace \<Rightarrow> ('c, 'w) cacheOps) \<Rightarrow> ResponseWriter \<Rightarrow> 'c \<Rightarrow> ResponseWriter outcome \<times> 'c" where
  "getStats codec ops w c =
     (case cStats (ops '''') c of (stats, e) \<Rightarrow>
        (Ret (if e \<noteq> [] then
                (if errIs e ErrStatsUnavailable then httpError ''Stats not available for this cache backend'' 501 w
                 else httpError ''Failed to get cache stats'' 500 w)
              else snd (rwWrite (rwSet ''Content-Type'' ''application/json'' w) (encodeStats codec stats))), c))"

definition getNamespaces :: "apiCodec \<Rightarrow> (Namespace \<Rightarrow> ('c, 'w) cacheOps) \<Rightarrow> ResponseWriter \<Rightarrow> 'c \<Rightarrow> ResponseWriter outcome \<times> 'c" where
  "getNamespaces codec ops w c =
     (case cListNamespaces (ops '''') c of (names, e) \<Rightarrow>
        (Ret (if e \<noteq> [] then httpError ''Failed to list namespaces'' 500 w
              else snd (rwWrite (rwSet ''Content-Type'' ''application/json'' w) (encodeNames codec names))), c))"

text \<open>The routes that \<^verbatim>\<open>NewAPIV1\<close> registers; anything else is not found.\<close>

definition apiServe :: "apiCodec \<Rightarrow> (string \<Rightarrow> bytes) \<Rightarrow> (Namespace \<Rightarrow> ('c, 'w) cacheOps) \<Rightarrow> request \<Rightarrow> body \<Rightarrow> 'c
    \<Rightarrow> ResponseWriter outcome \<times> 'c" where
  "apiServe codec sha256 ops r b c =
     (let w = newWriter None; m = rqMethod r; p = Split (CHR ''/'') (rqPath r)
      in if take 4 p = ['''', ''api'', ''v1'', ''object''] \<and> length p = 6 \<and> m = ''GET'' then getObject sha256 ops (p ! 4) (p ! 5) r w c
         else if take 4 p = ['''', ''api'', ''v1'', ''object''] \<and> length p = 6 \<and> m = ''HEAD'' then statObject sha256 ops (p ! 4) (p ! 5) r w c
         else if take 4 p = ['''', ''api'', ''v1'', ''object''] \<and> length p = 6 \<and> m = ''POST'' then putObject codec sha256 ops (p ! 4) (p ! 5) r b w c
         else if take 4 p = ['''', ''api'', ''v1'', ''object''] \<and> length p = 6 \<and> m = ''DELETE'' then deleteObject sha256 ops (p ! 4) (p ! 5) w c
         else if take 4 p = ['''', ''api'', ''v1'', ''object''] \<and> length p = 7 \<and> p ! 6 = ''invalidate'' \<and> m = ''POST'' then
           invalidateObject sha256 ops (p ! 4) (p ! 5) w c
         else if p = ['''', ''api'', ''v1'', ''stats''] \<and> (m = ''GET'' \<or> m = ''HEAD'') then getStats codec ops w c
         else if p = ['''', ''api'', ''v1'', ''namespaces''] \<and> (m = ''GET'' \<or> m = ''HEAD'') then getNamespaces codec ops w c
         else (Ret (httpError ''404 page not found'' 404 w), c))"

section \<open>Model: the exchange\<close>

record net =
  nErr :: goerr
  nLost :: bool
  nExtra :: header
  nGzip :: bool
  nGunzip :: "bytes \<Rightarrow> bytes"

text \<open>
  What the client receives: the handler's response with the headers the HTTP stack adds where the handler set none,
  without a body for \<^verbatim>\<open>HEAD\<close>.  Go's transport asks for gzip on its own for requests without \<^verbatim>\<open>Range\<close> and
  then unpacks such a response and drops its encoding and length.
\<close>

definition deliver :: "net \<Rightarrow> request \<Rightarrow> ResponseWriter \<Rightarrow> httpResponse" where
  "deliver n r w =
     (case response w of (code, h, bd) \<Rightarrow>
        (let h1 = nExtra n ++ h
         in if rqMethod r = ''HEAD'' then \<lparr>rsStatus = code, rsHeader = h1, rsBody = nilBody\<rparr>
            else if nGzip n \<and> hGet (rqHeader r) ''Range'' = '''' \<and> hGet (rqHeader r) ''Accept-Encoding'' = '''' \<and>
                    map toLower (hGet h1 ''Content-Encoding'') = ''gzip'' then
              \<lparr>rsStatus = code, rsHeader = hDel (hDel h1 ''Content-Encoding'') ''Content-Length'', rsBody = bytesReader (nGunzip n bd)\<rparr>
            else \<lparr>rsStatus = code, rsHeader = h1, rsBody = bytesReader bd\<rparr>))"

definition roundTrip :: "net \<Rightarrow> (request \<Rightarrow> body \<Rightarrow> 'c \<Rightarrow> ResponseWriter outcome \<times> 'c) \<Rightarrow> request \<Rightarrow> body \<Rightarrow> 'c
    \<Rightarrow> (goerr + httpResponse) \<times> 'c" where
  "roundTrip n srv r b c =
     (if nErr n \<noteq> [] then (Inl (nErr n), c)
      else case srv r b c of (res, c1) \<Rightarrow>
        ((case res of Ret w \<Rightarrow> if nLost n then Inl [ErrTransport] else Inr (deliver n r w) | _ \<Rightarrow> Inl [ErrTransport]), c1))"

section \<open>Model: the client\<close>

text \<open>An unexpected status; \<^verbatim>\<open>HTTPStatusError.Is\<close> also matches the sentinel of its status.\<close>

definition HTTPStatusError :: "int \<Rightarrow> goerr" where
  "HTTPStatusError code =
     ErrHTTPStatus code #
     (if code = 304 then [ErrNotModified] else if code = 412 then [ErrPreconditionFailed] else if code = 416 then [ErrRangeNotSatisfiable] else [])"

definition clientTransportHeaders :: "string list" where
  "clientTransportHeaders = [''Date'', ''Accept-Encoding'', ''User-Agent'', ''Transfer-Encoding'', ''Time-To-Live'']"

definition filterHeaders :: "header \<Rightarrow> string list \<Rightarrow> header" where
  "filterHeaders h skip =
     (let skipSet = set (map CanonicalHeaderKey skip)
      in (\<lambda>key. if CanonicalHeaderKey key \<in> skipSet then None else h key))"

record 'c Client =
  clHeaders :: header
  clDo :: "request \<Rightarrow> body \<Rightarrow> 'c \<Rightarrow> (goerr + httpResponse) \<times> 'c"
  clNamespace :: Namespace

definition DefaultNamespace :: Namespace where
  "DefaultNamespace = ''default''"

text \<open>\<^verbatim>\<open>New\<close> against a server, with the headers of its header function.\<close>

definition NewClient :: "header \<Rightarrow> (request \<Rightarrow> body \<Rightarrow> 'c \<Rightarrow> (goerr + httpResponse) \<times> 'c) \<Rightarrow> 'c Client" where
  "NewClient hs do = \<lparr>clHeaders = hs, clDo = do, clNamespace = ''''\<rparr>"

definition clientWithNamespace :: "'c Client \<Rightarrow> Namespace \<Rightarrow> 'c Client" where
  "clientWithNamespace cl ns = cl\<lparr>clNamespace := ns\<rparr>"

definition resolvedNamespace :: "'c Client \<Rightarrow> Namespace" where
  "resolvedNamespace cl = (if clNamespace cl = '''' then DefaultNamespace else clNamespace cl)"

definition objectURL :: "'c Client \<Rightarrow> Key \<Rightarrow> string" where
  "objectURL cl key = ''/api/v1/object/'' @ resolvedNamespace cl @ ''/'' @ KeyString key"

definition invalidateURL :: "'c Client \<Rightarrow> Key \<Rightarrow> string" where
  "invalidateURL cl key = objectURL cl key @ ''/invalidate''"

text \<open>\<^verbatim>\<open>headerTransport.RoundTrip\<close> appends the header function's values to the request's.\<close>

definition headerRoundTrip :: "header \<Rightarrow> request \<Rightarrow> request" where
  "headerRoundTrip hs r =
     r\<lparr>rqHeader := (\<lambda>k. case hs k of None \<Rightarrow> rqHeader r k | Some vs \<Rightarrow> Some ((case rqHeader r k of None \<Rightarrow> [] | Some us \<Rightarrow> us) @ vs))\<rparr>"

definition applyToRequest :: "RequestOptions \<Rightarrow> request \<Rightarrow> request" where
  "applyToRequest ro r =
     (let set = (\<lambda>k v h. if v \<noteq> '''' then hSet h k v else h)
      in r\<lparr>rqHeader := set ''If-Range'' (oIfRange ro) (set ''Range'' (oRange ro)
             (set ''If-None-Match'' (oIfNoneMatch ro) (set ''If-Match'' (oIfMatch ro) (rqHeader r))))\<rparr>)"

definition newRequest :: "string \<Rightarrow> string \<Rightarrow> request" where
  "newRequest meth path = \<lparr>rqMethod = meth, rqUrl = path, rqPath = path, rqHeader = Map.empty\<rparr>"

definition clientSend :: "'c Client \<Rightarrow> request \<Rightarrow> body \<Rightarrow> 'c \<Rightarrow> (goerr + httpResponse) \<times> 'c" where
  "clientSend cl r b c = clDo cl (headerRoundTrip (clHeaders cl) r) b c"

definition openAnswer :: "httpResponse \<Rightarrow> body \<times> header \<times> goerr" where
  "openAnswer resp =
     (let h = filterHeaders (rsHeader resp) clientTransportHeaders; ce = bCloseErr (rsBody resp); st = rsStatus resp
      in if st = 200 \<or> st = 206 then (rsBody resp, h, [])
         else if st = 404 then (nilBody, Map.empty, errJoin [[ErrNotExist], ce])
         else if st = 304 then (nilBody, h, errJoin [[ErrNotModified], ce])
         else if st = 416 then (nilBody, h, errJoin [[ErrRangeNotSatisfiable], ce])
         else if st = 412 then (nilBody, Map.empty, errJoin [[ErrPreconditionFailed], ce])
         else (nilBody, Map.empty, errJoin [HTTPStatusError st, ce]))"

definition ClientOpen :: "'c Client \<Rightarrow> 'c \<Rightarrow> Key \<Rightarrow> RequestOption list \<Rightarrow> (body \<times> header \<times> goerr) \<times> 'c" where
  "ClientOpen cl c key opts =
     (case clientSend cl (applyToRequest (NewRequestOptions opts) (newRequest ''GET'' (objectURL cl key))) nilBody c of (res, c1) \<Rightarrow>
        (case res of Inl e \<Rightarrow> ((nilBody, Map.empty, e), c1) | Inr resp \<Rightarrow> (openAnswer resp, c1)))"

definition ClientStat :: "'c Client \<Rightarrow> 'c \<Rightarrow> Key \<Rightarrow> RequestOption list \<Rightarrow> (header \<times> goerr) \<times> 'c" where
  "ClientStat cl c key opts =
     (case clientSend cl (applyToRequest (NewRequestOptions opts) (newRequest ''HEAD'' (objectURL cl key))) nilBody c of (res, c1) \<Rightarrow>
        (case res of
           Inl e \<Rightarrow> ((Map.empty, e), c1)
         | Inr resp \<Rightarrow>
             (let h = filterHeaders (rsHeader resp) clientTransportHeaders; st = rsStatus resp
              in (if st = 200 then (h, [])
                  else if st = 404 then (Map.empty, [ErrNotExist])
                  else if st = 304 then (h, [ErrNotModified])
                  else if st = 412 then (Map.empty, [ErrPreconditionFailed])
                  else (Map.empty, HTTPStatusError st), c1))))"

text \<open>\<^verbatim>\<open>wcTake\<close>: how many more blocks the request takes before its end of the pipe is closed.\<close>

record writeCloser =
  wcRequest :: request
  wcBlocks :: "bytes list"
  wcBroken :: bool
  wcTake :: "nat option"
  wcCause :: goerr
  wcClosed :: "goerr option"

definition ClientCreate :: "apiCodec \<Rightarrow> 'c Client \<Rightarrow> nat option \<Rightarrow> 'c \<Rightarrow> goerr \<Rightarrow> Key \<Rightarrow> header \<Rightarrow> duration \<Rightarrow> RequestOption list
    \<Rightarrow> (goerr + writeCloser) \<times> 'c" where
  "ClientCreate codec cl room c ctxErr key headers ttl opts =
     (let r = newRequest ''POST'' (objectURL cl key);
          h1 = hDel (rqHeader r ++ headers) ETagKey;
          ro = NewRequestOptions opts
      in case (if oETagSet ro then FormatETag (oETag ro) else ('''', [])) of (etag, e) \<Rightarrow>
           if e \<noteq> [] then (Inl e, c)
           else (let h2 = (if oETagSet ro then hSet h1 ETagKey etag else h1);
                     h3 = (if ttl > 0 then hSet h2 ''Time-To-Live'' (formatDuration codec ttl) else h2)
                 in (Inr \<lparr>wcRequest = r\<lparr>rqHeader := h3\<rparr>, wcBlocks = [], wcBroken = False, wcTake = room,
                          wcCause = ctxErr, wcClosed = None\<rparr>, c)))"

definition wcWrite :: "writeCloser \<Rightarrow> bytes \<Rightarrow> (nat \<times> goerr) \<times> writeCloser" where
  "wcWrite wc p =
     (if wcClosed wc \<noteq> None \<or> wcBroken wc \<or> wcTake wc = Some 0 then ((0, [ErrClosedPipe]), wc\<lparr>wcBroken := True\<rparr>)
      else ((length p, []), wc\<lparr>wcBlocks := wcBlocks wc @ [p], wcTake := map_option (\<lambda>k. k - 1) (wcTake wc)\<rparr>))"

definition wcCancel :: "writeCloser \<Rightarrow> writeCloser" where
  "wcCancel wc = wc\<lparr>wcCause := (if wcCause wc = [] then [ErrCanceled] else wcCause wc)\<rparr>"

text \<open>The request goroutine and \<^verbatim>\<open>doClose\<close>; \<^verbatim>\<open>statusOf\<close> is \<^verbatim>\<open>errors.As\<close> for an \<^verbatim>\<open>HTTPStatusError\<close>.\<close>

definition doClose :: "'c Client \<Rightarrow> writeCloser \<Rightarrow> 'c \<Rightarrow> goerr \<times> 'c" where
  "doClose cl wc c =
     (case clientSend cl (wcRequest wc)
        \<lparr>bBlocks = wcBlocks wc, bErr = (if wcCause wc \<noteq> [] \<or> wcBroken wc then [ErrTransport] else []), bCloseErr = []\<rparr> c of (res, c1) \<Rightarrow>
        (let serverErr = (case res of Inl e \<Rightarrow> e | Inr resp \<Rightarrow> if rsStatus resp \<noteq> 200 then HTTPStatusError (rsStatus resp) else [])
         in (if statusOf serverErr \<noteq> None then serverErr
             else if wcCause wc \<noteq> [] then wcCause wc
             else serverErr, c1)))"

definition wcClose :: "'c Client \<Rightarrow> writeCloser \<Rightarrow> 'c \<Rightarrow> goerr outcome \<times> writeCloser \<times> 'c" where
  "wcClose cl wc c =
     (case wcClosed wc of
        Some e \<Rightarrow> (Ret e, wc, c)
      | None \<Rightarrow> (case doClose cl wc c of (e, c1) \<Rightarrow> (Ret e, wc\<lparr>wcClosed := Some e\<rparr>, c1)))"

definition ClientDelete :: "'c Client \<Rightarrow> 'c \<Rightarrow> Key \<Rightarrow> goerr \<times> 'c" where
  "ClientDelete cl c key =
     (case clientSend cl (newRequest ''DELETE'' (objectURL cl key)) nilBody c of (res, c1) \<Rightarrow>
        (case res of
           Inl e \<Rightarrow> (e, c1)
         | Inr resp \<Rightarrow> (if rsStatus resp = 404 then [ErrNotExist] else if rsStatus resp \<noteq> 200 then HTTPStatusError (rsStatus resp) else [], c1)))"

definition ClientInvalidate :: "'c Client \<Rightarrow> 'c \<Rightarrow> Key \<Rightarrow> goerr \<times> 'c" where
  "ClientInvalidate cl c key =
     (case clientSend cl (newRequest ''POST'' (invalidateURL cl key)) nilBody c of (res, c1) \<Rightarrow>
        (case res of Inl e \<Rightarrow> (e, c1) | Inr resp \<Rightarrow> (if rsStatus resp \<noteq> 200 then HTTPStatusError (rsStatus resp) else [], c1)))"

definition ClientStats :: "apiCodec \<Rightarrow> 'c Client \<Rightarrow> 'c \<Rightarrow> Stats \<times> goerr" where
  "ClientStats codec cl c =
     (let zero = \<lparr>Objects = 0, Size = 0, Capacity = 0\<rparr>
      in case fst (clientSend cl (newRequest ''GET'' ''/api/v1/stats'') nilBody c) of
           Inl e \<Rightarrow> (zero, e)
         | Inr resp \<Rightarrow>
             if rsStatus resp = 501 then (zero, [ErrStatsUnavailable])
             else if rsStatus resp \<noteq> 200 then (zero, HTTPStatusError (rsStatus resp))
             else (case decodeStats codec (concat (bBlocks (rsBody resp))) of
                None \<Rightarrow> (zero, [ErrOther ''failed to decode stats response'']) | Some s \<Rightarrow> (s, [])))"

definition ClientListNamespaces :: "apiCodec \<Rightarrow> 'c Client \<Rightarrow> 'c \<Rightarrow> string list \<times> goerr" where
  "ClientListNamespaces codec cl c =
     (case fst (clientSend cl (newRequest ''GET'' ''/api/v1/namespaces'') nilBody c) of
        Inl e \<Rightarrow> ([], e)
      | Inr resp \<Rightarrow>
          if rsStatus resp \<noteq> 200 then ([], [ErrOther ''unexpected status''])
          else (case decodeNames codec (concat (bBlocks (rsBody resp))) of
             None \<Rightarrow> ([], [ErrOther ''invalid JSON'']) | Some ns \<Rightarrow> (ns, [])))"

text \<open>The \<^verbatim>\<open>Remote\<close> backend hands every operation to the client.\<close>

definition remoteOps :: "apiCodec \<Rightarrow> 'c Client \<Rightarrow> nat option \<Rightarrow> ('c, writeCloser) cacheOps" where
  "remoteOps codec cl room =
     \<lparr>cStat = ClientStat cl, cOpen = ClientOpen cl, cCreate = ClientCreate codec cl room, cDelete = ClientDelete cl,
      cInvalidate = ClientInvalidate cl, cStats = ClientStats codec cl, cListNamespaces = ClientListNamespaces codec cl,
      cClose = (\<lambda>c. ([], c)), wWrite = wcWrite, wCancel = wcCancel, wClose = wcClose cl\<rparr>"

definition remoteNamespace :: "'c Client \<Rightarrow> Namespace \<Rightarrow> 'c Client" where
  "remoteNamespace cl ns = clientWithNamespace cl ns"

section \<open>Lemmas: requests\<close>

lemma canonical_conditions [simp]:
  "CanonicalHeaderKey ''If-Match'' = ''If-Match''" "CanonicalHeaderKey ''If-None-Match'' = ''If-None-Match''"
  "CanonicalHeaderKey ''Range'' = ''Range''" "CanonicalHeaderKey ''If-Range'' = ''If-Range''"
  "CanonicalHeaderKey ''Content-Encoding'' = ''Content-Encoding''" "CanonicalHeaderKey ''Time-To-Live'' = ''Time-To-Live''"
  "CanonicalHeaderKey ''Accept-Encoding'' = ''Accept-Encoding''" "CanonicalHeaderKey ''Date'' = ''Date''"
  "CanonicalHeaderKey ''User-Agent'' = ''User-Agent''" "CanonicalHeaderKey ''Transfer-Encoding'' = ''Transfer-Encoding''"
  by (simp_all add: canonical_eval)

definition condKeys :: "string set" where
  "condKeys = {''If-Match'', ''If-None-Match'', ''Range'', ''If-Range''}"

lemma hGet_headerRoundTrip: "hs (CanonicalHeaderKey k) = None \<Longrightarrow> hGet (rqHeader (headerRoundTrip hs r)) k = hGet (rqHeader r) k"
  by (simp add: headerRoundTrip_def hGet_def)

lemma hGet_applyToRequest:
  "hGet (rqHeader (applyToRequest ro (newRequest m p))) ''If-Match'' = oIfMatch ro"
  "hGet (rqHeader (applyToRequest ro (newRequest m p))) ''If-None-Match'' = oIfNoneMatch ro"
  "hGet (rqHeader (applyToRequest ro (newRequest m p))) ''Range'' = oRange ro"
  "hGet (rqHeader (applyToRequest ro (newRequest m p))) ''If-Range'' = oIfRange ro"
  by (auto simp: applyToRequest_def newRequest_def hGet_hSet) (auto simp: hGet_def)

lemma request_sel [simp]:
  "rqMethod (headerRoundTrip hs r) = rqMethod r" "rqPath (headerRoundTrip hs r) = rqPath r"
  "rqMethod (applyToRequest ro r) = rqMethod r" "rqPath (applyToRequest ro r) = rqPath r"
  "rqMethod (newRequest m p) = m" "rqPath (newRequest m p) = p"
  by (simp_all add: headerRoundTrip_def applyToRequest_def newRequest_def Let_def)

text \<open>The options survive the trip over the wire.\<close>

lemma options_roundtrip:
  assumes "dom hs \<inter> condKeys = {}"
  shows "NewRequestOptions (ConditionalOptions (headerRoundTrip hs (applyToRequest ro (newRequest m p)))) =
    zeroOptions\<lparr>oIfMatch := oIfMatch ro, oIfNoneMatch := oIfNoneMatch ro, oRange := oRange ro, oIfRange := oIfRange ro\<rparr>"
proof -
  have "hs ''If-Match'' = None" "hs ''If-None-Match'' = None" "hs ''Range'' = None" "hs ''If-Range'' = None"
    using assms by (auto simp: condKeys_def)
  then have "hGet (rqHeader (headerRoundTrip hs (applyToRequest ro (newRequest m p)))) ''If-Match'' = oIfMatch ro"
    "hGet (rqHeader (headerRoundTrip hs (applyToRequest ro (newRequest m p)))) ''If-None-Match'' = oIfNoneMatch ro"
    "hGet (rqHeader (headerRoundTrip hs (applyToRequest ro (newRequest m p)))) ''Range'' = oRange ro"
    "hGet (rqHeader (headerRoundTrip hs (applyToRequest ro (newRequest m p)))) ''If-Range'' = oIfRange ro"
    by (simp_all add: hGet_headerRoundTrip hGet_applyToRequest)
  then show ?thesis
    by (simp add: ConditionalOptions_def Let_def NewRequestOptions_def IfMatch_def IfNoneMatch_def IfRange_def zeroOptions_def)
qed

text \<open>The interface's answers only depend on the conditions and the range.\<close>

lemma spec_cong:
  assumes "NewRequestOptions o1 = zeroOptions\<lparr>oIfMatch := oIfMatch (NewRequestOptions o2), oIfNoneMatch := oIfNoneMatch (NewRequestOptions o2),
      oRange := oRange (NewRequestOptions o2), oIfRange := oIfRange (NewRequestOptions o2)\<rparr>"
  shows "openSpec ob o1 = openSpec ob o2" "statSpec ob o1 = statSpec ob o2"
proof -
  have "Check (NewRequestOptions o1) t = Check (NewRequestOptions o2) t" for t unfolding assms by (simp add: Check_def)
  moreover have "ResolveRange (NewRequestOptions o1) sz t = ResolveRange (NewRequestOptions o2) sz t" for sz t
    unfolding assms by (simp add: ResolveRange_def IfRangeMisses_def)
  ultimately have cs: "conditionalShortCircuit h o1 = conditionalShortCircuit h o2" "rangeShortCircuit h sz o1 = rangeShortCircuit h sz o2" for h sz
    by (simp_all add: conditionalShortCircuit_def rangeShortCircuit_def)
  show "openSpec ob o1 = openSpec ob o2" "statSpec ob o1 = statSpec ob o2"
    unfolding openSpec_def statSpec_def cs by (rule refl)+
qed

lemma namespaceRe_no_slash: "namespaceRe ns \<Longrightarrow> CHR ''/'' \<notin> set ns"
  using namespace_chars [of ns ns "CHR ''/''"] by (auto simp: ParseNamespace_def ValidateNamespace_def)

lemma Split_objectURL:
  assumes "namespaceRe (resolvedNamespace cl)"
  shows "Split (CHR ''/'') (objectURL cl key) = ['''', ''api'', ''v1'', ''object'', resolvedNamespace cl, KeyString key]"
    and "Split (CHR ''/'') (invalidateURL cl key) = ['''', ''api'', ''v1'', ''object'', resolvedNamespace cl, KeyString key, ''invalidate'']"
proof -
  note sep = Split_append_sep [of "CHR ''/''"] Split_no_sep [of "CHR ''/''"]
  have pre: "Split (CHR ''/'') (''/api/v1/object/'' @ x) = ['''', ''api'', ''v1'', ''object''] @ Split (CHR ''/'') x" for x
    using sep(1) [of "''''" "''api/v1/object/'' @ x"] sep(1) [of "''api''" "''v1/object/'' @ x"]
      sep(1) [of "''v1''" "''object/'' @ x"] sep(1) [of "''object''" x] by simp
  have ns: "CHR ''/'' \<notin> set (resolvedNamespace cl)" by (rule namespaceRe_no_slash [OF assms])
  note k = KeyString_no_slash [of key]
  show "Split (CHR ''/'') (objectURL cl key) = ['''', ''api'', ''v1'', ''object'', resolvedNamespace cl, KeyString key]"
    unfolding objectURL_def pre using sep(1) [OF ns, of "KeyString key"] sep(2) [OF k] by simp
  show "Split (CHR ''/'') (invalidateURL cl key) = ['''', ''api'', ''v1'', ''object'', resolvedNamespace cl, KeyString key, ''invalidate'']"
    unfolding invalidateURL_def objectURL_def append_assoc pre
    using sep(1) [OF ns, of "KeyString key @ ''/invalidate''"] sep(1) [OF k, of "''invalidate''"] sep(2) [of "''invalidate''"] by simp
qed

section \<open>Lemmas: reading\<close>

definition wireKeys :: "string set" where
  "wireKeys = {''Etag'', ''Content-Range'', ''Content-Encoding''}"

lemma wire_header:
  assumes "dom x \<inter> wireKeys = {}" "k \<in> {ETagKey, ''Content-Range'', ''Content-Encoding''}"
  shows "hGet (filterHeaders (x ++ h) clientTransportHeaders) k = hGet h k" "hGet (x ++ h) k = hGet h k"
proof -
  have c: "CanonicalHeaderKey ''Etag'' = ''Etag''" by (simp add: canonical_eval)
  have "x ''Etag'' = None" "x ''Content-Range'' = None" "x ''Content-Encoding'' = None" using assms(1) by (auto simp: wireKeys_def)
  then show "hGet (filterHeaders (x ++ h) clientTransportHeaders) k = hGet h k" "hGet (x ++ h) k = hGet h k"
    using assms(2) by (auto simp: hGet_def filterHeaders_def clientTransportHeaders_def c map_add_def split: option.splits)
qed

lemma httpError_response: "\<exists>hs bd. response (httpError msg code (newWriter None)) = (code, hs, bd) \<and> hGet hs ''Content-Encoding'' = ''''"
proof -
  have "CanonicalHeaderKey ''Content-Type'' = ''Content-Type''" "CanonicalHeaderKey ''X-Content-Type-Options'' = ''X-Content-Type-Options''"
    by (simp_all add: canonical_eval)
  then show ?thesis
    by (simp add: httpError_def rwWrite_def rwWriteHeader_def rwSet_def newWriter_def Let_def response_def hSet_def hDel_def hGet_def)
qed

lemma hit_response:
  assumes "ServeCacheHit None (newWriter None) h b e = ((handled, n, se), w)"
  shows "e = [] \<Longrightarrow> handled \<and> response w = (if hGet h ''Content-Range'' \<noteq> '''' then 206 else 200, hSet h ''Accept-Ranges'' ''bytes'', concat (bBlocks b))"
    "errIs e ErrNotModified \<Longrightarrow> handled \<and> response w = (304, h, [])"
    "errIs e ErrPreconditionFailed \<Longrightarrow> \<not> errIs e ErrNotModified \<Longrightarrow> handled \<and> response w = (412, Map.empty, [])"
    "errIs e ErrRangeNotSatisfiable \<Longrightarrow> \<not> errIs e ErrNotModified \<Longrightarrow> \<not> errIs e ErrPreconditionFailed \<Longrightarrow>
       handled \<and> response w = (416, hSet h ''Accept-Ranges'' ''bytes'', [])"
    "e \<noteq> [] \<Longrightarrow> \<not> errIs e ErrNotModified \<Longrightarrow> \<not> errIs e ErrPreconditionFailed \<Longrightarrow> \<not> errIs e ErrRangeNotSatisfiable \<Longrightarrow> \<not> handled \<and> w = newWriter None"
proof -
  show "e = [] \<Longrightarrow> handled \<and> response w = (if hGet h ''Content-Range'' \<noteq> '''' then 206 else 200, hSet h ''Accept-Ranges'' ''bytes'', concat (bBlocks b))"
    using ServeCacheHit_body assms by blast
  have ne: "e \<noteq> []" if "errIs e k" for k using that by (auto simp: errIs_def)
  note defs = ServeCacheHit_def newWriter_def rwCopy_def rwSet_def rwWriteHeader_def response_def runDecorator_def
  show "errIs e ErrNotModified \<Longrightarrow> handled \<and> response w = (304, h, [])" using assms ne by (simp add: defs) auto
  show "errIs e ErrPreconditionFailed \<Longrightarrow> \<not> errIs e ErrNotModified \<Longrightarrow> handled \<and> response w = (412, Map.empty, [])"
    using assms ne by (simp add: defs) auto
  show "errIs e ErrRangeNotSatisfiable \<Longrightarrow> \<not> errIs e ErrNotModified \<Longrightarrow> \<not> errIs e ErrPreconditionFailed \<Longrightarrow>
       handled \<and> response w = (416, hSet h ''Accept-Ranges'' ''bytes'', [])"
    using assms ne by (simp add: defs) auto
qed (use assms in \<open>simp add: ServeCacheHit_def\<close>)

text \<open>The headers of an answer are those of the object, but for length and range.\<close>

lemma openSpec_encoding:
  "openSpec (Some (d, h)) opts = (b, hr, e) \<Longrightarrow> hGet hr ''Content-Encoding'' \<in> {hGet h ''Content-Encoding'', ''''}"
  by (cases "snd (snd (ResolveRange (NewRequestOptions opts) (int (length d)) (hGet h ETagKey)))")
     (auto simp: openSpec_def conditionalShortCircuit_def rangeShortCircuit_def Let_def hGet_hSet hGet_hDel
       split: prod.splits if_splits; simp add: hGet_def)+

text \<open>A response is not unpacked when the object is not packed.\<close>

definition plain :: "net \<Rightarrow> (bytes \<times> header) option \<Rightarrow> bool" where
  "plain n ob \<longleftrightarrow> \<not> nGzip n \<or> (\<forall>d h. ob = Some (d, h) \<longrightarrow> map toLower (hGet h ''Content-Encoding'') \<noteq> ''gzip'')"

definition apiClient :: "net \<Rightarrow> apiCodec \<Rightarrow> (string \<Rightarrow> bytes) \<Rightarrow> (Namespace \<Rightarrow> ('c, 'w) cacheOps) \<Rightarrow> header \<Rightarrow> Namespace \<Rightarrow> 'c Client" where
  "apiClient n codec sha256 ops hs ns = clientWithNamespace (NewClient hs (roundTrip n (apiServe codec sha256 ops))) ns"

lemma apiClient_sel [simp]:
  "resolvedNamespace (apiClient n codec sha256 ops hs ns) = (if ns = '''' then DefaultNamespace else ns)"
  "clHeaders (apiClient n codec sha256 ops hs ns) = hs" "clDo (apiClient n codec sha256 ops hs ns) = roundTrip n (apiServe codec sha256 ops)"
  by (simp_all add: apiClient_def clientWithNamespace_def NewClient_def resolvedNamespace_def)

lemma DefaultNamespace_ok: "namespaceRe DefaultNamespace"
  by (simp add: DefaultNamespace_def namespaceRe_def nsHead_def less_eq_char_def)

lemma objectTarget_ok:
  assumes "namespaceRe ns" "length key = 32"
  shows "objectTarget sha256 ns (KeyString key) w c go = go ns key"
  using assms ParseKey_KeyString [of key sha256] by (simp add: objectTarget_def ParseNamespace_def ValidateNamespace_def)

lemma deliver_plain:
  assumes "rqMethod r \<noteq> ''HEAD''" "response w = (code, h, bd)" "\<not> nGzip n \<or> map toLower (hGet (nExtra n ++ h) ''Content-Encoding'') \<noteq> ''gzip''"
  shows "deliver n r w = \<lparr>rsStatus = code, rsHeader = nExtra n ++ h, rsBody = bytesReader bd\<rparr>"
  using assms by (auto simp: deliver_def Let_def)

text \<open>The response of \<^verbatim>\<open>getObject\<close> to what the backend's \<^verbatim>\<open>Open\<close> returns.\<close>

definition getReply :: "header \<Rightarrow> body \<Rightarrow> goerr \<Rightarrow> ResponseWriter" where
  "getReply h b e =
     (case ServeCacheHit None (newWriter None) h b e of ((handled, _, _), w) \<Rightarrow>
        if handled then w
        else if errIs e ErrNotExist then httpError ''Cache object not found'' 404 w
        else httpError ''Failed to open cache object'' 500 w)"

text \<open>For an object the backend has, the reply decodes to the answer of the interface.\<close>

lemma getReply_object:
  assumes sp: "openSpec (Some (d, h0)) opts = (b, h, e0)" "errSame e e0"
    and x: "dom x \<inter> wireKeys = {}" and rsp: "response (getReply h b e) = (code, hh, bd)"
  shows "hGet hh ''Content-Encoding'' \<in> {hGet h0 ''Content-Encoding'', ''''} \<and>
    (\<exists>h'. openAnswer \<lparr>rsStatus = code, rsHeader = x ++ hh, rsBody = bytesReader bd\<rparr> = (b, h', e0) \<and>
       hGet h' ETagKey = hGet h ETagKey \<and> (e0 = [] \<longrightarrow> hGet h' ''Content-Range'' = hGet h ''Content-Range''))"
proof -
  obtain handled m se w where sv: "ServeCacheHit None (newWriter None) h b e = ((handled, m, se), w)" by (metis prod.exhaust)
  have reply: "response w = (code, hh, bd)" if handled using that rsp sv by (simp add: getReply_def)
  note enc = openSpec_encoding [OF sp(1)] and wire = wire_header(1) [OF x]
  from sp(1) show ?thesis
  proof (cases rule: openSpec_Some)
    case full
    then have "handled \<and> response w = (200, hSet h ''Accept-Ranges'' ''bytes'', d)"
      using hit_response(1) [OF sv] sp(2) by (simp add: bytesReader_def)
    then show ?thesis using reply full enc by (auto simp: openAnswer_def wire hGet_hSet)
  next
    case (part start len)
    then have "handled \<and> response w = (206, hSet h ''Accept-Ranges'' ''bytes'', take (nat len) (drop (nat start) d))"
      using hit_response(1) [OF sv] sp(2) by (simp add: bytesReader_def)
    then show ?thesis using reply part enc by (auto simp: openAnswer_def wire hGet_hSet)
  next
    case unsat
    then have "errIs e ErrRangeNotSatisfiable" "\<not> errIs e ErrNotModified" "\<not> errIs e ErrPreconditionFailed"
      using sp(2) by (auto simp: errSame_def errIs_def)
    then show ?thesis using hit_response(4) [OF sv] reply unsat enc
      by (auto simp: openAnswer_def wire hGet_hSet errJoin_def bytesReader_def)
  next
    case cond
    then consider "e0 = [ErrNotModified]" | "e0 = [ErrPreconditionFailed]" using Check_cases by metis
    then show ?thesis
    proof cases
      case 1
      then have "errIs e ErrNotModified" using sp(2) by (auto simp: errSame_def errIs_def)
      then show ?thesis using hit_response(2) [OF sv] reply cond 1 enc by (auto simp: openAnswer_def wire errJoin_def bytesReader_def)
    next
      case 2
      then have "errIs e ErrPreconditionFailed" "\<not> errIs e ErrNotModified" using sp(2) by (auto simp: errSame_def errIs_def)
      moreover have "h = Map.empty" using sp(1) 2 cond
        by (auto simp: openSpec_def conditionalShortCircuit_def Let_def errIs_def hGet_hSet hGet_hDel split: if_splits prod.splits)
      ultimately show ?thesis using hit_response(3) [OF sv] reply cond 2
        by (auto simp: openAnswer_def errJoin_def bytesReader_def hGet_def)
    qed
  qed
qed

lemma getReply_absent:
  assumes "hardErr e \<or> errSame e [ErrNotExist]" "response (getReply h b e) = (code, hh, bd)"
  shows "hGet hh ''Content-Encoding'' = '''' \<and> code = (if hardErr e then 500 else 404)"
proof -
  obtain handled m se w where sv: "ServeCacheHit None (newWriter None) h b e = ((handled, m, se), w)" by (metis prod.exhaust)
  have "e \<noteq> []" "\<not> errIs e ErrNotModified" "\<not> errIs e ErrPreconditionFailed" "\<not> errIs e ErrRangeNotSatisfiable" "errIs e ErrNotExist \<longleftrightarrow> \<not> hardErr e"
    using assms(1) by (auto simp: hardErr_def errSame_def errIs_def)
  moreover from this have "\<not> handled \<and> w = newWriter None" using hit_response(5) [OF sv] by blast
  ultimately show ?thesis
    using assms(2) sv httpError_response [of "''Cache object not found''" 404] httpError_response [of "''Failed to open cache object''" 500]
    by (auto simp: getReply_def split: if_splits)
qed

text \<open>An \<^verbatim>\<open>Open\<close> through the API reports what the server's backend reports.\<close>

lemma ClientOpen_answer:
  assumes cl: "cl = apiClient n codec sha256 ops hs ns0" and ns: "ns = (if ns0 = '''' then DefaultNamespace else ns0)"
    and net: "nErr n = []" "\<not> nLost n" "dom (nExtra n) \<inter> wireKeys = {}" and good: "namespaceRe ns" "length key = 32"
    and sopts: "sopts = ConditionalOptions (headerRoundTrip hs (applyToRequest (NewRequestOptions opts) (newRequest ''GET'' (objectURL cl key))))"
    and srv: "cOpen (ops ns) c key sopts = ((b, h, e), c1)" "hardErr e \<or> (\<exists>e0. (b, h, e0) = openSpec ob opts \<and> errSame e e0)"
    and pl: "plain n ob" and run: "ClientOpen cl c key opts = ((b', h', e'), c')"
  shows "c' = c1 \<and> (e' = [ErrHTTPStatus 500] \<or>
    (\<exists>h0. openSpec ob opts = (b', h0, e') \<and> hGet h' ETagKey = hGet h0 ETagKey \<and> (e' = [] \<longrightarrow> hGet h' ''Content-Range'' = hGet h0 ''Content-Range'')))"
proof -
  let ?r = "headerRoundTrip hs (applyToRequest (NewRequestOptions opts) (newRequest ''GET'' (objectURL cl key)))"
  obtain code hh bd where rsp: "response (getReply h b e) = (code, hh, bd)" by (metis prod.exhaust)
  have path: "Split (CHR ''/'') (objectURL cl key) = ['''', ''api'', ''v1'', ''object'', ns, KeyString key]"
    using Split_objectURL(1) [of cl key] good(1) by (simp add: cl ns)
  have "apiServe codec sha256 ops ?r nilBody c = (Ret (getReply h b e), c1)"
    using srv(1) good by (simp add: apiServe_def Let_def path getObject_def objectTarget_ok sopts [symmetric] getReply_def split: prod.splits)
  then have sent: "c' = c1" "(b', h', e') = openAnswer (deliver n ?r (getReply h b e))"
    using run net(1,2) by (auto simp: ClientOpen_def clientSend_def cl roundTrip_def)
  have deliv: "deliver n ?r (getReply h b e) = \<lparr>rsStatus = code, rsHeader = nExtra n ++ hh, rsBody = bytesReader bd\<rparr>"
    if "\<not> nGzip n \<or> map toLower (hGet hh ''Content-Encoding'') \<noteq> ''gzip''"
    using deliver_plain [OF _ rsp, of ?r n] that wire_header(2) [OF net(3)] by simp
  show ?thesis
  proof (cases "hardErr e \<or> ob = None")
    case True
    then have "hardErr e \<or> errSame e [ErrNotExist]" using srv(2) by auto
    from getReply_absent [OF this rsp] deliv sent show ?thesis
      using True by (auto simp: openAnswer_def HTTPStatusError_def errJoin_def bytesReader_def hGet_def split: if_splits)
  next
    case False
    then obtain d h0 e0 where o: "ob = Some (d, h0)" "openSpec ob opts = (b, h, e0)" "errSame e e0"
      using srv(2) by (metis not_None_eq prod.exhaust)
    note ans = getReply_object [OF o(2) [unfolded o(1)] o(3) net(3) rsp]
    then have "\<not> nGzip n \<or> map toLower (hGet hh ''Content-Encoding'') \<noteq> ''gzip''" using pl o(1) by (auto simp: plain_def)
    from deliv [OF this] ans sent o show ?thesis by auto
  qed
qed

lemma ClientStat_answer:
  assumes cl: "cl = apiClient n codec sha256 ops hs ns0" and ns: "ns = (if ns0 = '''' then DefaultNamespace else ns0)"
    and net: "nErr n = []" "\<not> nLost n" "dom (nExtra n) \<inter> wireKeys = {}" and good: "namespaceRe ns" "length key = 32"
    and sopts: "sopts = ConditionalOptions (headerRoundTrip hs (applyToRequest (NewRequestOptions opts) (newRequest ''HEAD'' (objectURL cl key))))"
    and srv: "cStat (ops ns) c key sopts = ((h, e), c1)" "hardErr e \<or> (\<exists>e0. (h, e0) = statSpec ob opts \<and> errSame e e0)"
    and run: "ClientStat cl c key opts = ((h', e'), c')"
  shows "c' = c1 \<and> (e' = [ErrHTTPStatus 500] \<or> (\<exists>h0. statSpec ob opts = (h0, e') \<and> hGet h' ETagKey = hGet h0 ETagKey))"
proof -
  let ?r = "headerRoundTrip hs (applyToRequest (NewRequestOptions opts) (newRequest ''HEAD'' (objectURL cl key)))"
  let ?w = "case ServeCacheStat (newWriter None) h e of (handled, w1) \<Rightarrow>
      if handled then w1 else if errIs e ErrNotExist then httpError ''Cache object not found'' 404 w1
      else httpError ''Failed to open cache object'' 500 w1"
  have path: "Split (CHR ''/'') (objectURL cl key) = ['''', ''api'', ''v1'', ''object'', ns, KeyString key]"
    using Split_objectURL(1) [of cl key] good(1) by (simp add: cl ns)
  have "apiServe codec sha256 ops ?r nilBody c = (Ret ?w, c1)"
    using srv(1) good by (simp add: apiServe_def Let_def path statObject_def objectTarget_ok sopts [symmetric] split: prod.splits)
  then have sent: "clientSend cl (applyToRequest (NewRequestOptions opts) (newRequest ''HEAD'' (objectURL cl key))) nilBody c = (Inr (deliver n ?r ?w), c1)"
    using net(1,2) by (simp add: clientSend_def cl roundTrip_def)
  have deliv: "deliver n ?r w = \<lparr>rsStatus = code, rsHeader = nExtra n ++ hh, rsBody = nilBody\<rparr>" if "response w = (code, hh, bd)" for w code hh bd
    using that by (simp add: deliver_def)
  note wire = wire_header(1) [OF net(3)]
  note defs = ServeCacheStat_def newWriter_def rwCopy_def rwSet_def rwWriteHeader_def response_def
  have answer: "\<exists>hh bd. response ?w = (if e = [] then 200 else if errIs e ErrNotModified then 304 else if errIs e ErrPreconditionFailed then 412
      else if errIs e ErrNotExist then 404 else 500, hh, bd) \<and> (e = [] \<or> errIs e ErrNotModified \<longrightarrow> hGet hh ETagKey = hGet h ETagKey)"
    using httpError_response [of "''Cache object not found''" 404] httpError_response [of "''Failed to open cache object''" 500]
    by (auto simp: defs hGet_hSet)
  then obtain hh bd where w: "response ?w = (if e = [] then 200 else if errIs e ErrNotModified then 304 else if errIs e ErrPreconditionFailed then 412
      else if errIs e ErrNotExist then 404 else 500, hh, bd)" "e = [] \<or> errIs e ErrNotModified \<longrightarrow> hGet hh ETagKey = hGet h ETagKey" by blast
  have ch: "ErrNotModified \<in> set (Check (NewRequestOptions opts) t) \<Longrightarrow> Check (NewRequestOptions opts) t = [ErrNotModified]"
    "Check (NewRequestOptions opts) t \<noteq> [] \<Longrightarrow> ErrNotModified \<notin> set (Check (NewRequestOptions opts) t) \<Longrightarrow>
      Check (NewRequestOptions opts) t = [ErrPreconditionFailed]" for t using Check_cases [of "NewRequestOptions opts" t] by auto
  have sh: "e0 \<in> {[], [ErrNotModified]} \<or> h = Map.empty \<and> e0 \<in> {[ErrPreconditionFailed], [ErrNotExist]}" if "statSpec ob opts = (h, e0)" for e0
    using that ch by (auto simp: statSpec_def conditionalShortCircuit_def Let_def errIs_def split: option.splits prod.splits if_splits)
  note run' = run [unfolded ClientStat_def sent deliv [OF w(1)]]
  show ?thesis
  proof (cases "hardErr e")
    case True
    then have "e \<noteq> [] \<and> \<not> errIs e ErrNotModified \<and> \<not> errIs e ErrPreconditionFailed \<and> \<not> errIs e ErrNotExist"
      by (simp add: hardErr_def errIs_def)
    then show ?thesis using run' by (auto simp: HTTPStatusError_def)
  next
    case False
    then obtain e0 where e0: "statSpec ob opts = (h, e0)" "errSame e e0" using srv(2) by metis
    consider "e0 = []" | "e0 = [ErrNotModified]" | "e0 = [ErrPreconditionFailed]" "h = Map.empty" | "e0 = [ErrNotExist]" "h = Map.empty"
      using sh [OF e0(1)] by auto
    then show ?thesis
      using e0 run' w(2) by cases (auto simp: errSame_def errIs_def wire hGet_def [of Map.empty])
  qed
qed

section \<open>Lemmas: writing\<close>

lemma concat_nonempty: "concat (filter (\<lambda>x. x \<noteq> []) bs) = concat bs"
  by (induction bs) auto

text \<open>The body of an upload is stored as \<^verbatim>\<open>WriteFunc\<close> would: committed when it is complete, aborted when it breaks off.\<close>

lemma storeBody_WriteFunc:
  assumes "cCreate ops c [] key h t opts = (Inr cw, c1)" "storeBody ops cw b (newWriter None) c1 = (res, c')"
  shows "\<exists>r. WriteFunc ops c [] key h t (filter (\<lambda>x. x \<noteq> []) (bBlocks b)) (bErr b) opts = (r, c') \<and>
    ((\<exists>w. res = Ret w \<and> fst (response w) = 200) \<longrightarrow> r = Ret [])"
proof -
  obtain we cw1 where wb: "writeBlocks ops cw (filter (\<lambda>x. x \<noteq> []) (bBlocks b)) = (we, cw1)" by (metis prod.exhaust)
  obtain r1 w1 c2 where ab: "wClose ops (wCancel ops cw1) c1 = (r1, w1, c2)" by (metis prod.exhaust)
  obtain r2 w2 c3 where cl: "wClose ops cw1 c1 = (r2, w2, c3)" by (metis prod.exhaust)
  have code: "fst (response (httpError m 500 (newWriter None))) = 500" for m using httpError_response [of m 500] by auto
  show ?thesis
    using assms wb ab cl code
    by (cases r1; cases r2) (auto simp: storeBody_def WriteFunc_def Let_def errJoin_def split: if_splits)
qed

text \<open>A \<^verbatim>\<open>POST\<close> of the client, with the ETag of its request.\<close>

lemma putObject_WriteFunc:
  assumes "putObject codec sha256 opsF ns (KeyString key) r b (newWriter None) c = (res, c')" "namespaceRe ns" "length key = 32"
    and "hGet (rqHeader r) ETagKey = q" "FormatETag raw = (q, [])"
  shows "(c' = c \<and> (\<exists>w. res = Ret w \<and> fst (response w) \<noteq> 200)) \<or>
    (\<exists>h t r'. WriteFunc (opsF ns) c [] key h t (filter (\<lambda>x. x \<noteq> []) (bBlocks b)) (bErr b) [WithETag raw] = (r', c') \<and>
       ((\<exists>w. res = Ret w \<and> fst (response w) = 200) \<longrightarrow> r' = Ret []))"
proof -
  have "CanonicalHeaderKey ''Authorization'' = ''Authorization''" "CanonicalHeaderKey ''Cookie'' = ''Cookie''"
    "CanonicalHeaderKey ''Proxy-Authorization'' = ''Proxy-Authorization''" "CanonicalHeaderKey ''Etag'' = ''Etag''" by (simp_all add: canonical_eval)
  then have etag: "hGet (apiObjectHeaders (rqHeader r)) ETagKey = q"
    using assms(4) by (simp add: apiObjectHeaders_def hGet_hDel) (simp add: hGet_def FilterHeaders_def Let_def)
  have q: "q \<noteq> ''''" "RawETagFromHeader q = (raw, [])" using assms(5) RawETag_Format [OF assms(5)] FormatETag_ok by auto
  have code: "fst (response (httpError m k (newWriter None))) = k" for m k using httpError_response [of m k] by auto
  let ?h = "hDel (apiObjectHeaders (rqHeader r)) ETagKey"
  let ?ttl = "if hGet (rqHeader r) ''Time-To-Live'' = '''' then Some 0 else parseDuration codec (hGet (rqHeader r) ''Time-To-Live'')"
  show ?thesis
  proof (cases ?ttl)
    case None
    then show ?thesis using assms(1-3) code by (auto simp: putObject_def objectTarget_ok Let_def etag q split: if_splits)
  next
    case (Some t)
    obtain x c1 where cr: "cCreate (opsF ns) c [] key ?h t [WithETag raw] = (x, c1)" by (metis prod.exhaust)
    show ?thesis
    proof (cases x)
      case (Inl e)
      then have res: "res = Ret (httpError ''Failed to create cache writer'' 500 (newWriter None))" "c' = c1"
        using assms(1-3) Some cr by (auto simp: putObject_def objectTarget_ok Let_def etag q split: if_splits)
      have "WriteFunc (opsF ns) c [] key ?h t (filter (\<lambda>x. x \<noteq> []) (bBlocks b)) (bErr b) [WithETag raw] = (Ret e, c')"
        using cr Inl res by (simp add: WriteFunc_def)
      then show ?thesis using res code by (intro disjI2 exI [of _ ?h] exI [of _ t] exI [of _ "Ret e"]) auto
    next
      case (Inr cw)
      then have "storeBody (opsF ns) cw b (newWriter None) c1 = (res, c')"
        using assms(1-3) Some cr by (auto simp: putObject_def objectTarget_ok Let_def etag q split: if_splits)
      from storeBody_WriteFunc [OF cr [unfolded Inr] this] show ?thesis by blast
    qed
  qed
qed

lemma writeBlocks_remote:
  "writeBlocks (remoteOps codec cl room) wc blocks = (e, wc') \<Longrightarrow> wcClosed wc = None \<Longrightarrow> \<not> wcBroken wc \<Longrightarrow>
   wcRequest wc' = wcRequest wc \<and> wcClosed wc' = None \<and> wcCause wc' = wcCause wc \<and>
   (e = [] \<longrightarrow> wcBlocks wc' = wcBlocks wc @ blocks \<and> \<not> wcBroken wc')"
proof (induction blocks arbitrary: wc)
  case (Cons b bs)
  obtain k e1 wc1 where w: "wcWrite wc b = ((k, e1), wc1)" by (metis prod.exhaust)
  show ?case
  proof (cases "e1 = []")
    case True
    then have "writeBlocks (remoteOps codec cl room) wc1 bs = (e, wc')" using Cons.prems(1) w by (simp add: remoteOps_def)
    from Cons.IH [OF this] show ?thesis using w True Cons.prems by (auto simp: wcWrite_def split: if_splits)
  next
    case False
    then show ?thesis using Cons.prems w by (auto simp: remoteOps_def wcWrite_def split: if_splits)
  qed
qed simp

text \<open>Closing an upload: nothing reaches the server, it refuses, or the body is stored.\<close>

lemma doClose_WriteFunc:
  assumes cl: "cl = apiClient n codec sha256 opsF hs ns0" and ns: "ns = (if ns0 = '''' then DefaultNamespace else ns0)"
    and good: "namespaceRe ns" "length key = 32" "hs ''Etag'' = None"
    and r: "rqMethod (wcRequest wc) = ''POST''" "rqPath (wcRequest wc) = objectURL cl key" "hGet (rqHeader (wcRequest wc)) ETagKey = q"
      "FormatETag raw = (q, [])"
    and run: "doClose cl wc c = (e, c')"
  shows "(c' = c \<and> e \<noteq> []) \<or>
    (\<exists>h t r'. WriteFunc (opsF ns) c [] key h t (filter (\<lambda>x. x \<noteq> []) (wcBlocks wc)) (if wcCause wc \<noteq> [] \<or> wcBroken wc then [ErrTransport] else [])
       [WithETag raw] = (r', c') \<and> (e = [] \<longrightarrow> r' = Ret []))"
proof -
  let ?b = "\<lparr>bBlocks = wcBlocks wc, bErr = (if wcCause wc \<noteq> [] \<or> wcBroken wc then [ErrTransport] else []), bCloseErr = []\<rparr>"
  let ?r = "headerRoundTrip hs (wcRequest wc)"
  have path: "Split (CHR ''/'') (objectURL cl key) = ['''', ''api'', ''v1'', ''object'', ns, KeyString key]"
    using Split_objectURL(1) [of cl key] good(1) by (simp add: cl ns)
  have q: "hGet (rqHeader ?r) ETagKey = q" using r(3) good(3) by (simp add: hGet_headerRoundTrip)
  obtain res c1 where put: "putObject codec sha256 opsF ns (KeyString key) ?r ?b (newWriter None) c = (res, c1)" by (metis prod.exhaust)
  have srv: "apiServe codec sha256 opsF ?r ?b c = (res, c1)" using put r(1,2) by (simp add: apiServe_def Let_def path)
  have st: "rsStatus (deliver n ?r w) = fst (response w)" for w by (simp add: deliver_def Let_def split: prod.splits)
  have e: "(nErr n \<noteq> [] \<and> c' = c \<and> e \<noteq> []) \<or> (nErr n = [] \<and> c' = c1 \<and> (e = [] \<longrightarrow> (\<exists>w. res = Ret w \<and> fst (response w) = 200)))"
    using run srv by (auto simp: doClose_def clientSend_def cl roundTrip_def st HTTPStatusError_def Let_def split: outcome.splits if_splits)
  show ?thesis
  proof (cases "c' = c \<and> e \<noteq> []")
    case False
    then have c': "c' = c1" using e by auto
    with False e putObject_WriteFunc [OF put good(1,2) q r(4)]
    obtain h t r' where "WriteFunc (opsF ns) c [] key h t (filter (\<lambda>x. x \<noteq> []) (wcBlocks wc)) (bErr ?b) [WithETag raw] = (r', c')"
      "(\<exists>w. res = Ret w \<and> fst (response w) = 200) \<longrightarrow> r' = Ret []" by auto
    with e False show ?thesis by (intro disjI2 exI [of _ h] exI [of _ t] exI [of _ r']) auto
  qed simp
qed


section \<open>A backend behind the API\<close>

context cache_backend
begin

lemma WriteFunc_complete:
  assumes "WriteFunc ops c [] key h ttl blocks fnErr [WithETag raw] = (r, c')" "FormatETag raw = (q, [])"
  shows "forgets obj c c' {key} \<and> (obj c' key = None \<or> obj c' key = obj c key \<and> r \<noteq> Ret [] \<or>
    fnErr = [] \<and> (\<exists>h'. obj c' key = Some (concat blocks, h') \<and> hGet h' ETagKey = q))"
proof -
  obtain r0 c1 where cr: "cCreate ops c [] key h ttl [WithETag raw] = (r0, c1)" by (metis prod.exhaust)
  note same = create_spec [OF cr, THEN conjunct1]
  show ?thesis
  proof (cases r0)
    case (Inl e)
    then have "r = Ret e" "c' = c1" "e \<noteq> []" using assms(1) cr create_spec [OF cr] by (simp_all add: WriteFunc_def)
    then show ?thesis using same by (simp add: forgets_same)
  next
    case (Inr w)
    obtain we w1 where wb: "writeBlocks ops w blocks = (we, w1)" by (metis prod.exhaust)
    obtain r' w2 c2 where cl: "wClose ops w1 c1 = (r', w2, c2)" by (metis prod.exhaust)
    obtain r'' w3 c3 where ab: "wClose ops (wCancel ops w1) c1 = (r'', w3, c3)" by (metis prod.exhaust)
    show ?thesis
    proof (cases "we = [] \<and> fnErr = []")
      case True
      then have fin: "r = r'" "c' = c2" using assms(1) cr Inr wb cl by (simp_all add: WriteFunc_def)
      have "pend w1 = Some (key, concat blocks, q)"
        using writeBlocks_pend [OF wb [unfolded True [THEN conjunct1]]] create_etag [OF cr [unfolded Inr] assms(2)] by simp
      from close_some [OF cl this] fin True same show ?thesis by (auto simp: forgets_def)
    next
      case False
      then have fin: "c' = c3" "r \<noteq> Ret []" using assms(1) cr Inr wb ab
        by (auto simp: WriteFunc_def Let_def errJoin_def split: if_splits outcome.splits)
      have "forgets obj c1 c3 {}" by (rule close_none [OF ab cancel_spec])
      then show ?thesis using fin same by (auto simp: forgets_def)
    qed
  qed
qed

lemma remote_open:
  assumes "opsF (if ns0 = '''' then DefaultNamespace else ns0) = ops" "nErr n = []" "\<not> nLost n" "dom (nExtra n) \<inter> wireKeys = {}"
    and "ns0 = '''' \<or> namespaceRe ns0" "length key = 32" "dom hs \<inter> condKeys = {}" "plain n (obj c key)"
    and "ClientOpen (apiClient n codec sha256 opsF hs ns0) c key opts = ((b, h, e), c')"
  shows "obj c' = obj c \<and> (e = [ErrHTTPStatus 500] \<or>
    (\<exists>h0. openSpec (obj c key) opts = (b, h0, e) \<and> hGet h ETagKey = hGet h0 ETagKey \<and> (e = [] \<longrightarrow> hGet h ''Content-Range'' = hGet h0 ''Content-Range'')))"
proof -
  let ?cl = "apiClient n codec sha256 opsF hs ns0"
  define sopts where "sopts = ConditionalOptions (headerRoundTrip hs (applyToRequest (NewRequestOptions opts) (newRequest ''GET'' (objectURL ?cl key))))"
  obtain b1 h1 e1 c1 where op: "cOpen ops c key sopts = ((b1, h1, e1), c1)" by (metis prod.exhaust)
  have "openSpec ob sopts = openSpec ob opts" for ob
    unfolding sopts_def by (rule spec_cong(1) [OF options_roundtrip [OF assms(7)]])
  with open_spec [OF op] have "hardErr e1 \<or> (\<exists>e0. (b1, h1, e0) = openSpec (obj c key) opts \<and> errSame e1 e0)" "obj c1 = obj c" by simp_all
  moreover have "namespaceRe (if ns0 = '''' then DefaultNamespace else ns0)" using assms(5) DefaultNamespace_ok by auto
  ultimately show ?thesis
    using ClientOpen_answer [OF refl refl assms(2-4) _ assms(6) sopts_def _ _ assms(8,9), unfolded assms(1), OF _ op] by simp
qed

lemma remote_stat:
  assumes "opsF (if ns0 = '''' then DefaultNamespace else ns0) = ops" "nErr n = []" "\<not> nLost n" "dom (nExtra n) \<inter> wireKeys = {}"
    and "ns0 = '''' \<or> namespaceRe ns0" "length key = 32" "dom hs \<inter> condKeys = {}"
    and "ClientStat (apiClient n codec sha256 opsF hs ns0) c key opts = ((h, e), c')"
  shows "obj c' = obj c \<and> (e = [ErrHTTPStatus 500] \<or> (\<exists>h0. statSpec (obj c key) opts = (h0, e) \<and> hGet h ETagKey = hGet h0 ETagKey))"
proof -
  let ?cl = "apiClient n codec sha256 opsF hs ns0"
  define sopts where "sopts = ConditionalOptions (headerRoundTrip hs (applyToRequest (NewRequestOptions opts) (newRequest ''HEAD'' (objectURL ?cl key))))"
  obtain h1 e1 c1 where st: "cStat ops c key sopts = ((h1, e1), c1)" by (metis prod.exhaust)
  have "statSpec ob sopts = statSpec ob opts" for ob
    unfolding sopts_def by (rule spec_cong(2) [OF options_roundtrip [OF assms(7)]])
  with stat_spec [OF st] have "hardErr e1 \<or> (\<exists>e0. (h1, e0) = statSpec (obj c key) opts \<and> errSame e1 e0)" "obj c1 = obj c" by simp_all
  moreover have "namespaceRe (if ns0 = '''' then DefaultNamespace else ns0)" using assms(5) DefaultNamespace_ok by auto
  ultimately show ?thesis
    using ClientStat_answer [OF refl refl assms(2-4) _ assms(6) sopts_def _ _ assms(8), unfolded assms(1), OF _ st] by simp
qed

lemma remote_WriteFunc:
  assumes "opsF (if ns0 = '''' then DefaultNamespace else ns0) = ops"
    and "ns0 = '''' \<or> namespaceRe ns0" "length key = 32" "hs ''Etag'' = None" "FormatETag raw = (q, [])"
    and "WriteFunc (remoteOps codec (apiClient n codec sha256 opsF hs ns0) room) c [] key h ttl blocks fnErr [WithETag raw] = (r, c')"
  shows "forgets obj c c' {key} \<and> (obj c' key = None \<or> obj c' key = obj c key \<and> r \<noteq> Ret [] \<or>
    fnErr = [] \<and> (\<exists>h'. obj c' key = Some (concat blocks, h') \<and> hGet h' ETagKey = q))"
proof -
  let ?cl = "apiClient n codec sha256 opsF hs ns0"
  let ?ops = "remoteOps codec ?cl room"
  obtain wc where cr: "ClientCreate codec ?cl room c [] key h ttl [WithETag raw] = (Inr wc, c)" "rqMethod (wcRequest wc) = ''POST''"
    "rqPath (wcRequest wc) = objectURL ?cl key" "hGet (rqHeader (wcRequest wc)) ETagKey = q" "wcBlocks wc = []" "\<not> wcBroken wc" "wcCause wc = []" "wcClosed wc = None"
    using assms(5) by (simp add: ClientCreate_def Let_def newRequest_def hGet_hSet go_simps)
  obtain we wc1 where wb: "writeBlocks ?ops wc blocks = (we, wc1)" by (metis prod.exhaust)
  note wr = writeBlocks_remote [OF wb cr(8,6)]
  define e1 where "e1 = (if we \<noteq> [] then we else fnErr)"
  define wc2 where "wc2 = (if e1 \<noteq> [] then wcCancel wc1 else wc1)"
  obtain e c2 where dc: "doClose ?cl wc2 c = (e, c2)" by (metis prod.exhaust)
  have wc2: "wcRequest wc2 = wcRequest wc" "wcClosed wc2 = None" "e1 \<noteq> [] \<longleftrightarrow> wcCause wc2 \<noteq> []"
    using wr cr by (auto simp: wc2_def wcCancel_def)
  have run: "c' = c2" "r = Ret [] \<longleftrightarrow> e1 = [] \<and> e = []"
    using assms(6) cr(1) wb dc wc2(2)
    by (auto simp: WriteFunc_def remoteOps_def wcClose_def e1_def wc2_def errJoin_def Let_def split: if_splits)
  have good: "namespaceRe (if ns0 = '''' then DefaultNamespace else ns0)" using assms(2) DefaultNamespace_ok by auto
  show ?thesis
  proof (cases "c' = c \<and> e \<noteq> []")
    case True
    then show ?thesis using run by auto
  next
    case False
    then obtain h1 t r' where srv: "WriteFunc ops c [] key h1 t (filter (\<lambda>x. x \<noteq> []) (wcBlocks wc2))
        (if wcCause wc2 \<noteq> [] \<or> wcBroken wc2 then [ErrTransport] else []) [WithETag raw] = (r', c2)" "e = [] \<longrightarrow> r' = Ret []"
      using doClose_WriteFunc [OF refl refl good assms(3,4) _ _ _ assms(5) dc] wc2(1) cr(2-4) run(1) assms(1) by auto
    note fin = WriteFunc_complete [OF srv(1) assms(5)]
    show ?thesis
    proof (cases "e1 = []")
      case True
      then have "wcBlocks wc2 = blocks" "\<not> wcBroken wc2" "fnErr = []" using wr cr(5) by (auto simp: wc2_def e1_def split: if_splits)
      then show ?thesis using fin run srv(2) wc2(3) True by (auto simp: concat_nonempty)
    next
      case e1: False
      then show ?thesis using fin run wc2(3) by auto
    qed
  qed
qed

end


section \<open>Lemmas: removing\<close>

text \<open>The request reaches the handler of its method.\<close>

lemma remove_routes:
  assumes "namespaceRe ns" "length key = 32"
  shows "Split (CHR ''/'') (rqPath r) = ['''', ''api'', ''v1'', ''object'', ns, KeyString key] \<Longrightarrow> rqMethod r = ''DELETE'' \<Longrightarrow>
      cDelete (ops ns) c key = (e, c1) \<Longrightarrow>
      \<exists>w. apiServe codec sha256 ops r b c = (Ret w, c1) \<and> fst (response w) = (if e = [] then 200 else if errIs e ErrNotExist then 404 else 500)"
    and "Split (CHR ''/'') (rqPath r) = ['''', ''api'', ''v1'', ''object'', ns, KeyString key, ''invalidate''] \<Longrightarrow> rqMethod r = ''POST'' \<Longrightarrow>
      cInvalidate (ops ns) c key = (e, c1) \<Longrightarrow>
      \<exists>w. apiServe codec sha256 ops r b c = (Ret w, c1) \<and> fst (response w) = (if e = [] then 200 else 500)"
proof -
  have code: "fst (response (httpError m k (newWriter None))) = k" "fst (response (newWriter None)) = 200" for m k
    using httpError_response [of m k] by (auto simp: response_def newWriter_def)
  show "Split (CHR ''/'') (rqPath r) = ['''', ''api'', ''v1'', ''object'', ns, KeyString key] \<Longrightarrow> rqMethod r = ''DELETE'' \<Longrightarrow>
      cDelete (ops ns) c key = (e, c1) \<Longrightarrow>
      \<exists>w. apiServe codec sha256 ops r b c = (Ret w, c1) \<and> fst (response w) = (if e = [] then 200 else if errIs e ErrNotExist then 404 else 500)"
    using assms by (simp add: apiServe_def Let_def deleteObject_def objectTarget_ok code)
  show "Split (CHR ''/'') (rqPath r) = ['''', ''api'', ''v1'', ''object'', ns, KeyString key, ''invalidate''] \<Longrightarrow> rqMethod r = ''POST'' \<Longrightarrow>
      cInvalidate (ops ns) c key = (e, c1) \<Longrightarrow>
      \<exists>w. apiServe codec sha256 ops r b c = (Ret w, c1) \<and> fst (response w) = (if e = [] then 200 else 500)"
    using assms by (simp add: apiServe_def Let_def invalidateObject_def objectTarget_ok code)
qed

lemma deliver_status [simp]: "rsStatus (deliver n r w) = fst (response w)"
  by (simp add: deliver_def Let_def split: prod.splits)

context cache_reader
begin

lemma remote_delete:
  assumes "opsF (if ns0 = '''' then DefaultNamespace else ns0) = ops" "ns0 = '''' \<or> namespaceRe ns0" "length key = 32"
    and "ClientDelete (apiClient n codec sha256 opsF hs ns0) c key = (e, c')"
  shows "forgets obj c c' {} \<and> (e \<in> {[], [ErrNotExist]} \<and> nErr n = [] \<longrightarrow> obj c' key = None) \<and> (e = [] \<longrightarrow> nErr n = [])"
proof -
  let ?cl = "apiClient n codec sha256 opsF hs ns0"
  let ?r = "headerRoundTrip hs (newRequest ''DELETE'' (objectURL ?cl key))"
  have good: "namespaceRe (if ns0 = '''' then DefaultNamespace else ns0)" using assms(2) DefaultNamespace_ok by auto
  obtain e1 c1 where d: "cDelete ops c key = (e1, c1)" by (metis prod.exhaust)
  have path: "Split (CHR ''/'') (rqPath ?r) = ['''', ''api'', ''v1'', ''object'', if ns0 = '''' then DefaultNamespace else ns0, KeyString key]"
    using Split_objectURL(1) [of ?cl key] good by simp
  from remove_routes(1) [where ops = opsF, OF good assms(3) path _ d [folded assms(1)], of codec sha256 nilBody]
  obtain w where w: "apiServe codec sha256 opsF ?r nilBody c = (Ret w, c1)"
    "fst (response w) = (if e1 = [] then 200 else if errIs e1 ErrNotExist then 404 else 500)" by auto
  have "hardErr e1 \<Longrightarrow> fst (response w) = 500" using w(2) by (auto simp: hardErr_def errIs_def)
  then show ?thesis
    using assms(4) w delete_spec [OF d]
    by (auto simp: ClientDelete_def clientSend_def roundTrip_def HTTPStatusError_def split: if_splits)
qed

lemma remote_invalidate:
  assumes "opsF (if ns0 = '''' then DefaultNamespace else ns0) = ops" "ns0 = '''' \<or> namespaceRe ns0" "length key = 32"
    and "ClientInvalidate (apiClient n codec sha256 opsF hs ns0) c key = (e, c')"
  shows "forgets obj c c' {} \<and> (e = [] \<longrightarrow> obj c' key = None)"
proof -
  let ?cl = "apiClient n codec sha256 opsF hs ns0"
  let ?r = "headerRoundTrip hs (newRequest ''POST'' (invalidateURL ?cl key))"
  have good: "namespaceRe (if ns0 = '''' then DefaultNamespace else ns0)" using assms(2) DefaultNamespace_ok by auto
  obtain e1 c1 where d: "cInvalidate ops c key = (e1, c1)" by (metis prod.exhaust)
  have path: "Split (CHR ''/'') (rqPath ?r) = ['''', ''api'', ''v1'', ''object'', if ns0 = '''' then DefaultNamespace else ns0, KeyString key, ''invalidate'']"
    using Split_objectURL(2) [of ?cl key] good by simp
  from remove_routes(2) [where ops = opsF, OF good assms(3) path _ d [folded assms(1)], of codec sha256 nilBody]
  obtain w where w: "apiServe codec sha256 opsF ?r nilBody c = (Ret w, c1)" "fst (response w) = (if e1 = [] then 200 else 500)" by auto
  then show ?thesis
    using assms(4) invalidate_spec [OF d]
    by (auto simp: ClientInvalidate_def clientSend_def roundTrip_def HTTPStatusError_def split: if_splits)
qed

end

section \<open>Properties\<close>

context disk_cache
begin

lemmas backend = cache_backend_axioms

end

lemma disk_backend: "0 \<le> dcMaxTTL config \<Longrightarrow> cache_backend (diskOps httpTime config ns dev) (diskObj ns) (diskPend ns)"
  by (intro disk_cache.backend disk_cache.intro)



text \<open>
  Removing through a remote cache removes.  When \<^verbatim>\<open>Delete\<close> or \<^verbatim>\<open>Invalidate\<close> of the \<^verbatim>\<open>Remote\<close> backend
  returns no error the server's object is gone, whatever happened on the way; no other object
  changes, and a lost response or a failing disk never brings an object back.
\<close>

lemma remote_remove:
  assumes "0 \<le> dcMaxTTL config" "opsF = (\<lambda>ns. diskOps httpTime config ns dev)"
    and "ns = (if ns0 = '''' then DefaultNamespace else ns0)" "ns0 = '''' \<or> namespaceRe ns0" "length key = 32"
    and "cDelete (remoteOps codec (apiClient n codec sha256 opsF hs ns0) room) c key = (e, c1)"
    and "cInvalidate (remoteOps codec (apiClient n codec sha256 opsF hs ns0) room) c key = (ei, c2)"
  shows "forgets (diskObj ns) c c1 {} \<and> forgets (diskObj ns) c c2 {} \<and>
    (e = [] \<longrightarrow> diskObj ns c1 key = None) \<and> (ei = [] \<longrightarrow> diskObj ns c2 key = None)"
proof -
  note cb = disk_backend [OF assms(1), of httpTime ns dev]
  have ops: "opsF (if ns0 = '''' then DefaultNamespace else ns0) = diskOps httpTime config ns dev" using assms(2,3) by simp
  show ?thesis
    using cache_reader.remote_delete [where opsF = opsF, OF cache_backend.axioms(1) [OF cb] ops assms(4,5)] cache_reader.remote_invalidate [where opsF = opsF, OF cache_backend.axioms(1) [OF cb] ops assms(4,5)] assms(6,7)
    by (simp add: remoteOps_def)
qed


section \<open>Concrete exchanges\<close>

text \<open>A network that only adds a date, and a server with one object of three bytes.\<close>

definition quietNet :: net where
  "quietNet = \<lparr>nErr = [], nLost = False, nExtra = [''Date'' \<mapsto> [''now'']], nGzip = True, nGunzip = (\<lambda>x. x)\<rparr>"

definition toyCodec :: apiCodec where
  "toyCodec = \<lparr>parseDuration = (\<lambda>s. Some 1), formatDuration = (\<lambda>d. ''1ns''), encodeStats = (\<lambda>s. []), decodeStats = (\<lambda>b. None),
     encodeNames = (\<lambda>ns. []), decodeNames = (\<lambda>b. None)\<rparr>"

definition diskRemote :: "(diskState, writeCloser) cacheOps" where
  "diskRemote = remoteOps toyCodec (apiClient quietNet toyCodec (\<lambda>s. oneKey) (\<lambda>ns. diskOps (\<lambda>t. ''now'') defaultDisk ns (None, 7)) Map.empty ''ns'') None"

lemma oneDisk_obj: "diskObj ''ns'' (oneDisk 3) oneKey = Some ([0, 0, 0], Map.empty)"
  by (simp add: diskObj_def oneDisk_def numeral_3_eq_3)

lemma ns_ok: "'''' = ''ns'' \<or> namespaceRe ''ns''" "length oneKey = 32" "0 \<le> dcMaxTTL defaultDisk"
  by (simp_all add: namespaceRe_def nsHead_def less_eq_char_def oneKey_def defaultDisk_def)



lemma remote_remove_witness:
  "\<exists>e c1. cDelete diskRemote (oneDisk 3) oneKey = (e, c1) \<and> (e = [] \<longrightarrow> diskObj ''ns'' c1 oneKey = None)"
proof -
  obtain e c1 where d: "cDelete diskRemote (oneDisk 3) oneKey = (e, c1)" by (metis prod.exhaust)
  obtain ei c2 where i: "cInvalidate diskRemote (oneDisk 3) oneKey = (ei, c2)" by (metis prod.exhaust)
  show ?thesis
    using remote_remove [OF ns_ok(3) refl _ _ ns_ok(2) d [unfolded diskRemote_def] i [unfolded diskRemote_def], of "''ns''"] ns_ok(1) d by auto
qed

end
