(* ===== verification/GitSpool.thy ===== *)
theory GitSpool
  imports Handler "HOL-Library.Sublist"
begin

text \<open>
  Response spools of the git strategy, \<^verbatim>\<open>internal/strategy/git/spool.go\<close>, and their use in
  \<^verbatim>\<open>internal/strategy/git/git.go\<close>.  While a repository is being cloned the first request for a pack is forwarded to the
  upstream and its response is spooled to a file; requests for the same pack follow that file.

  The fields behind the mutex and the file are the record \<open>ResponseSpool\<close>; the device may take only
  \<open>spRoom\<close> more bytes and closing the file may fail.  The writer is \<^verbatim>\<open>httputil.ReverseProxy\<close> writing through a
  \<^verbatim>\<open>SpoolTeeWriter\<close>: a list of calls that ends with its return, or with the panic it raises when the response
  cannot be copied to the end, which skips the rest of \<^verbatim>\<open>serveWithSpool\<close>.  \<open>spool_step\<close> interleaves the critical sections
  of the writer and of any number of readers; a thread that would wait on the condition variable has no step.
\<close>

section \<open>Model: the spool\<close>

record ResponseSpool =
  spFile :: bytes
  spOpen :: bool
  spRoom :: "nat option"
  spCloseErr :: goerr
  spStatus :: int
  spHeaders :: header
  spWritten :: nat
  spComplete :: bool
  spErr :: goerr
  spReaders :: nat

definition NewResponseSpool :: "nat option \<Rightarrow> goerr \<Rightarrow> ResponseSpool" where
  "NewResponseSpool room closeErr =
     \<lparr>spFile = [], spOpen = True, spRoom = room, spCloseErr = closeErr, spStatus = 0, spHeaders = Map.empty,
      spWritten = 0, spComplete = False, spErr = [], spReaders = 0\<rparr>"

definition CaptureHeader :: "int \<Rightarrow> header \<Rightarrow> ResponseSpool \<Rightarrow> ResponseSpool" where
  "CaptureHeader status h rs = rs\<lparr>spStatus := status, spHeaders := h\<rparr>"

definition fileWrite :: "bytes \<Rightarrow> ResponseSpool \<Rightarrow> (nat \<times> goerr) \<times> ResponseSpool" where
  "fileWrite p rs =
     (if \<not> spOpen rs then ((0, [ErrOther ''file already closed'']), rs)
      else let n = (case spRoom rs of None \<Rightarrow> length p | Some r \<Rightarrow> min r (length p))
           in ((n, if n < length p then [ErrOther ''no space left on device''] else []),
               rs\<lparr>spFile := spFile rs @ take n p, spRoom := map_option (\<lambda>r. r - n) (spRoom rs)\<rparr>))"

definition spoolWrite :: "bytes \<Rightarrow> ResponseSpool \<Rightarrow> goerr \<times> ResponseSpool" where
  "spoolWrite p rs =
     (if spErr rs \<noteq> [] then (spErr rs, rs)
      else case fileWrite p rs of ((n, e), rs1) \<Rightarrow>
        (e, rs1\<lparr>spWritten := spWritten rs1 + n, spErr := e\<rparr>))"

definition fileClose :: "ResponseSpool \<Rightarrow> goerr \<times> ResponseSpool" where
  "fileClose rs = (if spOpen rs then spCloseErr rs else [ErrOther ''file already closed''], rs\<lparr>spOpen := False\<rparr>)"

definition MarkComplete :: "ResponseSpool \<Rightarrow> ResponseSpool" where
  "MarkComplete rs =
     (if spComplete rs then rs
      else case fileClose rs of (ce, rs1) \<Rightarrow> rs1\<lparr>spComplete := True, spErr := errJoin [spErr rs, ce]\<rparr>)"

definition MarkError :: "goerr \<Rightarrow> ResponseSpool \<Rightarrow> ResponseSpool" where
  "MarkError e rs =
     (if spComplete rs then rs
      else case fileClose rs of (ce, rs1) \<Rightarrow> rs1\<lparr>spErr := errJoin [e, ce], spComplete := True\<rparr>)"

definition spoolFailed :: "ResponseSpool \<Rightarrow> bool" where
  "spoolFailed rs \<longleftrightarrow> spErr rs \<noteq> []"

section \<open>Model: the writer\<close>

record SpoolTeeWriter =
  twInner :: ResponseWriter
  twWroteHeader :: bool

definition teeWriteHeader :: "int \<Rightarrow> SpoolTeeWriter \<Rightarrow> ResponseSpool \<Rightarrow> SpoolTeeWriter \<times> ResponseSpool" where
  "teeWriteHeader code tw rs =
     (if twWroteHeader tw then (tw, rs)
      else (tw\<lparr>twWroteHeader := True, twInner := rwWriteHeader code (twInner tw)\<rparr>,
            if code \<ge> 200 \<and> code < 300 then CaptureHeader code (rwHeader (twInner tw)) rs
            else MarkError [ErrOther ''upstream returned status''] rs))"

text \<open>
  \<^verbatim>\<open>Write\<close>: the result for the caller, and the error that it passes to \<^verbatim>\<open>MarkError\<close> in a critical section of
  its own.
\<close>

definition spoolTeeWrite :: "bytes \<Rightarrow> SpoolTeeWriter \<Rightarrow> ResponseSpool \<Rightarrow> ((nat \<times> goerr) \<times> goerr) \<times> SpoolTeeWriter \<times> ResponseSpool" where
  "spoolTeeWrite p tw rs =
     (case (if twWroteHeader tw then (tw, rs) else teeWriteHeader 200 tw rs) of (tw1, rs1) \<Rightarrow>
        (case spoolWrite p rs1 of (se, rs2) \<Rightarrow>
           (case rwWrite (twInner tw1) p of ((n, e), inner) \<Rightarrow>
              (((n, e), if se \<noteq> [] then [] else e), tw1\<lparr>twInner := inner\<rparr>, rs2))))"

datatype proxyCall = PHeader int header | PWrite bytes | PEnd | PPanic

record spoolWriter =
  swTee :: SpoolTeeWriter
  swCalls :: "proxyCall list"
  swMark :: goerr

text \<open>
  The writer's next step: a call of the proxy, the \<^verbatim>\<open>MarkError\<close> of a failed write, or \<^verbatim>\<open>MarkComplete\<close> after
  the proxy returned.  A failed write makes the proxy panic.
\<close>

definition writerNext :: "ResponseSpool \<Rightarrow> spoolWriter \<Rightarrow> (ResponseSpool \<times> spoolWriter) option" where
  "writerNext rs w =
     (if swMark w \<noteq> [] then Some (MarkError (swMark w) rs, w\<lparr>swMark := []\<rparr>)
      else case swCalls w of
        [] \<Rightarrow> None
      | PHeader code h # cs \<Rightarrow>
          (case teeWriteHeader code ((swTee w)\<lparr>twInner := rwCopy h (twInner (swTee w))\<rparr>) rs of (tw, rs1) \<Rightarrow>
             Some (rs1, w\<lparr>swTee := tw, swCalls := cs\<rparr>))
      | PWrite p # cs \<Rightarrow>
          (case spoolTeeWrite p (swTee w) rs of (((n, e), mark), tw, rs1) \<Rightarrow>
             Some (rs1, w\<lparr>swTee := tw, swCalls := (if e \<noteq> [] then [PPanic] else cs), swMark := mark\<rparr>))
      | PEnd # cs \<Rightarrow> Some (MarkComplete rs, w\<lparr>swCalls := []\<rparr>)
      | PPanic # cs \<Rightarrow> Some (rs, w\<lparr>swCalls := []\<rparr>))"

section \<open>Model: the readers\<close>

datatype servePc = SStart | SHeader | SOpen | SLoop | SCopy | SDone goerr

text \<open>
  \<open>srWritten\<close>, \<open>srComplete\<close> and \<open>srErr\<close> are the locals of the loop; \<open>srFault\<close> is how many more file operations
  of this reader succeed.
\<close>

record spoolReader =
  srPc :: servePc
  srW :: ResponseWriter
  srOffset :: nat
  srWritten :: nat
  srComplete :: bool
  srErr :: goerr
  srFault :: "nat option"

definition newSpoolReader :: "nat option \<Rightarrow> nat option \<Rightarrow> spoolReader" where
  "newSpoolReader cap fault = \<lparr>srPc = SStart, srW = newWriter cap, srOffset = 0, srWritten = 0, srComplete = False, srErr = [], srFault = fault\<rparr>"

definition spoolBufSize :: nat where
  "spoolBufSize = 32 * 1024"

definition readerReturn :: "goerr \<Rightarrow> ResponseSpool \<Rightarrow> spoolReader \<Rightarrow> (ResponseSpool \<times> spoolReader) option" where
  "readerReturn e rs r = Some (rs\<lparr>spReaders := spReaders rs - 1\<rparr>, r\<lparr>srPc := SDone e\<rparr>)"

definition useFile :: "spoolReader \<Rightarrow> spoolReader" where
  "useFile r = r\<lparr>srFault := map_option (\<lambda>k. k - 1) (srFault r)\<rparr>"

text \<open>One round of the inner loop: read a buffer and write it to the client.\<close>

definition copyNext :: "ResponseSpool \<Rightarrow> spoolReader \<Rightarrow> (ResponseSpool \<times> spoolReader) option" where
  "copyNext rs r =
     (if srOffset r < srWritten r then
        (if srFault r = Some 0 then readerReturn [ErrOther ''read spool''] rs r
         else let p = take (min (srWritten r - srOffset r) spoolBufSize) (drop (srOffset r) (spFile rs))
              in if p = [] then Some (rs, useFile r)
                 else case rwWrite (srW r) p of ((n, e), w) \<Rightarrow>
                   if e \<noteq> [] then readerReturn e rs (useFile (r\<lparr>srW := w\<rparr>))
                   else Some (rs, useFile (r\<lparr>srW := w, srOffset := srOffset r + length p\<rparr>)))
      else if srComplete r then readerReturn (srErr r) rs r
      else Some (rs, r\<lparr>srPc := SLoop\<rparr>))"

definition ErrSpoolFailed :: goerr where
  "ErrSpoolFailed = [ErrOther ''spool failed before response started'']"

fun serveNext :: "ResponseSpool \<Rightarrow> servePc \<Rightarrow> spoolReader \<Rightarrow> (ResponseSpool \<times> spoolReader) option" where
  "serveNext rs SStart r = Some (rs\<lparr>spReaders := spReaders rs + 1\<rparr>, r\<lparr>srPc := SHeader\<rparr>)"
| "serveNext rs SHeader r =
     (if spStatus rs = 0 \<and> spErr rs = [] then None
      else if spErr rs \<noteq> [] \<and> spStatus rs = 0 then readerReturn ErrSpoolFailed rs r
      else Some (rs, r\<lparr>srPc := SOpen, srW := rwWriteHeader (spStatus rs) (rwCopy (spHeaders rs) (srW r))\<rparr>))"
| "serveNext rs SOpen r =
     (if srFault r = Some 0 then readerReturn [ErrOther ''open spool file for reading''] rs r
      else Some (rs, useFile (r\<lparr>srPc := SLoop\<rparr>)))"
| "serveNext rs SLoop r =
     (if srOffset r \<ge> spWritten rs \<and> \<not> spComplete rs \<and> spErr rs = [] then None
      else Some (rs, r\<lparr>srPc := SCopy, srWritten := spWritten rs, srComplete := spComplete rs, srErr := spErr rs\<rparr>))"
| "serveNext rs SCopy r = copyNext rs r"
| "serveNext rs (SDone e) r = None"

section \<open>Model: the interleaving\<close>

record spoolSys =
  ysSpool :: ResponseSpool
  ysWriter :: spoolWriter
  ysReaders :: "spoolReader list"

inductive spool_step :: "spoolSys \<Rightarrow> spoolSys \<Rightarrow> bool" where
  writer: "writerNext (ysSpool s) (ysWriter s) = Some (rs, w) \<Longrightarrow> spool_step s (s\<lparr>ysSpool := rs, ysWriter := w\<rparr>)"
| reader: "i < length (ysReaders s) \<Longrightarrow> serveNext (ysSpool s) (srPc (ysReaders s ! i)) (ysReaders s ! i) = Some (rs, r) \<Longrightarrow>
    spool_step s (s\<lparr>ysSpool := rs, ysReaders := (ysReaders s)[i := r]\<rparr>)"

text \<open>The proxy forwards a response of the upstream; \<open>fin\<close> is whether its body arrives completely.\<close>

definition spoolInit :: "nat option \<Rightarrow> goerr \<Rightarrow> nat option \<Rightarrow> int \<Rightarrow> header \<Rightarrow> bytes list \<Rightarrow> proxyCall \<Rightarrow> (nat option \<times> nat option) list \<Rightarrow> spoolSys" where
  "spoolInit room closeErr cap st h blocks fin clients =
     \<lparr>ysSpool = NewResponseSpool room closeErr,
      ysWriter = \<lparr>swTee = \<lparr>twInner = newWriter cap, twWroteHeader = False\<rparr>, swCalls = PHeader st h # map PWrite blocks @ [fin], swMark = []\<rparr>,
      ysReaders = map (\<lambda>(c, f). newSpoolReader c f) clients\<rparr>"


section \<open>Model: the spools of a repository\<close>

record RepoSpools =
  rpDir :: string
  rpSpools :: "string \<rightharpoonup> ResponseSpool"
  rpClosed :: bool

definition NewRepoSpools :: "string \<Rightarrow> RepoSpools" where
  "NewRepoSpools dir = \<lparr>rpDir = dir, rpSpools = Map.empty, rpClosed = False\<rparr>"

text \<open>\<open>created\<close> is the result of creating the file.\<close>

definition spoolGetOrCreate :: "(goerr + ResponseSpool) \<Rightarrow> string \<Rightarrow> RepoSpools \<Rightarrow> (goerr + ResponseSpool \<times> bool) \<times> RepoSpools" where
  "spoolGetOrCreate created key rp =
     (if rpClosed rp then (Inl [ErrOther ''repo spools closed''], rp)
      else case rpSpools rp key of
        Some s \<Rightarrow> (Inr (s, False), rp)
      | None \<Rightarrow>
          (case created of
             Inl e \<Rightarrow> (Inl e, rp)
           | Inr s \<Rightarrow> (Inr (s, True), rp\<lparr>rpSpools := (rpSpools rp)(key \<mapsto> s)\<rparr>)))"

text \<open>\<^verbatim>\<open>Close\<close> waits until no spool has a reader; \<open>removeErr\<close> is the result of removing the directory.\<close>

definition spoolsClose :: "goerr \<Rightarrow> RepoSpools \<Rightarrow> goerr outcome \<times> RepoSpools" where
  "spoolsClose removeErr rp =
     (let rp1 = rp\<lparr>rpClosed := True\<rparr>
      in if \<forall>s \<in> ran (rpSpools rp1). spReaders s = 0 then (Ret removeErr, rp1) else (Blocked, rp1))"

definition SpoolKeyForRequest :: "(bytes \<Rightarrow> bytes) \<Rightarrow> string \<Rightarrow> string \<Rightarrow> body option \<Rightarrow> string \<times> goerr" where
  "SpoolKeyForRequest sha256 pathValue meth b =
     (if \<not> HasSuffix pathValue ''/git-upload-pack'' then ('''', [])
      else case b of
        None \<Rightarrow> (''upload-pack'', [])
      | Some rb \<Rightarrow>
          if meth \<noteq> ''POST'' then (''upload-pack'', [])
          else if bErr rb \<noteq> [] then ('''', bErr rb)
          else (''upload-pack-'' @ KeyString (take 8 (sha256 (concat (bBlocks rb)))), []))"

text \<open>The strategy keeps the spools of each upstream; \<open>spoolDir\<close> computes the directory.\<close>

definition getOrCreateRepoSpools :: "(string \<Rightarrow> goerr + string) \<Rightarrow> string \<Rightarrow> (string \<rightharpoonup> RepoSpools) \<Rightarrow> (goerr + RepoSpools) \<times> (string \<rightharpoonup> RepoSpools)" where
  "getOrCreateRepoSpools spoolDir url m =
     (case m url of
        Some rp \<Rightarrow> (Inr rp, m)
      | None \<Rightarrow> (case spoolDir url of Inl e \<Rightarrow> (Inl e, m) | Inr dir \<Rightarrow> (Inr (NewRepoSpools dir), m(url \<mapsto> NewRepoSpools dir))))"

definition cleanupSpools :: "goerr \<Rightarrow> string \<Rightarrow> (string \<rightharpoonup> RepoSpools) \<Rightarrow> goerr outcome \<times> (string \<rightharpoonup> RepoSpools)" where
  "cleanupSpools removeErr url m =
     (case m url of None \<Rightarrow> (Ret [], m) | Some rp \<Rightarrow> (fst (spoolsClose removeErr rp), m(url := None)))"

text \<open>What \<^verbatim>\<open>serveWithSpool\<close> does with a request: forward it, spool it, follow a spool, or report an error.\<close>

datatype spoolRoute = ForwardUpstream | WriteSpool string | FollowSpool string | SpoolError goerr

definition serveWithSpool :: "(bytes \<Rightarrow> bytes) \<Rightarrow> (string \<Rightarrow> goerr + string) \<Rightarrow> (goerr + ResponseSpool) \<Rightarrow> string \<Rightarrow> string \<Rightarrow> body option \<Rightarrow> string
    \<Rightarrow> (string \<rightharpoonup> RepoSpools) \<Rightarrow> spoolRoute \<times> (string \<rightharpoonup> RepoSpools)" where
  "serveWithSpool sha256 spoolDir created pathValue meth b url m =
     (case SpoolKeyForRequest sha256 pathValue meth b of (key, e) \<Rightarrow>
        if e \<noteq> [] then (SpoolError e, m)
        else if key = '''' then (ForwardUpstream, m)
        else case getOrCreateRepoSpools spoolDir url m of (res, m1) \<Rightarrow>
          (case res of
             Inl e \<Rightarrow> (SpoolError e, m1)
           | Inr rp \<Rightarrow>
               (case spoolGetOrCreate created key rp of (res2, rp1) \<Rightarrow>
                  (case res2 of
                     Inl e \<Rightarrow> (SpoolError e, m1)
                   | Inr (spool, isWriter) \<Rightarrow>
                       (if isWriter then WriteSpool key
                        else if spoolFailed spool then ForwardUpstream
                        else FollowSpool key, m1(url \<mapsto> rp1))))))"

section \<open>Lemmas\<close>

inductive_cases spool_step_cases: "spool_step s s'"

definition spoolRun :: "int \<Rightarrow> header \<Rightarrow> bytes list \<Rightarrow> proxyCall \<Rightarrow> proxyCall list" where
  "spoolRun st h blocks fin = PHeader st h # map PWrite blocks @ [fin]"

text \<open>The writer's half of the invariant: the file is a prefix of the body, and all that was written as long as nothing failed.\<close>

definition writer_inv :: "int \<Rightarrow> header \<Rightarrow> bytes list \<Rightarrow> proxyCall \<Rightarrow> ResponseSpool \<Rightarrow> spoolWriter \<Rightarrow> bool" where
  "writer_inv st h blocks fin rs w \<longleftrightarrow>
     spWritten rs = length (spFile rs) \<and> prefix (spFile rs) (concat blocks) \<and>
     (spStatus rs = 0 \<or> spStatus rs = st \<and> 200 \<le> st \<and> st < 300 \<and> spHeaders rs = h) \<and>
     (swCalls w = spoolRun st h blocks fin \<and> \<not> twWroteHeader (swTee w) \<and> rwHeader (twInner (swTee w)) = Map.empty \<and> swMark w = [] \<and>
        spFile rs = [] \<and> \<not> spComplete rs \<and> spErr rs = [] \<and> spStatus rs = 0 \<or>
      twWroteHeader (swTee w) \<and> (swMark w \<noteq> [] \<longrightarrow> swCalls w = [PPanic]) \<and>
        (\<exists>bs1 bs2. blocks = bs1 @ bs2 \<and> swCalls w = map PWrite bs2 @ [fin] \<and> swMark w = [] \<and>
            (spErr rs = [] \<longrightarrow> spFile rs = concat bs1 \<and> \<not> spComplete rs \<and> spStatus rs = st) \<or>
          swCalls w \<in> {[], [PPanic]} \<and> (spErr rs = [] \<and> spComplete rs \<longrightarrow> fin = PEnd \<and> spFile rs = concat blocks)))"

lemma spoolWrite_spec:
  assumes "spoolWrite p rs = (e, rs')" "spWritten rs = length (spFile rs)"
  shows "spErr rs' = e \<and> spWritten rs' = length (spFile rs') \<and> spStatus rs' = spStatus rs \<and> spHeaders rs' = spHeaders rs \<and> spComplete rs' = spComplete rs \<and>
    spReaders rs' = spReaders rs \<and>
    (if spErr rs \<noteq> [] then rs' = rs \<and> e = spErr rs else prefix (spFile rs') (spFile rs @ p) \<and> prefix (spFile rs) (spFile rs') \<and> (e = [] \<longrightarrow> spFile rs' = spFile rs @ p))"
  using assms by (auto simp: spoolWrite_def fileWrite_def Let_def take_is_prefix split: if_splits option.splits prod.splits)

lemma mark_spec:
  "MarkComplete rs = (if spComplete rs then rs else rs\<lparr>spOpen := False, spComplete := True, spErr := spErr rs @ (if spOpen rs then spCloseErr rs else [ErrOther ''file already closed''])\<rparr>)"
  "MarkError e rs = (if spComplete rs then rs else rs\<lparr>spOpen := False, spComplete := True, spErr := e @ (if spOpen rs then spCloseErr rs else [ErrOther ''file already closed''])\<rparr>)"
  by (simp_all add: MarkComplete_def MarkError_def fileClose_def errJoin_def)


lemma spoolTeeWrite_spec:
  assumes "spoolTeeWrite p tw rs = (((n, e), mark), tw', rs')" "twWroteHeader tw"
  obtains se where "spoolWrite p rs = (se, rs')" "mark = (if se \<noteq> [] then [] else e)" "twWroteHeader tw'"
  using assms by (auto simp: spoolTeeWrite_def split: prod.splits)

lemma writer_inv_step:
  assumes "writer_inv st h blocks fin rs w" "writerNext rs w = Some (rs', w')" "fin \<in> {PEnd, PPanic}"
  shows "writer_inv st h blocks fin rs' w' \<and> prefix (spFile rs) (spFile rs') \<and> spReaders rs' = spReaders rs"
proof (cases "swMark w = []")
  case False
  then have "rs' = MarkError (swMark w) rs" "w' = w\<lparr>swMark := []\<rparr>" using assms(2) by (simp_all add: writerNext_def)
  then show ?thesis using assms(1) False by (auto simp: writer_inv_def mark_spec spoolRun_def)
next
  case mark: True
  consider (start) "swCalls w = spoolRun st h blocks fin" "\<not> twWroteHeader (swTee w)" "rwHeader (twInner (swTee w)) = Map.empty"
      "spFile rs = []" "\<not> spComplete rs" "spErr rs = []" "spStatus rs = 0"
    | (body) bs1 bs2 where "twWroteHeader (swTee w)" "blocks = bs1 @ bs2" "swCalls w = map PWrite bs2 @ [fin]"
      "spErr rs = [] \<longrightarrow> spFile rs = concat bs1 \<and> \<not> spComplete rs \<and> spStatus rs = st"
    | (over) "twWroteHeader (swTee w)" "swCalls w \<in> {[], [PPanic]}" "spErr rs = [] \<and> spComplete rs \<longrightarrow> fin = PEnd \<and> spFile rs = concat blocks"
    using assms(1) unfolding writer_inv_def by blast
  then show ?thesis
  proof cases
    case start
    let ?tw = "\<lparr>twInner = rwWriteHeader st (rwCopy h (twInner (swTee w))), twWroteHeader = True\<rparr>"
    have step: "rs' = (if st \<ge> 200 \<and> st < 300 then CaptureHeader st h rs else MarkError [ErrOther ''upstream returned status''] rs)"
      "w' = w\<lparr>swTee := ?tw, swCalls := map PWrite blocks @ [fin]\<rparr>"
      using assms(2) mark start(1-3) by (auto simp: writerNext_def spoolRun_def teeWriteHeader_def rwCopy_def)
    have len: "spWritten rs = 0" using assms(1) start(4) by (simp add: writer_inv_def)
    show ?thesis
    proof (cases "st \<ge> 200 \<and> st < 300")
      case True
      then show ?thesis using step start(4-7) len mark by (simp add: writer_inv_def CaptureHeader_def exI [of _ "[]"])
    next
      case False
      then have "rs' = MarkError [ErrOther ''upstream returned status''] rs" using step(1) by auto
      then show ?thesis using step(2) start(4-7) len mark by (simp add: writer_inv_def mark_spec exI [of _ "[]"])
    qed
  next
    case (body bs1 bs2)
    show ?thesis
    proof (cases bs2)
      case Nil
      have head: "spWritten rs = length (spFile rs)" "prefix (spFile rs) (concat blocks)"
        "spStatus rs = 0 \<or> spStatus rs = st \<and> 200 \<le> st \<and> st < 300 \<and> spHeaders rs = h" using assms(1) by (simp_all add: writer_inv_def)
      have calls: "swCalls w = [fin]" and all: "bs1 = blocks" using body(2,3) Nil by simp_all
      consider "fin = PEnd" "rs' = MarkComplete rs" "w' = w\<lparr>swCalls := []\<rparr>" | "fin = PPanic" "rs' = rs" "w' = w\<lparr>swCalls := []\<rparr>"
        using assms(2,3) mark calls by (auto simp: writerNext_def)
      then show ?thesis
      proof cases
        case 1
        then show ?thesis using head body(1,4) all mark by (simp add: writer_inv_def mark_spec)
      next
        case 2
        then show ?thesis using head body(1,4) all mark by (simp add: writer_inv_def)
      qed
    next
      case (Cons p bs)
      obtain n e mk tw where tee: "spoolTeeWrite p (swTee w) rs = (((n, e), mk), tw, rs')"
        "w' = w\<lparr>swTee := tw, swCalls := (if e \<noteq> [] then [PPanic] else map PWrite bs @ [fin]), swMark := mk\<rparr>"
        using assms(2) mark body(3) Cons by (auto simp: writerNext_def split: prod.splits)
      from spoolTeeWrite_spec [OF tee(1) body(1)] obtain se where
        se: "spoolWrite p rs = (se, rs')" "mk = (if se \<noteq> [] then [] else e)" "twWroteHeader tw" by metis
      have len: "spWritten rs = length (spFile rs)" using assms(1) by (simp add: writer_inv_def)
      note sw = spoolWrite_spec [OF se(1) len]
      have pre: "prefix (spFile rs') (concat blocks)"
      proof (cases "spErr rs = []")
        case True
        then have "prefix (spFile rs') (concat bs1 @ p)" using sw body(4) by auto
        then have "prefix (spFile rs') ((concat bs1 @ p) @ concat bs)" by (rule prefix_prefix)
        then show ?thesis using body(2) Cons by simp
      next
        case False
        then show ?thesis using sw assms(1) by (auto simp: writer_inv_def)
      qed
      have fin': "(\<exists>bs1 bs2. blocks = bs1 @ bs2 \<and> swCalls w' = map PWrite bs2 @ [fin] \<and> swMark w' = [] \<and>
            (spErr rs' = [] \<longrightarrow> spFile rs' = concat bs1 \<and> \<not> spComplete rs' \<and> spStatus rs' = st)) \<or>
          swCalls w' \<in> {[], [PPanic]} \<and> (spErr rs' = [] \<and> spComplete rs' \<longrightarrow> fin = PEnd \<and> spFile rs' = concat blocks)"
      proof (cases "e = []")
        case True
        then show ?thesis using tee(2) se(2) sw body Cons
          by (intro disjI1 exI [of _ "bs1 @ [p]"] exI [of _ bs]) (auto split: if_splits)
      next
        case False
        then show ?thesis using tee(2) sw body(4) by (auto split: if_splits)
      qed
      have mk: "swMark w' \<noteq> [] \<longrightarrow> swCalls w' = [PPanic]" using tee(2) se(2) by simp
      have hd: "spWritten rs' = length (spFile rs')"
        "spStatus rs' = 0 \<or> spStatus rs' = st \<and> 200 \<le> st \<and> st < 300 \<and> spHeaders rs' = h" "spReaders rs' = spReaders rs"
        using sw assms(1) by (simp_all add: writer_inv_def)
      have ext: "prefix (spFile rs) (spFile rs')" using sw by (simp split: if_splits)
      have "twWroteHeader (swTee w')" using tee(2) se(3) by simp
      with mk fin' have "twWroteHeader (swTee w') \<and> (swMark w' \<noteq> [] \<longrightarrow> swCalls w' = [PPanic]) \<and>
          ((\<exists>bs1 bs2. blocks = bs1 @ bs2 \<and> swCalls w' = map PWrite bs2 @ [fin] \<and> swMark w' = [] \<and>
            (spErr rs' = [] \<longrightarrow> spFile rs' = concat bs1 \<and> \<not> spComplete rs' \<and> spStatus rs' = st)) \<or>
          swCalls w' \<in> {[], [PPanic]} \<and> (spErr rs' = [] \<and> spComplete rs' \<longrightarrow> fin = PEnd \<and> spFile rs' = concat blocks))" by blast
      then show ?thesis unfolding writer_inv_def using pre hd ext by blast
    qed
  next
    case over
    then have "swCalls w = [PPanic]" "rs' = rs" "w' = w\<lparr>swCalls := []\<rparr>" using assms(2) mark by (auto simp: writerNext_def)
    moreover have "spWritten rs = length (spFile rs)" "prefix (spFile rs) (concat blocks)"
      "spStatus rs = 0 \<or> spStatus rs = st \<and> 200 \<le> st \<and> st < 300 \<and> spHeaders rs = h" using assms(1) by (simp_all add: writer_inv_def)
    ultimately show ?thesis using over(1,3) mark by (simp add: writer_inv_def)
  qed
qed

text \<open>The reader's half: what reached its client is the part of the body before its offset.\<close>

fun early :: "servePc \<Rightarrow> bool" where
  "early SStart = True" | "early SHeader = True" | "early SOpen = False" | "early SLoop = False" | "early SCopy = False" | "early (SDone e) = False"

fun serving :: "servePc \<Rightarrow> bool" where
  "serving SStart = False" | "serving SHeader = False" | "serving SOpen = True" | "serving SLoop = True" | "serving SCopy = True" | "serving (SDone e) = False"

definition reader_inv :: "int \<Rightarrow> header \<Rightarrow> bytes list \<Rightarrow> proxyCall \<Rightarrow> ResponseSpool \<Rightarrow> spoolReader \<Rightarrow> bool" where
  "reader_inv st h blocks fin rs r \<longleftrightarrow>
     prefix (rwBody (srW r)) (concat blocks) \<and> srOffset r \<le> length (spFile rs) \<and>
     (if rwSent (srW r) = None then rwBody (srW r) = [] \<and> \<not> serving (srPc r) \<and> srPc r \<noteq> SDone []
      else rwSent (srW r) = Some (st, h) \<and> 200 \<le> st \<and> st < 300 \<and> \<not> early (srPc r)) \<and>
     (serving (srPc r) \<longrightarrow> rwBody (srW r) = take (srOffset r) (concat blocks)) \<and>
     (early (srPc r) \<longrightarrow> rwHeader (srW r) = Map.empty \<and> srOffset r = 0) \<and>
     (srPc r = SCopy \<longrightarrow> srWritten r \<le> length (spFile rs) \<and> (srComplete r \<and> srErr r = [] \<longrightarrow> fin = PEnd \<and> srWritten r = length (concat blocks))) \<and>
     (srPc r = SDone [] \<longrightarrow> fin = PEnd \<and> rwBody (srW r) = concat blocks)"

lemma reader_inv_mono:
  assumes "reader_inv st h blocks fin rs r" "prefix (spFile rs) (spFile rs')"
  shows "reader_inv st h blocks fin rs' r"
proof -
  have "length (spFile rs) \<le> length (spFile rs')" using assms(2) by (rule prefix_length_le)
  then show ?thesis using assms(1) unfolding reader_inv_def by (meson le_trans)
qed

lemma rwWrite_sent:
  assumes "rwWrite w p = ((n, e), w')" "rwSent w = Some x"
  shows "rwSent w' = Some x \<and> rwBody w' = rwBody w @ take n p \<and> (e = [] \<longrightarrow> n = length p)"
  using assms by (auto simp: rwWrite_def Let_def rwWriteHeader_def split: if_splits option.splits)

lemma copyNext_inv:
  assumes r: "reader_inv st h blocks fin rs r" "srPc r = SCopy" and w: "prefix (spFile rs) (concat blocks)"
    and run: "copyNext rs r = Some (rs', r')"
  shows "reader_inv st h blocks fin rs' r' \<and> spFile rs' = spFile rs"
proof -
  let ?D = "concat blocks"
  have b: "rwBody (srW r) = take (srOffset r) ?D" "rwSent (srW r) = Some (st, h)" "200 \<le> st" "st < 300"
    "srOffset r \<le> length (spFile rs)" "srWritten r \<le> length (spFile rs)" "srComplete r \<and> srErr r = [] \<longrightarrow> fin = PEnd \<and> srWritten r = length ?D"
    using r by (simp_all add: reader_inv_def split: if_splits)
  show ?thesis
  proof (cases "srOffset r < srWritten r \<and> srFault r \<noteq> Some 0")
    case True
    define k where "k = min (srWritten r - srOffset r) spoolBufSize"
    define q where "q = take k (drop (srOffset r) (spFile rs))"
    have len: "length q = k" "0 < k" "srOffset r + k \<le> srWritten r" using b(6) True by (auto simp: k_def q_def spoolBufSize_def)
    have pD: "q = take k (drop (srOffset r) ?D)" using w len(3) b(6) by (auto simp: prefix_def q_def)
    obtain n e wr where wr: "rwWrite (srW r) q = ((n, e), wr)" by (metis prod.exhaust)
    note ws = rwWrite_sent [OF wr b(2)]
    have body: "rwBody wr = take (srOffset r) ?D @ take n q" using ws b(1) by simp
    have pre: "prefix (rwBody wr) ?D"
    proof -
      have "rwBody wr = take (srOffset r + min n k) ?D" unfolding body pD by (simp add: take_add)
      then show ?thesis by (simp add: take_is_prefix)
    qed
    have full: "e = [] \<Longrightarrow> rwBody wr = take (srOffset r + k) ?D" using body ws len(1) pD by (simp add: take_add)
    have ne: "q \<noteq> []" using len by force
    show ?thesis
    proof (cases "e = []")
      case ok: True
      then have "rs' = rs" "r' = useFile (r\<lparr>srW := wr, srOffset := srOffset r + k\<rparr>)"
        using run True wr ne len(1) by (simp_all add: copyNext_def k_def [symmetric] q_def [symmetric])
      then show ?thesis using pre full [OF ok] ws b len r(2) by (simp add: reader_inv_def useFile_def)
    next
      case False
      then have "rs' = rs\<lparr>spReaders := spReaders rs - 1\<rparr>" "r' = useFile (r\<lparr>srW := wr\<rparr>)\<lparr>srPc := SDone e\<rparr>"
        using run True wr ne by (simp_all add: copyNext_def k_def [symmetric] q_def [symmetric] readerReturn_def)
      then show ?thesis using pre False ws b by (simp add: reader_inv_def useFile_def)
    qed
  next
    case False
    have pre: "prefix (rwBody (srW r)) ?D" using b(1) by (simp add: take_is_prefix)
    show ?thesis
    proof (cases "srOffset r < srWritten r")
      case True
      then have "rs' = rs\<lparr>spReaders := spReaders rs - 1\<rparr>" "r' = r\<lparr>srPc := SDone [ErrOther ''read spool'']\<rparr>"
        using run False by (simp_all add: copyNext_def readerReturn_def)
      then show ?thesis using b pre by (simp add: reader_inv_def)
    next
      case end_: False
      show ?thesis
      proof (cases "srComplete r")
        case True
        then have "rs' = rs\<lparr>spReaders := spReaders rs - 1\<rparr>" "r' = r\<lparr>srPc := SDone (srErr r)\<rparr>"
          using run end_ by (simp_all add: copyNext_def readerReturn_def)
        then show ?thesis using b pre True end_ by (auto simp: reader_inv_def)
      next
        case False
        then have "rs' = rs" "r' = r\<lparr>srPc := SLoop\<rparr>" using run end_ by (simp_all add: copyNext_def)
        then show ?thesis using b pre by (simp add: reader_inv_def)
      qed
    qed
  qed
qed


lemma serveNext_inv:
  assumes r: "reader_inv st h blocks fin rs r" and w: "writer_inv st h blocks fin rs w"
    and run: "serveNext rs (srPc r) r = Some (rs', r')"
  shows "reader_inv st h blocks fin rs' r' \<and> spFile rs' = spFile rs \<and> writer_inv st h blocks fin rs' w"
proof -
  have keep: "rs' = rs\<lparr>spReaders := spReaders rs'\<rparr>"
    using run by (cases "srPc r") (auto simp: copyNext_def readerReturn_def Let_def split: if_splits prod.splits)
  have w': "writer_inv st h blocks fin rs' w" using w by (subst keep) (simp add: writer_inv_def)
  have same: "spFile rs' = spFile rs" by (subst keep) simp
  have "reader_inv st h blocks fin rs' r'"
  proof (cases "srPc r")
    case SStart
    then show ?thesis using run r by (auto simp: reader_inv_def split: if_splits)
  next
    case SHeader
    have st: "spStatus rs = 0 \<or> spStatus rs = st \<and> 200 \<le> st \<and> st < 300 \<and> spHeaders rs = h" using w by (simp add: writer_inv_def)
    have e: "rwSent (srW r) = None" "rwBody (srW r) = []" "rwHeader (srW r) = Map.empty" "srOffset r = 0"
      using r SHeader by (simp_all add: reader_inv_def split: if_splits)
    show ?thesis
    proof (cases "spStatus rs = 0")
      case True
      then have "r' = r\<lparr>srPc := SDone ErrSpoolFailed\<rparr>" using run SHeader by (auto simp: readerReturn_def split: if_splits)
      then show ?thesis using e by (simp add: reader_inv_def ErrSpoolFailed_def)
    next
      case False
      then have "r' = r\<lparr>srPc := SOpen, srW := rwWriteHeader (spStatus rs) (rwCopy (spHeaders rs) (srW r))\<rparr>" using run SHeader by auto
      then show ?thesis using e st False by (simp add: reader_inv_def rwWriteHeader_def rwCopy_def)
    qed
  next
    case SOpen
    then show ?thesis using run r by (auto simp: reader_inv_def readerReturn_def useFile_def split: if_splits)
  next
    case SLoop
    have wi: "spWritten rs = length (spFile rs)" "spErr rs = [] \<and> spComplete rs \<longrightarrow> fin = PEnd \<and> spFile rs = concat blocks"
      using w by (auto simp: writer_inv_def)
    have "rs' = rs" "r' = r\<lparr>srPc := SCopy, srWritten := spWritten rs, srComplete := spComplete rs, srErr := spErr rs\<rparr>"
      using run SLoop by (auto split: if_splits)
    then show ?thesis using r SLoop wi by (auto simp: reader_inv_def split: if_splits)
  next
    case SCopy
    then show ?thesis using copyNext_inv [OF r SCopy] run w by (simp add: writer_inv_def)
  next
    case (SDone e)
    then show ?thesis using run by simp
  qed
  then show ?thesis using same w' by simp
qed

definition spool_inv :: "int \<Rightarrow> header \<Rightarrow> bytes list \<Rightarrow> proxyCall \<Rightarrow> spoolSys \<Rightarrow> bool" where
  "spool_inv st h blocks fin s \<longleftrightarrow> writer_inv st h blocks fin (ysSpool s) (ysWriter s) \<and>
     (\<forall>r \<in> set (ysReaders s). reader_inv st h blocks fin (ysSpool s) r)"

lemma spool_inv_init: "spool_inv st h blocks fin (spoolInit room ce cap st h blocks fin clients)"
  by (auto simp: spool_inv_def spoolInit_def writer_inv_def reader_inv_def NewResponseSpool_def newSpoolReader_def newWriter_def spoolRun_def)

lemma spool_inv_step:
  assumes "spool_step s s'" "spool_inv st h blocks fin s" "fin \<in> {PEnd, PPanic}"
  shows "spool_inv st h blocks fin s'"
  using assms(1)
proof cases
  case (writer rs w)
  then show ?thesis
    using writer_inv_step [OF _ writer(2) assms(3)] assms(2) reader_inv_mono by (fastforce simp: spool_inv_def)
next
  case (reader i rs r)
  have ri: "reader_inv st h blocks fin (ysSpool s) (ysReaders s ! i)" using reader(2) assms(2) by (simp add: spool_inv_def)
  have wi: "writer_inv st h blocks fin (ysSpool s) (ysWriter s)" using assms(2) by (simp add: spool_inv_def)
  note step = serveNext_inv [OF ri wi reader(3)]
  then have "\<forall>r \<in> set (ysReaders s). reader_inv st h blocks fin rs r" using assms(2) reader_inv_mono by (auto simp: spool_inv_def)
  then show ?thesis using step reader(1) by (auto simp: spool_inv_def dest!: subsetD [OF set_update_subset_insert])
qed

lemma spool_inv_reach:
  assumes "spool_step\<^sup>*\<^sup>* (spoolInit room ce cap st h blocks fin clients) s" "fin \<in> {PEnd, PPanic}"
  shows "spool_inv st h blocks fin s"
  using assms(1) by (induction rule: rtranclp_induct) (use spool_inv_init spool_inv_step [OF _ _ assms(2)] in blast)+


section \<open>Runs without failures\<close>

text \<open>Nothing fails on the server's side: no full disk, and the client of the writer stays.\<close>

definition sound_writer :: "int \<Rightarrow> header \<Rightarrow> bytes list \<Rightarrow> proxyCall \<Rightarrow> ResponseSpool \<Rightarrow> spoolWriter \<Rightarrow> bool" where
  "sound_writer st h blocks fin rs w \<longleftrightarrow>
     spErr rs = [] \<and> spRoom rs = None \<and> spCloseErr rs = [] \<and> (spOpen rs \<longleftrightarrow> \<not> spComplete rs) \<and> swMark w = [] \<and>
     rwCap (twInner (swTee w)) = None \<and>
     (if twWroteHeader (swTee w) then spStatus rs = st \<and>
        (swCalls w = [] \<and> (spComplete rs \<longleftrightarrow> fin = PEnd) \<or> \<not> spComplete rs \<and> (\<exists>bs. swCalls w = map PWrite bs @ [fin]))
      else swCalls w = spoolRun st h blocks fin \<and> \<not> spComplete rs)"

definition sound_reader :: "ResponseSpool \<Rightarrow> spoolReader \<Rightarrow> bool" where
  "sound_reader rs r \<longleftrightarrow> srFault r = None \<and> rwCap (srW r) = None \<and>
     (srPc r = SCopy \<longrightarrow> srErr r = [] \<and> (srComplete r \<longrightarrow> spComplete rs)) \<and> (\<forall>e. srPc r = SDone e \<longrightarrow> e = [] \<and> spComplete rs)"

lemma rwWrite_open: "rwCap w = None \<Longrightarrow> \<exists>w'. rwWrite w p = ((length p, []), w') \<and> rwCap w' = None"
  by (simp add: rwWrite_def Let_def rwWriteHeader_def)

lemma sound_writer_step:
  assumes s: "sound_writer st h blocks fin rs w" and ok: "200 \<le> st" "st < 300" "fin \<in> {PEnd, PPanic}" and run: "writerNext rs w = Some (rs', w')"
  shows "sound_writer st h blocks fin rs' w' \<and> length (swCalls w') < length (swCalls w) \<and> (spComplete rs \<longrightarrow> spComplete rs') \<and> spReaders rs' = spReaders rs"
proof -
  have f: "spErr rs = []" "spRoom rs = None" "spCloseErr rs = []" "spOpen rs \<longleftrightarrow> \<not> spComplete rs" "swMark w = []" "rwCap (twInner (swTee w)) = None"
    using s by (simp_all add: sound_writer_def)
  show ?thesis
  proof (cases "twWroteHeader (swTee w)")
    case False
    then have c: "swCalls w = spoolRun st h blocks fin" "\<not> spComplete rs" using s by (simp_all add: sound_writer_def)
    then have "rs' = CaptureHeader st (rwHeader (rwCopy h (twInner (swTee w)))) rs"
      "w' = w\<lparr>swTee := \<lparr>twInner = rwWriteHeader st (rwCopy h (twInner (swTee w))), twWroteHeader = True\<rparr>, swCalls := map PWrite blocks @ [fin]\<rparr>"
      using run f(5) ok False by (auto simp: writerNext_def spoolRun_def teeWriteHeader_def)
    then show ?thesis using f c by (auto simp: sound_writer_def CaptureHeader_def rwWriteHeader_def rwCopy_def spoolRun_def)
  next
    case True
    have "swCalls w \<noteq> []" using run f(5) by (auto simp: writerNext_def)
    with s True obtain bs where c: "swCalls w = map PWrite bs @ [fin]" "\<not> spComplete rs" "spStatus rs = st"
      by (auto simp: sound_writer_def)
    show ?thesis
    proof (cases bs)
      case Nil
      consider "fin = PEnd" "rs' = MarkComplete rs" "w' = w\<lparr>swCalls := []\<rparr>" | "fin = PPanic" "rs' = rs" "w' = w\<lparr>swCalls := []\<rparr>"
        using run ok(3) f(5) c(1) Nil by (auto simp: writerNext_def)
      then show ?thesis by cases (use f c True in \<open>simp_all add: sound_writer_def mark_spec\<close>)
    next
      case (Cons p ps)
      obtain inner where inner: "rwWrite (twInner (swTee w)) p = ((length p, []), inner)" "rwCap inner = None"
        using rwWrite_open [OF f(6)] by blast
      have "spoolWrite p rs = ([], rs\<lparr>spFile := spFile rs @ p, spWritten := spWritten rs + length p, spErr := []\<rparr>)"
        using f(1-4) c(2) by (simp add: spoolWrite_def fileWrite_def)
      then have "rs' = rs\<lparr>spFile := spFile rs @ p, spWritten := spWritten rs + length p, spErr := []\<rparr>"
        "w' = w\<lparr>swTee := (swTee w)\<lparr>twInner := inner\<rparr>, swCalls := map PWrite ps @ [fin], swMark := []\<rparr>"
        using run f(5) c(1) Cons True inner(1) by (auto simp: writerNext_def spoolTeeWrite_def)
      then show ?thesis using f c True inner(2) Cons by (auto simp: sound_writer_def)
    qed
  qed
qed

lemma sound_reader_mono: "sound_reader rs r \<Longrightarrow> (spComplete rs \<longrightarrow> spComplete rs') \<Longrightarrow> sound_reader rs' r"
  by (auto simp: sound_reader_def)

text \<open>The work that a reader has left for a body of \<open>d\<close> bytes.\<close>

definition readerWork :: "nat \<Rightarrow> spoolReader \<Rightarrow> nat" where
  "readerWork d r =
     (case srPc r of
        SStart \<Rightarrow> 4 * d + 6 | SHeader \<Rightarrow> 4 * d + 5 | SOpen \<Rightarrow> 4 * d + 4 | SLoop \<Rightarrow> 4 * (d - srOffset r) + 2
      | SCopy \<Rightarrow> 4 * (d - srOffset r) + (if srOffset r < srWritten r \<or> srComplete r then 1 else 3)
      | SDone e \<Rightarrow> 0)"

text \<open>\<open>active\<close>: between the start and the return of \<^verbatim>\<open>ServeTo\<close>.\<close>

definition activeReader :: "spoolReader \<Rightarrow> nat" where
  "activeReader r = (case srPc r of SStart \<Rightarrow> 0 | SDone e \<Rightarrow> 0 | _ \<Rightarrow> 1)"

lemma sound_reader_step:
  assumes w: "sound_writer st h blocks fin rs w" and r: "sound_reader rs r" and i: "reader_inv st h blocks fin rs r" "prefix (spFile rs) (concat blocks)"
    "spWritten rs = length (spFile rs)"
    and run: "serveNext rs (srPc r) r = Some (rs', r')" and n: "activeReader r \<le> spReaders rs"
  shows "sound_writer st h blocks fin rs' w \<and> sound_reader rs' r' \<and> readerWork (length (concat blocks)) r' < readerWork (length (concat blocks)) r \<and>
    spComplete rs' = spComplete rs \<and> spReaders rs' + activeReader r = spReaders rs + activeReader r'"
proof -
  let ?d = "length (concat blocks)"
  have f: "spErr rs = []" using w by (simp add: sound_writer_def)
  have le: "length (spFile rs) \<le> ?d" using i(2) by (rule prefix_length_le)
  have keep: "rs' = rs\<lparr>spReaders := spReaders rs'\<rparr>"
    using run by (cases "srPc r") (auto simp: copyNext_def readerReturn_def Let_def split: if_splits prod.splits)
  have w': "sound_writer st h blocks fin rs' w" "spComplete rs' = spComplete rs"
    using w by (subst keep, simp add: sound_writer_def, subst keep, simp)
  have q: "srFault r = None" "rwCap (srW r) = None" using r by (simp_all add: sound_reader_def)
  have "sound_reader rs' r' \<and> readerWork ?d r' < readerWork ?d r \<and> spReaders rs' + activeReader r = spReaders rs + activeReader r'"
  proof (cases "srPc r")
    case SStart
    then have "rs' = rs\<lparr>spReaders := spReaders rs + 1\<rparr>" "r' = r\<lparr>srPc := SHeader\<rparr>" using run by simp_all
    then show ?thesis using q SStart by (simp add: sound_reader_def readerWork_def activeReader_def)
  next
    case SHeader
    then have "rs' = rs" "r' = r\<lparr>srPc := SOpen, srW := rwWriteHeader (spStatus rs) (rwCopy (spHeaders rs) (srW r))\<rparr>"
      using run f by (auto split: if_splits)
    then show ?thesis using q SHeader by (simp add: sound_reader_def readerWork_def activeReader_def rwWriteHeader_def rwCopy_def)
  next
    case SOpen
    then have "rs' = rs" "r' = useFile (r\<lparr>srPc := SLoop\<rparr>)" using run q by simp_all
    then show ?thesis using q SOpen by (simp add: sound_reader_def readerWork_def activeReader_def useFile_def)
  next
    case SLoop
    then have "rs' = rs" "r' = r\<lparr>srPc := SCopy, srWritten := spWritten rs, srComplete := spComplete rs, srErr := spErr rs\<rparr>"
      "srOffset r < spWritten rs \<or> spComplete rs" using run f by (auto split: if_splits)
    then show ?thesis using q SLoop f by (auto simp: sound_reader_def readerWork_def activeReader_def)
  next
    case SCopy
    have c: "srErr r = []" "srComplete r \<longrightarrow> spComplete rs" using r SCopy by (simp_all add: sound_reader_def)
    have wr: "srWritten r \<le> length (spFile rs)" using i(1) SCopy by (simp add: reader_inv_def)
    show ?thesis
    proof (cases "srOffset r < srWritten r")
      case True
      define p where "p = take (min (srWritten r - srOffset r) spoolBufSize) (drop (srOffset r) (spFile rs))"
      have p: "p \<noteq> []" "0 < length p" "srOffset r + length p \<le> srWritten r" using True wr by (auto simp: p_def spoolBufSize_def)
      obtain w1 where w1: "rwWrite (srW r) p = ((length p, []), w1)" "rwCap w1 = None" using rwWrite_open [OF q(2)] by blast
      have "rs' = rs" "r' = useFile (r\<lparr>srW := w1, srOffset := srOffset r + length p\<rparr>)"
        using run SCopy True q(1) p(1) w1(1) by (simp_all add: copyNext_def p_def [symmetric])
      moreover have "?d - (srOffset r + length p) < ?d - srOffset r" using p(2,3) wr le True by arith
      ultimately show ?thesis using q SCopy c w1(2) True
        by (simp add: sound_reader_def readerWork_def activeReader_def useFile_def)
    next
      case False
      show ?thesis
      proof (cases "srComplete r")
        case True
        then have "rs' = rs\<lparr>spReaders := spReaders rs - 1\<rparr>" "r' = r\<lparr>srPc := SDone []\<rparr>"
          using run SCopy False c(1) by (simp_all add: copyNext_def readerReturn_def)
        then show ?thesis using q SCopy c n True by (simp add: sound_reader_def readerWork_def activeReader_def)
      next
        case nc: False
        then have "rs' = rs" "r' = r\<lparr>srPc := SLoop\<rparr>" using run SCopy False by (simp_all add: copyNext_def)
        then show ?thesis using q SCopy nc False by (simp add: sound_reader_def readerWork_def activeReader_def)
      qed
    qed
  next
    case (SDone e)
    then show ?thesis using run by simp
  qed
  then show ?thesis using w' by simp
qed


definition sound_sys :: "int \<Rightarrow> header \<Rightarrow> bytes list \<Rightarrow> proxyCall \<Rightarrow> spoolSys \<Rightarrow> bool" where
  "sound_sys st h blocks fin s \<longleftrightarrow> spool_inv st h blocks fin s \<and> sound_writer st h blocks fin (ysSpool s) (ysWriter s) \<and>
     (\<forall>r \<in> set (ysReaders s). sound_reader (ysSpool s) r) \<and> spReaders (ysSpool s) = sum_list (map activeReader (ysReaders s))"

definition sysWork :: "bytes list \<Rightarrow> spoolSys \<Rightarrow> nat" where
  "sysWork blocks s = length (swCalls (ysWriter s)) + sum_list (map (readerWork (length (concat blocks))) (ysReaders s))"

lemma sum_list_upd:
  fixes f :: "'a \<Rightarrow> nat"
  assumes "i < length xs"
  shows "sum_list (map f (xs[i := x])) + f (xs ! i) = sum_list (map f xs) + f x"
  using assms by (induction xs arbitrary: i) (auto split: nat.splits)

lemma sound_step:
  assumes step: "spool_step s s'" and s: "sound_sys st h blocks fin s" and ok: "200 \<le> st" "st < 300" "fin \<in> {PEnd, PPanic}"
  shows "sound_sys st h blocks fin s' \<and> sysWork blocks s' < sysWork blocks s \<and> length (ysReaders s') = length (ysReaders s)"
proof -
  have inv: "spool_inv st h blocks fin s'" using spool_inv_step [OF step _ ok(3)] s by (simp add: sound_sys_def)
  from step show ?thesis
  proof cases
    case (writer rs w)
    have sw: "sound_writer st h blocks fin (ysSpool s) (ysWriter s)" using s by (simp add: sound_sys_def)
    note ws = sound_writer_step [OF sw ok writer(2)]
    have "\<forall>r \<in> set (ysReaders s). sound_reader rs r" using s ws sound_reader_mono by (metis sound_sys_def)
    then show ?thesis using inv ws writer(1) s by (simp add: sound_sys_def sysWork_def)
  next
    case (reader i rs r)
    let ?r = "ysReaders s ! i" and ?d = "length (concat blocks)"
    have in_: "?r \<in> set (ysReaders s)" using reader(2) by simp
    have n: "activeReader ?r \<le> spReaders (ysSpool s)" using s in_ member_le_sum_list [of "activeReader ?r" "map activeReader (ysReaders s)"]
      by (simp add: sound_sys_def)
    have pre: "sound_writer st h blocks fin (ysSpool s) (ysWriter s)" "sound_reader (ysSpool s) ?r" "reader_inv st h blocks fin (ysSpool s) ?r"
      "prefix (spFile (ysSpool s)) (concat blocks)" "spWritten (ysSpool s) = length (spFile (ysSpool s))"
      using s in_ by (simp_all add: sound_sys_def spool_inv_def writer_inv_def)
    note rs' = sound_reader_step [OF pre reader(3) n]
    have all: "\<forall>x \<in> set ((ysReaders s)[i := r]). sound_reader rs x"
    proof
      fix x assume "x \<in> set ((ysReaders s)[i := r])"
      then have "x = r \<or> x \<in> set (ysReaders s)" using set_update_subset_insert by fastforce
      then show "sound_reader rs x" using rs' s sound_reader_mono [of "ysSpool s" x rs] by (auto simp: sound_sys_def)
    qed
    have cnt: "spReaders rs = sum_list (map activeReader ((ysReaders s)[i := r]))"
      using rs' s sum_list_upd [OF reader(2), of activeReader r] by (simp add: sound_sys_def)
    show ?thesis using inv rs' all cnt reader(1) sum_list_upd [OF reader(2), of "readerWork ?d" r]
      by (simp add: sound_sys_def sysWork_def)
  qed
qed

definition calmInit :: "int \<Rightarrow> header \<Rightarrow> bytes list \<Rightarrow> proxyCall \<Rightarrow> nat \<Rightarrow> spoolSys" where
  "calmInit st h blocks fin n = spoolInit None [] None st h blocks fin (replicate n (None, None))"

lemma calmInit_sound: "sound_sys st h blocks fin (calmInit st h blocks fin n)"
proof -
  have "spool_inv st h blocks fin (calmInit st h blocks fin n)" unfolding calmInit_def by (rule spool_inv_init)
  moreover have "sum_list (map activeReader (replicate n (newSpoolReader None None))) = 0"
    by (simp add: activeReader_def newSpoolReader_def sum_list_replicate)
  ultimately show ?thesis
    by (simp add: sound_sys_def calmInit_def spoolInit_def sound_writer_def sound_reader_def NewResponseSpool_def newSpoolReader_def newWriter_def spoolRun_def map_replicate_const)
qed

lemma calm_reach:
  assumes "spool_step\<^sup>*\<^sup>* (calmInit st h blocks fin n) s" "200 \<le> st" "st < 300" "fin \<in> {PEnd, PPanic}"
  shows "sound_sys st h blocks fin s \<and> length (ysReaders s) = n"
  using assms(1)
proof (induction rule: rtranclp_induct)
  case base
  then show ?case using calmInit_sound by (simp add: calmInit_def spoolInit_def)
next
  case (step s s')
  then show ?case using sound_step [OF step(2) _ assms(2-4), of h blocks] by simp
qed

lemma calm_terminates:
  assumes "200 \<le> st" "st < 300" "fin \<in> {PEnd, PPanic}"
  shows "\<not> (\<exists>f. f 0 = calmInit st h blocks fin n \<and> (\<forall>k. spool_step (f k) (f (Suc k))))"
proof
  assume "\<exists>f. f 0 = calmInit st h blocks fin n \<and> (\<forall>k. spool_step (f k) (f (Suc k)))"
  then obtain f where f: "f 0 = calmInit st h blocks fin n" "\<And>k. spool_step (f k) (f (Suc k))" by blast
  have "sound_sys st h blocks fin (f k) \<and> sysWork blocks (f k) + k \<le> sysWork blocks (f 0)" for k
  proof (induction k)
    case 0
    then show ?case using f(1) calmInit_sound by simp
  next
    case (Suc k)
    then show ?case using sound_step [OF f(2) [of k] _ assms] by fastforce
  qed
  from this [of "Suc (sysWork blocks (f 0))"] show False by simp
qed

text \<open>Where a run ends: the writer is through and no reader can go on.\<close>

lemma calm_stuck:
  assumes "sound_sys st h blocks fin s" "200 \<le> st" "st < 300" "fin \<in> {PEnd, PPanic}" "\<And>s'. \<not> spool_step s s'" "r \<in> set (ysReaders s)"
  shows "if fin = PEnd then srPc r = SDone [] else srPc r = SLoop"
proof -
  have w: "sound_writer st h blocks fin (ysSpool s) (ysWriter s)" and r: "sound_reader (ysSpool s) r" using assms(1,6) by (simp_all add: sound_sys_def)
  have "writerNext (ysSpool s) (ysWriter s) = None" using assms(5) spool_step.writer by (metis not_None_eq prod.exhaust)
  then have "swCalls (ysWriter s) = []" using w by (auto simp: writerNext_def sound_writer_def split: list.splits proxyCall.splits prod.splits if_splits)
  then have c: "spComplete (ysSpool s) \<longleftrightarrow> fin = PEnd" "spStatus (ysSpool s) = st" "spErr (ysSpool s) = []"
    using w by (auto simp: sound_writer_def spoolRun_def split: if_splits)
  obtain i where "i < length (ysReaders s)" "r = ysReaders s ! i" using assms(6) by (metis in_set_conv_nth)
  then have stuck: "serveNext (ysSpool s) (srPc r) r = None" using assms(5) spool_step.reader by (metis not_None_eq prod.exhaust)
  show ?thesis
  proof (cases "srPc r")
    case SHeader
    then show ?thesis using stuck c assms(2) by (auto simp: readerReturn_def split: if_splits)
  next
    case SLoop
    then show ?thesis using stuck c by (auto split: if_splits)
  next
    case SCopy
    then show ?thesis using stuck by (auto simp: copyNext_def readerReturn_def Let_def split: if_splits prod.splits)
  next
    case (SDone e)
    then show ?thesis using r c(1) by (auto simp: sound_reader_def)
  qed (use stuck in \<open>auto simp: readerReturn_def split: if_splits\<close>)
qed


lemma calm_end:
  assumes "200 \<le> st" "st < 300" "fin \<in> {PEnd, PPanic}" "sound_sys st h blocks fin s"
  shows "\<exists>s'. spool_step\<^sup>*\<^sup>* s s' \<and> (\<forall>s''. \<not> spool_step s' s'')"
  using assms(4)
proof (induction "sysWork blocks s" arbitrary: s rule: less_induct)
  case less
  show ?case
  proof (cases "\<exists>s1. spool_step s s1")
    case True
    then obtain s1 where s1: "spool_step s s1" by blast
    note st = sound_step [OF s1 less(2) assms(1-3)]
    then obtain s' where "spool_step\<^sup>*\<^sup>* s1 s'" "\<forall>s''. \<not> spool_step s' s''" using less(1) [of s1] by blast
    then show ?thesis using s1 by (meson converse_rtranclp_into_rtranclp)
  qed auto
qed

lemma spReaders_waiting:
  assumes "sound_sys st h blocks fin s" "\<forall>r \<in> set (ysReaders s). srPc r = SLoop"
  shows "spReaders (ysSpool s) = length (ysReaders s)"
proof -
  have "map activeReader (ysReaders s) = map (\<lambda>_. 1) (ysReaders s)" using assms(2) by (intro map_cong) (simp_all add: activeReader_def)
  then have "sum_list (map activeReader (ysReaders s)) = length (ysReaders s)" by (simp only: sum_list_triv) simp
  then show ?thesis using assms(1) by (simp add: sound_sys_def)
qed

section \<open>Properties\<close>

text \<open>
  C31: a spooled response is the upstream's response.  In every interleaving of the writer with any number of
  readers, whichever disk, file or client fails and wherever the upstream breaks off, a reader has
  received nothing, or the status and headers of a successful upstream response and a prefix of its body; a
  reader that returns without an error has received the whole body, and the upstream did deliver it.
\<close>

theorem spool_faithful:
  assumes "spool_step\<^sup>*\<^sup>* (spoolInit room closeErr cap st h blocks fin clients) s" "fin \<in> {PEnd, PPanic}" "r \<in> set (ysReaders s)"
  shows "prefix (rwBody (srW r)) (concat blocks) \<and>
    (rwSent (srW r) = None \<and> rwBody (srW r) = [] \<or> rwSent (srW r) = Some (st, h) \<and> 200 \<le> st \<and> st < 300) \<and>
    (srPc r = SDone [] \<longrightarrow> fin = PEnd \<and> response (srW r) = (st, h, concat blocks))"
proof -
  have "reader_inv st h blocks fin (ysSpool s) r" using spool_inv_reach [OF assms(1,2)] assms(3) by (simp add: spool_inv_def)
  then show ?thesis by (auto simp: reader_inv_def response_def split: if_splits)
qed


text \<open>
  C33: an upstream that breaks off strands the readers.  When the body of a successful response fails before its end
  the reverse proxy panics, and the \<^verbatim>\<open>MarkComplete\<close> after it is skipped: every interleaving ends with all readers
  waiting in \<^verbatim>\<open>ServeTo\<close> for a writer that is gone, and the clean-up of the repository's spools, which
  waits for them, never returns.
\<close>

theorem spool_abandoned:
  assumes "200 \<le> st" "st < 300" "0 < n"
  shows "(\<exists>s. spool_step\<^sup>*\<^sup>* (calmInit st h blocks PPanic n) s \<and> (\<forall>s'. \<not> spool_step s s')) \<and>
    (\<forall>s. spool_step\<^sup>*\<^sup>* (calmInit st h blocks PPanic n) s \<and> (\<forall>s'. \<not> spool_step s s') \<longrightarrow>
       (\<forall>r \<in> set (ysReaders s). srPc r = SLoop) \<and> spReaders (ysSpool s) = n \<and>
       (\<forall>rp key removeErr. rpSpools rp key = Some (ysSpool s) \<longrightarrow> fst (spoolsClose removeErr rp) = Blocked))"
proof (intro conjI allI impI, goal_cases)
  case 1
  show ?case using calm_end [OF assms(1,2) _ calmInit_sound] by simp
next
  case (2 s)
  then have s: "sound_sys st h blocks PPanic s" using calm_reach [OF _ assms(1,2)] by blast
  show ?case using calm_stuck [OF s assms(1,2)] 2 by auto
next
  case (3 s)
  then have s: "sound_sys st h blocks PPanic s" "length (ysReaders s) = n" using calm_reach [OF _ assms(1,2)] by blast+
  have "\<forall>r \<in> set (ysReaders s). srPc r = SLoop" using calm_stuck [OF s(1) assms(1,2)] 3 by auto
  then show ?case using spReaders_waiting [OF s(1)] s(2) by simp
next
  case (4 s rp key removeErr)
  then have s: "sound_sys st h blocks PPanic s" "length (ysReaders s) = n" using calm_reach [OF _ assms(1,2)] by blast+
  have "\<forall>r \<in> set (ysReaders s). srPc r = SLoop" using calm_stuck [OF s(1) assms(1,2)] 4(1) by auto
  then have "spReaders (ysSpool s) \<noteq> 0" using spReaders_waiting [OF s(1)] s(2) assms(3) by simp
  then show ?case using 4(2) by (auto simp: spoolsClose_def ran_def Let_def)
qed

theorem spool_faithful_witness:
  "\<exists>s. spool_step\<^sup>*\<^sup>* (spoolInit (Some 1) [] None 200 Map.empty [[1, 2]] PEnd [(None, None)]) s \<and>
     (\<forall>r \<in> set (ysReaders s). prefix (rwBody (srW r)) [1, 2])"
proof (intro exI conjI)
  let ?i = "spoolInit (Some 1) [] None 200 Map.empty [[1, 2]] PEnd [(None, None)]"
  show "spool_step\<^sup>*\<^sup>* ?i ?i" by simp
  then show "\<forall>r \<in> set (ysReaders ?i). prefix (rwBody (srW r)) [1, 2]"
    using spool_faithful [of "Some 1" "[]" None 200 Map.empty "[[1, 2]]" PEnd "[(None, None)]" ?i] by simp
qed


theorem spool_abandoned_witness:
  "\<exists>s. spool_step\<^sup>*\<^sup>* (calmInit 200 Map.empty [[1]] PPanic 1) s \<and> spReaders (ysSpool s) = 1 \<and>
     fst (spoolsClose [] \<lparr>rpDir = ''d'', rpSpools = [''k'' \<mapsto> ysSpool s], rpClosed = False\<rparr>) = Blocked"
proof -
  note th = spool_abandoned [of 200 1 Map.empty "[[1]]"]
  then obtain s where "spool_step\<^sup>*\<^sup>* (calmInit 200 Map.empty [[1]] PPanic 1) s" "\<forall>s'. \<not> spool_step s s'" by auto
  then show ?thesis using th by fastforce
qed


text \<open>A request for a pack that is already spooled never becomes a second writer.\<close>

lemma serveWithSpool_one_writer:
  assumes "serveWithSpool sha256 spoolDir created pathValue meth b url m = (WriteSpool key, m')"
  shows "fst (serveWithSpool sha256 spoolDir created' pathValue meth b url m') \<noteq> WriteSpool key"
proof -
  obtain rp s where m': "m' url = Some rp" "rpSpools rp key = Some s" "\<not> rpClosed rp" "SpoolKeyForRequest sha256 pathValue meth b = (key, [])"
    using assms
    by (auto simp: serveWithSpool_def getOrCreateRepoSpools_def spoolGetOrCreate_def NewRepoSpools_def
        split: prod.splits if_splits sum.splits option.splits)
  then show ?thesis by (simp add: serveWithSpool_def getOrCreateRepoSpools_def spoolGetOrCreate_def)
qed

end
