(* ===== verification/GitClone.thy ===== *)
theory GitClone
  imports Prelude
begin

text \<open>
  The git clone manager, \<^verbatim>\<open>internal/gitclone/manager.go\<close>: the life cycle of a repository's mirror and its fetches, with the
  users that claim clones, \<^verbatim>\<open>startClone\<close> of \<^verbatim>\<open>internal/strategy/git/git.go\<close> and the deferred restore of
  \<^verbatim>\<open>internal/strategy/git/snapshot.go\<close>.

  The git processes are not part of the sources: the result of each is an argument of the step that waits for it.
  Of the mirror directory the model knows whether it is there; moving a clone into place fails if it is.
  \<open>clone_step\<close> interleaves any number of callers that want the mirror, \<open>fetch_step\<close> any number of fetches
  and of operations that exclude them, with an upstream whose versions are numbered.
\<close>

section \<open>Model: paths\<close>

text \<open>The parts of a parsed URL that the code reads.\<close>

record parsedURL =
  uScheme :: string
  uHost :: string
  uUser :: bool
  uPath :: string
  uRawQuery :: string
  uFragment :: string

definition TrimPrefix1 :: "string \<Rightarrow> string \<Rightarrow> string" where
  "TrimPrefix1 s p = (case CutPrefix p s of None \<Rightarrow> s | Some r \<Rightarrow> r)"

definition TrimSuffix1 :: "string \<Rightarrow> string \<Rightarrow> string" where
  "TrimSuffix1 s p = (case CutPrefix (rev p) (rev s) of None \<Rightarrow> s | Some r \<Rightarrow> rev r)"

text \<open>
  \<^verbatim>\<open>RepoPathFromURL\<close>; the result is the list of components of \<^verbatim>\<open>filepath.Join(host, path)\<close>, which drops a
  component that is a single dot, and \<^verbatim>\<open>filepath.IsLocal\<close> refuses a path that leads upwards.
\<close>

definition RepoPathFromURL :: "(string \<Rightarrow> parsedURL option) \<Rightarrow> string \<Rightarrow> goerr + string list" where
  "RepoPathFromURL parse url =
     (case parse url of
        None \<Rightarrow> Inl [ErrOther ''parse upstream URL'']
      | Some u \<Rightarrow>
          if uScheme u \<noteq> ''https'' \<or> uHost u = '''' \<or> uUser u \<or> uRawQuery u \<noteq> '''' \<or> uFragment u \<noteq> '''' \<or>
             CHR ''/'' \<in> set (uHost u) \<or> CHR 0x5C \<in> set (uHost u) then Inl [ErrOther ''unsupported upstream URL'']
          else let repoPath = TrimSuffix1 (TrimSuffix1 (TrimPrefix1 (uPath u) ''/'') ''/'') ''.git'';
                   segs = Split (CHR ''/'') repoPath;
                   comps = filter (\<lambda>c. c \<noteq> ''.'') (uHost u # segs)
               in if repoPath = '''' then Inl [ErrOther ''no repository path'']
                  else if \<exists>s \<in> set segs. s = '''' \<or> s = ''.'' \<or> s = ''..'' \<or> CHR 0x5C \<in> set s then Inl [ErrOther ''unsupported upstream URL path'']
                  else if uHost u = ''..'' then Inl [ErrOther ''upstream URL path is not local'']
                  else Inr comps)"

definition clonePathForURL :: "(string \<Rightarrow> parsedURL option) \<Rightarrow> string list \<Rightarrow> string \<Rightarrow> goerr + string list" where
  "clonePathForURL parse root url = (case RepoPathFromURL parse url of Inl e \<Rightarrow> Inl e | Inr p \<Rightarrow> Inr (root @ p))"

section \<open>Model: the life cycle of a mirror\<close>

datatype State = StateEmpty | StateCloning | StateReady

record Repository =
  rState :: State
  rLastFetch :: time
  rMirror :: bool

definition TryStartCloning :: "Repository \<Rightarrow> bool \<times> Repository" where
  "TryStartCloning r = (if rState r \<noteq> StateEmpty then (False, r) else (True, r\<lparr>rState := StateCloning\<rparr>))"

definition ResetToEmpty :: "Repository \<Rightarrow> Repository" where
  "ResetToEmpty r = r\<lparr>rState := StateEmpty, rLastFetch := 0\<rparr>"

definition MarkReady :: "time \<Rightarrow> Repository \<Rightarrow> Repository" where
  "MarkReady now r = r\<lparr>rState := StateReady, rLastFetch := now\<rparr>"

definition NeedsFetch :: "time \<Rightarrow> duration \<Rightarrow> Repository \<Rightarrow> bool" where
  "NeedsFetch now interval r \<longleftrightarrow> now - rLastFetch r \<ge> interval"

text \<open>
  A caller of \<^verbatim>\<open>Clone\<close> (\<open>K\<close>), of \<^verbatim>\<open>startClone\<close> (\<open>S\<close>) or the deferred restore (\<open>D\<close>), by what it does next.
\<close>

datatype clonePc =
    KStart | KWait | KClaimed | KExec | KMark | KDone goerr
  | SStart | SRestore | SFetch | SRemove
  | DStart | DRestore | DFetch | DRemove

text \<open>
  The next step of each kind of caller; \<open>e\<close> is the result of the external call of the step, or of the context for a caller
  that waits.
\<close>

fun cloneNext :: "goerr \<Rightarrow> time \<Rightarrow> Repository \<Rightarrow> clonePc \<Rightarrow> (Repository \<times> clonePc) option" where
  "cloneNext e now r KStart = (case TryStartCloning r of (ok, r1) \<Rightarrow> Some (r1, if ok then KClaimed else KWait))"
| "cloneNext e now r KWait =
     (case rState r of
        StateReady \<Rightarrow> Some (r, KDone [])
      | StateEmpty \<Rightarrow> Some (r, KDone [ErrOther ''repository clone did not complete''])
      | StateCloning \<Rightarrow> if e \<noteq> [] then Some (r, KDone e) else None)"
| "cloneNext e now r KClaimed =
     (if rState r = StateReady then Some (r, KDone [])
      else if rState r \<noteq> StateCloning then Some (r, KDone [ErrOther ''repository clone was not claimed''])
      else Some (r, KExec))"
| "cloneNext e now r KExec =
     (if e \<noteq> [] then Some (r\<lparr>rState := StateEmpty\<rparr>, KDone e)
      else if rMirror r then None
      else Some (r\<lparr>rMirror := True\<rparr>, KMark))"
| "cloneNext e now r KMark = Some (MarkReady now r, KDone [])"
| "cloneNext e now r (KDone x) = None"
| "cloneNext e now r _ = None"

fun startCloneNext :: "goerr \<Rightarrow> time \<Rightarrow> Repository \<Rightarrow> clonePc \<Rightarrow> (Repository \<times> clonePc) option" where
  "startCloneNext e now r SStart = (case TryStartCloning r of (ok, r1) \<Rightarrow> Some (r1, if ok then SRestore else KDone []))"
| "startCloneNext e now r SRestore =
     (if e \<noteq> [] then Some (r, KClaimed) else if rMirror r then None else Some (r\<lparr>rMirror := True\<rparr>, SFetch))"
| "startCloneNext e now r SFetch = (if e \<noteq> [] then Some (r, SRemove) else Some (MarkReady now r, KDone []))"
| "startCloneNext e now r SRemove =
     (if e \<noteq> [] then Some (ResetToEmpty r, KDone e) else Some (r\<lparr>rMirror := False\<rparr>, KClaimed))"
| "startCloneNext e now r _ = None"

fun deferredNext :: "goerr \<Rightarrow> time \<Rightarrow> Repository \<Rightarrow> clonePc \<Rightarrow> (Repository \<times> clonePc) option" where
  "deferredNext e now r DStart =
     (if rState r = StateReady then Some (r, KDone [])
      else case TryStartCloning r of (ok, r1) \<Rightarrow> Some (r1, if ok then DRestore else KDone []))"
| "deferredNext e now r DRestore =
     (if e \<noteq> [] then Some (ResetToEmpty r, KDone []) else if rMirror r then None else Some (r\<lparr>rMirror := True\<rparr>, DFetch))"
| "deferredNext e now r DFetch = (if e \<noteq> [] then Some (ResetToEmpty r, DRemove) else Some (MarkReady now r, KDone []))"
| "deferredNext e now r DRemove = (if e \<noteq> [] then Some (r, KDone []) else Some (r\<lparr>rMirror := False\<rparr>, KDone []))"
| "deferredNext e now r _ = None"

definition taskNext :: "goerr \<Rightarrow> time \<Rightarrow> Repository \<Rightarrow> clonePc \<Rightarrow> (Repository \<times> clonePc) option" where
  "taskNext e now r pc =
     (case cloneNext e now r pc of
        Some x \<Rightarrow> Some x
      | None \<Rightarrow> (case startCloneNext e now r pc of Some x \<Rightarrow> Some x | None \<Rightarrow> deferredNext e now r pc))"

record cloneSys =
  cyRepo :: Repository
  cyTasks :: "clonePc list"

inductive clone_step :: "cloneSys \<Rightarrow> cloneSys \<Rightarrow> bool" where
  task: "i < length (cyTasks s) \<Longrightarrow> taskNext e now (cyRepo s) (cyTasks s ! i) = Some (r, pc) \<Longrightarrow>
    clone_step s (s\<lparr>cyRepo := r, cyTasks := (cyTasks s)[i := pc]\<rparr>)"
| call: "pc \<in> {KStart, SStart, DStart} \<Longrightarrow> clone_step s (s\<lparr>cyTasks := cyTasks s @ [pc]\<rparr>)"

text \<open>
  The repository that \<^verbatim>\<open>GetOrCreate\<close> makes for a directory that may be left from an earlier process: \<open>hasHead\<close> and
  \<open>hasDir\<close> are what it finds, the errors the results of sanitising, removing and configuring it.
\<close>

definition newRepository :: "bool \<Rightarrow> bool \<Rightarrow> goerr \<Rightarrow> bool \<Rightarrow> goerr \<Rightarrow> goerr \<Rightarrow> goerr + Repository" where
  "newRepository hasHead hasDir resetErr unsafe removeErr configErr =
     (let repo = \<lparr>rState = StateEmpty, rLastFetch = 0, rMirror = hasDir\<rparr>
      in if hasHead then
           (if resetErr \<noteq> [] then
              (if \<not> unsafe then Inl resetErr
               else if removeErr \<noteq> [] then Inl (errJoin [resetErr, removeErr])
               else Inr (repo\<lparr>rMirror := False\<rparr>))
            else if configErr \<noteq> [] then Inl configErr
            else Inr (repo\<lparr>rState := StateReady, rMirror := True\<rparr>))
         else Inr repo)"

text \<open>The manager keeps one repository per upstream.\<close>

definition GetOrCreate :: "(string \<Rightarrow> goerr + string list) \<Rightarrow> (goerr + Repository) \<Rightarrow> string \<Rightarrow> (string \<rightharpoonup> Repository) \<Rightarrow> (goerr + Repository) \<times> (string \<rightharpoonup> Repository)" where
  "GetOrCreate clonePath created url clones =
     (case clones url of
        Some r \<Rightarrow> (Inr r, clones)
      | None \<Rightarrow>
          (case clonePath url of
             Inl e \<Rightarrow> (Inl e, clones)
           | Inr p \<Rightarrow> (case created of Inl e \<Rightarrow> (Inl e, clones) | Inr r \<Rightarrow> (Inr r, clones(url \<mapsto> r)))))"

section \<open>Lemmas: the life cycle\<close>

text \<open>The tasks that hold the claim, and those that rely on the mirror directory.\<close>

fun own :: "clonePc \<Rightarrow> nat" where
  "own KClaimed = 1" | "own KExec = 1" | "own KMark = 1" | "own SRestore = 1" | "own SFetch = 1" | "own SRemove = 1"
| "own DRestore = 1" | "own DFetch = 1" | "own _ = 0"

fun hot :: "clonePc \<Rightarrow> nat" where
  "hot KMark = 1" | "hot SFetch = 1" | "hot SRemove = 1" | "hot DFetch = 1" | "hot DRemove = 1" | "hot _ = 0"

definition repo_inv :: "Repository \<Rightarrow> nat \<Rightarrow> nat \<Rightarrow> bool" where
  "repo_inv r no nh \<longleftrightarrow> no = (if rState r = StateCloning then 1 else 0) \<and>
     nh + (if rState r = StateReady then 1 else 0) \<le> (if rMirror r then 1 else 0)"

definition clone_inv :: "cloneSys \<Rightarrow> bool" where
  "clone_inv s \<longleftrightarrow> repo_inv (cyRepo s) (sum_list (map own (cyTasks s))) (sum_list (map hot (cyTasks s)))"

lemma sum_list_update_nat:
  fixes f :: "'a \<Rightarrow> nat"
  assumes "i < length xs"
  shows "sum_list (map f (xs[i := x])) + f (xs ! i) = sum_list (map f xs) + f x"
  using assms by (induction xs arbitrary: i) (auto split: nat.splits)

lemma le_sum_list_map:
  fixes f :: "'a \<Rightarrow> nat"
  shows "x \<in> set xs \<Longrightarrow> f x \<le> sum_list (map f xs)"
  by (induction xs) auto

lemma taskNext_inv:
  assumes "taskNext e now r pc = Some (r', pc')" "repo_inv r no nh" "own pc \<le> no" "hot pc \<le> nh"
  shows "repo_inv r' (no - own pc + own pc') (nh - hot pc + hot pc')"
  using assms by (cases pc) (auto simp: taskNext_def repo_inv_def TryStartCloning_def ResetToEmpty_def MarkReady_def split: if_splits State.splits)

lemma clone_inv_step: "clone_step s s' \<Longrightarrow> clone_inv s \<Longrightarrow> clone_inv s'"
proof (induction rule: clone_step.induct)
  case (task i s e now r pc)
  let ?pc = "cyTasks s ! i"
  have "?pc \<in> set (cyTasks s)" using task(1) by simp
  note le = le_sum_list_map [OF this, of own] le_sum_list_map [OF this, of hot]
  have "sum_list (map own ((cyTasks s)[i := pc])) = sum_list (map own (cyTasks s)) - own ?pc + own pc"
    "sum_list (map hot ((cyTasks s)[i := pc])) = sum_list (map hot (cyTasks s)) - hot ?pc + hot pc"
    using sum_list_update_nat [OF task(1), of own pc] sum_list_update_nat [OF task(1), of hot pc] le by linarith+
  then show ?case using taskNext_inv [OF task(2) _ le] task(3) by (simp add: clone_inv_def)
next
  case (call pc s)
  then show ?case by (auto simp: clone_inv_def)
qed

lemma newRepository_inv: "newRepository hasHead hasDir re un rm ce = Inr r \<Longrightarrow> clone_inv \<lparr>cyRepo = r, cyTasks = []\<rparr>"
  by (auto simp: newRepository_def clone_inv_def repo_inv_def Let_def split: if_splits)

lemma clone_inv_reach:
  assumes "clone_step\<^sup>*\<^sup>* \<lparr>cyRepo = r, cyTasks = []\<rparr> s" "newRepository hasHead hasDir re un rm ce = Inr r"
  shows "clone_inv s"
  using assms(1) by (induction rule: rtranclp_induct) (use newRepository_inv [OF assms(2)] clone_inv_step in blast)+

lemma owner_exists: "0 < sum_list (map own pcs) \<Longrightarrow> \<exists>i < length pcs. own (pcs ! i) = 1"
proof (induction pcs)
  case (Cons pc pcs)
  show ?case
  proof (cases "own pc = 0")
    case True
    then obtain i where "i < length pcs" "own (pcs ! i) = 1" using Cons by auto
    then show ?thesis by (intro exI [of _ "Suc i"]) simp
  next
    case False
    then have "own pc = 1" by (cases pc) auto
    then show ?thesis by (intro exI [of _ 0]) simp
  qed
qed simp

text \<open>Whoever holds the claim can always go on, whatever its next call returns.\<close>

lemma owner_steps: "own pc = 1 \<Longrightarrow> rState r = StateCloning \<Longrightarrow> e \<noteq> [] \<Longrightarrow> taskNext e now r pc \<noteq> None"
  by (cases pc) (auto simp: taskNext_def split: if_splits)


section \<open>Model: fetches\<close>

text \<open>
  A caller of \<^verbatim>\<open>fetchInternal\<close>, with whether it may coalesce, the last fetch it saw and the version the
  upstream had when it was called; or of \<^verbatim>\<open>WithFetchExclusion\<close> (\<open>X\<close>).
\<close>

datatype fetchPc =
    FCall bool
  | FSelect bool time nat
  | FBlocked bool time nat
  | FRun bool nat
  | FRead bool nat nat
  | FApplied bool nat
  | FDone bool nat goerr
  | XCall
  | XHold
  | XDone

record fetchSys =
  fSem :: bool
  fLast :: time
  fNow :: time
  fUpstream :: nat
  fMirror :: nat
  fTasks :: "fetchPc list"

text \<open>
  The steps of \<^verbatim>\<open>fetchInternal\<close>; \<open>e\<close> is the result of the git command or, before it runs, of the context.  git reads
  the upstream's refs and later installs them in the mirror.
\<close>

fun fetchNext :: "goerr \<Rightarrow> fetchSys \<Rightarrow> fetchPc \<Rightarrow> (fetchSys \<times> fetchPc) option" where
  "fetchNext e s (FCall co) = Some (s, FSelect co (fLast s) (fUpstream s))"
| "fetchNext e s (FSelect co lf born) =
     (if e \<noteq> [] then Some (s, FDone co born e)
      else if fSem s then Some (s\<lparr>fSem := False\<rparr>, FRun co born)
      else Some (s, FBlocked co lf born))"
| "fetchNext e s (FBlocked co lf born) =
     (if e \<noteq> [] then Some (s, FDone co born e)
      else if \<not> fSem s then None
      else if co \<and> fLast s > lf then Some (s, FDone co born [])
      else Some (s\<lparr>fSem := False\<rparr>, FRun co born))"
| "fetchNext e s (FRun co born) =
     (if e \<noteq> [] then Some (s\<lparr>fSem := True\<rparr>, FDone co born e) else Some (s, FRead co born (fUpstream s)))"
| "fetchNext e s (FRead co born v) =
     (if e \<noteq> [] then Some (s\<lparr>fSem := True\<rparr>, FDone co born e) else Some (s\<lparr>fMirror := v\<rparr>, FApplied co born))"
| "fetchNext e s (FApplied co born) = Some (s\<lparr>fLast := fNow s, fSem := True\<rparr>, FDone co born [])"
| "fetchNext e s (FDone co born x) = None"
| "fetchNext e s XCall = (if e \<noteq> [] then Some (s, XDone) else if fSem s then Some (s\<lparr>fSem := False\<rparr>, XHold) else None)"
| "fetchNext e s XHold = Some (s\<lparr>fSem := True\<rparr>, XDone)"
| "fetchNext e s XDone = None"

inductive fetch_step :: "fetchSys \<Rightarrow> fetchSys \<Rightarrow> bool" where
  task: "i < length (fTasks s) \<Longrightarrow> fetchNext e s (fTasks s ! i) = Some (s', pc) \<Longrightarrow> fetch_step s (s'\<lparr>fTasks := (fTasks s)[i := pc]\<rparr>)"
| call: "pc \<in> {FCall False, FCall True, XCall} \<Longrightarrow> fetch_step s (s\<lparr>fTasks := fTasks s @ [pc]\<rparr>)"
| push: "fetch_step s (s\<lparr>fUpstream := fUpstream s + 1\<rparr>)"
| tick: "now > fNow s \<Longrightarrow> fetch_step s (s\<lparr>fNow := now\<rparr>)"

definition fetchInit :: "time \<Rightarrow> fetchSys" where
  "fetchInit now = \<lparr>fSem = True, fLast = 0, fNow = now, fUpstream = 0, fMirror = 0, fTasks = []\<rparr>"

section \<open>Model: refs\<close>

text \<open>\<^verbatim>\<open>strings.Fields\<close> for ASCII: the maximal runs of characters that are not white space.\<close>

definition isSpace :: "char \<Rightarrow> bool" where
  "isSpace c \<longleftrightarrow> c \<in> {CHR '' '', CHR 0x09, CHR 0x0A, CHR 0x0B, CHR 0x0C, CHR 0x0D}"

fun FieldsAcc :: "string \<Rightarrow> string \<Rightarrow> string list" where
  "FieldsAcc acc [] = (if acc = [] then [] else [rev acc])"
| "FieldsAcc acc (c # cs) = (if isSpace c then (if acc = [] then [] else [rev acc]) @ FieldsAcc [] cs else FieldsAcc (c # acc) cs)"

definition Fields :: "string \<Rightarrow> string list" where
  "Fields s = FieldsAcc [] s"

definition ParseGitRefs :: "string \<Rightarrow> (string \<rightharpoonup> string)" where
  "ParseGitRefs output =
     fold (\<lambda>line refs. let parts = Fields line in if length parts \<ge> 2 then refs(parts ! 1 \<mapsto> parts ! 0) else refs)
       (Split (CHR 0x0A) output) Map.empty"

definition refsSatisfied :: "(string \<rightharpoonup> string) \<Rightarrow> (string \<times> string) list \<Rightarrow> bool" where
  "refsSatisfied localRefs expect = list_all (\<lambda>(ref, want). case localRefs ref of None \<Rightarrow> False | Some sha \<Rightarrow> want = '''' \<or> sha = want) expect"

definition resolvedRefs :: "(string \<rightharpoonup> string) \<Rightarrow> (string \<times> string) list \<Rightarrow> (string \<rightharpoonup> string)" where
  "resolvedRefs localRefs expect = (\<lambda>ref. if ref \<in> fst ` set expect then Some (case localRefs ref of None \<Rightarrow> '''' | Some sha \<Rightarrow> sha) else None)"

definition missingCommits :: "(string \<Rightarrow> bool) \<Rightarrow> string list \<Rightarrow> string list" where
  "missingCommits has commits = filter (\<lambda>sha. sha \<noteq> '''' \<and> \<not> has sha) commits"

text \<open>
  \<^verbatim>\<open>EnsureRefs\<close>: \<open>before\<close> and \<open>after\<close> are what git reports of the mirror, its refs or an error and the commits it
  has, and \<open>fetchErr\<close> is the result of the fetch in between.
\<close>

definition EnsureRefs :: "((goerr + (string \<rightharpoonup> string)) \<times> (string \<Rightarrow> bool)) \<Rightarrow> goerr \<Rightarrow> ((goerr + (string \<rightharpoonup> string)) \<times> (string \<Rightarrow> bool))
    \<Rightarrow> (string \<times> string) list \<Rightarrow> string list \<Rightarrow> (string \<rightharpoonup> string) \<times> string list \<times> bool \<times> goerr" where
  "EnsureRefs before fetchErr after refs commits =
     (case fst before of
        Inl e \<Rightarrow> (Map.empty, [], False, e)
      | Inr l \<Rightarrow>
          if refsSatisfied l refs \<and> missingCommits (snd before) commits = [] then (resolvedRefs l refs, [], False, [])
          else if fetchErr \<noteq> [] then (Map.empty, [], False, fetchErr)
          else (case fst after of
             Inl e \<Rightarrow> (Map.empty, [], True, e)
           | Inr l' \<Rightarrow> (resolvedRefs l' refs, missingCommits (snd after) commits, True, [])))"

record refCheck =
  rcLast :: time
  rcValid :: bool

text \<open>\<^verbatim>\<open>EnsureRefsUpToDate\<close>; the upstream's refs are visited in any order.\<close>

definition staleRef :: "(string \<rightharpoonup> string) \<Rightarrow> string \<times> string \<Rightarrow> bool" where
  "staleRef localRefs = (\<lambda>(ref, sha). \<not> HasSuffix ref ''^{}'' \<and> HasPrefix ref ''refs/heads/'' \<and> localRefs ref \<noteq> Some sha)"

definition EnsureRefsUpToDate :: "duration \<Rightarrow> time \<Rightarrow> (goerr + (string \<rightharpoonup> string)) \<Rightarrow> (goerr + (string \<times> string) list) \<Rightarrow> time \<Rightarrow> refCheck
    \<Rightarrow> (bool \<times> goerr) \<times> refCheck" where
  "EnsureRefsUpToDate interval now local upstream later rc =
     (if rcValid rc \<and> now - rcLast rc < interval then ((False, []), rc)
      else let rc1 = rc\<lparr>rcValid := False\<rparr>
           in case local of
                Inl e \<Rightarrow> ((False, e), rc1)
              | Inr l \<Rightarrow>
                  (case upstream of
                     Inl e \<Rightarrow> ((False, e), rc1)
                   | Inr us \<Rightarrow> if list_ex (staleRef l) us then ((True, []), rc1)
                               else ((False, []), \<lparr>rcLast = later, rcValid = True\<rparr>)))"


section \<open>Lemmas: fetches\<close>

fun holds :: "fetchPc \<Rightarrow> nat" where
  "holds (FRun co born) = 1" | "holds (FRead co born v) = 1" | "holds (FApplied co born) = 1" | "holds XHold = 1" | "holds _ = 0"

text \<open>What each task knows of the versions: \<open>up\<close> of the upstream and \<open>mir\<close> of the mirror.\<close>

fun fresh :: "nat \<Rightarrow> nat \<Rightarrow> fetchPc \<Rightarrow> bool" where
  "fresh up mir (FSelect co lf born) \<longleftrightarrow> born \<le> up"
| "fresh up mir (FBlocked co lf born) \<longleftrightarrow> born \<le> up"
| "fresh up mir (FRun co born) \<longleftrightarrow> born \<le> up"
| "fresh up mir (FRead co born v) \<longleftrightarrow> born \<le> v \<and> mir \<le> v \<and> v \<le> up"
| "fresh up mir (FApplied co born) \<longleftrightarrow> born \<le> mir"
| "fresh up mir (FDone co born e) \<longleftrightarrow> \<not> co \<and> e = [] \<longrightarrow> born \<le> mir"
| "fresh up mir _ \<longleftrightarrow> True"

definition fetch_inv :: "fetchSys \<Rightarrow> bool" where
  "fetch_inv s \<longleftrightarrow> sum_list (map holds (fTasks s)) + (if fSem s then 1 else 0) = 1 \<and> fMirror s \<le> fUpstream s \<and>
     (\<forall>pc \<in> set (fTasks s). fresh (fUpstream s) (fMirror s) pc)"

lemma two_le_sum_list:
  fixes f :: "'a \<Rightarrow> nat"
  assumes "i < length xs" "j < length xs" "i \<noteq> j"
  shows "f (xs ! i) + f (xs ! j) \<le> sum_list (map f xs)"
  using assms
proof (induction xs arbitrary: i j)
  case (Cons x xs)
  have one: "k < length xs \<Longrightarrow> f (xs ! k) \<le> sum_list (map f xs)" for k
    by (simp add: le_sum_list_map)
  show ?case
  proof (cases i)
    case 0
    then show ?thesis using Cons.prems one by (cases j) auto
  next
    case (Suc i')
    show ?thesis
    proof (cases j)
      case 0
      then show ?thesis using Suc Cons.prems one [of i'] by simp
    next
      case (Suc j')
      then show ?thesis using Cons.IH [of i' j'] Cons.prems \<open>i = Suc i'\<close> by simp
    qed
  qed
qed simp

lemma fetchNext_inv:
  assumes "fetchNext e s pc = Some (s', pc')" "fresh (fUpstream s) (fMirror s) pc" "fMirror s \<le> fUpstream s"
  shows "fUpstream s' = fUpstream s \<and> fMirror s \<le> fMirror s' \<and> fMirror s' \<le> fUpstream s' \<and> fresh (fUpstream s') (fMirror s') pc' \<and>
    (fMirror s' \<noteq> fMirror s \<longrightarrow> holds pc = 1) \<and>
    (\<forall>n. n + holds pc + (if fSem s then 1 else 0) = 1 \<longrightarrow> n + holds pc' + (if fSem s' then 1 else 0) = 1)"
  using assms by (cases pc) (auto split: if_splits)

lemma fresh_mono: "fresh up mir pc \<Longrightarrow> up \<le> up' \<Longrightarrow> mir \<le> mir' \<Longrightarrow> mir' = mir \<or> holds pc = 0 \<Longrightarrow> fresh up' mir' pc"
  by (cases pc) auto

lemma fetch_inv_step: "fetch_step s s' \<Longrightarrow> fetch_inv s \<Longrightarrow> fetch_inv s'"
proof (induction rule: fetch_step.induct)
  case (task i s e s' pc)
  let ?pc = "fTasks s ! i"
  have inv: "sum_list (map holds (fTasks s)) + (if fSem s then 1 else 0) = 1" "fMirror s \<le> fUpstream s"
    "\<And>pc. pc \<in> set (fTasks s) \<Longrightarrow> fresh (fUpstream s) (fMirror s) pc" using task(3) by (simp_all add: fetch_inv_def)
  note st = fetchNext_inv [OF task(2) inv(3) [OF nth_mem [OF task(1)]] inv(2)]
  have le: "holds ?pc \<le> sum_list (map holds (fTasks s))" using task(1) by (simp add: le_sum_list_map)
  have upd: "sum_list (map holds ((fTasks s)[i := pc])) = sum_list (map holds (fTasks s)) - holds ?pc + holds pc"
    using sum_list_update_nat [OF task(1), of holds pc] le by linarith
  have sem: "sum_list (map holds ((fTasks s)[i := pc])) + (if fSem s' then 1 else 0) = 1"
    unfolding upd using st inv(1) le by (metis add.assoc le_add_diff_inverse2)
  have "fresh (fUpstream s') (fMirror s') ((fTasks s)[i := pc] ! j)" if j: "j < length (fTasks s)" for j
  proof (cases "j = i")
    case True
    then show ?thesis using st task(1) by auto
  next
    case False
    have "fMirror s' = fMirror s \<or> holds (fTasks s ! j) = 0"
      using st two_le_sum_list [OF task(1) j, of holds] False inv(1) by force
    then show ?thesis using fresh_mono [OF inv(3) [OF nth_mem [OF j]]] st False by simp
  qed
  then have "\<forall>pc \<in> set ((fTasks s)[i := pc]). fresh (fUpstream s') (fMirror s') pc" by (metis in_set_conv_nth length_list_update)
  moreover have "fMirror s' \<le> fUpstream s'" using st by blast
  ultimately show ?case using sem by (simp add: fetch_inv_def)
next
  case (call pc s)
  then show ?case by (auto simp: fetch_inv_def)
next
  case (push s)
  then have "fresh (fUpstream s + 1) (fMirror s) pc" if "pc \<in> set (fTasks s)" for pc
    using fresh_mono [of "fUpstream s" "fMirror s" pc "fUpstream s + 1" "fMirror s"] that by (simp add: fetch_inv_def)
  then show ?case using push by (simp add: fetch_inv_def)
next
  case (tick s now)
  then show ?case by (simp add: fetch_inv_def)
qed

lemma fetch_inv_reach:
  assumes "fetch_step\<^sup>*\<^sup>* (fetchInit now) s"
  shows "fetch_inv s"
  using assms
proof (induction rule: rtranclp_induct)
  case base
  then show ?case by (simp add: fetchInit_def fetch_inv_def)
qed (rule fetch_inv_step)


section \<open>Properties\<close>

lemma Split_seg_no_sep: "seg \<in> set (Split c s) \<Longrightarrow> c \<notin> set seg"
  by (induction c s arbitrary: seg rule: Split.induct) (auto split: if_splits list.splits)

text \<open>
  C34: at most one task works on a mirror.  However callers of \<^verbatim>\<open>Clone\<close> and \<^verbatim>\<open>startClone\<close> and deferred restores
  interleave, and whatever their git commands return, the state is \<^verbatim>\<open>StateCloning\<close> exactly while one task holds
  the claim, no two ever do, a repository that is \<^verbatim>\<open>StateReady\<close> has its mirror in place, and a caller
  that waits never waits for nobody: the task with the claim can always go on.
\<close>

theorem clone_exclusive:
  assumes "newRepository hasHead hasDir resetErr unsafe removeErr configErr = Inr r" "clone_step\<^sup>*\<^sup>* \<lparr>cyRepo = r, cyTasks = []\<rparr> s"
  shows "sum_list (map own (cyTasks s)) = (if rState (cyRepo s) = StateCloning then 1 else 0) \<and>
    (rState (cyRepo s) = StateReady \<longrightarrow> rMirror (cyRepo s)) \<and>
    (rState (cyRepo s) = StateCloning \<longrightarrow>
       (\<exists>i < length (cyTasks s). own (cyTasks s ! i) = 1 \<and> (\<forall>e now. e \<noteq> [] \<longrightarrow> taskNext e now (cyRepo s) (cyTasks s ! i) \<noteq> None)))"
proof -
  have inv: "repo_inv (cyRepo s) (sum_list (map own (cyTasks s))) (sum_list (map hot (cyTasks s)))"
    using clone_inv_reach [OF assms(2,1)] by (simp add: clone_inv_def)
  have run: "\<exists>i < length (cyTasks s). own (cyTasks s ! i) = 1 \<and> (\<forall>e now. e \<noteq> [] \<longrightarrow> taskNext e now (cyRepo s) (cyTasks s ! i) \<noteq> None)"
    if "rState (cyRepo s) = StateCloning"
  proof -
    have "0 < sum_list (map own (cyTasks s))" using inv that by (simp add: repo_inv_def)
    then obtain i where "i < length (cyTasks s)" "own (cyTasks s ! i) = 1" using owner_exists by blast
    then show ?thesis using owner_steps that by blast
  qed
  show ?thesis using inv run by (auto simp: repo_inv_def split: if_splits)
qed

text \<open>
  C35: a verified fetch is fresh.  In every interleaving of fetches, operations that exclude them and pushes to the
  upstream, when \<^verbatim>\<open>FetchVerified\<close> returned without an error the mirror holds a version of the upstream at least as
  new as when the call began; versions never go back, and no fetch overlaps another or an exclusive operation.
\<close>

theorem fetch_verified_fresh:
  assumes "fetch_step\<^sup>*\<^sup>* (fetchInit now) s"
  shows "(\<forall>born. FDone False born [] \<in> set (fTasks s) \<longrightarrow> born \<le> fMirror s) \<and> fMirror s \<le> fUpstream s \<and>
    sum_list (map holds (fTasks s)) = (if fSem s then 0 else 1) \<and>
    (\<forall>s'. fetch_step s s' \<longrightarrow> fMirror s \<le> fMirror s')"
proof -
  have inv: "fetch_inv s" by (rule fetch_inv_reach [OF assms])
  have "fMirror s \<le> fMirror s'" if "fetch_step s s'" for s'
    using that
  proof cases
    case (task i e s1 pc)
    then show ?thesis using fetchNext_inv [OF task(3)] inv by (force simp: fetch_inv_def)
  qed simp_all
  then show ?thesis using inv by (auto simp: fetch_inv_def split: if_splits)
qed

text \<open>
  A coalesced fetch may be stale.  \<^verbatim>\<open>Fetch\<close> and \<^verbatim>\<open>FetchWithTimeout\<close>, which \<^verbatim>\<open>EnsureRefs\<close> uses, also return without an error
  when a fetch that had already read the upstream finishes while they wait: there is a run in which the
  call returns success and the mirror is older than the upstream was when the call began.
\<close>

lemma fetch_coalesced_stale:
  "\<exists>s. fetch_step\<^sup>*\<^sup>* (fetchInit 1) s \<and> FDone True 1 [] \<in> set (fTasks s) \<and> fMirror s < 1"
proof -
  let ?s = "\<lambda>sem lf now up ts. \<lparr>fSem = sem, fLast = lf, fNow = now, fUpstream = up, fMirror = 0, fTasks = ts\<rparr>"
  have step: "fetch_step\<^sup>*\<^sup>* (fetchInit 1) s \<Longrightarrow> fetch_step s s' \<Longrightarrow> fetch_step\<^sup>*\<^sup>* (fetchInit 1) s'" for s s' by simp
  have t: "i < length (fTasks s) \<Longrightarrow> fetchNext [] s (fTasks s ! i) = Some (s1, pc) \<Longrightarrow> s' = s1\<lparr>fTasks := (fTasks s)[i := pc]\<rparr> \<Longrightarrow> fetch_step s s'" for i s s1 pc s'
    using fetch_step.task by blast
  have "fetch_step\<^sup>*\<^sup>* (fetchInit 1) (?s True 0 1 0 [])" by (simp add: fetchInit_def)
  then have "fetch_step\<^sup>*\<^sup>* (fetchInit 1) (?s True 0 1 0 [FCall True])"
    by (rule step) (use fetch_step.call [of "FCall True" "?s True 0 1 0 []"] in simp)
  then have "fetch_step\<^sup>*\<^sup>* (fetchInit 1) (?s True 0 1 0 [FSelect True 0 0])" by (rule step) (rule t [of 0], simp, simp, simp)
  then have "fetch_step\<^sup>*\<^sup>* (fetchInit 1) (?s False 0 1 0 [FRun True 0])" by (rule step) (rule t [of 0], simp, simp, simp)
  then have "fetch_step\<^sup>*\<^sup>* (fetchInit 1) (?s False 0 1 0 [FRead True 0 0])" by (rule step) (rule t [of 0], simp, simp, simp)
  then have "fetch_step\<^sup>*\<^sup>* (fetchInit 1) (?s False 0 1 1 [FRead True 0 0])"
    by (rule step) (use fetch_step.push [of "?s False 0 1 0 [FRead True 0 0]"] in simp)
  then have "fetch_step\<^sup>*\<^sup>* (fetchInit 1) (?s False 0 1 1 [FRead True 0 0, FCall True])"
    by (rule step) (use fetch_step.call [of "FCall True" "?s False 0 1 1 [FRead True 0 0]"] in simp)
  then have "fetch_step\<^sup>*\<^sup>* (fetchInit 1) (?s False 0 1 1 [FRead True 0 0, FSelect True 0 1])" by (rule step) (rule t [of 1], simp, simp, simp)
  then have "fetch_step\<^sup>*\<^sup>* (fetchInit 1) (?s False 0 1 1 [FRead True 0 0, FBlocked True 0 1])" by (rule step) (rule t [of 1], simp, simp, simp)
  then have "fetch_step\<^sup>*\<^sup>* (fetchInit 1) (?s False 0 1 1 [FApplied True 0, FBlocked True 0 1])" by (rule step) (rule t [of 0], simp, simp, simp)
  then have "fetch_step\<^sup>*\<^sup>* (fetchInit 1) (?s True 1 1 1 [FDone True 0 [], FBlocked True 0 1])" by (rule step) (rule t [of 0], simp, simp, simp)
  then have "fetch_step\<^sup>*\<^sup>* (fetchInit 1) (?s True 1 1 1 [FDone True 0 [], FDone True 1 []])" by (rule step) (rule t [of 1], simp, simp, simp)
  then show ?thesis by (intro exI [of _ "?s True 1 1 1 [FDone True 0 [], FDone True 1 []]"]) simp
qed

text \<open>
  A clone path stays inside the mirror root.  Whatever URL a request names, the path is the root followed by at
  least one component, and no component is empty, a dot, leads upwards or contains a separator.
\<close>

lemma clone_path_local:
  assumes "clonePathForURL parse root url = Inr p"
  shows "\<exists>cs. p = root @ cs \<and> cs \<noteq> [] \<and> (\<forall>c \<in> set cs. c \<notin> {'''', ''.'', ''..''} \<and> CHR ''/'' \<notin> set c \<and> CHR 0x5C \<notin> set c)"
proof -
  obtain cs where cs: "RepoPathFromURL parse url = Inr cs" "p = root @ cs" using assms by (auto simp: clonePathForURL_def split: sum.splits)
  obtain u where pu: "parse url = Some u" using cs(1) by (auto simp: RepoPathFromURL_def split: option.splits)
  define rp where "rp = TrimSuffix1 (TrimSuffix1 (TrimPrefix1 (uPath u) ''/'') ''/'') ''.git''"
  note run = cs(1) [unfolded RepoPathFromURL_def pu option.case Let_def, folded rp_def]
  have u: "uHost u \<noteq> ''''" "uHost u \<noteq> ''..''" "CHR ''/'' \<notin> set (uHost u)" "CHR 0x5C \<notin> set (uHost u)"
    using run by (simp_all split: if_splits del: filter.simps)
  have rp: "\<not> (\<exists>s \<in> set (Split (CHR ''/'') rp). s = '''' \<or> s = ''.'' \<or> s = ''..'' \<or> CHR 0x5C \<in> set s)"
      "cs = filter (\<lambda>c. c \<noteq> ''.'') (uHost u # Split (CHR ''/'') rp)"
    using run by (simp_all split: if_splits del: filter.simps)
  have "Split (CHR ''/'') rp \<noteq> []" by simp
  then have "cs \<noteq> []" using rp by (cases "Split (CHR ''/'') rp") auto
  then show ?thesis using cs(2) rp u Split_seg_no_sep [of _ "CHR ''/''" rp] by auto
qed


section \<open>Refs and concrete runs\<close>

text \<open>What \<^verbatim>\<open>EnsureRefs\<close> promises: without a fetch everything asked for is there, and what it reports is what the mirror has.\<close>

lemma EnsureRefs_satisfied:
  assumes "EnsureRefs before fetchErr after refs commits = (resolved, missing, fetched, [])" "\<not> fetched" "(ref, want) \<in> set refs" "fst before \<noteq> Inl []"
  shows "missing = [] \<and> (\<exists>l sha. fst before = Inr l \<and> l ref = Some sha \<and> resolved ref = Some sha \<and> (want = '''' \<or> sha = want)) \<and>
    (\<forall>c \<in> set commits. c = '''' \<or> snd before c)"
proof -
  obtain l where l: "fst before = Inr l" "refsSatisfied l refs" "missingCommits (snd before) commits = []" "resolved = resolvedRefs l refs" "missing = []"
    using assms(1,2,4) by (auto simp: EnsureRefs_def split: sum.splits if_splits)
  have "case (ref, want) of (ref, want) \<Rightarrow> (case l ref of None \<Rightarrow> False | Some sha \<Rightarrow> want = '''' \<or> sha = want)"
    using l(2) assms(3) unfolding refsSatisfied_def list_all_iff by blast
  then obtain sha where "l ref = Some sha" "want = '''' \<or> sha = want" by (auto split: option.splits)
  moreover from this(1) have "resolved ref = Some sha" using assms(3) l(4) by (force simp: resolvedRefs_def)
  ultimately show ?thesis using l by (auto simp: missingCommits_def filter_empty_conv)
qed

text \<open>A check that found nothing to fetch saw every branch of the upstream in the mirror.\<close>

lemma EnsureRefsUpToDate_current:
  assumes "EnsureRefsUpToDate interval now (Inr l) (Inr us) later rc = ((False, []), rc')" "\<not> (rcValid rc \<and> now - rcLast rc < interval)"
    and "(ref, sha) \<in> set us" "HasPrefix ref ''refs/heads/''" "\<not> HasSuffix ref ''^{}''"
  shows "l ref = Some sha"
proof -
  have "\<not> list_ex (staleRef l) us" using assms(1,2) by (auto simp: EnsureRefsUpToDate_def split: if_splits)
  then show ?thesis using assms(3-5) by (fastforce simp: list_ex_iff staleRef_def)
qed

theorem clone_exclusive_witness:
  "\<exists>s. clone_step\<^sup>*\<^sup>* \<lparr>cyRepo = \<lparr>rState = StateEmpty, rLastFetch = 0, rMirror = False\<rparr>, cyTasks = []\<rparr> s \<and>
     rState (cyRepo s) = StateCloning \<and> sum_list (map own (cyTasks s)) = 1"
proof -
  let ?r = "\<lparr>rState = StateEmpty, rLastFetch = 0, rMirror = False\<rparr>"
  let ?a = "\<lparr>cyRepo = ?r, cyTasks = [KStart]\<rparr>" and ?b = "\<lparr>cyRepo = ?r\<lparr>rState := StateCloning\<rparr>, cyTasks = [KClaimed]\<rparr>"
  have "clone_step \<lparr>cyRepo = ?r, cyTasks = []\<rparr> ?a" using clone_step.call [of KStart "\<lparr>cyRepo = ?r, cyTasks = []\<rparr>"] by simp
  moreover have "clone_step ?a ?b"
    using clone_step.task [of 0 ?a "[]" 0 "?r\<lparr>rState := StateCloning\<rparr>" KClaimed] by (simp add: taskNext_def TryStartCloning_def)
  ultimately have run: "clone_step\<^sup>*\<^sup>* \<lparr>cyRepo = ?r, cyTasks = []\<rparr> ?b" by simp
  have new: "newRepository False False [] False [] [] = Inr ?r" by (simp add: newRepository_def)
  show ?thesis using clone_exclusive [OF new run] run by (intro exI [of _ ?b]) simp
qed

theorem fetch_verified_fresh_witness:
  "\<exists>s. fetch_step\<^sup>*\<^sup>* (fetchInit 1) s \<and> fTasks s = [FCall False] \<and> fMirror s \<le> fUpstream s"
proof -
  let ?s = "(fetchInit 1)\<lparr>fTasks := [FCall False]\<rparr>"
  have run: "fetch_step\<^sup>*\<^sup>* (fetchInit 1) ?s" using fetch_step.call [of "FCall False" "fetchInit 1"] by (simp add: fetchInit_def r_into_rtranclp)
  show ?thesis using fetch_verified_fresh [OF run] run by (intro exI [of _ ?s]) simp
qed

text \<open>The URL of a repository on a host, as the parser returns it.\<close>

definition hostURL :: "string \<Rightarrow> string \<Rightarrow> parsedURL" where
  "hostURL host path = \<lparr>uScheme = ''https'', uHost = host, uUser = False, uPath = path, uRawQuery = '''', uFragment = ''''\<rparr>"

lemma hostURL_path: "clonePathForURL (\<lambda>_. Some (hostURL ''h'' ''/a/b.git'')) [''m''] u = Inr [''m'', ''h'', ''a'', ''b'']"
  by (simp add: clonePathForURL_def RepoPathFromURL_def hostURL_def Let_def TrimSuffix1_def TrimPrefix1_def)

text \<open>Two upstreams can share a directory: the host \<^verbatim>\<open>.\<close> is dropped from the path.\<close>

lemma dot_host_collides:
  "RepoPathFromURL (\<lambda>_. Some (hostURL ''.'' ''/h/a'')) u = RepoPathFromURL (\<lambda>_. Some (hostURL ''h'' ''/a'')) v"
  by (simp add: RepoPathFromURL_def hostURL_def Let_def TrimSuffix1_def TrimPrefix1_def)

lemma clone_path_local_witness:
  "\<exists>cs. [''m'', ''h'', ''a'', ''b''] = [''m''] @ cs \<and> cs \<noteq> [] \<and> (\<forall>c \<in> set cs. c \<notin> {'''', ''.'', ''..''} \<and> CHR ''/'' \<notin> set c \<and> CHR 0x5C \<notin> set c)"
  by (rule clone_path_local [OF hostURL_path])

end
