(* ===== verification/SnapshotCoord.thy ===== *)
theory SnapshotCoord
  imports Prelude
begin

text \<open>
  The coordination of snapshot generation between replicas, \<^verbatim>\<open>internal/strategy/git/snapshotcoord.go\<close>.

  The coordinator keeps a record per artifact in a map of the metadata store; theory \<open>MetadataOps\<close> shows that such a map is
  a finite function whose last write wins, and so it is here.  A nil coordinator is \<open>None\<close>.  The clock, the fresh claim
  id, the error of the write and the result of a refresh are arguments.  \<open>coord_step\<close> is the interleaving of any number
  of replicas on a store that is in sync; it carries the claims that were granted and not ended, and the
  uploads, as history.
\<close>

section \<open>Model\<close>

record snapshotGenRecord =
  StartedAt :: time
  CompletedAt :: time
  CheckedAt :: time
  ClaimExpiresAt :: time
  Commit :: string
  ClaimID :: string

type_synonym gens = "string \<rightharpoonup> snapshotGenRecord"

definition zeroRecord :: snapshotGenRecord where
  "zeroRecord = \<lparr>StartedAt = 0, CompletedAt = 0, CheckedAt = 0, ClaimExpiresAt = 0, Commit = '''', ClaimID = ''''\<rparr>"

definition snapshotClaimTTL :: duration where
  "snapshotClaimTTL = 30 * 60 * 1000000000"

definition snapshotGenKey :: "string \<Rightarrow> string \<Rightarrow> string" where
  "snapshotGenKey job upstreamURL = job @ ''|'' @ upstreamURL"

definition genGet :: "gens \<Rightarrow> string \<Rightarrow> snapshotGenRecord" where
  "genGet g key = (case g key of None \<Rightarrow> zeroRecord | Some rec \<Rightarrow> rec)"

text \<open>\<^verbatim>\<open>Map.Set\<close>, which leaves the map alone when it fails.\<close>

definition genSet :: "goerr \<Rightarrow> gens \<Rightarrow> string \<Rightarrow> snapshotGenRecord \<Rightarrow> gens" where
  "genSet e g key rec = (if e \<noteq> [] then g else g(key \<mapsto> rec))"

text \<open>The reasons to decline a claim.\<close>

definition claimDeclined :: "time \<Rightarrow> duration \<Rightarrow> snapshotGenRecord \<Rightarrow> bool" where
  "claimDeclined now interval rec \<longleftrightarrow>
     (CompletedAt rec \<noteq> 0 \<and> now - CompletedAt rec < interval) \<or>
     (CheckedAt rec \<noteq> 0 \<and> now - CheckedAt rec < interval) \<or>
     (CompletedAt rec < StartedAt rec \<and>
      now < (if ClaimExpiresAt rec = 0 then StartedAt rec + snapshotClaimTTL else ClaimExpiresAt rec))"

definition ClaimWithTTL :: "gens option \<Rightarrow> time \<Rightarrow> string \<Rightarrow> goerr \<Rightarrow> string \<Rightarrow> string \<Rightarrow> duration \<Rightarrow> duration \<Rightarrow> (string \<times> bool \<times> goerr) \<times> gens option" where
  "ClaimWithTTL c now uuid setErr job url interval claimTTL =
     (case c of
        None \<Rightarrow> (('''', True, []), c)
      | Some g \<Rightarrow>
          let ttl = (if claimTTL \<le> 0 then snapshotClaimTTL else claimTTL); key = snapshotGenKey job url
          in if g key \<noteq> None \<and> claimDeclined now interval (genGet g key) then (('''', False, []), c)
             else ((uuid, True, setErr),
                   Some (genSet setErr g key ((genGet g key)\<lparr>StartedAt := now, ClaimID := uuid, ClaimExpiresAt := now + ttl\<rparr>))))"

definition Claim :: "gens option \<Rightarrow> time \<Rightarrow> string \<Rightarrow> goerr \<Rightarrow> string \<Rightarrow> string \<Rightarrow> duration \<Rightarrow> (bool \<times> goerr) \<times> gens option" where
  "Claim c now uuid setErr job url interval =
     (case ClaimWithTTL c now uuid setErr job url interval snapshotClaimTTL of ((_, claimed, e), c1) \<Rightarrow> ((claimed, e), c1))"

definition completed :: "time \<Rightarrow> string \<Rightarrow> snapshotGenRecord \<Rightarrow> snapshotGenRecord" where
  "completed now commit rec = rec\<lparr>CompletedAt := now, Commit := commit, ClaimID := '''', ClaimExpiresAt := 0\<rparr>"

definition skipped :: "time \<Rightarrow> snapshotGenRecord \<Rightarrow> snapshotGenRecord" where
  "skipped now rec =
     rec\<lparr>CheckedAt := now, StartedAt := (if CompletedAt rec < StartedAt rec then CompletedAt rec else StartedAt rec),
         ClaimID := '''', ClaimExpiresAt := 0\<rparr>"

definition Complete :: "gens option \<Rightarrow> time \<Rightarrow> goerr \<Rightarrow> string \<Rightarrow> string \<Rightarrow> string \<Rightarrow> goerr \<times> gens option" where
  "Complete c now setErr job url commit =
     (case c of
        None \<Rightarrow> ([], c)
      | Some g \<Rightarrow> let key = snapshotGenKey job url in (setErr, Some (genSet setErr g key (completed now commit (genGet g key)))))"

definition Skip :: "gens option \<Rightarrow> time \<Rightarrow> goerr \<Rightarrow> string \<Rightarrow> string \<Rightarrow> goerr \<times> gens option" where
  "Skip c now setErr job url =
     (case c of
        None \<Rightarrow> ([], c)
      | Some g \<Rightarrow> let key = snapshotGenKey job url in (setErr, Some (genSet setErr g key (skipped now (genGet g key)))))"

text \<open>\<^verbatim>\<open>Prime\<close>: the view after a refresh, or the error.\<close>

definition Prime :: "(goerr + gens) \<Rightarrow> gens option \<Rightarrow> goerr \<times> gens option" where
  "Prime refresh c = (case c of None \<Rightarrow> ([], c) | Some g \<Rightarrow> (case refresh of Inl e \<Rightarrow> (e, c) | Inr g' \<Rightarrow> ([], Some g')))"

text \<open>The operations of a claim's owner share the refresh and the check of the claim id.\<close>

definition ownedUpdate :: "(goerr + gens) \<Rightarrow> gens option \<Rightarrow> goerr \<Rightarrow> string \<Rightarrow> string \<Rightarrow> string
    \<Rightarrow> (snapshotGenRecord \<Rightarrow> bool) \<Rightarrow> (snapshotGenRecord \<Rightarrow> snapshotGenRecord) \<Rightarrow> goerr \<times> gens option" where
  "ownedUpdate refresh c setErr job url claimID may upd =
     (if c = None \<or> claimID = '''' then ([], c)
      else case Prime refresh c of (e, c1) \<Rightarrow>
        if e \<noteq> [] then (e, c1)
        else case c1 of
          None \<Rightarrow> ([], c1)
        | Some g \<Rightarrow>
            let key = snapshotGenKey job url
            in (case g key of
                  None \<Rightarrow> ([], c1)
                | Some rec \<Rightarrow> if ClaimID rec \<noteq> claimID \<or> \<not> may rec then ([], c1) else (setErr, Some (genSet setErr g key (upd rec)))))"

definition CompleteClaim :: "(goerr + gens) \<Rightarrow> gens option \<Rightarrow> time \<Rightarrow> goerr \<Rightarrow> string \<Rightarrow> string \<Rightarrow> string \<Rightarrow> string \<Rightarrow> goerr \<times> gens option" where
  "CompleteClaim refresh c now setErr job url claimID commit = ownedUpdate refresh c setErr job url claimID (\<lambda>_. True) (completed now commit)"

definition SkipClaim :: "(goerr + gens) \<Rightarrow> gens option \<Rightarrow> time \<Rightarrow> goerr \<Rightarrow> string \<Rightarrow> string \<Rightarrow> string \<Rightarrow> goerr \<times> gens option" where
  "SkipClaim refresh c now setErr job url claimID = ownedUpdate refresh c setErr job url claimID (\<lambda>_. True) (skipped now)"

definition Fail :: "(goerr + gens) \<Rightarrow> gens option \<Rightarrow> goerr \<Rightarrow> string \<Rightarrow> string \<Rightarrow> string \<Rightarrow> goerr \<times> gens option" where
  "Fail refresh c setErr job url claimID =
     ownedUpdate refresh c setErr job url claimID (\<lambda>rec. CompletedAt rec < StartedAt rec)
       (\<lambda>rec. rec\<lparr>StartedAt := CompletedAt rec, ClaimID := '''', ClaimExpiresAt := 0\<rparr>)"

definition Unchanged :: "gens option \<Rightarrow> time \<Rightarrow> string \<Rightarrow> string \<Rightarrow> string \<Rightarrow> duration \<Rightarrow> bool" where
  "Unchanged c now job url commit maxAge \<longleftrightarrow>
     (case c of
        None \<Rightarrow> False
      | Some g \<Rightarrow>
          commit \<noteq> '''' \<and> maxAge > 0 \<and>
          (case g (snapshotGenKey job url) of
             None \<Rightarrow> False
           | Some rec \<Rightarrow> Commit rec = commit \<and> CompletedAt rec \<noteq> 0 \<and> now - CompletedAt rec < maxAge))"

section \<open>Model: replicas\<close>

record coordSys =
  gGens :: gens
  gNow :: time
  gIds :: "string set"
  gHolder :: "string \<rightharpoonup> string \<times> time"
  gUploads :: "(string \<times> string \<times> time) set"

text \<open>
  The claims of one artifact have a positive interval; claim ids are fresh.  A replica ends a claim by completing, skipping or
  failing it; a write that fails changes nothing and the claim it was for is not recorded.
\<close>

inductive coord_step :: "coordSys \<Rightarrow> coordSys \<Rightarrow> bool" where
  claim: "ClaimWithTTL (Some (gGens s)) (gNow s) uuid [] job url interval ttl = ((uuid, True, []), Some g) \<Longrightarrow>
    uuid \<noteq> '''' \<Longrightarrow> uuid \<notin> gIds s \<Longrightarrow> 0 < interval \<Longrightarrow>
    coord_step s (s\<lparr>gGens := g, gIds := insert uuid (gIds s),
      gHolder := (gHolder s)(snapshotGenKey job url \<mapsto> (uuid, gNow s + (if ttl \<le> 0 then snapshotClaimTTL else ttl)))\<rparr>)"
| complete: "CompleteClaim (Inr (gGens s)) (Some (gGens s)) (gNow s) [] job url cid commit = ([], Some g) \<Longrightarrow>
    owns = (cid \<noteq> '''' \<and> (\<exists>rec. gGens s (snapshotGenKey job url) = Some rec \<and> ClaimID rec = cid)) \<Longrightarrow>
    coord_step s (s\<lparr>gGens := g, gHolder := (if owns then (gHolder s)(snapshotGenKey job url := None) else gHolder s),
      gUploads := (if owns then insert (snapshotGenKey job url, commit, gNow s) (gUploads s) else gUploads s)\<rparr>)"
| skip: "SkipClaim (Inr (gGens s)) (Some (gGens s)) (gNow s) [] job url cid = ([], Some g) \<Longrightarrow>
    owns = (cid \<noteq> '''' \<and> (\<exists>rec. gGens s (snapshotGenKey job url) = Some rec \<and> ClaimID rec = cid)) \<Longrightarrow>
    coord_step s (s\<lparr>gGens := g, gHolder := (if owns then (gHolder s)(snapshotGenKey job url := None) else gHolder s)\<rparr>)"
| fail: "Fail (Inr (gGens s)) (Some (gGens s)) [] job url cid = ([], Some g) \<Longrightarrow>
    owns = (cid \<noteq> '''' \<and> (\<exists>rec. gGens s (snapshotGenKey job url) = Some rec \<and> ClaimID rec = cid \<and> CompletedAt rec < StartedAt rec)) \<Longrightarrow>
    coord_step s (s\<lparr>gGens := g, gHolder := (if owns then (gHolder s)(snapshotGenKey job url := None) else gHolder s)\<rparr>)"
| finish: "Complete (Some (gGens s)) (gNow s) [] job url commit = ([], Some g) \<Longrightarrow>
    coord_step s (s\<lparr>gGens := g, gHolder := (gHolder s)(snapshotGenKey job url := None),
      gUploads := insert (snapshotGenKey job url, commit, gNow s) (gUploads s)\<rparr>)"
| drop: "Skip (Some (gGens s)) (gNow s) [] job url = ([], Some g) \<Longrightarrow>
    coord_step s (s\<lparr>gGens := g, gHolder := (gHolder s)(snapshotGenKey job url := None)\<rparr>)"
| wait: "gNow s \<le> now \<Longrightarrow> coord_step s (s\<lparr>gNow := now\<rparr>)"

definition coordInit :: "time \<Rightarrow> coordSys" where
  "coordInit now = \<lparr>gGens = Map.empty, gNow = now, gIds = {}, gHolder = Map.empty, gUploads = {}\<rparr>"

section \<open>Lemmas\<close>

text \<open>A claim that was granted and not ended is the one in the record.\<close>

definition key_ok :: "coordSys \<Rightarrow> string \<Rightarrow> bool" where
  "key_ok s key \<longleftrightarrow>
     (\<forall>rec. gGens s key = Some rec \<longrightarrow> 0 \<le> CompletedAt rec \<and> CompletedAt rec \<le> gNow s \<and>
        (CompletedAt rec \<noteq> 0 \<longrightarrow> (key, Commit rec, CompletedAt rec) \<in> gUploads s)) \<and>
     (\<forall>cid ex. gHolder s key = Some (cid, ex) \<longrightarrow>
        (\<exists>rec. gGens s key = Some rec \<and> ClaimID rec = cid \<and> cid \<noteq> '''' \<and> ClaimExpiresAt rec = ex \<and> ex \<noteq> 0 \<and> CompletedAt rec < StartedAt rec))"

definition coord_inv :: "coordSys \<Rightarrow> bool" where
  "coord_inv s \<longleftrightarrow> 0 < gNow s \<and> (\<forall>key. key_ok s key)"

lemma claim_granted:
  assumes "ClaimWithTTL (Some g) now uuid [] job url interval ttl = ((uuid, True, []), Some g')"
  shows "g' = g(snapshotGenKey job url \<mapsto> (genGet g (snapshotGenKey job url))\<lparr>StartedAt := now, ClaimID := uuid,
      ClaimExpiresAt := now + (if ttl \<le> 0 then snapshotClaimTTL else ttl)\<rparr>) \<and>
    (\<forall>rec. g (snapshotGenKey job url) = Some rec \<longrightarrow> \<not> claimDeclined now interval rec)"
  using assms by (auto simp: ClaimWithTTL_def Let_def genSet_def genGet_def split: if_splits option.splits)

lemma owned_result:
  assumes "ownedUpdate (Inr g) (Some g) [] job url cid may upd = ([], Some g')"
  shows "if cid \<noteq> '''' \<and> (\<exists>rec. g (snapshotGenKey job url) = Some rec \<and> ClaimID rec = cid \<and> may rec)
    then g' = g(snapshotGenKey job url \<mapsto> upd (the (g (snapshotGenKey job url)))) else g' = g"
  using assms by (auto simp: ownedUpdate_def Prime_def Let_def genSet_def split: if_splits option.splits)


lemma key_ok_other:
  assumes "key_ok s key" "gGens s' key = gGens s key" "gHolder s' key = gHolder s key" "gNow s \<le> gNow s'" "gUploads s \<subseteq> gUploads s'"
  shows "key_ok s' key"
  using assms unfolding key_ok_def by (auto 0 3)

lemma coord_inv_upd:
  assumes "coord_inv s" "gNow s' = gNow s" "gUploads s \<subseteq> gUploads s'" "\<And>k. k \<noteq> key \<Longrightarrow> gGens s' k = gGens s k \<and> gHolder s' k = gHolder s k"
    and "key_ok s' key"
  shows "coord_inv s'"
proof -
  have "key_ok s' k" for k
  proof (cases "k = key")
    case False
    then show ?thesis using key_ok_other [of s k s'] assms(1-4) by (simp add: coord_inv_def)
  qed (use assms(5) in simp)
  then show ?thesis using assms(1,2) by (simp add: coord_inv_def)
qed

lemma coord_inv_step: "coord_step s s' \<Longrightarrow> coord_inv s \<Longrightarrow> coord_inv s'"
proof (induction rule: coord_step.induct)
  case (claim s uuid job url interval ttl g)
  let ?k = "snapshotGenKey job url"
  note cl = claim_granted [OF claim(1)]
  have pos: "0 < gNow s" and k: "key_ok s ?k" using claim(5) by (simp_all add: coord_inv_def)
  have ttl: "0 < (if ttl \<le> 0 then snapshotClaimTTL else ttl)" by (simp add: snapshotClaimTTL_def)
  have "CompletedAt (genGet (gGens s) ?k) < gNow s"
    using cl pos k claim(4) by (cases "gGens s ?k") (auto simp: genGet_def zeroRecord_def claimDeclined_def key_ok_def)
  then show ?case
    using cl k pos ttl claim(2) by (intro coord_inv_upd [OF claim(5), where key = ?k])
      (auto simp: key_ok_def genGet_def zeroRecord_def split: option.splits)
next
  case (complete s job url cid commit g owns)
  note ow = owned_result [OF complete(1) [unfolded CompleteClaim_def]]
  have "key_ok s (snapshotGenKey job url)" using complete(3) by (simp add: coord_inv_def)
  then show ?case using ow complete(2,3)
    by (intro coord_inv_upd [OF complete(3), where key = "snapshotGenKey job url"]) (auto simp: key_ok_def completed_def coord_inv_def split: if_splits)
next
  case (skip s job url cid g owns)
  note ow = owned_result [OF skip(1) [unfolded SkipClaim_def]]
  have "key_ok s (snapshotGenKey job url)" using skip(3) by (simp add: coord_inv_def)
  then show ?case using ow skip(2)
    by (intro coord_inv_upd [OF skip(3), where key = "snapshotGenKey job url"]) (auto simp: key_ok_def skipped_def split: if_splits)
next
  case (fail s job url cid g owns)
  note ow = owned_result [OF fail(1) [unfolded Fail_def]]
  have "key_ok s (snapshotGenKey job url)" using fail(3) by (simp add: coord_inv_def)
  then show ?case using ow fail(2)
    by (intro coord_inv_upd [OF fail(3), where key = "snapshotGenKey job url"]) (auto simp: key_ok_def split: if_splits)
next
  case (finish s job url commit g)
  have "key_ok s (snapshotGenKey job url)" using finish(2) by (simp add: coord_inv_def)
  moreover have "g = (gGens s)(snapshotGenKey job url \<mapsto> completed (gNow s) commit (genGet (gGens s) (snapshotGenKey job url)))"
    using finish(1) by (auto simp: Complete_def Let_def genSet_def)
  ultimately show ?case using finish(2)
    by (intro coord_inv_upd [OF finish(2), where key = "snapshotGenKey job url"]) (auto simp: key_ok_def completed_def coord_inv_def)
next
  case (drop s job url g)
  have "key_ok s (snapshotGenKey job url)" using drop(2) by (simp add: coord_inv_def)
  moreover have "g = (gGens s)(snapshotGenKey job url \<mapsto> skipped (gNow s) (genGet (gGens s) (snapshotGenKey job url)))"
    using drop(1) by (auto simp: Skip_def Let_def genSet_def)
  ultimately show ?case using drop(2)
    by (intro coord_inv_upd [OF drop(2), where key = "snapshotGenKey job url"])
      (auto simp: key_ok_def skipped_def genGet_def zeroRecord_def coord_inv_def split: option.splits)
next
  case (wait s now)
  then show ?case using key_ok_other [of s _ "s\<lparr>gNow := now\<rparr>"] by (simp add: coord_inv_def)
qed

lemma coord_inv_reach:
  assumes "coord_step\<^sup>*\<^sup>* (coordInit now) s" "0 < now"
  shows "coord_inv s"
  using assms(1)
proof (induction rule: rtranclp_induct)
  case base
  then show ?case using assms(2) by (simp add: coordInit_def coord_inv_def key_ok_def)
qed (rule coord_inv_step)

section \<open>Properties\<close>


text \<open>
  An artifact is only skipped as unchanged when it was uploaded.  When \<^verbatim>\<open>Unchanged\<close> is true some replica uploaded
  the artifact for this very commit less than the given age ago: checks that ended without an upload
  never make an old artifact look fresh.
\<close>

lemma unchanged_uploaded:
  assumes "coord_step\<^sup>*\<^sup>* (coordInit now) s" "0 < now" "Unchanged (Some (gGens s)) (gNow s) job url commit maxAge"
  shows "\<exists>t. (snapshotGenKey job url, commit, t) \<in> gUploads s \<and> t \<le> gNow s \<and> gNow s - t < maxAge"
proof -
  obtain rec where rec: "gGens s (snapshotGenKey job url) = Some rec" "Commit rec = commit" "CompletedAt rec \<noteq> 0" "gNow s - CompletedAt rec < maxAge"
    using assms(3) by (auto simp: Unchanged_def split: option.splits)
  moreover have "key_ok s (snapshotGenKey job url)" using coord_inv_reach [OF assms(1,2)] by (simp add: coord_inv_def)
  ultimately show ?thesis by (auto simp: key_ok_def)
qed

text \<open>A store with one granted claim, and after its completion.\<close>

definition claimedOnce :: coordSys where
  "claimedOnce = (coordInit 1)\<lparr>gGens := [snapshotGenKey ''mirror'' ''u'' \<mapsto> zeroRecord\<lparr>StartedAt := 1, ClaimID := ''a'', ClaimExpiresAt := 11\<rparr>],
     gIds := {''a''}, gHolder := [snapshotGenKey ''mirror'' ''u'' \<mapsto> (''a'', 11)]\<rparr>"

lemma claimedOnce_step: "coord_step\<^sup>*\<^sup>* (coordInit 1) claimedOnce"
proof -
  have "ClaimWithTTL (Some (gGens (coordInit 1))) (gNow (coordInit 1)) ''a'' [] ''mirror'' ''u'' 5 10 = ((''a'', True, []), Some (gGens claimedOnce))"
    by (simp add: ClaimWithTTL_def coordInit_def claimedOnce_def Let_def genGet_def genSet_def)
  from coord_step.claim [OF this] show ?thesis by (simp add: coordInit_def claimedOnce_def r_into_rtranclp)
qed


lemma unchanged_uploaded_witness:
  "\<exists>s. coord_step\<^sup>*\<^sup>* (coordInit 1) s \<and> (\<exists>t. (snapshotGenKey ''mirror'' ''u'', ''c1'', t) \<in> gUploads s \<and> gNow s - t < 5)"
proof -
  let ?k = "snapshotGenKey ''mirror'' ''u''"
  let ?g = "[?k \<mapsto> completed 1 ''c1'' zeroRecord]"
  let ?s = "(coordInit 1)\<lparr>gGens := ?g, gHolder := (gHolder (coordInit 1))(?k := None), gUploads := insert (?k, ''c1'', gNow (coordInit 1)) (gUploads (coordInit 1))\<rparr>"
  have "Complete (Some (gGens (coordInit 1))) (gNow (coordInit 1)) [] ''mirror'' ''u'' ''c1'' = ([], Some ?g)"
    by (simp add: Complete_def coordInit_def Let_def genGet_def genSet_def)
  then have run: "coord_step\<^sup>*\<^sup>* (coordInit 1) ?s" using coord_step.finish r_into_rtranclp by blast
  have un: "Unchanged (Some (gGens ?s)) (gNow ?s) ''mirror'' ''u'' ''c1'' 5" by (simp add: Unchanged_def completed_def coordInit_def)
  from unchanged_uploaded [OF run zero_less_one un] run show ?thesis by (intro exI [of _ ?s]) auto
qed

end
