(* ===== verification/AppTokens.thy ===== *)
theory AppTokens
  imports Prelude
begin

text \<open>
  Installation tokens of GitHub apps, \<^verbatim>\<open>internal/githubapp/tokens.go\<close>.

  An app caches which installation an organisation has, the owner of each installation and its token.  GitHub's API is
  not part of the sources: \<open>api\<close> gives the replies of the two lookup endpoints for an app and an organisation, \<open>mint\<close>
  the reply of the token endpoint, and \<open>jwtErr\<close> the result of signing a request with an app's key.  Each call may get other replies.  The apps
  are numbered; the map from organisations to apps holds their numbers.
\<close>

section \<open>Model\<close>

record cachedToken =
  ctToken :: string
  ctExpiresAt :: time

record appState =
  aRefreshBuffer :: duration
  aInstallationCache :: "string \<rightharpoonup> string"
  aInstallationOwners :: "string \<rightharpoonup> string"
  aTokens :: "string \<rightharpoonup> cachedToken"

record TokenManager =
  tmApps :: "appState list"
  tmOrgToApp :: "string \<rightharpoonup> nat"
  tmFallback :: "(nat \<times> string) option"

datatype lookupReply = ReplyNotFound | ReplyError goerr | ReplyFound string string

type_synonym githubApi = "nat \<Rightarrow> string \<Rightarrow> lookupReply \<times> lookupReply"
type_synonym githubMint = "nat \<Rightarrow> string \<Rightarrow> goerr + string \<times> time"

record AppConfig =
  acAppID :: string
  acPrivateKeyPath :: string
  acFallbackOrg :: string

definition newAppState :: appState where
  "newAppState = \<lparr>aRefreshBuffer = 30 * 60 * 1000000000, aInstallationCache = Map.empty, aInstallationOwners = Map.empty, aTokens = Map.empty\<rparr>"

text \<open>\<^verbatim>\<open>newTokenManager\<close>; \<open>keyErr\<close> is the result of loading a private key.  The first fallback organisation counts.\<close>

fun addApps :: "(string \<Rightarrow> goerr) \<Rightarrow> AppConfig list \<Rightarrow> TokenManager \<Rightarrow> goerr + TokenManager" where
  "addApps keyErr [] tm = Inr tm"
| "addApps keyErr (c # cs) tm =
     (if acAppID c = '''' \<and> acPrivateKeyPath c = '''' then addApps keyErr cs tm
      else if acAppID c = '''' \<or> acPrivateKeyPath c = '''' then Inl [ErrOther ''github-app: incomplete configuration'']
      else if keyErr (acPrivateKeyPath c) \<noteq> [] then Inl (ErrOther ''github app'' # keyErr (acPrivateKeyPath c))
      else addApps keyErr cs
        (tm\<lparr>tmApps := tmApps tm @ [newAppState],
            tmFallback := (if acFallbackOrg c \<noteq> '''' \<and> tmFallback tm = None then Some (length (tmApps tm), acFallbackOrg c) else tmFallback tm)\<rparr>))"

definition newTokenManager :: "(string \<Rightarrow> goerr) \<Rightarrow> AppConfig list \<Rightarrow> goerr + TokenManager option" where
  "newTokenManager keyErr configs =
     (case addApps keyErr configs \<lparr>tmApps = [], tmOrgToApp = Map.empty, tmFallback = None\<rparr> of
        Inl e \<Rightarrow> Inl e
      | Inr tm \<Rightarrow> Inr (if tmApps tm = [] then None else Some tm))"

definition rememberInstallation :: "string \<Rightarrow> string \<Rightarrow> string \<Rightarrow> appState \<Rightarrow> appState" where
  "rememberInstallation org iid owner a =
     (let owner1 = (if owner = '''' then org else owner);
          owner2 = (case aInstallationOwners a iid of Some canonical \<Rightarrow> canonical | None \<Rightarrow> owner1)
      in a\<lparr>aInstallationOwners := (aInstallationOwners a)(iid \<mapsto> owner2),
           aInstallationCache := (aInstallationCache a)(org \<mapsto> iid, owner2 \<mapsto> iid)\<rparr>)"

text \<open>The organisation endpoint first, then the user endpoint.\<close>

definition lookupInstallationID :: "(nat \<Rightarrow> goerr) \<Rightarrow> githubApi \<Rightarrow> nat \<Rightarrow> string \<Rightarrow> appState \<Rightarrow> (goerr + string) \<times> appState" where
  "lookupInstallationID jwtErr api i org a =
     (case aInstallationCache a org of
        Some iid \<Rightarrow> (Inr iid, a)
      | None \<Rightarrow>
          if jwtErr i \<noteq> [] then (Inl (ErrOther ''generate JWT'' # jwtErr i), a)
          else (case api i org of (orgs, users) \<Rightarrow>
            (case orgs of
               ReplyFound iid login \<Rightarrow> (Inr iid, rememberInstallation org iid login a)
             | ReplyError e \<Rightarrow> (Inl (ErrOther ''lookup'' # e), a)
             | ReplyNotFound \<Rightarrow>
                 (case users of
                    ReplyFound iid login \<Rightarrow> (Inr iid, rememberInstallation org iid login a)
                  | ReplyError e \<Rightarrow> (Inl (ErrOther ''lookup'' # e), a)
                  | ReplyNotFound \<Rightarrow> (Inl [ErrOther ''no GitHub App installation found''], a)))))"

definition fetchInstallationToken :: "(nat \<Rightarrow> goerr) \<Rightarrow> githubMint \<Rightarrow> nat \<Rightarrow> string \<Rightarrow> goerr + string \<times> time" where
  "fetchInstallationToken jwtErr mint i iid = (if jwtErr i \<noteq> [] then Inl (ErrOther ''generate JWT'' # jwtErr i) else mint i iid)"

definition getInstallationToken :: "(nat \<Rightarrow> goerr) \<Rightarrow> githubMint \<Rightarrow> time \<Rightarrow> nat \<Rightarrow> string \<Rightarrow> appState \<Rightarrow> (string \<times> string \<times> goerr) \<times> appState" where
  "getInstallationToken jwtErr mint now i iid a =
     (let owner = (case aInstallationOwners a iid of None \<Rightarrow> '''' | Some owner \<Rightarrow> owner)
      in if owner = '''' then (('''', '''', [ErrOther ''no owner for installation'']), a)
         else let refresh = (case fetchInstallationToken jwtErr mint i iid of
                  Inl e \<Rightarrow> (('''', '''', ErrOther ''fetch installation token'' # e), a)
                | Inr (token, expiresAt) \<Rightarrow> ((token, owner, []), a\<lparr>aTokens := (aTokens a)(iid \<mapsto> \<lparr>ctToken = token, ctExpiresAt = expiresAt\<rparr>)\<rparr>))
              in (case aTokens a iid of
                    None \<Rightarrow> refresh
                  | Some t \<Rightarrow> if now + aRefreshBuffer a < ctExpiresAt t then ((ctToken t, owner, []), a) else refresh))"

definition getToken :: "(nat \<Rightarrow> goerr) \<Rightarrow> githubMint \<Rightarrow> time \<Rightarrow> nat \<Rightarrow> string \<Rightarrow> appState \<Rightarrow> (string \<times> string \<times> goerr) \<times> appState" where
  "getToken jwtErr mint now i org a =
     (let iid = (case aInstallationCache a org of None \<Rightarrow> '''' | Some iid \<Rightarrow> iid)
      in if iid = '''' then (('''', '''', [ErrOther ''no installation ID for org'']), a)
         else getInstallationToken jwtErr mint now i iid a)"

definition withApp :: "nat \<Rightarrow> (appState \<Rightarrow> 'r \<times> appState) \<Rightarrow> TokenManager \<Rightarrow> 'r \<times> TokenManager" where
  "withApp i f tm = (case f (tmApps tm ! i) of (r, a) \<Rightarrow> (r, tm\<lparr>tmApps := (tmApps tm)[i := a]\<rparr>))"

text \<open>The discovery of an organisation's installation: the first app that has one.\<close>

fun discover :: "(nat \<Rightarrow> goerr) \<Rightarrow> githubApi \<Rightarrow> string \<Rightarrow> nat list \<Rightarrow> TokenManager \<Rightarrow> nat option \<times> TokenManager" where
  "discover jwtErr api org [] tm = (None, tm)"
| "discover jwtErr api org (i # is) tm =
     (case withApp i (lookupInstallationID jwtErr api i org) tm of (res, tm1) \<Rightarrow>
        (case res of Inl e \<Rightarrow> discover jwtErr api org is tm1 | Inr iid \<Rightarrow> (Some i, tm1\<lparr>tmOrgToApp := (tmOrgToApp tm1)(org \<mapsto> i)\<rparr>)))"

definition GetTokenForOrgWithOwner :: "(nat \<Rightarrow> goerr) \<Rightarrow> githubApi \<Rightarrow> githubMint \<Rightarrow> time \<Rightarrow> string \<Rightarrow> TokenManager option
    \<Rightarrow> (string \<times> string \<times> goerr) \<times> TokenManager option" where
  "GetTokenForOrgWithOwner jwtErr api mint now org m =
     (case m of
        None \<Rightarrow> (('''', '''', [ErrOther ''token manager not initialized'']), m)
      | Some tm \<Rightarrow> map_prod id Some
          (case tmOrgToApp tm org of
             Some i \<Rightarrow> withApp i (getToken jwtErr mint now i org) tm
           | None \<Rightarrow>
               (case discover jwtErr api org [0..<length (tmApps tm)] tm of (found, tm1) \<Rightarrow>
                  (case found of
                     Some i \<Rightarrow> withApp i (getToken jwtErr mint now i org) tm1
                   | None \<Rightarrow>
                       (case tmFallback tm1 of
                          None \<Rightarrow> (('''', '''', [ErrOther ''no GitHub App installation found for org'']), tm1)
                        | Some (i, forg) \<Rightarrow>
                            (case withApp i (lookupInstallationID jwtErr api i forg) tm1 of (res, tm2) \<Rightarrow>
                               (case res of
                                  Inl e \<Rightarrow> (('''', '''', ErrOther ''resolve fallback installation'' # e), tm2)
                                | Inr iid \<Rightarrow> withApp i (getToken jwtErr mint now i forg) tm2)))))))"

definition GetTokenForOrg :: "(nat \<Rightarrow> goerr) \<Rightarrow> githubApi \<Rightarrow> githubMint \<Rightarrow> time \<Rightarrow> string \<Rightarrow> TokenManager option \<Rightarrow> (string \<times> goerr) \<times> TokenManager option" where
  "GetTokenForOrg jwtErr api mint now org m =
     (case GetTokenForOrgWithOwner jwtErr api mint now org m of ((token, _, e), m1) \<Rightarrow> ((token, e), m1))"

definition extractOrgFromURL :: "string \<Rightarrow> goerr + string" where
  "extractOrgFromURL url =
     (let u = TrimPrefix (TrimPrefix (TrimPrefix url ''https://'') ''http://'') ''git@''
      in if \<not> HasPrefix u ''github.com/'' \<and> \<not> HasPrefix u ''github.com:'' then Inl [ErrOther ''not a GitHub URL'']
         else let org = hd (Split (CHR ''/'') (TrimPrefix (TrimPrefix u ''github.com/'') ''github.com:''))
              in if org = '''' then Inl [ErrOther ''cannot extract org from URL''] else Inr org)"

definition GetTokenForURL :: "(nat \<Rightarrow> goerr) \<Rightarrow> githubApi \<Rightarrow> githubMint \<Rightarrow> time \<Rightarrow> string \<Rightarrow> TokenManager option \<Rightarrow> (string \<times> goerr) \<times> TokenManager option" where
  "GetTokenForURL jwtErr api mint now url m =
     (case m of
        None \<Rightarrow> (('''', [ErrOther ''token manager not initialized'']), m)
      | Some tm \<Rightarrow>
          (case extractOrgFromURL url of
             Inl e \<Rightarrow> (('''', e), m)
           | Inr org \<Rightarrow> GetTokenForOrg jwtErr api mint now org m))"

section \<open>Lemmas\<close>

text \<open>
  What GitHub's replies are worth: an installation it reports is the account's, also under the account's login, and a
  token it mints is a token of the installation.
\<close>

definition honestApi :: "(nat \<Rightarrow> string \<Rightarrow> string option) \<Rightarrow> githubApi \<Rightarrow> bool" where
  "honestApi truth api \<longleftrightarrow> (\<forall>i org iid login. ReplyFound iid login \<in> {fst (api i org), snd (api i org)} \<longrightarrow>
     truth i org = Some iid \<and> (login \<noteq> '''' \<longrightarrow> truth i login = Some iid))"

definition honestMint :: "(nat \<Rightarrow> string \<Rightarrow> string \<Rightarrow> time \<Rightarrow> bool) \<Rightarrow> githubMint \<Rightarrow> bool" where
  "honestMint tokenOf mint \<longleftrightarrow> (\<forall>i iid token ex. mint i iid = Inr (token, ex) \<longrightarrow> tokenOf i iid token ex)"

definition app_ok :: "(nat \<Rightarrow> string \<Rightarrow> string option) \<Rightarrow> (nat \<Rightarrow> string \<Rightarrow> string \<Rightarrow> time \<Rightarrow> bool) \<Rightarrow> nat \<Rightarrow> appState \<Rightarrow> bool" where
  "app_ok truth tokenOf i a \<longleftrightarrow> (\<forall>org iid. aInstallationCache a org = Some iid \<longrightarrow> truth i org = Some iid) \<and>
     (\<forall>iid owner. aInstallationOwners a iid = Some owner \<longrightarrow> truth i owner = Some iid) \<and>
     (\<forall>iid t. aTokens a iid = Some t \<longrightarrow> tokenOf i iid (ctToken t) (ctExpiresAt t)) \<and>
     aRefreshBuffer a = 30 * 60 * 1000000000"

definition tm_ok :: "(nat \<Rightarrow> string \<Rightarrow> string option) \<Rightarrow> (nat \<Rightarrow> string \<Rightarrow> string \<Rightarrow> time \<Rightarrow> bool) \<Rightarrow> TokenManager \<Rightarrow> bool" where
  "tm_ok truth tokenOf tm \<longleftrightarrow> (\<forall>i < length (tmApps tm). app_ok truth tokenOf i (tmApps tm ! i)) \<and>
     (\<forall>org i. tmOrgToApp tm org = Some i \<longrightarrow> i < length (tmApps tm)) \<and>
     (\<forall>i org. tmFallback tm = Some (i, org) \<longrightarrow> i < length (tmApps tm))"

lemma remember_ok:
  assumes "app_ok truth tokenOf i a" "truth i org = Some iid" "login \<noteq> '''' \<longrightarrow> truth i login = Some iid"
  shows "app_ok truth tokenOf i (rememberInstallation org iid login a)"
proof -
  define w where "w = (case aInstallationOwners a iid of Some c \<Rightarrow> c | None \<Rightarrow> if login = '''' then org else login)"
  have w: "truth i w = Some iid" using assms by (auto simp: w_def app_ok_def split: option.splits)
  have "rememberInstallation org iid login a = a\<lparr>aInstallationOwners := (aInstallationOwners a)(iid \<mapsto> w),
      aInstallationCache := (aInstallationCache a)(org \<mapsto> iid, w \<mapsto> iid)\<rparr>"
    by (simp add: rememberInstallation_def w_def Let_def)
  then show ?thesis using assms w by (auto simp: app_ok_def)
qed

lemma lookup_ok:
  assumes "app_ok truth tokenOf i a" "honestApi truth api" "lookupInstallationID jwtErr api i org a = (res, a')"
  shows "app_ok truth tokenOf i a' \<and> (\<forall>iid. res = Inr iid \<longrightarrow> truth i org = Some iid)"
proof (cases "aInstallationCache a org")
  case None
  obtain ro ru where r: "api i org = (ro, ru)" by (metis prod.exhaust)
  have h: "x \<in> {ro, ru} \<Longrightarrow> x = ReplyFound iid login \<Longrightarrow> truth i org = Some iid \<and> (login \<noteq> '''' \<longrightarrow> truth i login = Some iid)" for x iid login
    using assms(2) r unfolding honestApi_def by (metis fst_conv snd_conv)
  show ?thesis
  proof (cases "\<exists>iid login. res = Inr iid \<and> a' = rememberInstallation org iid login a \<and> ReplyFound iid login \<in> {ro, ru}")
    case True
    then show ?thesis using h remember_ok [OF assms(1)] by fastforce
  next
    case False
    then show ?thesis using assms(1,3) None r
      by (auto simp: lookupInstallationID_def split: if_splits lookupReply.splits)
  qed
qed (use assms in \<open>auto simp: lookupInstallationID_def app_ok_def\<close>)

text \<open>The token is minted by this call or, the cached one, valid for longer than the half hour of the refresh buffer.\<close>

definition usable :: "githubMint \<Rightarrow> time \<Rightarrow> nat \<Rightarrow> string \<Rightarrow> string \<Rightarrow> time \<Rightarrow> bool" where
  "usable mint now i iid token ex \<longleftrightarrow> mint i iid = Inr (token, ex) \<or> now + 30 * 60 * 1000000000 < ex"

lemma token_ok:
  assumes "app_ok truth tokenOf i a" "honestMint tokenOf mint" "getToken jwtErr mint now i org a = ((token, owner, e), a')"
  shows "app_ok truth tokenOf i a' \<and>
    (e = [] \<longrightarrow> (\<exists>iid ex. truth i org = Some iid \<and> tokenOf i iid token ex \<and> usable mint now i iid token ex))"
  using assms
  by (fastforce simp: getToken_def getInstallationToken_def fetchInstallationToken_def Let_def app_ok_def honestMint_def usable_def
      split: if_splits option.splits sum.splits prod.splits)

lemma withApp_ok:
  assumes "tm_ok truth tokenOf tm" "i < length (tmApps tm)" "withApp i f tm = (r, tm')" "app_ok truth tokenOf i (snd (f (tmApps tm ! i)))"
  shows "tm_ok truth tokenOf tm' \<and> length (tmApps tm') = length (tmApps tm) \<and> tmFallback tm' = tmFallback tm \<and> tmOrgToApp tm' = tmOrgToApp tm \<and>
    r = fst (f (tmApps tm ! i))"
  using assms by (auto simp: withApp_def tm_ok_def nth_list_update split: prod.splits)

lemma discover_ok:
  assumes "tm_ok truth tokenOf tm" "honestApi truth api" "set is \<subseteq> {..<length (tmApps tm)}" "discover jwtErr api org is tm = (found, tm')"
  shows "tm_ok truth tokenOf tm' \<and> length (tmApps tm') = length (tmApps tm) \<and> tmFallback tm' = tmFallback tm \<and> (\<forall>i. found = Some i \<longrightarrow> i < length (tmApps tm))"
  using assms
proof (induction "is" arbitrary: tm)
  case (Cons i "is")
  obtain res tm1 where w: "withApp i (lookupInstallationID jwtErr api i org) tm = (res, tm1)" by (metis prod.exhaust)
  have i: "i < length (tmApps tm)" using Cons.prems(3) by simp
  have "app_ok truth tokenOf i (snd (lookupInstallationID jwtErr api i org (tmApps tm ! i)))"
    using lookup_ok [OF _ Cons.prems(2)] Cons.prems(1) i by (metis prod.collapse tm_ok_def)
  note ok = withApp_ok [OF Cons.prems(1) i w this]
  show ?case
  proof (cases res)
    case (Inl e)
    then show ?thesis using Cons.IH [of tm1] Cons.prems(2-4) w ok by simp
  next
    case (Inr iid)
    then show ?thesis using Cons.prems(4) w ok i by (auto simp: tm_ok_def split: if_splits)
  qed
qed simp

lemma withApp_token:
  assumes "tm_ok truth tokenOf tm" "i < length (tmApps tm)" "honestMint tokenOf mint"
    and "withApp i (getToken jwtErr mint now i org) tm = ((token, owner, []), tm')"
  shows "tm_ok truth tokenOf tm' \<and> (\<exists>iid ex. truth i org = Some iid \<and> tokenOf i iid token ex \<and> usable mint now i iid token ex)"
proof -
  have a: "app_ok truth tokenOf i (tmApps tm ! i)" using assms(1,2) by (simp add: tm_ok_def)
  obtain r a' where g: "getToken jwtErr mint now i org (tmApps tm ! i) = (r, a')" by (metis prod.exhaust)
  obtain t w e where r: "r = (t, w, e)" by (metis prod.exhaust)
  have t: "t = token" "e = []" using assms(4) g r by (auto simp: withApp_def)
  note ok = token_ok [OF a assms(3) g [unfolded r]]
  have "app_ok truth tokenOf i (snd (getToken jwtErr mint now i org (tmApps tm ! i)))" using ok g by simp
  from withApp_ok [OF assms(1,2,4) this] ok t show ?thesis by blast
qed

lemma Split_hd: "\<forall>c \<in> set org. c \<noteq> sep \<Longrightarrow> hd (Split sep (org @ sep # rest)) = org"
  by (induction org) (auto split: list.splits)

text \<open>The forms of URL from which an organisation is read.\<close>

lemma extractOrg_forms:
  assumes "org \<noteq> []" "\<forall>c \<in> set org. c \<noteq> CHR ''/''" "\<not> HasPrefix (org @ ''/'' @ repo) ''github.com:''"
  shows "extractOrgFromURL (''https://github.com/'' @ org @ ''/'' @ repo) = Inr org"
    and "extractOrgFromURL (''git@github.com:'' @ org @ ''/'' @ repo) = Inr org"
  using assms by (simp_all add: extractOrgFromURL_def TrimPrefix_def HasPrefix_def Let_def Split_hd)

section \<open>Properties\<close>


lemma addApps_ok:
  assumes "tm_ok truth tokenOf tm" "addApps keyErr cs tm = Inr tm'"
  shows "tm_ok truth tokenOf tm'"
  using assms
proof (induction cs arbitrary: tm)
  case (Cons c cs)
  have "tm_ok truth tokenOf (tm\<lparr>tmApps := tmApps tm @ [newAppState],
      tmFallback := (if acFallbackOrg c \<noteq> '''' \<and> tmFallback tm = None then Some (length (tmApps tm), acFallbackOrg c) else tmFallback tm)\<rparr>)"
    using Cons.prems(1) by (auto simp: tm_ok_def app_ok_def newAppState_def nth_append less_Suc_eq)
  then show ?case using Cons by (auto split: if_splits)
qed simp

text \<open>A new manager is truthful, whatever its configuration.\<close>

lemma newTokenManager_ok: "newTokenManager keyErr configs = Inr (Some tm) \<Longrightarrow> tm_ok truth tokenOf tm"
  using addApps_ok [of truth tokenOf "\<lparr>tmApps = [], tmOrgToApp = Map.empty, tmFallback = None\<rparr>" keyErr configs tm]
  by (auto simp: newTokenManager_def tm_ok_def split: sum.splits if_splits)

definition oneApp :: TokenManager where
  "oneApp = \<lparr>tmApps = [newAppState], tmOrgToApp = Map.empty, tmFallback = None\<rparr>"

lemma oneApp_new: "newTokenManager (\<lambda>_. []) [\<lparr>acAppID = ''1'', acPrivateKeyPath = ''k'', acFallbackOrg = ''''\<rparr>] = Inr (Some oneApp)"
  by (simp add: newTokenManager_def oneApp_def)


end
