(* ===== verification/HttpFetch.thy ===== *)
theory HttpFetch
  imports Handler
begin

text \<open>
  Fetching through the cache, \<^verbatim>\<open>internal/cache/http.go\<close>.

  A response that is being cached is streamed: the goroutine of \<^verbatim>\<open>FetchDirect\<close> copies each block to the pipe and
  then to the cache, in lock step with the reader of the response.  The reader closes the response after \<open>cap\<close> bytes, if ever, and
  the context of the request is cancelled after \<open>gone\<close> blocks, if ever.  \<open>FetchStream\<close> is what the
  reader has seen when the goroutine has ended: the status and header, the bytes and the error that ends them.
\<close>

section \<open>Model\<close>

datatype fetchResult = FetchError goerr | FetchResponse httpResponse | FetchStream int header bytes "goerr outcome"

fun pipeCopy :: "('c, 'w) cacheOps \<Rightarrow> nat option \<Rightarrow> nat option \<Rightarrow> bytes list \<Rightarrow> goerr \<Rightarrow> 'w \<Rightarrow> bytes
    \<Rightarrow> (goerr \<times> nat option \<times> 'w) \<times> bytes" where
  "pipeCopy ops cap gone [] re cw got = ((re, gone, cw), got)"
| "pipeCopy ops cap gone (b # bs) re cw got =
     (if b = [] then pipeCopy ops cap gone bs re cw got
      else if (case cap of None \<Rightarrow> False | Some k \<Rightarrow> k < length b) then (([ErrClosedPipe], gone, cw), got @ take (the cap) b)
      else (case wWrite ops (if gone = Some 0 then wCancel ops cw else cw) b of ((n, e), cw') \<Rightarrow>
        if e \<noteq> [] then ((e, map_option (\<lambda>k. k - 1) gone, cw'), got @ b)
        else if n \<noteq> length b then (([ErrOther ''short write''], map_option (\<lambda>k. k - 1) gone, cw'), got @ b)
        else pipeCopy ops (map_option (\<lambda>k. k - length b) cap) (map_option (\<lambda>k. k - 1) gone) bs re cw' (got @ b)))"

definition FetchDirect :: "(request \<Rightarrow> goerr + httpResponse) \<Rightarrow> ('c, 'w) cacheOps \<Rightarrow> goerr \<Rightarrow> nat option \<Rightarrow> nat option \<Rightarrow> request \<Rightarrow> Key \<Rightarrow> 'c
    \<Rightarrow> fetchResult \<times> 'c" where
  "FetchDirect client ops ctxErr cap gone r key c =
     (case client r of
        Inl e \<Rightarrow> (FetchError (Errorf 502 e), c)
      | Inr resp \<Rightarrow>
          if rsStatus resp \<noteq> 200 then (FetchResponse resp, c)
          else (case cCreate ops c ctxErr key (rsHeader resp) 0 [] of (res, c1) \<Rightarrow>
            (case res of
               Inl e \<Rightarrow> (FetchError (Errorf 500 e), c1)
             | Inr cw \<Rightarrow>
                 (case pipeCopy ops cap gone (bBlocks (rsBody resp)) (bErr (rsBody resp)) cw [] of ((copyErr, gone', cw1), got) \<Rightarrow>
                    (case wClose ops (if copyErr \<noteq> [] \<or> gone' = Some 0 then wCancel ops cw1 else cw1) c1 of (r', _, c2) \<Rightarrow>
                       (FetchStream (rsStatus resp) (rsHeader resp) got
                          (case r' of
                             Ret ce \<Rightarrow> Ret (errJoin [copyErr, errJoin [ce, bCloseErr (rsBody resp)]])
                           | Blocked \<Rightarrow> Blocked
                           | Panic \<Rightarrow> Panic), c2))))))"

definition Fetch :: "(string \<Rightarrow> bytes) \<Rightarrow> (request \<Rightarrow> goerr + httpResponse) \<Rightarrow> ('c, 'w) cacheOps \<Rightarrow> goerr \<Rightarrow> nat option \<Rightarrow> nat option \<Rightarrow> request \<Rightarrow> 'c
    \<Rightarrow> fetchResult \<times> 'c" where
  "Fetch sha256 client ops ctxErr cap gone r c =
     (let key = NewKey sha256 (rqUrl r)
      in case cOpen ops c key [] of ((cr, headers, e), c1) \<Rightarrow>
           if e = [] then (FetchResponse \<lparr>rsStatus = 200, rsHeader = headers, rsBody = cr\<rparr>, c1)
           else if \<not> errIs e ErrNotExist then (FetchError (Errorf 500 e), c1)
           else FetchDirect client ops ctxErr cap gone r key c1)"

section \<open>Lemmas\<close>

lemma pipeCopy_got:
  "pipeCopy ops cap gone bs re cw got = ((ce, gone', cw'), got') \<Longrightarrow>
   (\<exists>rest. got @ concat bs = got' @ rest) \<and> (ce = [] \<longrightarrow> re = [] \<and> got' = got @ concat bs) \<and> (gone = None \<longrightarrow> gone' = None)"
proof (induction bs arbitrary: cap gone cw got)
  case (Cons b bs)
  obtain n e cw1 where w: "wWrite ops (if gone = Some 0 then wCancel ops cw else cw) b = ((n, e), cw1)" by (metis prod.exhaust)
  show ?case
  proof (cases "b \<noteq> [] \<and> \<not> (case cap of None \<Rightarrow> False | Some k \<Rightarrow> k < length b) \<and> e = [] \<and> n = length b")
    case True
    then show ?thesis using Cons.IH [of "map_option (\<lambda>k. k - length b) cap" "map_option (\<lambda>k. k - 1) gone" cw1 "got @ b"] Cons.prems w by auto
  next
    case False
    have "\<exists>rest. b @ concat bs = take k b @ rest" for k by (metis append.assoc append_take_drop_id)
    then show ?thesis using False Cons w by (auto split: if_splits)
  qed
qed simp

context cache_backend
begin

lemma pipeCopy_pend:
  "pipeCopy ops cap gone bs re cw got = (([], gone', cw'), got') \<Longrightarrow>
   pend cw' = None \<and> gone \<noteq> None \<or> pend cw' = map_option (\<lambda>(k, d, q). (k, d @ concat bs, q)) (pend cw)"
proof (induction bs arbitrary: cap gone cw got)
  case Nil
  then show ?case by (simp add: option.map_id [unfolded id_def] case_prod_beta)
next
  case (Cons b bs)
  show ?case
  proof (cases "b = []")
    case False
    let ?cw = "if gone = Some 0 then wCancel ops cw else cw"
    obtain n e cw1 where w: "wWrite ops ?cw b = ((n, e), cw1)" by (metis prod.exhaust)
    then have e: "e = []" and go: "pipeCopy ops (map_option (\<lambda>k. k - length b) cap) (map_option (\<lambda>k. k - 1) gone) bs re cw1 (got @ b) = (([], gone', cw'), got')"
      using Cons.prems False by (auto split: if_splits)
    have "pend cw1 = None \<and> gone \<noteq> None \<or> pend cw1 = map_option (\<lambda>(k, d, q). (k, d @ b, q)) (pend cw)"
      using write_spec [OF w [unfolded e]] cancel_spec [of cw] by (auto split: if_splits)
    with Cons.IH [OF go] show ?thesis by (cases "pend cw") auto
  qed (use Cons in simp)
qed

text \<open>
  The reader of a streamed response has a prefix of the upstream's body and, when the stream ends without an error, all of
  it; the cache has the whole body or no new object.  A clean end of an undisturbed fetch means that the
  old version is gone.
\<close>

lemma FetchDirect_stream:
  assumes "FetchDirect client ops ctxErr cap gone r key c = (FetchStream st hs got out, c')"
  shows "\<exists>resp. client r = Inr resp \<and> st = 200 \<and> hs = rsHeader resp \<and>
    (\<exists>rest. concat (bBlocks (rsBody resp)) = got @ rest) \<and>
    (out = Ret [] \<longrightarrow> bErr (rsBody resp) = [] \<and> got = concat (bBlocks (rsBody resp))) \<and>
    forgets obj c c' {key} \<and>
    (obj c' key = None \<or> obj c' key = obj c key \<and> (out = Ret [] \<longrightarrow> ctxErr \<noteq> [] \<or> gone \<noteq> None) \<or>
     bErr (rsBody resp) = [] \<and> (\<exists>hs'. obj c' key = Some (concat (bBlocks (rsBody resp)), hs')))"
proof -
  obtain resp where resp: "client r = Inr resp" "rsStatus resp = 200"
    using assms by (auto simp: FetchDirect_def split: sum.splits if_splits prod.splits)
  obtain x c1 where cr: "cCreate ops c ctxErr key (rsHeader resp) 0 [] = (x, c1)" by (metis prod.exhaust)
  obtain cw where x: "x = Inr cw" using assms resp cr by (cases x) (auto simp: FetchDirect_def)
  obtain ce gone' cw1 got1 where pc: "pipeCopy ops cap gone (bBlocks (rsBody resp)) (bErr (rsBody resp)) cw [] = ((ce, gone', cw1), got1)"
    by (metis prod.exhaust)
  define cw2 where "cw2 = (if ce \<noteq> [] \<or> gone' = Some 0 then wCancel ops cw1 else cw1)"
  obtain r' cw3 c2 where cl: "wClose ops cw2 c1 = (r', cw3, c2)" by (metis prod.exhaust)
  have run: "st = 200" "hs = rsHeader resp" "got = got1" "c' = c2"
      "out = (case r' of Ret ce' \<Rightarrow> Ret (errJoin [ce, errJoin [ce', bCloseErr (rsBody resp)]]) | Blocked \<Rightarrow> Blocked | Panic \<Rightarrow> Panic)"
    using assms resp cr x pc cl by (auto simp: FetchDirect_def cw2_def)
  have clean: "ce = []" "r' = Ret []" if "out = Ret []" using that run(5) by (auto simp: errJoin_def split: outcome.splits)
  have same: "obj c1 = obj c" using create_spec [OF cr] by blast
  have pend: "pend cw2 = None \<and> (ce = [] \<longrightarrow> ctxErr \<noteq> [] \<or> gone \<noteq> None) \<or>
      ce = [] \<and> (\<exists>q. pend cw2 = Some (key, concat (bBlocks (rsBody resp)), q))"
  proof (cases "ce = [] \<and> gone' \<noteq> Some 0")
    case True
    then show ?thesis using pipeCopy_pend [of cap gone _ _ cw "[]" gone' cw1 got1] pc create_spec [OF cr] x by (auto simp: cw2_def split: if_splits)
  next
    case False
    then show ?thesis using pipeCopy_got [OF pc] cancel_spec by (auto simp: cw2_def)
  qed
  have kept: "forgets obj c c' {key} \<and>
    (obj c' key = None \<or> obj c' key = obj c key \<and> (out = Ret [] \<longrightarrow> ctxErr \<noteq> [] \<or> gone \<noteq> None) \<or>
     bErr (rsBody resp) = [] \<and> (\<exists>hs'. obj c' key = Some (concat (bBlocks (rsBody resp)), hs')))"
    using pend
  proof (elim disjE conjE exE)
    assume "pend cw2 = None" "ce = [] \<longrightarrow> ctxErr \<noteq> [] \<or> gone \<noteq> None"
    with close_none [OF cl this(1)] same clean show ?thesis by (auto simp: forgets_def run(4))
  next
    fix q assume "ce = []" "pend cw2 = Some (key, concat (bBlocks (rsBody resp)), q)"
    with close_some [OF cl this(2)] same clean pipeCopy_got [OF pc] show ?thesis by (auto simp: forgets_def run(4))
  qed
  then show ?thesis using resp run(1-3) pipeCopy_got [OF pc] clean by auto
qed

end

text \<open>A hit is answered with the whole object, and the upstream is not asked.\<close>

lemma Fetch_hit:
  assumes "memObj config ns c (NewKey sha256 (rqUrl r)) = Some (d, h)"
  shows "\<exists>hs. fst (Fetch sha256 client (memoryOps httpTime config ns) ctxErr cap gone r c) = FetchResponse \<lparr>rsStatus = 200, rsHeader = hs, rsBody = bytesReader d\<rparr> \<and>
    hGet hs ETagKey = hGet h ETagKey"
proof -
  obtain b hs e where o: "openSpec (Some (d, h)) [] = (b, hs, e)" by (metis prod.exhaust)
  have "Check (NewRequestOptions []) et = []" "ResolveRange (NewRequestOptions []) (int (length d)) et = (0, int (length d), RangeFull)" for et
    by (simp_all add: NewRequestOptions_def zeroOptions_def Check_def ResolveRange_def)
  with o have "e = []" "b = bytesReader d" "hGet hs ETagKey = hGet h ETagKey" by (auto elim: openSpec_Some)
  with o show ?thesis using assms by (auto simp: Fetch_def Let_def memoryOps_def MemOpen_spec memObj_def)
qed

text \<open>
  What a fetch with the memory cache gives and leaves: the cached object, or a part of the upstream's answer, the whole of it when the
  stream ends without an error; the cache never has a part of it.
\<close>

lemma Fetch_miss:
  assumes "memObj config ns c (NewKey sha256 (rqUrl r)) = None"
    and "Fetch sha256 client (memoryOps httpTime config ns) ctxErr cap gone r c = (FetchStream st hs got out, c')"
  shows "\<exists>resp. client r = Inr resp \<and> st = 200 \<and> hs = rsHeader resp \<and> (\<exists>rest. concat (bBlocks (rsBody resp)) = got @ rest) \<and>
    (out = Ret [] \<longrightarrow> bErr (rsBody resp) = [] \<and> got = concat (bBlocks (rsBody resp))) \<and>
    (memObj config ns c' (NewKey sha256 (rqUrl r)) = None \<or>
     bErr (rsBody resp) = [] \<and> (\<exists>hs'. memObj config ns c' (NewKey sha256 (rqUrl r)) = Some (concat (bBlocks (rsBody resp)), hs')))"
proof -
  have "cOpen (memoryOps httpTime config ns) c (NewKey sha256 (rqUrl r)) [] = ((nilBody, Map.empty, [ErrNotExist]), c)"
    using assms(1) by (simp add: memoryOps_def MemOpen_spec memObj_def openSpec_def)
  then have "FetchDirect client (memoryOps httpTime config ns) ctxErr cap gone r (NewKey sha256 (rqUrl r)) c = (FetchStream st hs got out, c')"
    using assms(2) by (simp add: Fetch_def Let_def errIs_def)
  from mem.FetchDirect_stream [OF this] assms(1) show ?thesis by auto
qed

end
