(* ===== verification/RepoCounts.thy ===== *)
theory RepoCounts
  imports Httputil MetadataOps "HOL-Library.Product_Lexorder"
begin

text \<open>
  Clone counts per repository and day, \<^verbatim>\<open>internal/strategy/git/repocounts.go\<close>.

  The counts live in an \<^verbatim>\<open>IntMap\<close> of the metadata store, keyed by the upstream URL and the day.  Times are
  nanoseconds since 1970; a day is a multiple of \<open>dayNs\<close>.  A Go map is visited in the order \<open>ks\<close> of its keys, which may be any.  The
  unpacking of gzip is the parameter \<open>gunzip\<close>: what can be unpacked of the bytes, or nothing when the gzip header is wrong.
\<close>

section \<open>Model: calendar\<close>

text \<open>
  \<^verbatim>\<open>Time.Format\<close> and \<^verbatim>\<open>time.Parse\<close> with the layout \<^verbatim>\<open>2006-01-02\<close> in UTC, for the years 0 to 9999.  Days are counted from
  the first of January of the year 0, which is 719528 days before 1970.
\<close>

definition dayNs :: int where
  "dayNs = 86400 * 1000000000"

definition isLeap :: "nat \<Rightarrow> bool" where
  "isLeap y \<longleftrightarrow> y mod 4 = 0 \<and> (y mod 100 \<noteq> 0 \<or> y mod 400 = 0)"

definition monthDays :: "nat \<Rightarrow> nat list" where
  "monthDays y = [31, if isLeap y then 29 else 28, 31, 30, 31, 30, 31, 31, 30, 31, 30, 31]"

definition yearDays :: "nat \<Rightarrow> nat" where
  "yearDays y = sum_list (monthDays y)"

lemma yearDays_pos: "0 < yearDays y"
  by (simp add: yearDays_def monthDays_def)

function yearFrom :: "nat \<Rightarrow> nat \<Rightarrow> nat \<times> nat" where
  "yearFrom y n = (if n < yearDays y then (y, n) else yearFrom (Suc y) (n - yearDays y))"
  by pat_completeness auto
termination
proof (relation "measure snd")
  fix y n assume "\<not> n < yearDays y"
  then show "((Suc y, n - yearDays y), (y, n)) \<in> measure snd" using yearDays_pos [of y] by simp
qed simp

declare yearFrom.simps [simp del]

fun monthFrom :: "nat \<Rightarrow> nat list \<Rightarrow> nat \<Rightarrow> nat \<times> nat" where
  "monthFrom m [] n = (m, n)"
| "monthFrom m (l # ls) n = (if n < l then (m, n) else monthFrom (Suc m) ls (n - l))"

definition civil :: "time \<Rightarrow> nat \<times> nat \<times> nat" where
  "civil t = (case yearFrom 0 (nat (t div dayNs + 719528)) of (y, n) \<Rightarrow>
     (case monthFrom 1 (monthDays y) n of (m, d) \<Rightarrow> (y, m, Suc d)))"

definition dayNumber :: "nat \<Rightarrow> nat \<Rightarrow> nat \<Rightarrow> int" where
  "dayNumber y m d = int (sum_list (map yearDays [0..<y]) + sum_list (take (m - 1) (monthDays y)) + d - 1) - 719528"

definition pad :: "nat \<Rightarrow> nat \<Rightarrow> string" where
  "pad k n = replicate (k - length (show_nat n)) (CHR ''0'') @ show_nat n"

definition formatDate :: "time \<Rightarrow> string" where
  "formatDate t = (case civil t of (y, m, d) \<Rightarrow> pad 4 y @ ''-'' @ pad 2 m @ ''-'' @ pad 2 d)"

definition parseDate :: "string \<Rightarrow> time option" where
  "parseDate s =
     (if length s \<noteq> 10 \<or> s ! 4 \<noteq> CHR ''-'' \<or> s ! 7 \<noteq> CHR ''-'' then None
      else case (digits_val 0 (take 4 s), digits_val 0 (take 2 (drop 5 s)), digits_val 0 (drop 8 s)) of
        (Some y, Some m, Some d) \<Rightarrow>
          if 1 \<le> m \<and> m \<le> 12 \<and> 1 \<le> d \<and> d \<le> monthDays y ! (m - 1) then Some (dayNumber y m d * dayNs) else None
      | _ \<Rightarrow> None)"

section \<open>Lemmas: calendar\<close>

lemma yearFrom_sum:
  "yearFrom y n = (y', r) \<Longrightarrow> y \<le> y' \<and> r < yearDays y' \<and> n = sum_list (map yearDays [y..<y']) + r"
proof (induction y n rule: yearFrom.induct)
  case (1 y n)
  show ?case
  proof (cases "n < yearDays y")
    case True
    then show ?thesis using 1(2) by (simp add: yearFrom.simps [of y n])
  next
    case False
    then have "yearFrom (Suc y) (n - yearDays y) = (y', r)" using 1(2) by (simp add: yearFrom.simps [of y n])
    with 1(1) [OF False] have ih: "Suc y \<le> y' \<and> r < yearDays y' \<and> n - yearDays y = sum_list (map yearDays [Suc y..<y']) + r" by simp
    then have "[y..<y'] = y # [Suc y..<y']" by (simp add: upt_conv_Cons)
    then have "sum_list (map yearDays [y..<y']) = yearDays y + sum_list (map yearDays [Suc y..<y'])" by simp
    with ih False show ?thesis by linarith
  qed
qed

lemma monthFrom_sum:
  "monthFrom m ls n = (m', r) \<Longrightarrow> n < sum_list ls \<Longrightarrow>
   m \<le> m' \<and> m' - m < length ls \<and> r < ls ! (m' - m) \<and> n = sum_list (take (m' - m) ls) + r"
proof (induction ls arbitrary: m n)
  case (Cons l ls)
  show ?case
  proof (cases "n < l")
    case False
    then have "Suc m \<le> m' \<and> m' - Suc m < length ls \<and> r < ls ! (m' - Suc m) \<and> n - l = sum_list (take (m' - Suc m) ls) + r"
      using Cons.IH [of "Suc m" "n - l"] Cons.prems by simp
    moreover from this have "m' - m = Suc (m' - Suc m)" by linarith
    ultimately show ?thesis using False by (auto simp: nth_Cons')
  qed (use Cons in auto)
qed simp

lemma civil_valid:
  assumes "civil t = (y, m, d)" "- 719528 \<le> t div dayNs"
  shows "1 \<le> m \<and> m \<le> 12 \<and> 1 \<le> d \<and> d \<le> monthDays y ! (m - 1) \<and> dayNumber y m d = t div dayNs"
proof -
  obtain n where yf: "yearFrom 0 (nat (t div dayNs + 719528)) = (y, n)" and mf: "monthFrom 1 (monthDays y) n = (m, d - 1)" and d: "1 \<le> d"
    using assms(1) by (auto simp: civil_def split: prod.splits)
  note ys = yearFrom_sum [OF yf]
  have "n < sum_list (monthDays y)" using ys by (simp add: yearDays_def)
  note ms = monthFrom_sum [OF mf this]
  have "length (monthDays y) = 12" by (simp add: monthDays_def)
  then have "m \<le> 12" "d \<le> monthDays y ! (m - 1)" using ms d by linarith+
  moreover have "int (nat (t div dayNs + 719528)) = t div dayNs + 719528" using assms(2) by simp
  ultimately show ?thesis using ys ms d by (auto simp: dayNumber_def)
qed

lemma show_nat_length: "n < 10 ^ k \<Longrightarrow> 0 < k \<Longrightarrow> length (show_nat n) \<le> k"
proof (induction k arbitrary: n)
  case (Suc k)
  show ?case
  proof (cases "n < 10")
    case False
    then have "0 < k" using Suc.prems by (cases k) auto
    moreover have "n div 10 < 10 ^ k" using Suc.prems by (simp add: less_mult_imp_div_less mult.commute)
    ultimately show ?thesis using Suc.IH False by (simp add: show_nat.simps [of n])
  qed (simp add: show_nat.simps [of n])
qed simp

lemma digits_val_pad: "digits_val 0 (pad k n) = Some n"
proof -
  have "digits_val 0 (replicate j (CHR ''0'') @ s) = digits_val 0 s" for j s
    by (induction j) (auto simp: is_digit_def digit_val_def)
  then show ?thesis by (simp add: pad_def digits_val_show_nat)
qed

lemma pad_length: "n < 10 ^ k \<Longrightarrow> 0 < k \<Longrightarrow> length (pad k n) = k"
  using show_nat_length [of n k] by (simp add: pad_def)

lemma pad_digits: "c \<in> set (pad k n) \<Longrightarrow> is_digit c"
  by (auto simp: pad_def show_nat_digits is_digit_def [of "CHR ''0''"])

text \<open>The first year that \<^verbatim>\<open>time.Parse\<close> cannot read is 10000.\<close>

definition calendarTime :: "time \<Rightarrow> bool" where
  "calendarTime t \<longleftrightarrow> - 719528 \<le> t div dayNs \<and> fst (civil t) < 10000"

lemma parse_format:
  assumes "calendarTime t"
  shows "parseDate (formatDate t) = Some (t div dayNs * dayNs)"
proof -
  obtain y m d where c: "civil t = (y, m, d)" by (metis prod.exhaust)
  note v = civil_valid [OF c]
  have "monthDays y ! (m - 1) \<le> 31" if "m \<le> 12"
    using that by (auto simp: monthDays_def nth_Cons' numeral_eq_Suc)
  then have b: "y < 10 ^ 4" "m < 10 ^ 2" "d < 10 ^ 2" using assms c v by (auto simp: calendarTime_def)
  note l = pad_length [OF b(1)] pad_length [OF b(2)] pad_length [OF b(3)]
  show ?thesis using assms v l by (simp add: parseDate_def formatDate_def c calendarTime_def nth_append digits_val_pad)
qed

section \<open>Model: counts\<close>

definition repoCountsMapName :: string where
  "repoCountsMapName = ''repo_clone_counts''"

definition repoCountsKey :: "string \<Rightarrow> time \<Rightarrow> string" where
  "repoCountsKey url t = url @ ''|'' @ formatDate t"

text \<open>The key is split at the last separator.\<close>

definition splitRepoCountsKey :: "string \<Rightarrow> (string \<times> time) option" where
  "splitRepoCountsKey k =
     (case Cut (CHR ''|'') (rev k) of
        None \<Rightarrow> None
      | Some (d, r) \<Rightarrow>
          if r = [] \<or> d = [] then None
          else (case parseDate (rev d) of None \<Rightarrow> None | Some day \<Rightarrow> Some (rev r, day)))"

text \<open>A nil \<^verbatim>\<open>*RepoCounts\<close> is \<^const>\<open>None\<close>; otherwise it has the namespace of its map and the retention.\<close>

record RepoCounts =
  rcNs :: string
  retentionDays :: int

definition NewRepoCounts :: "string option \<Rightarrow> RepoCounts option" where
  "NewRepoCounts ns = map_option (\<lambda>n. \<lparr>rcNs = n, retentionDays = 90\<rparr>) ns"

definition IncrementClone :: "'b backendOps \<Rightarrow> time \<Rightarrow> RepoCounts option \<Rightarrow> string \<Rightarrow> 'b \<Rightarrow> goerr \<times> 'b" where
  "IncrementClone B t rc url b =
     (case rc of
        None \<Rightarrow> ([], b)
      | Some r \<Rightarrow> if url = '''' then ([], b) else intMapAdd B b (rcNs r) repoCountsMapName (JStr (repoCountsKey url t)) 1)"

text \<open>\<^verbatim>\<open>AddDate(0, 0, days).Truncate(24 * time.Hour)\<close>\<close>

definition dayStart :: "time \<Rightarrow> int \<Rightarrow> time" where
  "dayStart t days = (t div dayNs + days) * dayNs"

definition intOf :: "val option \<Rightarrow> int64" where
  "intOf v = (case v of Some (VInt n) \<Rightarrow> n | _ \<Rightarrow> 0)"

definition inWindow :: "time option \<Rightarrow> time \<Rightarrow> bool" where
  "inWindow cutoff day \<longleftrightarrow> (case cutoff of None \<Rightarrow> True | Some c \<Rightarrow> c \<le> day)"

fun aggregate :: "(string \<rightharpoonup> val) \<Rightarrow> time option \<Rightarrow> string list \<Rightarrow> (string \<rightharpoonup> int64) \<Rightarrow> (string \<rightharpoonup> int64)" where
  "aggregate entries cutoff [] agg = agg"
| "aggregate entries cutoff (k # ks) agg =
     (case splitRepoCountsKey k of
        None \<Rightarrow> aggregate entries cutoff ks agg
      | Some (repo, day) \<Rightarrow>
          if \<not> inWindow cutoff day then aggregate entries cutoff ks agg
          else aggregate entries cutoff ks
            (agg(repo \<mapsto> (case agg repo of None \<Rightarrow> 0 | Some n \<Rightarrow> n) + intOf (entries k))))"

text \<open>
  The rows by descending count, then by name.  The names differ, so the comparison is a total order on the rows and the
  sorted list does not depend on the algorithm or on the order of the map.
\<close>

definition sortRows :: "(string \<rightharpoonup> int64) \<Rightarrow> (string \<times> int64) list" where
  "sortRows agg = sort_key (\<lambda>(repo, n). (- sint n, repo)) (map (\<lambda>repo. (repo, the (agg repo))) (sorted_list_of_set (dom agg)))"

definition TopRepos :: "'b backendOps \<Rightarrow> time \<Rightarrow> (string set \<Rightarrow> string list) \<Rightarrow> RepoCounts option \<Rightarrow> int \<Rightarrow> int \<Rightarrow> 'b \<Rightarrow> (string \<times> int64) list \<times> 'b" where
  "TopRepos B t ord rc windowDays limit b =
     (case rc of
        None \<Rightarrow> ([], b)
      | Some r \<Rightarrow>
          (case intMapEntries B b (rcNs r) repoCountsMapName of (entries, b1) \<Rightarrow>
             (let cutoff = (if 0 < windowDays then Some (dayStart t (- windowDays + 1)) else None);
                  out = sortRows (aggregate entries cutoff (ord (dom entries)) Map.empty)
              in (if 0 < limit \<and> limit < int (length out) then take (nat limit) out else out, b1))))"

definition staleKey :: "time \<Rightarrow> string \<Rightarrow> bool" where
  "staleKey cutoff k = (case splitRepoCountsKey k of None \<Rightarrow> True | Some (_, day) \<Rightarrow> day < cutoff)"

fun reapLoop :: "'b backendOps \<Rightarrow> string \<Rightarrow> time \<Rightarrow> string list \<Rightarrow> nat \<Rightarrow> 'b \<Rightarrow> (nat \<times> goerr) \<times> 'b" where
  "reapLoop B ns cutoff [] deleted b = ((deleted, []), b)"
| "reapLoop B ns cutoff (k # ks) deleted b =
     (if staleKey cutoff k then
        (case intMapDelete B b ns repoCountsMapName (JStr k) of (e, b1) \<Rightarrow>
           if e \<noteq> [] then ((deleted, ErrOther ''delete repo count'' # e), b1) else reapLoop B ns cutoff ks (Suc deleted) b1)
      else reapLoop B ns cutoff ks deleted b)"

definition Reap :: "'b backendOps \<Rightarrow> time \<Rightarrow> (string set \<Rightarrow> string list) \<Rightarrow> RepoCounts option \<Rightarrow> 'b \<Rightarrow> (nat \<times> goerr) \<times> 'b" where
  "Reap B t ord rc b =
     (case rc of
        None \<Rightarrow> ((0, []), b)
      | Some r \<Rightarrow>
          (case intMapEntries B b (rcNs r) repoCountsMapName of (entries, b1) \<Rightarrow>
             if dom entries = {} then ((0, []), b1)
             else reapLoop B (rcNs r) (dayStart t (- retentionDays r)) (ord (dom entries)) 0 b1))"

section \<open>Model: requests\<close>

fun bytesContains :: "'a list \<Rightarrow> 'a list \<Rightarrow> bool" where
  "bytesContains [] sub = (sub = [])"
| "bytesContains (x # xs) sub = (CutPrefix sub (x # xs) \<noteq> None \<or> bytesContains xs sub)"

definition uploadPackBodyInspectLimit :: nat where
  "uploadPackBodyInspectLimit = 64 * 1024"

definition asBytes :: "string \<Rightarrow> bytes" where
  "asBytes s = map of_char s"

text \<open>
  The bytes to inspect and the body that replays them before the rest.  A read error within the limit is returned, and then
  the body has lost what was read.
\<close>

definition inspectUploadPackBody :: "(bytes \<Rightarrow> bytes option) \<Rightarrow> request \<Rightarrow> body \<Rightarrow> (goerr + bytes) \<times> body" where
  "inspectUploadPackBody gunzip r bd =
     (let d = concat (bBlocks bd); pre = take uploadPackBodyInspectLimit d
      in if length d < uploadPackBodyInspectLimit \<and> bErr bd \<noteq> [] then (Inl (ErrOther ''read upload-pack body'' # bErr bd), bd\<lparr>bBlocks := []\<rparr>)
         else (Inr (if map toLower (hGet (rqHeader r) ''Content-Encoding'') = ''gzip''
                    then (case gunzip pre of None \<Rightarrow> pre | Some dec \<Rightarrow> take uploadPackBodyInspectLimit dec) else pre),
               bd\<lparr>bBlocks := [pre, drop uploadPackBodyInspectLimit d]\<rparr>))"

definition isLsRefsBody :: "bytes \<Rightarrow> bool" where
  "isLsRefsBody inspect = bytesContains (take 256 inspect) (asBytes ''command=ls-refs'')"

text \<open>A missing body, nil or \<^verbatim>\<open>http.NoBody\<close>, is \<^const>\<open>None\<close>.\<close>

definition RequestIsClone :: "(bytes \<Rightarrow> bytes option) \<Rightarrow> string \<Rightarrow> request \<Rightarrow> body option \<Rightarrow> (goerr + bool) \<times> body option" where
  "RequestIsClone gunzip pathValue r bd =
     (if rqMethod r \<noteq> ''POST'' \<or> \<not> HasSuffix pathValue ''/git-upload-pack'' then (Inr False, bd)
      else case bd of
        None \<Rightarrow> (Inr True, bd)
      | Some body0 \<Rightarrow>
          (case inspectUploadPackBody gunzip r body0 of (res, body1) \<Rightarrow>
             ((case res of
                 Inl e \<Rightarrow> Inl e
               | Inr inspect \<Rightarrow> Inr (\<not> isLsRefsBody inspect \<and> \<not> bytesContains inspect (asBytes ''have ''))), Some body1)))"

definition requestIsLsRefs :: "(bytes \<Rightarrow> bytes option) \<Rightarrow> string \<Rightarrow> request \<Rightarrow> body option \<Rightarrow> (goerr + bool) \<times> body option" where
  "requestIsLsRefs gunzip pathValue r bd =
     (if rqMethod r \<noteq> ''POST'' \<or> \<not> HasSuffix pathValue ''/git-upload-pack'' then (Inr False, bd)
      else case bd of
        None \<Rightarrow> (Inr False, bd)
      | Some body0 \<Rightarrow>
          (case inspectUploadPackBody gunzip r body0 of (res, body1) \<Rightarrow>
             ((case res of Inl e \<Rightarrow> Inl e | Inr inspect \<Rightarrow> Inr (isLsRefsBody inspect)), Some body1)))"


section \<open>Lemmas: rows\<close>

text \<open>A bucket's key gives back its repository and day, also when the URL contains the separator.\<close>

lemma split_key:
  assumes "url \<noteq> []" "calendarTime t"
  shows "splitRepoCountsKey (repoCountsKey url t) = Some (url, t div dayNs * dayNs)"
proof -
  have "CHR ''|'' \<notin> set (formatDate t)"
    using pad_digits by (force simp: formatDate_def is_digit_def split: prod.splits)
  moreover have "formatDate t \<noteq> []" by (simp add: formatDate_def split: prod.splits)
  ultimately show ?thesis using assms by (simp add: splitRepoCountsKey_def repoCountsKey_def parse_format)
qed

definition countsFor :: "time option \<Rightarrow> string \<Rightarrow> string \<Rightarrow> bool" where
  "countsFor cutoff repo k = (case splitRepoCountsKey k of None \<Rightarrow> False | Some (r, day) \<Rightarrow> r = repo \<and> inWindow cutoff day)"

lemma aggregate_sum:
  "aggregate entries cutoff ks agg repo =
     (let ms = filter (countsFor cutoff repo) ks
      in if ms = [] then agg repo else Some ((case agg repo of None \<Rightarrow> 0 | Some n \<Rightarrow> n) + sum_list (map (\<lambda>k. intOf (entries k)) ms)))"
  by (induction ks arbitrary: agg) (auto simp: countsFor_def Let_def split: option.splits prod.splits)

text \<open>The total of a repository, whatever the order of the map.\<close>

definition repoTotal :: "(string \<rightharpoonup> val) \<Rightarrow> time option \<Rightarrow> string \<Rightarrow> int64 option" where
  "repoTotal entries cutoff repo =
     (let ms = {k \<in> dom entries. countsFor cutoff repo k} in if ms = {} then None else Some (\<Sum>k \<in> ms. intOf (entries k)))"

lemma aggregate_total:
  assumes "distinct ks" "set ks = dom entries"
  shows "aggregate entries cutoff ks Map.empty = repoTotal entries cutoff"
proof
  fix repo
  have "set (filter (countsFor cutoff repo) ks) = {k \<in> dom entries. countsFor cutoff repo k}" using assms(2) by auto
  then show "aggregate entries cutoff ks Map.empty repo = repoTotal entries cutoff repo"
    using assms(1) by (auto simp: aggregate_sum repoTotal_def Let_def sum.distinct_set_conv_list [symmetric] filter_empty_conv simp flip: set_empty)
qed

lemma repoTotal_finite: "finite (dom entries) \<Longrightarrow> finite (dom (repoTotal entries cutoff))"
proof -
  assume "finite (dom entries)"
  moreover have "dom (repoTotal entries cutoff) \<subseteq> (\<lambda>k. fst (the (splitRepoCountsKey k))) ` dom entries"
    by (force simp: repoTotal_def Let_def countsFor_def split: if_splits option.splits)
  ultimately show ?thesis by (rule finite_surj)
qed

lemma sortRows_spec:
  assumes "finite (dom agg)"
  shows "sorted (map (\<lambda>(repo, n). (- sint n, repo)) (sortRows agg)) \<and> distinct (map fst (sortRows agg)) \<and>
    set (sortRows agg) = {(repo, n). agg repo = Some n}"
proof -
  let ?rows = "map (\<lambda>repo. (repo, the (agg repo))) (sorted_list_of_set (dom agg))"
  have "mset (map fst (sortRows agg)) = mset (map fst ?rows)" by (simp add: sortRows_def del: map_map)
  then have "distinct (map fst (sortRows agg))"
    using mset_eq_imp_distinct_iff by (fastforce simp: comp_def)
  then show ?thesis using assms by (force simp: sortRows_def)
qed


section \<open>Lemmas: the stored map\<close>

definition encodeKey :: "string \<Rightarrow> string" where
  "encodeKey k = marshalKey (JStr k)"

text \<open>A map of the metadata store whose keys all encode strings.\<close>

definition stringKeys :: "(string \<rightharpoonup> val) \<Rightarrow> bool" where
  "stringKeys m \<longleftrightarrow> finite (dom m) \<and> dom m \<subseteq> range encodeKey"

lemma decode_encode: "decodeMapKey (encodeKey k) = k"
  using jsonDecode_marshal [of "JStr k"] by (simp add: decodeMapKey_def encodeKey_def marshalKey_def)

lemma encodeKey_eq [simp]: "encodeKey a = encodeKey b \<longleftrightarrow> a = b"
  by (metis decode_encode)

lemma decodeMapKeys_at:
  assumes "stringKeys m"
  shows "decodeMapKeys m k = m (encodeKey k)"
proof -
  have "foldl (\<lambda>res x. res(decodeMapKey x := m x)) r xs k = (if encodeKey k \<in> set xs then m (encodeKey k) else r k)"
    if "set xs \<subseteq> range encodeKey" for r xs
    using that by (induction xs arbitrary: r) (auto simp: decode_encode)
  from this [of "sorted_list_of_set (dom m)" Map.empty] show ?thesis
    using assms by (cases "m (encodeKey k)") (auto simp: decodeMapKeys_def stringKeys_def)
qed

lemma decodeMapKeys_dom: "stringKeys m \<Longrightarrow> dom (decodeMapKeys m) = decodeMapKey ` dom m"
  by (force simp: dom_def decodeMapKeys_at stringKeys_def decode_encode image_iff subset_iff)

lemma delete_submap:
  "getOrCreateSubmap (foldl ApplyOp s (map (\<lambda>k. IntMapDelete name (JStr k)) ks)) name x =
   (if x \<in> encodeKey ` set ks then None else getOrCreateSubmap s name x)"
  by (induction ks arbitrary: s) (auto simp: getOrCreateSubmap_def asMap_def encodeKey_def split: option.splits val.splits)

text \<open>The stored map of a counter, and its counts by key.\<close>

definition stored :: "('b \<Rightarrow> string \<Rightarrow> nsState) \<Rightarrow> RepoCounts \<Rightarrow> 'b \<Rightarrow> string \<rightharpoonup> val" where
  "stored st r b = getOrCreateSubmap (st b (rcNs r)) repoCountsMapName"

definition cloneCounts :: "('b \<Rightarrow> string \<Rightarrow> nsState) \<Rightarrow> RepoCounts \<Rightarrow> 'b \<Rightarrow> string \<rightharpoonup> val" where
  "cloneCounts st r b = (\<lambda>k. stored st r b (encodeKey k))"

definition enumerates :: "(string set \<Rightarrow> string list) \<Rightarrow> bool" where
  "enumerates ord \<longleftrightarrow> (\<forall>S. finite S \<longrightarrow> distinct (ord S) \<and> set (ord S) = S)"

definition windowCutoff :: "time \<Rightarrow> int \<Rightarrow> time option" where
  "windowCutoff t w = (if 0 < w then Some (dayStart t (- w + 1)) else None)"

definition topRows :: "(string \<rightharpoonup> val) \<Rightarrow> time option \<Rightarrow> int \<Rightarrow> (string \<times> int64) list" where
  "topRows entries cutoff limit =
     (let full = sortRows (repoTotal entries cutoff)
      in if 0 < limit \<and> limit < int (length full) then take (nat limit) full else full)"

lemma topRows_fresh:
  assumes "0 < w" "w \<le> ret + 1"
  shows "topRows (m |` {k. \<not> staleKey (dayStart t (- ret)) k}) (windowCutoff t w) limit = topRows m (windowCutoff t w) limit"
proof -
  have "dayStart t (- ret) \<le> dayStart t (- w + 1)" using assms by (simp add: dayStart_def dayNs_def)
  then have fresh: "countsFor (windowCutoff t w) repo k \<Longrightarrow> \<not> staleKey (dayStart t (- ret)) k" for repo k
    using assms by (auto simp: countsFor_def staleKey_def inWindow_def windowCutoff_def split: option.splits)
  have "repoTotal (m |` {k. \<not> staleKey (dayStart t (- ret)) k}) (windowCutoff t w) repo = repoTotal m (windowCutoff t w) repo" for repo
  proof -
    have "{k \<in> dom (m |` {k. \<not> staleKey (dayStart t (- ret)) k}). countsFor (windowCutoff t w) repo k} = {k \<in> dom m. countsFor (windowCutoff t w) repo k}"
      using fresh by auto
    moreover have "intOf ((m |` {k. \<not> staleKey (dayStart t (- ret)) k}) k) = intOf (m k)" if "countsFor (windowCutoff t w) repo k" for k
      using fresh that by simp
    ultimately show ?thesis by (simp add: repoTotal_def Let_def)
  qed
  then have "repoTotal (m |` {k. \<not> staleKey (dayStart t (- ret)) k}) (windowCutoff t w) = repoTotal m (windowCutoff t w)" by blast
  then show ?thesis by (simp add: topRows_def)
qed

context metadata_backend
begin

lemma reapLoop_st:
  "\<lbrakk>bok b; reapLoop B ns cutoff ks n b = ((n', e), b')\<rbrakk> \<Longrightarrow>
   bok b' \<and> (e = [] \<longrightarrow> n' = n + length (filter (staleKey cutoff) ks) \<and>
     st b' ns = foldl ApplyOp (st b ns) (map (\<lambda>k. IntMapDelete repoCountsMapName (JStr k)) (filter (staleKey cutoff) ks)))"
proof (induction ks arbitrary: b n)
  case (Cons k ks)
  obtain e1 b1 where d: "intMapDelete B b ns repoCountsMapName (JStr k) = (e1, b1)" by (metis prod.exhaust)
  note a = d [unfolded intMapDelete_def]
  show ?case
  proof (cases "staleKey cutoff k \<and> e1 = []")
    case True
    then show ?thesis using Cons.IH [OF apply_bok [OF Cons.prems(1) a], of "Suc n"] Cons.prems(2) d apply_st [OF Cons.prems(1) a] by simp
  next
    case False
    then show ?thesis using Cons d apply_bok [OF Cons.prems(1) a] by (cases "staleKey cutoff k") auto
  qed
qed simp

lemma intMapEntries_at:
  assumes "bok b" "intMapEntries B b ns name = (entries, b1)" "stringKeys (getOrCreateSubmap (st b ns) name)"
  shows "entries = (\<lambda>k. getOrCreateSubmap (st b ns) name (encodeKey k)) \<and> finite (dom entries) \<and> st b1 = st b \<and> bok b1"
proof -
  obtain r where q: "bQuery B b ns (IntMapEntries name) = (r, b1)" "entries = entriesRes r"
    using assms(2) by (auto simp: intMapEntries_def map_prod_def split: prod.splits)
  let ?m = "getOrCreateSubmap (st b ns) name"
  have "entries = decodeMapKeys ?m"
    using query_ans [OF assms(1) q(1)] q(2) by (auto simp: entriesRes_def getOrCreateSubmap_def decodeMapKeys_def split: option.splits)
  moreover from this have "finite (dom entries)" using decodeMapKeys_dom [OF assms(3)] assms(3) by (simp add: stringKeys_def)
  ultimately show ?thesis using query_st [OF assms(1) q(1)] decodeMapKeys_at [OF assms(3)] by auto
qed

text \<open>
  \<^verbatim>\<open>TopRepos\<close> lists the totals of the repositories in the window, the largest first, whatever the order of the map.
\<close>

lemma TopRepos_rows:
  assumes "bok b" "stringKeys (stored st r b)" "enumerates ord" "TopRepos B t ord (Some r) w limit b = (rows, b')"
  shows "st b' = st b \<and> bok b' \<and> rows = topRows (cloneCounts st r b) (windowCutoff t w) limit"
proof -
  obtain entries b1 where q: "intMapEntries B b (rcNs r) repoCountsMapName = (entries, b1)" by (metis prod.exhaust)
  note e = intMapEntries_at [OF assms(1) q assms(2) [unfolded stored_def]]
  then have fin: "finite (dom entries)" and en: "entries = cloneCounts st r b" by (auto simp: cloneCounts_def stored_def)
  have ord: "distinct (ord (dom entries))" "set (ord (dom entries)) = dom entries" using assms(3) fin by (auto simp: enumerates_def)
  have "aggregate entries c (ord (dom entries)) Map.empty = repoTotal entries c" for c by (rule aggregate_total [OF ord])
  then show ?thesis using assms(4) q e en by (auto simp: TopRepos_def topRows_def windowCutoff_def Let_def)
qed

text \<open>\<^verbatim>\<open>Reap\<close> deletes exactly the malformed keys and those older than the retention.\<close>

lemma Reap_exact:
  assumes "bok b" "stringKeys (stored st r b)" "enumerates ord" "Reap B t ord (Some r) b = ((n, []), b')"
  shows "bok b' \<and> stringKeys (stored st r b') \<and>
    cloneCounts st r b' = cloneCounts st r b |` {k. \<not> staleKey (dayStart t (- retentionDays r)) k} \<and>
    n = card {k \<in> dom (cloneCounts st r b). staleKey (dayStart t (- retentionDays r)) k}"
proof -
  let ?c = "dayStart t (- retentionDays r)"
  obtain entries b1 where q: "intMapEntries B b (rcNs r) repoCountsMapName = (entries, b1)" by (metis prod.exhaust)
  note e = intMapEntries_at [OF assms(1) q assms(2) [unfolded stored_def]]
  then have fin: "finite (dom entries)" and en: "entries = cloneCounts st r b" by (auto simp: cloneCounts_def stored_def)
  have ord: "distinct (ord (dom entries))" "set (ord (dom entries)) = dom entries" using assms(3) fin by (auto simp: enumerates_def)
  have run: "reapLoop B (rcNs r) ?c (ord (dom entries)) 0 b1 = ((n, []), b')"
    using assms(4) q ord(2) by (auto simp: Reap_def split: if_splits)
  have rs: "bok b'" "n = length (filter (staleKey ?c) (ord (dom entries)))"
      "st b' (rcNs r) = foldl ApplyOp (st b (rcNs r)) (map (\<lambda>k. IntMapDelete repoCountsMapName (JStr k)) (filter (staleKey ?c) (ord (dom entries))))"
    using reapLoop_st [OF _ run] e by auto
  have sub: "stored st r b' x = (if x \<in> encodeKey ` {k \<in> dom entries. staleKey ?c k} then None else stored st r b x)" for x
    using delete_submap [of _ repoCountsMapName "filter (staleKey ?c) (ord (dom entries))" x] ord(2) rs(3)
    by (auto simp: stored_def)
  then have "dom (stored st r b') \<subseteq> dom (stored st r b)" by (auto split: if_splits)
  then have "stringKeys (stored st r b')" using assms(2) by (auto simp: stringKeys_def intro: finite_subset)
  moreover have "cloneCounts st r b' k = (cloneCounts st r b |` {k. \<not> staleKey ?c k}) k" for k
    using sub en by (auto simp: cloneCounts_def restrict_map_def)
  moreover have "n = card (set (filter (staleKey ?c) (ord (dom entries))))" using rs(2) ord(1) distinct_card [OF distinct_filter] by metis
  ultimately show ?thesis using rs(1) ord(2) en by auto
qed

text \<open>Reaping changes no answer for a window that the retention covers.\<close>

lemma Reap_keeps_top:
  assumes "bok b" "stringKeys (stored st r b)" "enumerates ord" "Reap B t ord (Some r) b = ((n, []), b')"
    and "0 < w" "w \<le> retentionDays r + 1"
  shows "fst (TopRepos B t ord (Some r) w limit b') = fst (TopRepos B t ord (Some r) w limit b)"
proof -
  note rx = Reap_exact [OF assms(1-4)]
  have "topRows (cloneCounts st r b') (windowCutoff t w) limit = topRows (cloneCounts st r b) (windowCutoff t w) limit"
    using rx topRows_fresh [OF assms(5,6)] by metis
  moreover have "fst (TopRepos B t ord (Some r) w limit x) = topRows (cloneCounts st r x) (windowCutoff t w) limit"
    if "bok x" "stringKeys (stored st r x)" for x
    using TopRepos_rows [OF that assms(3)] by (metis prod.collapse)
  ultimately show ?thesis using rx assms(1,2) by metis
qed

text \<open>Counting a clone adds one to today's bucket of the repository, wrapping at 64 bits.\<close>

lemma IncrementClone_adds:
  assumes "bok b" "stringKeys (stored st r b)" "IncrementClone B t (Some r) url b = ([], b')" "url \<noteq> []"
  shows "bok b' \<and> stringKeys (stored st r b') \<and> cloneCounts st r b' =
    (cloneCounts st r b)(repoCountsKey url t \<mapsto> VInt (toInt64 (cloneCounts st r b (repoCountsKey url t)) + 1))"
proof -
  have a: "bApply B b (rcNs r) [IntMapAdd repoCountsMapName (JStr (repoCountsKey url t)) 1] = ([], b')"
    using assms(3,4) by (simp add: IncrementClone_def intMapAdd_def)
  have "stored st r b' = (stored st r b)(encodeKey (repoCountsKey url t) \<mapsto> VInt (toInt64 (stored st r b (encodeKey (repoCountsKey url t))) + 1))"
    using apply_st [OF assms(1) a] by (simp add: stored_def getOrCreateSubmap_def asMap_def encodeKey_def Let_def)
  then show ?thesis using apply_bok [OF assms(1) a] assms(2) by (auto simp: cloneCounts_def stringKeys_def)
qed

end

text \<open>On the in-memory backend no call fails, so a reaping always completes.\<close>

lemma memory_reap:
  assumes "stringKeys (stored memNsState r b)" "enumerates ord" "Reap memoryBackendOps t ord (Some r) b = ((n, e), b')"
  shows "e = [] \<and> cloneCounts memNsState r b' = cloneCounts memNsState r b |` {k. \<not> staleKey (dayStart t (- retentionDays r)) k} \<and>
    (\<forall>w limit. 0 < w \<and> w \<le> retentionDays r + 1 \<longrightarrow>
       fst (TopRepos memoryBackendOps t ord (Some r) w limit b') = fst (TopRepos memoryBackendOps t ord (Some r) w limit b))"
proof -
  have "snd (fst (reapLoop memoryBackendOps ns cutoff ks m x)) = []" for ns cutoff ks m x
    by (induction ks arbitrary: m x) (auto simp: intMapDelete_def memoryBackendOps_def memBackendApply_def split: prod.splits)
  then have e: "e = []"
    using assms(3) by (auto simp: Reap_def split: if_splits prod.splits) (metis fst_conv snd_conv)
  note run = assms(3) [unfolded e]
  show ?thesis using e memdb.Reap_exact [OF TrueI assms(1,2) run] memdb.Reap_keeps_top [OF TrueI assms(1,2) run] by blast
qed

text \<open>A clone counted now is in today's list.\<close>

lemma memory_increment_listed:
  assumes "stringKeys (stored memNsState r b)" "enumerates ord" "url \<noteq> []" "calendarTime t" "0 < w"
    and "IncrementClone memoryBackendOps t (Some r) url b = (e, b')"
  shows "\<exists>n. (url, n) \<in> set (fst (TopRepos memoryBackendOps t ord (Some r) w 0 b'))"
proof -
  have "e = []" using assms(3,6) by (auto simp: IncrementClone_def intMapAdd_def memoryBackendOps_def memBackendApply_def split: prod.splits)
  note inc = memdb.IncrementClone_adds [OF TrueI assms(1) assms(6) [unfolded this] assms(3)]
  let ?m = "cloneCounts memNsState r b'"
  have "countsFor (windowCutoff t w) url (repoCountsKey url t)"
    using assms(5) by (simp add: countsFor_def split_key assms(3,4) inWindow_def windowCutoff_def dayStart_def dayNs_def)
  moreover have "repoCountsKey url t \<in> dom ?m" using inc by simp
  ultimately have "repoTotal ?m (windowCutoff t w) url \<noteq> None" by (auto simp: repoTotal_def Let_def)
  moreover have "finite (dom ?m)"
  proof -
    have "encodeKey ` dom ?m \<subseteq> dom (stored memNsState r b')" by (auto simp: cloneCounts_def)
    then show ?thesis using inc finite_subset finite_imageD [of encodeKey "dom ?m"] by (auto simp: stringKeys_def inj_on_def)
  qed
  ultimately have "\<exists>n. (url, n) \<in> set (topRows ?m (windowCutoff t w) 0)"
    using sortRows_spec [OF repoTotal_finite] by (auto simp: topRows_def)
  moreover have "fst (TopRepos memoryBackendOps t ord (Some r) w 0 b') = topRows ?m (windowCutoff t w) 0"
    using memdb.TopRepos_rows [OF TrueI _ assms(2)] inc by (metis prod.collapse)
  ultimately show ?thesis by simp
qed

section \<open>Lemmas: requests\<close>

lemma bytesContains_iff: "bytesContains s sub \<longleftrightarrow> (\<exists>a b. s = a @ sub @ b)"
proof (induction s)
  case (Cons x xs)
  then show ?case by (auto simp: CutPrefix_Some) (metis append_Cons append_Nil list.exhaust list.inject)+
qed simp

text \<open>Inspecting a request leaves its body as it was for the handler that follows.\<close>

lemma RequestIsClone_replays:
  assumes "RequestIsClone gunzip p r (Some bd) = (Inr c, bd')"
  shows "\<exists>bd1. bd' = Some bd1 \<and> concat (bBlocks bd1) = concat (bBlocks bd) \<and> bErr bd1 = bErr bd \<and> bCloseErr bd1 = bCloseErr bd"
  using assms by (auto simp: RequestIsClone_def inspectUploadPackBody_def Let_def split: if_splits sum.splits)

text \<open>A request is not both a clone and a listing of refs, and a negotiation with a \<^verbatim>\<open>have\<close> line within the limit is no clone.\<close>

lemma RequestIsClone_excludes:
  assumes "RequestIsClone gunzip p r bd = (Inr True, bd')"
  shows "fst (requestIsLsRefs gunzip p r bd) = Inr False"
    and "\<lbrakk>bd = Some body0; map toLower (hGet (rqHeader r) ''Content-Encoding'') \<noteq> ''gzip'';
          concat (bBlocks body0) = a @ asBytes ''have '' @ rest\<rbrakk> \<Longrightarrow> uploadPackBodyInspectLimit < length a + 5"
proof -
  show "fst (requestIsLsRefs gunzip p r bd) = Inr False"
    using assms by (auto simp: RequestIsClone_def requestIsLsRefs_def split: if_splits option.splits prod.splits sum.splits)
next
  assume bd: "bd = Some body0" and plain: "map toLower (hGet (rqHeader r) ''Content-Encoding'') \<noteq> ''gzip''"
    and body: "concat (bBlocks body0) = a @ asBytes ''have '' @ rest"
  have no: "\<not> bytesContains (take uploadPackBodyInspectLimit (a @ asBytes ''have '' @ rest)) (asBytes ''have '')"
    using assms bd plain body by (auto simp: RequestIsClone_def inspectUploadPackBody_def Let_def split: if_splits)
  show "uploadPackBodyInspectLimit < length a + 5"
  proof (rule ccontr)
    assume "\<not> uploadPackBodyInspectLimit < length a + 5"
    moreover have "length (asBytes ''have '') = 5" by (simp add: asBytes_def)
    ultimately have "take uploadPackBodyInspectLimit (a @ asBytes ''have '' @ rest) = a @ asBytes ''have '' @ take (uploadPackBodyInspectLimit - (length a + 5)) rest"
      by (simp add: take_append)
    then show False using no by (auto simp: bytesContains_iff)
  qed
qed


end
