(* ===== verification/S3Cache.thy ===== *)
theory S3Cache
  imports CacheCore Json
begin

text \<open>
  The S3 object cache, \<^verbatim>\<open>internal/cache/s3.go\<close> and \<^verbatim>\<open>s3_parallel_get.go\<close>.

  An entry is two objects of the bucket, the data with its headers as user metadata and a companion with the ETag and the
  expiry; they are written by separate requests, and a random tag in both tells readers whether they belong together.
  The model follows the two objects of one key through every interleaving of writers, readers and the refreshes that \<^verbatim>\<open>Open\<close> starts, one
  request to S3 at a time; different keys have different objects (\<open>paths_distinct\<close>).  A request succeeds, fails, or takes
  effect and loses its answer (\<open>s3Out\<close>).  The S3 client is a parameter: an upload replaces the
  object as a whole, and the ETag that S3 gives it is an argument of the step.  The companion is kept as a value, because the JSON form of times is
  not modelled; a companion that cannot be read is a failing request.
\<close>

section \<open>Model: configuration and names\<close>

record S3Config =
  scMaxTTL :: duration
  scUploadConcurrency :: nat
  scUploadPartSizeMB :: nat
  scDownloadConcurrency :: nat
  scDownloadPartSizeMB :: nat

definition s3CompanionGrace :: duration where
  "s3CompanionGrace = 15 * 60 * 1000000000"

text \<open>The arguments are the number of processors, the error of the shared client, and the answer of \<^verbatim>\<open>BucketExists\<close>.\<close>

definition NewS3 :: "nat \<Rightarrow> goerr \<Rightarrow> goerr + bool \<Rightarrow> S3Config \<Rightarrow> goerr + S3Config" where
  "NewS3 numCPU clientErr bucketExists config =
     (let c1 = (if scUploadConcurrency config = 0 then config\<lparr>scUploadConcurrency := max numCPU 1\<rparr> else config)
      in if scUploadPartSizeMB c1 < 5 then Inl [ErrOther ''upload-part-size-mb must be at least 5MB'']
         else let c2 = (if scDownloadConcurrency c1 = 0 then c1\<lparr>scDownloadConcurrency := 8\<rparr> else c1);
                  c3 = (if scDownloadPartSizeMB c2 = 0 then c2\<lparr>scDownloadPartSizeMB := 32\<rparr> else c2)
              in if clientErr \<noteq> [] then Inl (ErrOther ''failed to obtain shared S3 client'' # clientErr)
                 else (case bucketExists of
                     Inl e \<Rightarrow> Inl (ErrOther ''failed to check if bucket exists'' # e)
                   | Inr False \<Rightarrow> Inl [ErrOther ''bucket does not exist'']
                   | Inr True \<Rightarrow> Inr c3))"

definition s3KeyToPath :: "string \<Rightarrow> Key \<Rightarrow> string" where
  "s3KeyToPath namespace key =
     (let hexKey = KeyString key; prefix = (if namespace \<noteq> '''' then namespace @ ''/'' else '''')
      in prefix @ take 2 hexKey @ ''/'' @ hexKey)"

definition metaPath :: "string \<Rightarrow> Key \<Rightarrow> string" where
  "metaPath namespace key = s3KeyToPath namespace key @ ''.meta''"

definition ceilSecond :: "time \<Rightarrow> time" where
  "ceilSecond t = (if t mod 1000000000 = 0 then t else t div 1000000000 * 1000000000 + 1000000000)"

section \<open>Model: headers as user metadata\<close>

definition encodeHeaders :: "header \<Rightarrow> string" where
  "encodeHeaders h = jsonMarshal (JObj (map (\<lambda>k. (k, JArr (map JStr (the (h k))))) (sorted_list_of_set (dom h))))"

text \<open>\<^verbatim>\<open>json.Unmarshal\<close> into an \<^verbatim>\<open>http.Header\<close>; a null is an empty string or list.\<close>

fun jsonStrings :: "json list \<Rightarrow> string list option" where
  "jsonStrings [] = Some []"
| "jsonStrings (JStr s # xs) = map_option (\<lambda>r. s # r) (jsonStrings xs)"
| "jsonStrings (JNull # xs) = map_option (\<lambda>r. '''' # r) (jsonStrings xs)"
| "jsonStrings (x # xs) = None"

fun jsonFields :: "(string \<times> json) list \<Rightarrow> header \<Rightarrow> header option" where
  "jsonFields [] h = Some h"
| "jsonFields ((k, JArr xs) # fs) h = (case jsonStrings xs of None \<Rightarrow> None | Some vs \<Rightarrow> jsonFields fs (h(k \<mapsto> vs)))"
| "jsonFields ((k, JNull) # fs) h = jsonFields fs (h(k \<mapsto> []))"
| "jsonFields ((k, _) # fs) h = None"

definition decodeHeaders :: "string \<Rightarrow> header option" where
  "decodeHeaders s =
     (case jsonUnmarshal s of
        Some (JObj fs) \<Rightarrow> jsonFields fs Map.empty
      | Some JNull \<Rightarrow> Some Map.empty
      | _ \<Rightarrow> None)"

definition s3EssentialHeaders :: "string list" where
  "s3EssentialHeaders = [''Content-Type'', ''Content-Encoding'', ''Content-Disposition'', ''Content-Language'', ''Cache-Control'', ''ETag'', ''Last-Modified'']"

definition essentialHeaders :: "header \<Rightarrow> header" where
  "essentialHeaders headers = (\<lambda>name.
     if name \<in> CanonicalHeaderKey ` set s3EssentialHeaders \<and> headers name \<noteq> Some [] \<or> HasPrefix (CanonicalHeaderKey name) ''X-Cachew-''
     then headers name else None)"

definition userMetadataSize :: "string \<Rightarrow> string \<Rightarrow> nat" where
  "userMetadataSize tag json = (length ''x-amz-meta-'' + length ''Tag'' + length tag) + (length ''x-amz-meta-'' + length ''Headers'' + length json)"

definition s3UserMetadata :: "string \<Rightarrow> header \<Rightarrow> goerr + (string \<rightharpoonup> string)" where
  "s3UserMetadata tag headers =
     (if dom headers = {} then Inr [''Tag'' \<mapsto> tag]
      else let full = encodeHeaders headers; small = encodeHeaders (essentialHeaders headers)
           in if userMetadataSize tag full \<le> 2048 then Inr [''Tag'' \<mapsto> tag, ''Headers'' \<mapsto> full]
              else if userMetadataSize tag small \<le> 2048 then Inr [''Tag'' \<mapsto> tag, ''Headers'' \<mapsto> small]
              else Inl [ErrOther ''headers exceed S3 user metadata limit''])"

definition metaGet :: "(string \<rightharpoonup> string) \<Rightarrow> string \<Rightarrow> string" where
  "metaGet m k = (case m k of None \<Rightarrow> '''' | Some v \<Rightarrow> v)"

section \<open>Model: the bucket\<close>

record S3Object =
  obData :: bytes
  obMeta :: "string \<rightharpoonup> string"
  obExpires :: "time option"
  obMod :: time
  obETag :: string

record s3Meta =
  smHeaders :: header
  smExpiresAt :: "time option"
  smTag :: string

record slot =
  slData :: "S3Object option"
  slMeta :: "s3Meta option"

datatype s3Out = SOk | SFail goerr | SLost goerr

text \<open>A request that modifies the bucket: whether it takes effect, and its error.\<close>

fun s3Effect :: "s3Out \<Rightarrow> bool" where
  "s3Effect SOk = True" | "s3Effect (SFail e) = False" | "s3Effect (SLost e) = True"

fun s3Err :: "s3Out \<Rightarrow> goerr" where
  "s3Err SOk = []" | "s3Err (SFail e) = ErrOther ''s3'' # e" | "s3Err (SLost e) = ErrOther ''s3'' # e"

section \<open>Model: writing\<close>

record s3Writer =
  wrTag :: string
  wrHeaders :: header
  wrMetadata :: "string \<rightharpoonup> string"
  wrExpiresAt :: time
  wrBuf :: bytes
  wrCancelled :: bool
  wrUploadErr :: goerr

text \<open>\<open>tag\<close> is the result of \<^verbatim>\<open>newS3Tag\<close>.\<close>

definition S3Create :: "S3Config \<Rightarrow> time \<Rightarrow> string \<Rightarrow> goerr + string \<Rightarrow> bool \<Rightarrow> header \<Rightarrow> duration \<Rightarrow> RequestOption list \<Rightarrow> goerr + s3Writer" where
  "S3Create config now uuid tag cancelled headers ttl opts =
     (let ttl1 = (if ttl > scMaxTTL config \<or> ttl = 0 then scMaxTTL config else ttl)
      in case setCreateETag uuid (FilterHeaders headers TransportHeaders) opts of (h, e) \<Rightarrow>
           if e \<noteq> [] then Inl e
           else (case tag of
               Inl te \<Rightarrow> Inl (ErrOther ''generate tag'' # te)
             | Inr t \<Rightarrow> (case s3UserMetadata t h of
                 Inl me \<Rightarrow> Inl me
               | Inr md \<Rightarrow> Inr \<lparr>wrTag = t, wrHeaders = h, wrMetadata = md, wrExpiresAt = ceilSecond (now + ttl1), wrBuf = [],
                   wrCancelled = cancelled, wrUploadErr = []\<rparr>)))"

text \<open>
  \<open>upErr\<close> is the error of the upload when it has failed already; the reader of the pipe then takes \<open>n\<close> bytes only.
\<close>

definition S3Write :: "nat \<Rightarrow> goerr \<Rightarrow> s3Writer \<Rightarrow> bytes \<Rightarrow> (nat \<times> goerr) \<times> s3Writer" where
  "S3Write n upErr w p =
     (if upErr \<noteq> [] then ((min n (length p), upErr), w\<lparr>wrUploadErr := upErr\<rparr>)
      else ((length p, []), w\<lparr>wrBuf := wrBuf w @ p\<rparr>))"

definition uploaded :: "s3Writer \<Rightarrow> time \<Rightarrow> string \<Rightarrow> S3Object" where
  "uploaded w now etag = \<lparr>obData = wrBuf w, obMeta = wrMetadata w, obExpires = Some (wrExpiresAt w), obMod = now, obETag = etag\<rparr>"

definition companion :: "s3Writer \<Rightarrow> s3Meta" where
  "companion w = \<lparr>smHeaders = hSet Map.empty ETagKey (hGet (wrHeaders w) ETagKey), smExpiresAt = Some (wrExpiresAt w), smTag = wrTag w\<rparr>"

text \<open>
  \<^verbatim>\<open>Close\<close> and the end of \<^verbatim>\<open>upload\<close>, one request at a time; \<open>WOpen\<close> is a writer that has not been closed.  \<open>WStat\<close> and
  \<open>WDelete\<close> are \<^verbatim>\<open>removeUncommitted\<close>, with the error that led there.
\<close>

datatype closePc = WOpen | WUpload | WCheck | WMeta | WStat goerr | WDelete goerr | WEnd goerr

fun closeNext :: "time \<Rightarrow> string \<Rightarrow> s3Out \<Rightarrow> s3Writer \<Rightarrow> slot \<Rightarrow> closePc \<Rightarrow> (closePc \<times> slot) option" where
  "closeNext now etag out w sl WUpload =
     (if wrUploadErr w \<noteq> [] then Some (WEnd (wrUploadErr w), sl)
      else Some (if s3Err out \<noteq> [] then WEnd (s3Err out) else WCheck,
                 if s3Effect out then sl\<lparr>slData := Some (uploaded w now etag)\<rparr> else sl))"
| "closeNext now etag out w sl WCheck = Some (if wrCancelled w then WStat [] else WMeta, sl)"
| "closeNext now etag out w sl WMeta =
     Some (if s3Err out \<noteq> [] then WStat (s3Err out) else WEnd [],
           if s3Effect out then sl\<lparr>slMeta := Some (companion w)\<rparr> else sl)"
| "closeNext now etag out w sl (WStat e) =
     Some (if s3Err out \<noteq> [] then WEnd (errJoin [e, s3Err out])
           else (case slData sl of
               None \<Rightarrow> WEnd e
             | Some ob \<Rightarrow> if metaGet (obMeta ob) ''Tag'' \<noteq> wrTag w then WEnd e else WDelete e), sl)"
| "closeNext now etag out w sl (WDelete e) =
     Some (WEnd (errJoin [e, s3Err out]), if s3Effect out then sl\<lparr>slData := None\<rparr> else sl)"
| "closeNext now etag out w sl pc = None"

section \<open>Model: reading\<close>

datatype statRes = StatMiss | StatExpired | StatFound header s3Meta

text \<open>The decision of \<^verbatim>\<open>statAndHeaders\<close> once both objects are read.\<close>

definition statDecide :: "(time \<Rightarrow> string) \<Rightarrow> time \<Rightarrow> S3Object \<Rightarrow> header \<Rightarrow> s3Meta \<Rightarrow> statRes" where
  "statDecide httpTime now ob headers meta =
     (let tag = metaGet (obMeta ob) ''Tag''
      in if tag \<noteq> smTag meta \<and> (timeSub now (obMod ob) < s3CompanionGrace \<or> hGet headers ETagKey = '''') then StatMiss
         else let meta1 = (if tag \<noteq> smTag meta then \<lparr>smHeaders = Map.empty, smExpiresAt = obExpires ob, smTag = tag\<rparr> else meta);
                  headers1 = headers ++ smHeaders meta1;
                  meta2 = (if smExpiresAt meta1 = None then meta1\<lparr>smExpiresAt := obExpires ob\<rparr> else meta1)
              in if (case smExpiresAt meta2 of None \<Rightarrow> False | Some t \<Rightarrow> t < now) then StatExpired
                 else StatFound (if hGet headers1 ''Last-Modified'' = '''' then hSet headers1 ''Last-Modified'' (httpTime (obMod ob)) else headers1) meta2)"

definition zeroMeta :: s3Meta where
  "zeroMeta = \<lparr>smHeaders = Map.empty, smExpiresAt = None, smTag = ''''\<rparr>"

text \<open>
  The requests of \<^verbatim>\<open>statAndHeaders\<close>; \<open>RDelete1\<close> and \<open>RDelete2\<close> are the \<^verbatim>\<open>Delete\<close> of an expired entry.  \<open>RFound\<close> has the result, which
  \<^verbatim>\<open>Stat\<close> and \<^verbatim>\<open>Open\<close> use.
\<close>

datatype readPc = RStat | RMeta S3Object header | RDelete1 | RDelete2 | RError goerr | RFound S3Object header s3Meta

fun readNext :: "(time \<Rightarrow> string) \<Rightarrow> time \<Rightarrow> s3Out \<Rightarrow> slot \<Rightarrow> readPc \<Rightarrow> (readPc \<times> slot) option" where
  "readNext httpTime now out sl RStat =
     Some (if s3Err out \<noteq> [] then RError (s3Err out)
           else (case slData sl of
               None \<Rightarrow> RError [ErrNotExist]
             | Some ob \<Rightarrow>
                 if metaGet (obMeta ob) ''Headers'' = '''' then RMeta ob Map.empty
                 else (case decodeHeaders (metaGet (obMeta ob) ''Headers'') of
                     None \<Rightarrow> RError [ErrOther ''failed to unmarshal headers'']
                   | Some h \<Rightarrow> RMeta ob h)), sl)"
| "readNext httpTime now out sl (RMeta ob h) =
     Some (if s3Err out \<noteq> [] then RError (s3Err out)
           else (case statDecide httpTime now ob h (case slMeta sl of None \<Rightarrow> zeroMeta | Some m \<Rightarrow> m) of
               StatMiss \<Rightarrow> RError [ErrNotExist]
             | StatExpired \<Rightarrow> RDelete1
             | StatFound h1 m1 \<Rightarrow> RFound ob h1 m1), sl)"
| "readNext httpTime now out sl RDelete1 =
     Some (if s3Err out \<noteq> [] then RError (ErrNotExist # s3Err out) else RDelete2, if s3Effect out then sl\<lparr>slData := None\<rparr> else sl)"
| "readNext httpTime now out sl RDelete2 =
     Some (RError [ErrNotExist], if s3Effect out then sl\<lparr>slMeta := None\<rparr> else sl)"
| "readNext httpTime now out sl pc = None"

text \<open>\<^verbatim>\<open>Stat\<close> after \<^verbatim>\<open>statAndHeaders\<close>.\<close>

definition S3StatReply :: "S3Object \<Rightarrow> header \<Rightarrow> RequestOption list \<Rightarrow> header \<times> goerr" where
  "S3StatReply ob h opts =
     (case conditionalShortCircuit (hSet h ''Content-Length'' (FormatInt (int (length (obData ob))))) opts of
        (h1, hr, e) \<Rightarrow> if e \<noteq> [] then (hr, e) else (h1, []))"

text \<open>The companion that \<^verbatim>\<open>Open\<close> writes in the background when less than half of the lifetime is left.\<close>

definition refreshMeta :: "S3Config \<Rightarrow> time \<Rightarrow> s3Meta \<Rightarrow> s3Meta option" where
  "refreshMeta config now meta =
     (case smExpiresAt meta of
        None \<Rightarrow> None
      | Some t \<Rightarrow>
          if timeSub t now < scMaxTTL config div 2
          then Some \<lparr>smHeaders = (if hGet (smHeaders meta) ETagKey \<noteq> '''' then hSet Map.empty ETagKey (hGet (smHeaders meta) ETagKey) else Map.empty),
                     smExpiresAt = Some (ceilSecond (now + scMaxTTL config)), smTag = smTag meta\<rparr>
          else None)"

text \<open>How \<^verbatim>\<open>Open\<close> reads the object: not at all, with one unconditional request, or with ranges pinned to the S3 ETag.\<close>

datatype getPlan = NoGet goerr | GetWhole | GetPinned int int int

definition minRangePartSize :: int where
  "minRangePartSize = 4194304"

definition parallelGetReader :: "S3Config \<Rightarrow> int \<Rightarrow> getPlan" where
  "parallelGetReader config sz =
     (let chunkSize = int (scDownloadPartSizeMB config) * 1048576
      in if chunkSize < sz \<and> 1 < scDownloadConcurrency config then GetPinned 0 sz chunkSize else GetWhole)"

definition rangedGetReader :: "S3Config \<Rightarrow> int \<Rightarrow> int \<Rightarrow> getPlan" where
  "rangedGetReader config start len =
     (let concurrency = int (scDownloadConcurrency config)
      in if len < 2 * minRangePartSize \<or> concurrency \<le> 1 then GetPinned start len len
         else GetPinned start len (min (max ((len + concurrency - 1) div concurrency) minRangePartSize) (int (scDownloadPartSizeMB config) * 1048576)))"

definition S3OpenReply :: "S3Config \<Rightarrow> S3Object \<Rightarrow> header \<Rightarrow> RequestOption list \<Rightarrow> header \<times> getPlan" where
  "S3OpenReply config ob h opts =
     (case conditionalShortCircuit (hSet h ''Content-Length'' (FormatInt (int (length (obData ob))))) opts of
        (h1, hr, e) \<Rightarrow>
          if e \<noteq> [] then (hr, NoGet e)
          else (case rangeShortCircuit h1 (int (length (obData ob))) opts of
              (h2, start, len, part, re) \<Rightarrow>
                if re \<noteq> [] then (h2, NoGet re)
                else (h2, if part then rangedGetReader config start len else parallelGetReader config (int (length (obData ob))))))"

text \<open>
  The requests for the body, each against the object that is there when it is served: \<^verbatim>\<open>GetObject\<close> without conditions, and with a
  range and \<^verbatim>\<open>If-Match\<close>.  The client sends them when the body is first read, so their errors end the body.
\<close>

definition failingBody :: "goerr \<Rightarrow> body" where
  "failingBody e = nilBody\<lparr>bErr := e\<rparr>"

definition getWhole :: "s3Out \<Rightarrow> slot \<Rightarrow> body" where
  "getWhole out sl =
     (if s3Err out \<noteq> [] then failingBody (s3Err out)
      else case slData sl of None \<Rightarrow> failingBody [ErrNotExist] | Some ob \<Rightarrow> bytesReader (obData ob))"

definition rangeGetReader :: "s3Out \<Rightarrow> string \<Rightarrow> int \<Rightarrow> int \<Rightarrow> slot \<Rightarrow> body" where
  "rangeGetReader out etag start len sl =
     (if s3Err out \<noteq> [] then failingBody (s3Err out)
      else case slData sl of
          None \<Rightarrow> failingBody [ErrNotExist]
        | Some ob \<Rightarrow>
            if etag \<noteq> '''' \<and> obETag ob \<noteq> etag then failingBody [ErrOther ''precondition failed'']
            else if int (length (obData ob)) \<le> start then failingBody [ErrOther ''invalid range'']
            else bytesReader (take (nat len) (drop (nat start) (obData ob))))"

record s3ObjectWindow =
  owStart :: int
  owLength :: int
  owETag :: string

definition windowOpen :: "s3Out \<Rightarrow> s3ObjectWindow \<Rightarrow> RequestOption list \<Rightarrow> slot \<Rightarrow> body \<times> header \<times> goerr" where
  "windowOpen out w opts sl =
     (case ResolveRange (NewRequestOptions opts) (owLength w) (owETag w) of (start, len, outcome) \<Rightarrow>
        (let h0 = (if owETag w \<noteq> '''' then hSet Map.empty ETagKey (owETag w) else Map.empty);
             get = (\<lambda>h. (rangeGetReader out (owETag w) (owStart w + start) len sl, h, []))
         in case outcome of
              RangeNotSatisfiable \<Rightarrow> (nilBody, hSet h0 ''Content-Range'' (''bytes */'' @ FormatInt (owLength w)), [ErrRangeNotSatisfiable])
            | RangePartial \<Rightarrow> get (hSet h0 ''Content-Range'' (''bytes '' @ FormatInt start @ ''-'' @ FormatInt (start + len - 1) @ ''/'' @ FormatInt (owLength w)))
            | RangeFull \<Rightarrow> get h0))"

text \<open>\<^verbatim>\<open>Delete\<close> and \<^verbatim>\<open>Invalidate\<close>: the companion's removal is not checked.\<close>

definition S3Delete :: "s3Out \<Rightarrow> s3Out \<Rightarrow> slot \<Rightarrow> goerr \<times> slot" where
  "S3Delete out1 out2 sl =
     (let sl1 = (if s3Effect out1 then sl\<lparr>slData := None\<rparr> else sl)
      in if s3Err out1 \<noteq> [] then (s3Err out1, sl1) else ([], if s3Effect out2 then sl1\<lparr>slMeta := None\<rparr> else sl1))"

section \<open>Model: interleavings\<close>

text \<open>
  The world of one key: its objects, the clock, every writer and reader so far, and the refreshes that have not been sent yet.  Two
  ghost components record which tags have had their companion written by \<^verbatim>\<open>Close\<close>, and when a tag's data was uploaded.
\<close>

record s3World =
  wSlot :: slot
  wNow :: time
  wWriters :: "(s3Writer \<times> closePc) list"
  wReaders :: "readPc list"
  wRefreshes :: "s3Meta list"
  wCompanions :: "string set"
  wUploads :: "string \<rightharpoonup> time"

definition emptyWorld :: "time \<Rightarrow> s3World" where
  "emptyWorld t = \<lparr>wSlot = \<lparr>slData = None, slMeta = None\<rparr>, wNow = t, wWriters = [], wReaders = [], wRefreshes = [],
     wCompanions = {}, wUploads = Map.empty\<rparr>"

datatype s3Event =
    Tick nat
  | NewWriter string string bool header duration "RequestOption list"
  | WriteTo nat nat goerr bytes
  | CancelCtx nat
  | StartClose nat
  | WriterStep nat string s3Out
  | NewReader
  | ReaderStep nat s3Out
  | OpenStarts nat
  | RefreshStep nat s3Out
  | DeleteData s3Out
  | DeleteMeta s3Out

text \<open>The tags are random, so a new one differs from all others; a Go map is finite.\<close>

fun s3Apply :: "S3Config \<Rightarrow> (time \<Rightarrow> string) \<Rightarrow> s3Event \<Rightarrow> s3World \<Rightarrow> s3World option" where
  "s3Apply config httpTime (Tick d) W = Some (W\<lparr>wNow := wNow W + int d\<rparr>)"
| "s3Apply config httpTime (NewWriter uuid tag cancelled headers ttl opts) W =
     (if tag = '''' \<or> tag \<in> (\<lambda>(w, _). wrTag w) ` set (wWriters W) \<or> \<not> finite (dom headers) then None
      else case S3Create config (wNow W) uuid (Inr tag) cancelled headers ttl opts of
          Inl e \<Rightarrow> Some W
        | Inr w \<Rightarrow> Some (W\<lparr>wWriters := wWriters W @ [(w, WOpen)]\<rparr>))"
| "s3Apply config httpTime (WriteTo i n e p) W =
     (if i < length (wWriters W) \<and> snd (wWriters W ! i) = WOpen
      then Some (W\<lparr>wWriters := (wWriters W)[i := (snd (S3Write n e (fst (wWriters W ! i)) p), WOpen)]\<rparr>) else None)"
| "s3Apply config httpTime (CancelCtx i) W =
     (if i < length (wWriters W)
      then (case wWriters W ! i of (w, pc) \<Rightarrow> Some (W\<lparr>wWriters := (wWriters W)[i := (w\<lparr>wrCancelled := True\<rparr>, pc)]\<rparr>)) else None)"
| "s3Apply config httpTime (StartClose i) W =
     (if i < length (wWriters W) \<and> snd (wWriters W ! i) = WOpen
      then Some (W\<lparr>wWriters := (wWriters W)[i := (fst (wWriters W ! i), WUpload)]\<rparr>) else None)"
| "s3Apply config httpTime (WriterStep i etag out) W =
     (if i < length (wWriters W) then
        (case wWriters W ! i of (w, pc) \<Rightarrow>
           (case closeNext (wNow W) etag out w (wSlot W) pc of
              None \<Rightarrow> None
            | Some (pc', sl) \<Rightarrow>
                Some (W\<lparr>wWriters := (wWriters W)[i := (w, pc')], wSlot := sl,
                  wCompanions := (if pc = WMeta \<and> s3Effect out then insert (wrTag w) (wCompanions W) else wCompanions W),
                  wUploads := (if pc = WUpload \<and> wrUploadErr w = [] \<and> s3Effect out then (wUploads W)(wrTag w \<mapsto> wNow W) else wUploads W)\<rparr>)))
      else None)"
| "s3Apply config httpTime NewReader W = Some (W\<lparr>wReaders := wReaders W @ [RStat]\<rparr>)"
| "s3Apply config httpTime (ReaderStep i out) W =
     (if i < length (wReaders W) then
        (case readNext httpTime (wNow W) out (wSlot W) (wReaders W ! i) of
           None \<Rightarrow> None
         | Some (pc, sl) \<Rightarrow> Some (W\<lparr>wReaders := (wReaders W)[i := pc], wSlot := sl\<rparr>))
      else None)"
| "s3Apply config httpTime (OpenStarts i) W =
     (if i < length (wReaders W) then
        (case wReaders W ! i of
           RFound ob h meta \<Rightarrow>
             (case refreshMeta config (wNow W) meta of
                None \<Rightarrow> Some W
              | Some m \<Rightarrow> Some (W\<lparr>wRefreshes := wRefreshes W @ [m]\<rparr>))
         | _ \<Rightarrow> None)
      else None)"
| "s3Apply config httpTime (RefreshStep i out) W =
     (if i < length (wRefreshes W)
      then Some (W\<lparr>wSlot := (if s3Effect out then (wSlot W)\<lparr>slMeta := Some (wRefreshes W ! i)\<rparr> else wSlot W),
                  wRefreshes := take i (wRefreshes W) @ drop (Suc i) (wRefreshes W)\<rparr>)
      else None)"
| "s3Apply config httpTime (DeleteData out) W = Some (W\<lparr>wSlot := (if s3Effect out then (wSlot W)\<lparr>slData := None\<rparr> else wSlot W)\<rparr>)"
| "s3Apply config httpTime (DeleteMeta out) W = Some (W\<lparr>wSlot := (if s3Effect out then (wSlot W)\<lparr>slMeta := None\<rparr> else wSlot W)\<rparr>)"

fun s3Run :: "S3Config \<Rightarrow> (time \<Rightarrow> string) \<Rightarrow> s3Event list \<Rightarrow> s3World \<Rightarrow> s3World option" where
  "s3Run config httpTime [] W = Some W"
| "s3Run config httpTime (ev # evs) W = (case s3Apply config httpTime ev W of None \<Rightarrow> None | Some W1 \<Rightarrow> s3Run config httpTime evs W1)"

section \<open>Lemmas: names and headers\<close>

text \<open>The objects of different keys and namespaces are different, and no data object is a companion.\<close>

lemma paths_distinct:
  assumes "length key = 32" "length key' = 32" "s3KeyToPath ns key = s3KeyToPath ns' key'"
  shows "key = key' \<and> ns = ns'"
proof -
  let ?pre = "\<lambda>n k. (if n \<noteq> '''' then n @ ''/'' else '''') @ take 2 (KeyString k) @ ''/''"
  have "?pre ns key @ KeyString key = ?pre ns' key' @ KeyString key'" using assms(3) by (simp add: s3KeyToPath_def Let_def)
  moreover have "length (KeyString key) = length (KeyString key')" using assms(1,2) by (simp add: KeyString_def)
  ultimately have "?pre ns key = ?pre ns' key' \<and> KeyString key = KeyString key'" using append_eq_append_conv by metis
  moreover from this have "key = key'" by (metis KeyString_def hexDecode_hexEncode option.inject)
  ultimately show ?thesis by (auto split: if_splits)
qed

lemma meta_not_data: "length key = 32 \<Longrightarrow> s3KeyToPath ns key \<noteq> metaPath ns' key'"
proof
  assume l: "length key = 32" and eq: "s3KeyToPath ns key = metaPath ns' key'"
  have digit: "hexDigit d \<noteq> CHR ''.''" if "d < 16" for d
    using hexVal_hexDigit [OF that] by (auto simp: hexVal_def)
  have "unat (b :: byte) div 16 < 16" for b using unsigned_less [of b, where 'a = nat] by (simp add: less_mult_imp_div_less)
  then have "hexDigit (unat (b :: byte) div 16) \<noteq> CHR ''.''" "hexDigit (unat b mod 16) \<noteq> CHR ''.''" for b
    by (simp_all add: digit)
  then have hex: "CHR ''.'' \<notin> set (hexEncode bs)" for bs by (induction bs) (auto dest: not_sym)
  have "((if ns \<noteq> '''' then ns @ ''/'' else '''') @ take 2 (KeyString key) @ ''/'') @ KeyString key = s3KeyToPath ns' key' @ ''.meta''"
    using eq by (simp add: s3KeyToPath_def [of ns] metaPath_def Let_def)
  then obtain p where "p @ KeyString key = s3KeyToPath ns' key' @ ''.meta''" by blast
  then have "CHR ''.'' \<in> set (KeyString key)"
    using l by (auto simp: append_eq_append_conv2 KeyString_def dest: arg_cong [where f = length])
  then show False using hex by (simp add: KeyString_def)
qed

lemma jsonStrings_map: "jsonStrings (map JStr xs) = Some xs"
  by (induction xs) auto

lemma jsonFields_map:
  "jsonFields (map (\<lambda>k. (k, JArr (map JStr (the (h k))))) ks) g = Some (\<lambda>x. if x \<in> set ks then Some (the (h x)) else g x)"
  by (induction ks arbitrary: g) (auto simp: jsonStrings_map)

lemma decode_encode_headers:
  assumes "finite (dom h)"
  shows "decodeHeaders (encodeHeaders h) = Some h"
proof -
  let ?j = "JObj (map (\<lambda>k. (k, JArr (map JStr (the (h k))))) (sorted_list_of_set (dom h)))"
  have "wfJson ?j" by auto
  then have "jsonUnmarshal (encodeHeaders h) = Some ?j" unfolding encodeHeaders_def by (rule jsonUnmarshal_marshal)
  moreover have "(\<lambda>x. if x \<in> dom h then Some (the (h x)) else None) = h" by (auto simp: fun_eq_iff domIff)
  ultimately show ?thesis using assms by (simp add: decodeHeaders_def jsonFields_map)
qed

lemma encodeHeaders_not_Nil: "encodeHeaders h \<noteq> ''''"
  by (simp add: encodeHeaders_def)


section \<open>Lemmas: what a writer puts\<close>

definition metaHeaders :: "(string \<rightharpoonup> string) \<Rightarrow> header option" where
  "metaHeaders md = (if metaGet md ''Headers'' = '''' then Some Map.empty else decodeHeaders (metaGet md ''Headers''))"

definition writerETag :: "s3Writer \<Rightarrow> string" where
  "writerETag w = hGet (wrHeaders w) ETagKey"

text \<open>The user metadata carries the tag and, even when headers had to be dropped, the ETag.\<close>

definition writerOk :: "s3Writer \<Rightarrow> bool" where
  "writerOk w \<longleftrightarrow> wrTag w \<noteq> '''' \<and> metaGet (wrMetadata w) ''Tag'' = wrTag w \<and> writerETag w \<noteq> '''' \<and>
     wrHeaders w ''Etag'' = Some [writerETag w] \<and> (\<exists>h. metaHeaders (wrMetadata w) = Some h \<and> h \<subseteq>\<^sub>m wrHeaders w \<and> h ''Etag'' = Some [writerETag w])"

lemma essential_etag: "h ''Etag'' \<noteq> Some [] \<Longrightarrow> essentialHeaders h ''Etag'' = h ''Etag''"
proof -
  have "''Etag'' \<in> CanonicalHeaderKey ` set s3EssentialHeaders"
    by (rule image_eqI [where x = "''ETag''"]) (simp_all add: s3EssentialHeaders_def)
  then show "h ''Etag'' \<noteq> Some [] \<Longrightarrow> ?thesis" by (simp add: essentialHeaders_def)
qed

lemma s3UserMetadata_ok:
  assumes "s3UserMetadata tag h = Inr md" "finite (dom h)" "h ''Etag'' = Some [q]"
  shows "metaGet md ''Tag'' = tag \<and> (\<exists>h'. metaHeaders md = Some h' \<and> h' \<subseteq>\<^sub>m h \<and> h' ''Etag'' = Some [q])"
proof -
  have "dom h \<noteq> {}" using assms(3) by auto
  then have md: "md = [''Tag'' \<mapsto> tag, ''Headers'' \<mapsto> encodeHeaders h] \<or> md = [''Tag'' \<mapsto> tag, ''Headers'' \<mapsto> encodeHeaders (essentialHeaders h)]"
    using assms(1) by (auto simp: s3UserMetadata_def Let_def split: if_splits)
  have "finite (dom (essentialHeaders h))"
    by (rule finite_subset [OF _ assms(2)]) (auto simp: essentialHeaders_def split: if_splits)
  moreover have "essentialHeaders h \<subseteq>\<^sub>m h" by (auto simp: map_le_def essentialHeaders_def split: if_splits)
  ultimately show ?thesis
    using md assms(2,3) essential_etag [of h]
    by (auto simp: metaGet_def metaHeaders_def encodeHeaders_not_Nil decode_encode_headers)
qed

lemma S3Create_ok:
  assumes "S3Create config now uuid (Inr tag) cancelled headers ttl opts = Inr w" "finite (dom headers)" "tag \<noteq> ''''"
  shows "writerOk w \<and> wrTag w = tag"
proof -
  let ?h0 = "FilterHeaders headers TransportHeaders"
  obtain h e where s: "setCreateETag uuid ?h0 opts = (h, e)" by (metis prod.exhaust)
  have e: "e = []" using assms(1) s by (auto simp: S3Create_def Let_def split: if_splits)
  then obtain raw q where q: "h = hSet ?h0 ETagKey q" "FormatETag raw = (q, [])"
    using s by (auto simp: setCreateETag_def createETag_def Let_def split: prod.splits if_splits)
  have qn: "q \<noteq> ''''" using q(2) by (auto simp: FormatETag_def Let_def split: if_splits)
  have he: "h ''Etag'' = Some [q]" using q(1) by (simp add: hSet_def)
  have "dom ?h0 \<subseteq> dom headers" by (auto simp: FilterHeaders_def Let_def split: if_splits)
  then have fin: "finite (dom h)" using assms(2) finite_subset by (auto simp: q(1) hSet_def)
  obtain md where md: "s3UserMetadata tag h = Inr md" and w: "wrTag w = tag" "wrMetadata w = md" "wrHeaders w = h"
    using assms(1) s e by (auto simp: S3Create_def Let_def split: sum.splits)
  have "writerETag w = q" using w(3) he by (simp add: writerETag_def hGet_def)
  then show ?thesis using assms(3) s3UserMetadata_ok [OF md fin he] qn w he by (simp add: writerOk_def)
qed

section \<open>Lemmas: the invariant\<close>

abbreviation early :: "closePc set" where
  "early \<equiv> {WOpen, WUpload}"

definition aged :: "s3World \<Rightarrow> string \<Rightarrow> bool" where
  "aged W tag \<longleftrightarrow> (\<exists>t. wUploads W tag = Some t \<and> s3CompanionGrace \<le> timeSub (wNow W) t)"

definition objBy :: "s3World \<Rightarrow> S3Object \<Rightarrow> s3Writer \<Rightarrow> bool" where
  "objBy W ob w \<longleftrightarrow> (\<exists>pc. (w, pc) \<in> set (wWriters W) \<and> pc \<notin> early) \<and> obMeta ob = wrMetadata w \<and> obData ob = wrBuf w \<and>
     wUploads W (wrTag w) = Some (obMod ob)"

definition metaBy :: "s3World \<Rightarrow> s3Meta \<Rightarrow> s3Writer \<Rightarrow> bool" where
  "metaBy W m w \<longleftrightarrow> (\<exists>pc. (w, pc) \<in> set (wWriters W) \<and> pc \<notin> early) \<and> smTag m = wrTag w \<and>
     smHeaders m \<in> {Map.empty, [''Etag'' \<mapsto> [writerETag w]]} \<and> (wrTag w \<in> wCompanions W \<or> aged W (wrTag w))"

text \<open>The headers of a result are the writer's, with \<^verbatim>\<open>Last-Modified\<close> filled in.\<close>

definition headersBy :: "header \<Rightarrow> s3Writer \<Rightarrow> bool" where
  "headersBy h w \<longleftrightarrow> hGet h ETagKey = writerETag w \<and> (\<forall>k. k \<noteq> ''Last-Modified'' \<longrightarrow> h k = None \<or> h k = wrHeaders w k)"

fun readOk :: "s3World \<Rightarrow> readPc \<Rightarrow> bool" where
  "readOk W (RMeta ob h) = ((\<exists>w. objBy W ob w) \<and> metaHeaders (obMeta ob) = Some h)"
| "readOk W (RFound ob h m) = (\<exists>w. objBy W ob w \<and> metaBy W m w \<and> headersBy h w)"
| "readOk W pc = True"

definition writersOk :: "s3World \<Rightarrow> bool" where
  "writersOk W \<longleftrightarrow> distinct (map (\<lambda>(w, _). wrTag w) (wWriters W)) \<and> dom (wUploads W) \<subseteq> (\<lambda>(w, _). wrTag w) ` set (wWriters W) \<and>
     (\<forall>(w, pc) \<in> set (wWriters W). writerOk w \<and> (pc \<in> early \<longrightarrow> wUploads W (wrTag w) = None))"

definition s3Inv :: "s3World \<Rightarrow> bool" where
  "s3Inv W \<longleftrightarrow> writersOk W \<and>
     (\<forall>ob. slData (wSlot W) = Some ob \<longrightarrow> (\<exists>w. objBy W ob w)) \<and>
     (\<forall>m. slMeta (wSlot W) = Some m \<longrightarrow> (\<exists>w. metaBy W m w)) \<and>
     (\<forall>m \<in> set (wRefreshes W). \<exists>w. metaBy W m w) \<and> (\<forall>pc \<in> set (wReaders W). readOk W pc)"

text \<open>What no step takes back.\<close>

definition s3Ext :: "s3World \<Rightarrow> s3World \<Rightarrow> bool" where
  "s3Ext W W' \<longleftrightarrow> (\<forall>w pc. (w, pc) \<in> set (wWriters W) \<and> pc \<notin> early \<longrightarrow>
       (\<exists>c pc'. (w\<lparr>wrCancelled := c\<rparr>, pc') \<in> set (wWriters W') \<and> pc' \<notin> early)) \<and>
     wUploads W \<subseteq>\<^sub>m wUploads W' \<and> wCompanions W \<subseteq> wCompanions W' \<and> wNow W \<le> wNow W'"

lemma aged_ext: "s3Ext W W' \<Longrightarrow> aged W tag \<Longrightarrow> aged W' tag"
  by (force simp: s3Ext_def aged_def map_le_def domIff timeSub_def)

lemma writer_ext:
  assumes "s3Ext W W'" "(w, pc) \<in> set (wWriters W)" "pc \<notin> early"
  obtains c where "\<And>ob. objBy W ob w \<Longrightarrow> objBy W' ob (w\<lparr>wrCancelled := c\<rparr>)"
    and "\<And>m. metaBy W m w \<Longrightarrow> metaBy W' m (w\<lparr>wrCancelled := c\<rparr>)"
proof -
  obtain c pc' where c: "(w\<lparr>wrCancelled := c\<rparr>, pc') \<in> set (wWriters W')" "pc' \<notin> early"
    using assms unfolding s3Ext_def by blast
  have up: "wUploads W t = Some x \<Longrightarrow> wUploads W' t = Some x" for t x
    using assms(1) unfolding s3Ext_def map_le_def by (metis domI)
  have comp: "wCompanions W \<subseteq> wCompanions W'" using assms(1) by (simp add: s3Ext_def)
  have "objBy W' ob (w\<lparr>wrCancelled := c\<rparr>)" if "objBy W ob w" for ob
    using that c up by (auto simp: objBy_def)
  moreover have "metaBy W' m (w\<lparr>wrCancelled := c\<rparr>)" if "metaBy W m w" for m
    using that c comp aged_ext [OF assms(1)] by (auto simp: metaBy_def writerETag_def)
  ultimately show ?thesis using that by blast
qed

lemma obj_ext: "s3Ext W W' \<Longrightarrow> objBy W ob w \<Longrightarrow> \<exists>w. objBy W' ob w"
  using writer_ext [of W W' w] unfolding objBy_def [of W] by (metis objBy_def)

lemma meta_ext: "s3Ext W W' \<Longrightarrow> metaBy W m w \<Longrightarrow> \<exists>w. metaBy W' m w"
  using writer_ext [of W W' w] unfolding metaBy_def [of W] by (metis metaBy_def)

lemma read_ext: "s3Ext W W' \<Longrightarrow> readOk W pc \<Longrightarrow> readOk W' pc"
proof (cases pc)
  case (RFound ob h m)
  assume e: "s3Ext W W'" and "readOk W pc"
  then obtain w where w: "objBy W ob w" "metaBy W m w" "headersBy h w" using RFound by auto
  then obtain p where "(w, p) \<in> set (wWriters W)" "p \<notin> early" by (auto simp: objBy_def)
  then obtain c where "objBy W' ob (w\<lparr>wrCancelled := c\<rparr>)" "metaBy W' m (w\<lparr>wrCancelled := c\<rparr>)"
    using writer_ext [OF e] w(1,2) by metis
  then show ?thesis using RFound w(3) by (auto simp: headersBy_def writerETag_def intro!: exI [of _ "w\<lparr>wrCancelled := c\<rparr>"])
qed (auto dest: obj_ext)

lemma s3Inv_keep:
  assumes "s3Inv W" "s3Ext W W'" "writersOk W'"
    and "\<And>ob. slData (wSlot W') = Some ob \<Longrightarrow> slData (wSlot W) = Some ob \<or> (\<exists>w. objBy W' ob w)"
    and "\<And>m. slMeta (wSlot W') = Some m \<Longrightarrow> slMeta (wSlot W) = Some m \<or> (\<exists>w. metaBy W' m w)"
    and "\<And>m. m \<in> set (wRefreshes W') \<Longrightarrow> m \<in> set (wRefreshes W) \<or> (\<exists>w. metaBy W' m w)"
    and "\<And>pc. pc \<in> set (wReaders W') \<Longrightarrow> pc \<in> set (wReaders W) \<or> readOk W' pc"
  shows "s3Inv W'"
  unfolding s3Inv_def
proof (intro conjI allI ballI impI)
  show "\<exists>w. objBy W' ob w" if "slData (wSlot W') = Some ob" for ob
    using assms(1,4) that obj_ext [OF assms(2)] unfolding s3Inv_def by blast
  show "\<exists>w. metaBy W' m w" if "slMeta (wSlot W') = Some m" for m
    using assms(1,5) that meta_ext [OF assms(2)] unfolding s3Inv_def by blast
  show "\<exists>w. metaBy W' m w" if "m \<in> set (wRefreshes W')" for m
    using assms(1,6) that meta_ext [OF assms(2)] unfolding s3Inv_def by blast
  show "readOk W' pc" if "pc \<in> set (wReaders W')" for pc
    using assms(1,7) that read_ext [OF assms(2)] unfolding s3Inv_def by blast
qed (rule assms(3))

lemma s3Ext_same:
  assumes "wWriters W' = wWriters W" "wUploads W' = wUploads W" "wCompanions W' = wCompanions W" "wNow W \<le> wNow W'"
  shows "s3Ext W W'" and "writersOk W' = writersOk W"
proof -
  have "w\<lparr>wrCancelled := wrCancelled w\<rparr> = w" for w by simp
  then show "s3Ext W W'" using assms unfolding s3Ext_def by (metis map_le_refl order_refl)
  show "writersOk W' = writersOk W" using assms by (simp add: writersOk_def)
qed

lemma s3Ext_upd:
  assumes "wWriters W' = (wWriters W)[i := (w', pc')]" "i < length (wWriters W)" "wWriters W ! i = (w, pc)"
    and "pc \<notin> early \<Longrightarrow> pc' \<notin> early \<and> (\<exists>c. w' = w\<lparr>wrCancelled := c\<rparr>)"
    and "wUploads W \<subseteq>\<^sub>m wUploads W'" "wCompanions W \<subseteq> wCompanions W'" "wNow W' = wNow W"
  shows "s3Ext W W'"
proof -
  have "\<exists>c q. (v\<lparr>wrCancelled := c\<rparr>, q) \<in> set (wWriters W') \<and> q \<notin> early" if v: "(v, p) \<in> set (wWriters W)" "p \<notin> early" for v p
  proof -
    obtain j where j: "j < length (wWriters W)" "wWriters W ! j = (v, p)" using v(1) by (auto simp: in_set_conv_nth)
    show ?thesis
    proof (cases "j = i")
      case True
      then obtain c where "w' = v\<lparr>wrCancelled := c\<rparr>" "pc' \<notin> early" using assms(3,4) j v(2) by auto
      then show ?thesis using assms(1,2) set_update_memI [of i "wWriters W" "(w', pc')"] by auto
    next
      case False
      then have "(v, p) \<in> set (wWriters W')" using j assms(1) by (metis length_list_update nth_list_update_neq nth_mem)
      moreover have "v = v\<lparr>wrCancelled := wrCancelled v\<rparr>" by simp
      ultimately show ?thesis using v(2) by metis
    qed
  qed
  then show ?thesis using assms(5-7) unfolding s3Ext_def by (metis order_refl)
qed

lemma writersOk_upd:
  assumes "writersOk W" "wWriters W' = (wWriters W)[i := (w', pc')]" "i < length (wWriters W)" "wWriters W ! i = (w, pc)"
    and "wrTag w' = wrTag w" "writerOk w'"
    and "wUploads W' = wUploads W \<and> (pc' \<in> early \<longrightarrow> pc \<in> early) \<or> wUploads W' = (wUploads W)(wrTag w \<mapsto> t) \<and> pc' \<notin> early"
  shows "writersOk W'"
proof -
  let ?tag = "\<lambda>(w, _). wrTag w"
  have tags: "map ?tag (wWriters W') = map ?tag (wWriters W)"
    using assms(2-5) by (metis (no_types, lifting) case_prod_conv list_update_id map_update nth_map)
  then have set: "?tag ` set (wWriters W') = ?tag ` set (wWriters W)" by (metis set_map)
  have dist: "distinct (map ?tag (wWriters W))" using assms(1) by (simp add: writersOk_def)
  have other: "wrTag v \<noteq> wrTag w" if "j < length (wWriters W)" "j \<noteq> i" "wWriters W ! j = (v, p)" for j v p
  proof -
    have "map ?tag (wWriters W) ! j \<noteq> map ?tag (wWriters W) ! i"
      using dist that(1,2) assms(3) nth_eq_iff_index_eq [OF dist, of j i] by simp
    then show ?thesis using that assms(3,4) by simp
  qed
  have "writerOk v \<and> (p \<in> early \<longrightarrow> wUploads W' (wrTag v) = None)" if "(v, p) \<in> set (wWriters W')" for v p
  proof -
    have "length (wWriters W') = length (wWriters W)" using assms(2) by simp
    with that obtain j where j: "j < length (wWriters W)" "wWriters W' ! j = (v, p)" by (metis in_set_conv_nth)
    show ?thesis
    proof (cases "j = i")
      case True
      then have "v = w'" "p = pc'" using j assms(2) by auto
      moreover have "pc \<in> early \<longrightarrow> wUploads W (wrTag w) = None"
        using assms(1,3,4) unfolding writersOk_def by (metis (mono_tags, lifting) case_prodD nth_mem)
      ultimately show ?thesis using assms(5-7) by auto
    next
      case False
      then have v: "wWriters W ! j = (v, p)" using j assms(2) by simp
      then have "(v, p) \<in> set (wWriters W)" using j by (metis nth_mem)
      then show ?thesis using assms(1,7) other [OF j(1) False v] unfolding writersOk_def by fastforce
    qed
  qed
  then have each: "\<forall>(v, p) \<in> set (wWriters W'). writerOk v \<and> (p \<in> early \<longrightarrow> wUploads W' (wrTag v) = None)" by blast
  have "wrTag w \<in> ?tag ` set (wWriters W)" using assms(3,4) by (force simp: in_set_conv_nth)
  moreover have "dom (wUploads W') \<subseteq> insert (wrTag w) (dom (wUploads W))" using assms(7) by auto
  moreover have "dom (wUploads W) \<subseteq> ?tag ` set (wWriters W)" using assms(1) by (simp add: writersOk_def)
  ultimately have "dom (wUploads W') \<subseteq> ?tag ` set (wWriters W')" unfolding set by blast
  then show ?thesis using each dist tags by (simp add: writersOk_def)
qed

lemma writer_unique:
  assumes "writersOk W" "(w, p) \<in> set (wWriters W)" "(v, q) \<in> set (wWriters W)" "wrTag w = wrTag v"
  shows "w = v \<and> p = q"
proof -
  have "distinct (map (\<lambda>(w, _). wrTag w) (wWriters W))" using assms(1) by (simp add: writersOk_def)
  then have "inj_on (\<lambda>(w, _). wrTag w) (set (wWriters W))" by (simp add: distinct_map)
  from inj_onD [OF this, of "(w, p)" "(v, q)"] assms(2-4) show ?thesis by simp
qed

lemma inv_new_writer:
  assumes "s3Inv W" "s3Apply config httpTime (NewWriter uuid tag cancelled headers ttl opts) W = Some W'"
  shows "s3Inv W'"
proof (cases "S3Create config (wNow W) uuid (Inr tag) cancelled headers ttl opts")
  case (Inr w)
  let ?tag = "\<lambda>(w :: s3Writer, _ :: closePc). wrTag w"
  have g: "tag \<noteq> ''''" "tag \<notin> ?tag ` set (wWriters W)" "finite (dom headers)"
    and W': "W' = W\<lparr>wWriters := wWriters W @ [(w, WOpen)]\<rparr>"
    using assms(2) Inr by (auto split: if_splits)
  note ok = S3Create_ok [OF Inr g(3,1)]
  have wo: "writersOk W" using assms(1) by (simp add: s3Inv_def)
  then have "wUploads W tag = None" using g(2) by (auto simp: writersOk_def)
  then have wo': "writersOk W'" using wo ok g(2) by (auto simp: writersOk_def W')
  have "s3Ext W W'"
  proof -
    have "\<exists>c pc'. (v\<lparr>wrCancelled := c\<rparr>, pc') \<in> set (wWriters W') \<and> pc' \<notin> early" if "(v, p) \<in> set (wWriters W)" "p \<notin> early" for v p
      using that by (intro exI [of _ "wrCancelled v"] exI [of _ p]) (simp add: W')
    then show ?thesis unfolding s3Ext_def by (auto simp: W')
  qed
  from s3Inv_keep [OF assms(1) this wo'] show ?thesis by (auto simp: W')
qed (use assms in \<open>auto split: if_splits\<close>)

lemma inv_writer_step:
  assumes "s3Inv W" "i < length (wWriters W)" "wWriters W ! i = (w, pc)" "closeNext (wNow W) etag out w (wSlot W) pc = Some (pc', sl)"
    and W': "W' = W\<lparr>wWriters := (wWriters W)[i := (w, pc')], wSlot := sl,
      wCompanions := (if pc = WMeta \<and> s3Effect out then insert (wrTag w) (wCompanions W) else wCompanions W),
      wUploads := (if pc = WUpload \<and> wrUploadErr w = [] \<and> s3Effect out then (wUploads W)(wrTag w \<mapsto> wNow W) else wUploads W)\<rparr>"
  shows "s3Inv W'"
proof -
  have wo: "writersOk W" using assms(1) by (simp add: s3Inv_def)
  have mem: "(w, pc) \<in> set (wWriters W)" using assms(2,3) by (metis nth_mem)
  then have ok: "writerOk w" "pc \<in> early \<Longrightarrow> wUploads W (wrTag w) = None" using wo by (auto simp: writersOk_def)
  have late: "pc' \<notin> early" using assms(4) by (cases pc) (auto split: if_splits option.splits)
  have mem': "(w, pc') \<in> set (wWriters W')" using assms(2) by (simp add: W' set_update_memI)
  have ext: "s3Ext W W'"
  proof (rule s3Ext_upd [OF _ assms(2,3), of _ w pc'])
    show "pc' \<notin> early \<and> (\<exists>c. w = w\<lparr>wrCancelled := c\<rparr>)" using late by (auto intro: exI [of _ "wrCancelled w"])
    show "wUploads W \<subseteq>\<^sub>m wUploads W'" using ok(2) by (auto simp: W' map_le_def)
  qed (auto simp: W')
  have "writersOk W'"
    by (rule writersOk_upd [OF wo _ assms(2,3), where w' = w and pc' = pc' and t = "wNow W"]) (use ok late in \<open>auto simp: W'\<close>)
  then show ?thesis
  proof (rule s3Inv_keep [OF assms(1) ext])
    fix ob assume "slData (wSlot W') = Some ob"
    then have "slData (wSlot W) = Some ob \<or> pc = WUpload \<and> wrUploadErr w = [] \<and> s3Effect out \<and> ob = uploaded w (wNow W) etag"
      using assms(4) by (cases pc) (auto simp: W' split: if_splits)
    then show "slData (wSlot W) = Some ob \<or> (\<exists>v. objBy W' ob v)"
      using mem' late by (auto simp: objBy_def uploaded_def W' intro!: exI [of _ w] exI [of _ pc'])
  next
    fix m assume "slMeta (wSlot W') = Some m"
    then have "slMeta (wSlot W) = Some m \<or> pc = WMeta \<and> s3Effect out \<and> m = companion w"
      using assms(4) by (cases pc) (auto simp: W' split: if_splits)
    then show "slMeta (wSlot W) = Some m \<or> (\<exists>v. metaBy W' m v)"
      using mem' late by (auto simp: metaBy_def companion_def hSet_def writerETag_def W' intro!: exI [of _ w] exI [of _ pc'])
  qed (simp_all add: W')
qed

lemma statDecide_found:
  assumes "statDecide httpTime now ob h m0 = StatFound h1 m1"
  shows "(\<forall>k. k \<noteq> ''Last-Modified'' \<longrightarrow> h1 k = (h ++ smHeaders m1) k) \<and> smTag m1 = metaGet (obMeta ob) ''Tag'' \<and>
    (smTag m0 = metaGet (obMeta ob) ''Tag'' \<and> smHeaders m1 = smHeaders m0 \<or>
     s3CompanionGrace \<le> timeSub now (obMod ob) \<and> smHeaders m1 = Map.empty)"
  using assms by (auto simp: statDecide_def Let_def hSet_def split: if_splits)

lemma reader_found:
  assumes "s3Inv W" "objBy W ob w" "metaHeaders (obMeta ob) = Some h"
    and "statDecide httpTime (wNow W) ob h (case slMeta (wSlot W) of None \<Rightarrow> zeroMeta | Some m \<Rightarrow> m) = StatFound h1 m1"
  shows "readOk W (RFound ob h1 m1)"
proof -
  let ?m0 = "case slMeta (wSlot W) of None \<Rightarrow> zeroMeta | Some m \<Rightarrow> m"
  note f = statDecide_found [OF assms(4)]
  obtain pc where mem: "(w, pc) \<in> set (wWriters W)" "pc \<notin> early" and o: "obMeta ob = wrMetadata w" "wUploads W (wrTag w) = Some (obMod ob)"
    using assms(2) by (auto simp: objBy_def)
  have wo: "writersOk W" using assms(1) by (simp add: s3Inv_def)
  then have ok: "writerOk w" using mem(1) by (auto simp: writersOk_def)
  then have tag: "metaGet (obMeta ob) ''Tag'' = wrTag w" "wrTag w \<noteq> ''''" and etag: "h ''Etag'' = Some [writerETag w]" "wrHeaders w ''Etag'' = Some [writerETag w]" "h \<subseteq>\<^sub>m wrHeaders w"
    using assms(3) o(1) by (auto simp: writerOk_def)
  have "metaBy W m1 w"
  proof (cases "smTag ?m0 = wrTag w \<and> smHeaders m1 = smHeaders ?m0")
    case True
    then obtain m where m: "slMeta (wSlot W) = Some m" "?m0 = m" using tag(2) by (cases "slMeta (wSlot W)") (auto simp: zeroMeta_def)
    then obtain v where v: "metaBy W m v" using assms(1) by (auto simp: s3Inv_def)
    then obtain q where "(v, q) \<in> set (wWriters W)" "smTag m = wrTag v" by (auto simp: metaBy_def)
    moreover have "smTag m = wrTag w" using True m(2) by simp
    ultimately have "v = w" using writer_unique [OF wo mem(1)] by metis
    then show ?thesis using v True m(2) f tag by (auto simp: metaBy_def)
  next
    case False
    then have "s3CompanionGrace \<le> timeSub (wNow W) (obMod ob)" "smHeaders m1 = Map.empty" using f tag by auto
    then show ?thesis using mem o(2) f tag by (auto simp: metaBy_def aged_def)
  qed
  moreover have "headersBy h1 w"
  proof -
    have m1: "smHeaders m1 \<in> {Map.empty, [''Etag'' \<mapsto> [writerETag w]]}" using \<open>metaBy W m1 w\<close> by (simp add: metaBy_def)
    have h: "h k = None \<or> h k = wrHeaders w k" for k using etag(3) unfolding map_le_def by (metis domIff)
    have "(h ++ smHeaders m1) ''Etag'' = Some [writerETag w]" using m1 etag(1) by auto
    then have "hGet h1 ETagKey = writerETag w" using f by (simp add: hGet_def)
    moreover have "(h ++ smHeaders m1) k = None \<or> (h ++ smHeaders m1) k = wrHeaders w k" for k
      using m1 h [of k] etag(2) by (cases "k = ''Etag''") auto
    ultimately show ?thesis using f by (simp add: headersBy_def)
  qed
  ultimately show ?thesis using assms(2) by auto
qed

lemma inv_reader_step:
  assumes "s3Inv W" "i < length (wReaders W)" "readNext httpTime (wNow W) out (wSlot W) (wReaders W ! i) = Some (pc, sl)"
    and W': "W' = W\<lparr>wReaders := (wReaders W)[i := pc], wSlot := sl\<rparr>"
  shows "s3Inv W'"
proof -
  have same: "wWriters W' = wWriters W" "wUploads W' = wUploads W" "wCompanions W' = wCompanions W" "wNow W' = wNow W" by (simp_all add: W')
  have ext: "s3Ext W W'" "writersOk W'" using s3Ext_same [OF same(1-3)] same(4) assms(1) by (auto simp: s3Inv_def)
  have "readOk W (wReaders W ! i)" using assms(1,2) by (simp add: s3Inv_def)
  then have "readOk W pc"
  proof (cases "wReaders W ! i")
    case RStat
    then show ?thesis using assms(1,3)
      by (auto simp: s3Inv_def metaHeaders_def split: if_splits option.splits)
  next
    case (RMeta ob h)
    then show ?thesis using \<open>readOk W (wReaders W ! i)\<close> assms(3) reader_found [OF assms(1), of ob _ h httpTime]
      by (auto split: if_splits statRes.splits)
  qed (use assms(3) in \<open>auto split: if_splits\<close>)
  then have pc: "readOk W' pc" by (rule read_ext [OF ext(1)])
  have sl: "slData sl = slData (wSlot W) \<or> slData sl = None" "slMeta sl = slMeta (wSlot W) \<or> slMeta sl = None"
    using assms(3) by (cases "wReaders W ! i"; auto split: if_splits)+
  show ?thesis
    by (rule s3Inv_keep [OF assms(1) ext]) (use sl pc set_update_subset_insert [of "wReaders W" i pc] in \<open>auto simp: W'\<close>)
qed


text \<open>An update of a writer's own state.\<close>

lemma inv_writer_update:
  assumes "s3Inv W" "i < length (wWriters W)" "wWriters W ! i = (w, pc)" "W' = W\<lparr>wWriters := (wWriters W)[i := (w', pc')]\<rparr>"
    and "wrTag w' = wrTag w" "wrMetadata w' = wrMetadata w" "wrHeaders w' = wrHeaders w" "pc' \<in> early \<longleftrightarrow> pc \<in> early"
    and "pc \<notin> early \<Longrightarrow> \<exists>c. w' = w\<lparr>wrCancelled := c\<rparr>"
  shows "s3Inv W'"
proof -
  have wo: "writersOk W" using assms(1) by (simp add: s3Inv_def)
  then have "writerOk w" using assms(2,3) nth_mem by (fastforce simp: writersOk_def)
  then have ok': "writerOk w'" using assms(5-7) by (simp add: writerOk_def writerETag_def)
  have ext: "s3Ext W W'" by (rule s3Ext_upd [OF _ assms(2,3), of _ w' pc']) (use assms(4,8,9) in auto)
  have "writersOk W'" by (rule writersOk_upd [OF wo _ assms(2,3), where w' = w' and pc' = pc']) (use assms(4,5,8) ok' in auto)
  from s3Inv_keep [OF assms(1) ext this] show ?thesis using assms(4) by simp
qed

text \<open>Steps of the clock, of the refreshes and of deletions.\<close>

lemma inv_slot_update:
  assumes "s3Inv W" "wWriters W' = wWriters W" "wUploads W' = wUploads W" "wCompanions W' = wCompanions W" "wNow W \<le> wNow W'"
    and "\<And>ob. slData (wSlot W') = Some ob \<Longrightarrow> slData (wSlot W) = Some ob"
    and "\<And>m. slMeta (wSlot W') = Some m \<Longrightarrow> slMeta (wSlot W) = Some m \<or> (\<exists>w. metaBy W m w)"
    and "\<And>m. m \<in> set (wRefreshes W') \<Longrightarrow> m \<in> set (wRefreshes W) \<or> (\<exists>w. metaBy W m w)"
    and "set (wReaders W') \<subseteq> insert RStat (set (wReaders W))"
  shows "s3Inv W'"
proof -
  note ext = s3Ext_same [OF assms(2-5)]
  have "writersOk W'" using ext(2) assms(1) by (simp add: s3Inv_def)
  then show ?thesis
  proof (rule s3Inv_keep [OF assms(1) ext(1)])
    show "slMeta (wSlot W) = Some m \<or> (\<exists>w. metaBy W' m w)" if "slMeta (wSlot W') = Some m" for m
      using assms(7) [OF that] meta_ext [OF ext(1)] by blast
    show "m \<in> set (wRefreshes W) \<or> (\<exists>w. metaBy W' m w)" if "m \<in> set (wRefreshes W')" for m
      using assms(8) [OF that] meta_ext [OF ext(1)] by blast
  qed (use assms(6,9) in auto)
qed

lemma refreshMeta_by:
  assumes "refreshMeta config now meta = Some m" "metaBy W meta w" "writerETag w \<noteq> ''''"
  shows "metaBy W m w"
  using assms by (auto simp: refreshMeta_def metaBy_def hSet_def hGet_def split: option.splits if_splits)

lemma s3Inv_step:
  assumes "s3Inv W" "s3Apply config httpTime ev W = Some W'"
  shows "s3Inv W'"
proof (cases ev)
  case (NewWriter uuid tag cancelled headers ttl opts)
  then show ?thesis using inv_new_writer assms by metis
next
  case (WriteTo i n e p)
  then obtain w where w: "i < length (wWriters W)" "wWriters W ! i = (w, WOpen)" using assms(2) by (cases "wWriters W ! i") (auto split: if_splits)
  then show ?thesis using assms(2) WriteTo
    by (intro inv_writer_update [OF assms(1) w, of W' "snd (S3Write n e w p)" WOpen]) (auto simp: S3Write_def)
next
  case (CancelCtx i)
  obtain w pc where w: "wWriters W ! i = (w, pc)" by (metis prod.exhaust)
  show ?thesis using assms CancelCtx w
    by (intro inv_writer_update [OF assms(1) _ w, of W' "w\<lparr>wrCancelled := True\<rparr>" pc]) (auto split: if_splits)
next
  case (StartClose i)
  then obtain w where w: "i < length (wWriters W)" "wWriters W ! i = (w, WOpen)" using assms(2) by (cases "wWriters W ! i") (auto split: if_splits)
  then show ?thesis using assms(2) StartClose
    by (intro inv_writer_update [OF assms(1) w, of W' w WUpload]) auto
next
  case (WriterStep i etag out)
  obtain w pc where w: "wWriters W ! i = (w, pc)" by (metis prod.exhaust)
  obtain pc' sl where c: "i < length (wWriters W)" "closeNext (wNow W) etag out w (wSlot W) pc = Some (pc', sl)"
    using assms(2) WriterStep w by (auto split: if_splits option.splits)
  then show ?thesis using assms(2) WriterStep w by (intro inv_writer_step [OF assms(1) c(1) w c(2)]) simp
next
  case (ReaderStep i out)
  obtain pc sl where r: "i < length (wReaders W)" "readNext httpTime (wNow W) out (wSlot W) (wReaders W ! i) = Some (pc, sl)"
    using assms(2) ReaderStep by (auto split: if_splits option.splits)
  then show ?thesis using assms(2) ReaderStep by (intro inv_reader_step [OF assms(1) r]) simp
next
  case (OpenStarts i)
  then obtain ob h meta where r: "i < length (wReaders W)" "wReaders W ! i = RFound ob h meta"
    using assms(2) by (auto split: if_splits readPc.splits)
  then have "readOk W (RFound ob h meta)" using assms(1) nth_mem by (fastforce simp: s3Inv_def)
  then obtain w where w: "metaBy W meta w" by auto
  then have "writerETag w \<noteq> ''''" using assms(1) by (auto simp: metaBy_def s3Inv_def writersOk_def writerOk_def)
  with w have "refreshMeta config (wNow W) meta = Some m \<Longrightarrow> \<exists>w. metaBy W m w" for m using refreshMeta_by by blast
  then show ?thesis using assms(2) OpenStarts r
    by (intro inv_slot_update [OF assms(1)]) (auto split: option.splits)
next
  case (RefreshStep i out)
  then have i: "i < length (wRefreshes W)" using assms(2) by (auto split: if_splits)
  then have m: "\<exists>w. metaBy W (wRefreshes W ! i) w" using assms(1) by (simp add: s3Inv_def)
  show ?thesis using assms(2) RefreshStep i m
    by (intro inv_slot_update [OF assms(1)]) (auto split: if_splits dest: in_set_takeD in_set_dropD)
qed (use assms in \<open>auto intro!: inv_slot_update [OF assms(1)] split: if_splits\<close>)

lemma s3Inv_init: "s3Inv (emptyWorld t)"
  by (simp add: s3Inv_def writersOk_def emptyWorld_def)

lemma s3Inv_run: "s3Inv W \<Longrightarrow> s3Run config httpTime evs W = Some W' \<Longrightarrow> s3Inv W'"
  by (induction evs arbitrary: W) (auto split: option.splits dest: s3Inv_step)


section \<open>Lemmas: aborted writes\<close>

definition abortClean :: "s3World \<Rightarrow> bool" where
  "abortClean W \<longleftrightarrow> (\<forall>w. (w, WEnd []) \<in> set (wWriters W) \<and> wrTag w \<notin> wCompanions W \<longrightarrow>
     (\<forall>ob. slData (wSlot W) = Some ob \<longrightarrow> metaGet (obMeta ob) ''Tag'' \<noteq> wrTag w))"

lemma abort_keep:
  assumes "abortClean W" "wCompanions W \<subseteq> wCompanions W'"
    and "\<And>w. (w, WEnd []) \<in> set (wWriters W') \<Longrightarrow> \<exists>v. (v, WEnd []) \<in> set (wWriters W) \<and> wrTag v = wrTag w"
    and "\<And>ob. slData (wSlot W') = Some ob \<Longrightarrow> slData (wSlot W) = Some ob"
  shows "abortClean W'"
  unfolding abortClean_def
proof (intro allI impI, elim conjE)
  fix w ob assume w: "(w, WEnd []) \<in> set (wWriters W')" "wrTag w \<notin> wCompanions W'" and ob: "slData (wSlot W') = Some ob"
  obtain v where "(v, WEnd []) \<in> set (wWriters W)" "wrTag v = wrTag w" using assms(3) [OF w(1)] by blast
  then show "metaGet (obMeta ob) ''Tag'' \<noteq> wrTag w" using assms(1,2) assms(4) [OF ob] w(2) unfolding abortClean_def by fastforce
qed

lemma s3Err_Nil [simp]: "s3Err out = [] \<longleftrightarrow> out = SOk"
  by (cases out) auto

lemma abort_writer_step:
  assumes "s3Inv W" "abortClean W" "i < length (wWriters W)" "wWriters W ! i = (w, pc)"
    and "closeNext (wNow W) etag out w (wSlot W) pc = Some (pc', sl)" "s3Apply config httpTime (WriterStep i etag out) W = Some W'"
  shows "abortClean W'"
proof -
  have W': "wWriters W' = (wWriters W)[i := (w, pc')]" "wSlot W' = sl" "wCompanions W \<subseteq> wCompanions W'"
      "pc = WMeta \<and> s3Effect out \<longrightarrow> wrTag w \<in> wCompanions W'"
    using assms(3-6) by auto
  have mem': "(w, pc') \<in> set (wWriters W')" using assms(3) by (simp add: W' set_update_memI)
  have wo': "writersOk W'" using s3Inv_step [OF assms(1,6)] by (simp add: s3Inv_def)
  have ok: "writerOk w" using wo' mem' by (auto simp: writersOk_def)
  have sub: "set (wWriters W') \<subseteq> insert (w, pc') (set (wWriters W))" unfolding W'(1) by (rule set_update_subset_insert)
  show ?thesis
    unfolding abortClean_def
  proof (intro allI impI, elim conjE)
    fix v ob assume v: "(v, WEnd []) \<in> set (wWriters W')" "wrTag v \<notin> wCompanions W'" and ob: "slData (wSlot W') = Some ob"
    have slOb: "slData sl = Some ob" using ob W'(2) by simp
    show "metaGet (obMeta ob) ''Tag'' \<noteq> wrTag v"
    proof (cases "v = w \<and> pc' = WEnd []")
      case True
      then show ?thesis using assms(5) v(2) W'(4) slOb
        by (cases pc) (auto simp: errJoin_def split: if_splits option.splits)
    next
      case False
      then have "(v, WEnd []) \<in> set (wWriters W)" using v(1) sub by auto
      moreover have "wrTag v \<noteq> wrTag w" using writer_unique [OF wo' v(1) mem'] False by auto
      moreover have "slData (wSlot W) = Some ob \<or> obMeta ob = wrMetadata w"
        using assms(5) slOb by (cases pc) (auto simp: uploaded_def split: if_splits)
      ultimately show ?thesis using assms(2) W'(3) v(2) ok unfolding abortClean_def writerOk_def by (metis subsetD)
    qed
  qed
qed

lemma abort_step:
  assumes "s3Inv W" "abortClean W" "s3Apply config httpTime ev W = Some W'"
  shows "abortClean W'"
proof (cases "\<exists>i etag out. ev = WriterStep i etag out")
  case True
  then obtain i etag out where ev: "ev = WriterStep i etag out" by blast
  obtain w pc where w: "wWriters W ! i = (w, pc)" by (metis prod.exhaust)
  obtain pc' sl where "i < length (wWriters W)" "closeNext (wNow W) etag out w (wSlot W) pc = Some (pc', sl)"
    using assms(3) ev w by (auto split: if_splits option.splits)
  from abort_writer_step [OF assms(1,2) this(1) w this(2)] assms(3) ev show ?thesis by simp
next
  case False
  have upd: "(w, WEnd []) \<in> set ws" if "(w, WEnd []) \<in> set (ws[i := (x, p)])" "p \<noteq> WEnd []" for ws i w x p
    using set_update_subset_insert [of ws i "(x, p)"] that by auto
  show ?thesis
  proof (rule abort_keep [OF assms(2)])
    show "wCompanions W \<subseteq> wCompanions W'"
      using False assms(3) by (cases ev) (auto split: if_splits option.splits sum.splits prod.splits readPc.splits)
    show "\<exists>v. (v, WEnd []) \<in> set (wWriters W) \<and> wrTag v = wrTag w" if "(w, WEnd []) \<in> set (wWriters W')" for w
    proof (cases ev)
      case (WriteTo i n e p)
      then have "(w, WEnd []) \<in> set (wWriters W)" using assms(3) that by (auto split: if_splits dest: upd)
      then show ?thesis by blast
    next
      case (StartClose i)
      then have "(w, WEnd []) \<in> set (wWriters W)" using assms(3) that by (auto split: if_splits dest: upd)
      then show ?thesis by blast
    next
      case (CancelCtx i)
      obtain x q where x: "wWriters W ! i = (x, q)" by (metis prod.exhaust)
      then have i: "i < length (wWriters W)" and W': "wWriters W' = (wWriters W)[i := (x\<lparr>wrCancelled := True\<rparr>, q)]"
        using assms(3) CancelCtx by (auto split: if_splits)
      show ?thesis
      proof (cases "(w, WEnd []) = (x\<lparr>wrCancelled := True\<rparr>, q)")
        case True
        then show ?thesis using x i nth_mem [OF i] by auto
      next
        case False
        then show ?thesis using that set_update_subset_insert [of "wWriters W" i] unfolding W' by blast
      qed
    qed (use assms(3) that False in \<open>auto split: if_splits option.splits sum.splits readPc.splits\<close>)
    show "slData (wSlot W) = Some ob" if ob: "slData (wSlot W') = Some ob" for ob
    proof (cases ev)
      case (ReaderStep i out)
      then obtain pc sl where "readNext httpTime (wNow W) out (wSlot W) (wReaders W ! i) = Some (pc, sl)" "slData sl = Some ob"
        using assms(3) ob by (auto split: if_splits option.splits)
      then show ?thesis by (cases "wReaders W ! i") (auto split: if_splits)
    qed (use assms(3) ob False in \<open>auto split: if_splits option.splits sum.splits prod.splits readPc.splits\<close>)
  qed
qed

lemma abort_run: "s3Inv W \<Longrightarrow> abortClean W \<Longrightarrow> s3Run config httpTime evs W = Some W' \<Longrightarrow> abortClean W'"
  by (induction evs arbitrary: W) (auto split: option.splits dest: s3Inv_step abort_step)


section \<open>Lemmas: reading\<close>

text \<open>
  A body read with the S3 ETag pinned is a slice of the object that was looked up, or ends in an error; S3's ETag identifies the contents.
\<close>

lemma pinned_read:
  assumes "obETag ob \<noteq> ''''" "\<And>ob'. slData sl = Some ob' \<Longrightarrow> obETag ob' = obETag ob \<Longrightarrow> obData ob' = obData ob"
    and "bErr (rangeGetReader out (obETag ob) start len sl) = []"
  shows "concat (bBlocks (rangeGetReader out (obETag ob) start len sl)) = take (nat len) (drop (nat start) (obData ob))"
  using assms by (auto simp: rangeGetReader_def failingBody_def bytesReader_def split: if_splits option.splits)

text \<open>A window of an object answers with the part of the window it was asked for, and its range header says so.\<close>

lemma windowOpen_slice:
  assumes "windowOpen out \<lparr>owStart = s, owLength = l, owETag = obETag ob\<rparr> opts sl = (b, h, [])" "bErr b = []" "obETag ob \<noteq> ''''"
    and "\<And>ob'. slData sl = Some ob' \<Longrightarrow> obETag ob' = obETag ob \<Longrightarrow> obData ob' = obData ob"
    and "0 \<le> s" "0 \<le> l" "ResolveRange (NewRequestOptions opts) l (obETag ob) = (start, len, outcome)"
  shows "concat (bBlocks b) = take (nat len) (drop (nat start) (drop (nat s) (obData ob))) \<and> hGet h ETagKey = obETag ob \<and>
    (outcome = RangePartial \<longrightarrow> hGet h ''Content-Range'' = ''bytes '' @ FormatInt start @ ''-'' @ FormatInt (start + len - 1) @ ''/'' @ FormatInt l)"
proof -
  have b: "b = rangeGetReader out (obETag ob) (s + start) len sl" "outcome \<noteq> RangeNotSatisfiable"
    and h: "hGet h ETagKey = obETag ob"
      "outcome = RangePartial \<longrightarrow> hGet h ''Content-Range'' = ''bytes '' @ FormatInt start @ ''-'' @ FormatInt (start + len - 1) @ ''/'' @ FormatInt l"
    using assms(1,3,7) by (cases outcome; auto simp: windowOpen_def hGet_hSet Let_def)+
  have "0 \<le> start" using ResolveRange_cases [OF assms(7)] assms(6) by auto
  then have "drop (nat start) (drop (nat s) (obData ob)) = drop (nat (s + start)) (obData ob)" using assms(5) by (simp add: nat_add_distrib add.commute)
  moreover have "concat (bBlocks b) = take (nat len) (drop (nat (s + start)) (obData ob))"
    using pinned_read [OF assms(3,4)] assms(2) unfolding b(1) by blast
  ultimately show ?thesis using h by simp
qed

text \<open>Undisturbed, an entry that \<^verbatim>\<open>Close\<close> has committed is found with its data until it expires.\<close>

lemma commit_found:
  assumes "writerOk w" "wrUploadErr w = []" "\<not> wrCancelled w" "now1 \<le> wrExpiresAt w"
    and "closeNext now etag SOk w sl WUpload = Some (pc1, sl1)" "closeNext now etag SOk w sl1 pc1 = Some (pc2, sl2)"
      "closeNext now etag SOk w sl2 pc2 = Some (pc3, sl3)"
  shows "pc3 = WEnd [] \<and> (\<exists>h h1 m. readNext httpTime now1 SOk sl3 RStat = Some (RMeta (uploaded w now etag) h, sl3) \<and>
    readNext httpTime now1 SOk sl3 (RMeta (uploaded w now etag) h) = Some (RFound (uploaded w now etag) h1 m, sl3) \<and>
    hGet h1 ETagKey = writerETag w)"
proof -
  have sl3: "pc3 = WEnd []" "sl3 = \<lparr>slData = Some (uploaded w now etag), slMeta = Some (companion w)\<rparr>"
    using assms(2,3,5-7) by auto
  obtain h where h: "metaHeaders (wrMetadata w) = Some h" and tag: "metaGet (wrMetadata w) ''Tag'' = wrTag w"
    using assms(1) by (auto simp: writerOk_def)
  have st: "readNext httpTime now1 SOk sl3 RStat = Some (RMeta (uploaded w now etag) h, sl3)"
    using h by (auto simp: sl3 uploaded_def metaHeaders_def split: if_splits)
  obtain h1 m where d: "statDecide httpTime now1 (uploaded w now etag) h (companion w) = StatFound h1 m"
    using tag assms(4) by (auto simp: statDecide_def uploaded_def companion_def Let_def split: option.splits)
  have "(h ++ smHeaders m) ''Etag'' = Some [writerETag w]"
    using statDecide_found [OF d] tag assms(1) h by (auto simp: companion_def hSet_def writerETag_def uploaded_def writerOk_def)
  then have "hGet h1 ETagKey = writerETag w" using statDecide_found [OF d] by (simp add: hGet_def)
  then show ?thesis using sl3 st d by auto
qed

section \<open>Properties\<close>


text \<open>
  C39: an aborted S3 write that reports success leaves nothing behind.  When \<^verbatim>\<open>Close\<close> has returned without an error and has not
  put the companion, as after \<^verbatim>\<open>Abort\<close>, the bucket does not hold the data of this write, now or later.
\<close>

theorem s3_abort_clean:
  assumes "s3Run config httpTime evs (emptyWorld t) = Some W" "(w, WEnd []) \<in> set (wWriters W)" "wrTag w \<notin> wCompanions W"
  shows "\<forall>ob. slData (wSlot W) = Some ob \<longrightarrow> metaGet (obMeta ob) ''Tag'' \<noteq> wrTag w"
proof -
  have "abortClean (emptyWorld t)" by (simp add: abortClean_def emptyWorld_def)
  from abort_run [OF s3Inv_init this assms(1)] assms(2,3) show ?thesis unfolding abortClean_def by blast
qed


section \<open>Concrete runs\<close>

definition demoS3 :: S3Config where
  "demoS3 = \<lparr>scMaxTTL = 3600000000000, scUploadConcurrency = 1, scUploadPartSizeMB = 16, scDownloadConcurrency = 8, scDownloadPartSizeMB = 32\<rparr>"

definition demoWriter :: "char \<Rightarrow> bytes \<Rightarrow> s3Writer" where
  "demoWriter c d = \<lparr>wrTag = [c], wrHeaders = [''Etag'' \<mapsto> [[CHR 0x22, c, CHR 0x22]]],
     wrMetadata = [''Tag'' \<mapsto> [c], ''Headers'' \<mapsto> encodeHeaders [''Etag'' \<mapsto> [[CHR 0x22, c, CHR 0x22]]]],
     wrExpiresAt = 3600000000000, wrBuf = d, wrCancelled = False, wrUploadErr = []\<rparr>"

lemma demoWriter_sel [simp]:
  "wrTag (demoWriter c d) = [c]" "wrHeaders (demoWriter c d) = [''Etag'' \<mapsto> [[CHR 0x22, c, CHR 0x22]]]"
  "metaGet (wrMetadata (demoWriter c d)) ''Tag'' = [c]" "wrExpiresAt (demoWriter c d) = 3600000000000" "wrCancelled (demoWriter c d) = False"
  "wrUploadErr (demoWriter c d) = []" "snd (S3Write n [] (demoWriter c []) d) = demoWriter c d"
  by (simp_all add: demoWriter_def metaGet_def S3Write_def)

lemma demo_etag:
  assumes "c \<in> {CHR ''a'', CHR ''b''}"
  shows "FormatETag [c] = ([CHR 0x22, c, CHR 0x22], [])"
  using assms by (elim insertE emptyE) (simp_all add: FormatETag_def ValidateRawETag_def isRawETagChar_def less_eq_char_def)

lemma demo_size:
  assumes "c \<in> {CHR ''a'', CHR ''b''}"
  shows "userMetadataSize [c] (encodeHeaders [''Etag'' \<mapsto> [[CHR 0x22, c, CHR 0x22]]]) \<le> 2048"
proof -
  have "length (jsonEscape x) \<le> 6" for x by (simp add: jsonEscape_def Let_def)
  then have "length (concat (map jsonEscape s)) \<le> 6 * length s" for s by (induction s) (auto simp: add_mono)
  then have "length (jsonString s) \<le> 6 * length s + 2" for s by (simp add: jsonString_def)
  from this [of "''Etag''"] this [of "[CHR 0x22, c, CHR 0x22]"] show ?thesis by (simp add: userMetadataSize_def encodeHeaders_def)
qed

lemma demo_create:
  assumes "c \<in> {CHR ''a'', CHR ''b''}"
  shows "S3Create demoS3 0 [c] (Inr [c]) False Map.empty 0 [] = Inr (demoWriter c [])"
proof -
  have f: "FilterHeaders Map.empty TransportHeaders = Map.empty" by (simp add: FilterHeaders_def Let_def)
  have e: "setCreateETag [c] Map.empty [] = ([''Etag'' \<mapsto> [[CHR 0x22, c, CHR 0x22]]], [])"
    using demo_etag [OF assms] by (simp add: setCreateETag_def createETag_def NewRequestOptions_def zeroOptions_def hSet_def Let_def)
  have m: "s3UserMetadata [c] [''Etag'' \<mapsto> [[CHR 0x22, c, CHR 0x22]]] =
      Inr [''Tag'' \<mapsto> [c], ''Headers'' \<mapsto> encodeHeaders [''Etag'' \<mapsto> [[CHR 0x22, c, CHR 0x22]]]]"
    using demo_size [OF assms] by (simp add: s3UserMetadata_def Let_def)
  show ?thesis by (simp add: S3Create_def f e m demoS3_def demoWriter_def ceilSecond_def Let_def)
qed

definition demoEvents :: "s3Event list" where
  "demoEvents = [NewWriter ''a'' ''a'' False Map.empty 0 [], WriteTo 0 0 [] [1], StartClose 0,
     WriterStep 0 ''e1'' SOk, WriterStep 0 ''e1'' SOk, WriterStep 0 ''e1'' SOk, NewReader, ReaderStep 0 SOk, ReaderStep 0 SOk]"

definition demoReplace :: "s3Event list" where
  "demoReplace = [NewWriter ''b'' ''b'' False Map.empty 0 [], WriteTo 1 0 [] [2, 3], StartClose 1,
     WriterStep 1 ''e2'' SOk, WriterStep 1 ''e2'' SOk, WriterStep 1 ''e2'' SOk]"

definition demoFound :: "s3World" where
  "demoFound = \<lparr>wSlot = \<lparr>slData = Some (uploaded (demoWriter (CHR ''a'') [1]) 0 ''e1''), slMeta = Some (companion (demoWriter (CHR ''a'') [1]))\<rparr>,
     wNow = 0, wWriters = [(demoWriter (CHR ''a'') [1], WEnd [])],
     wReaders = [RFound (uploaded (demoWriter (CHR ''a'') [1]) 0 ''e1'') [''Etag'' \<mapsto> [[CHR 0x22, CHR ''a'', CHR 0x22]], ''Last-Modified'' \<mapsto> [''now'']] (companion (demoWriter (CHR ''a'') [1]))],
     wRefreshes = [], wCompanions = {''a''}, wUploads = [''a'' \<mapsto> 0]\<rparr>"

lemma demo_stat:
  assumes "slData sl = Some (uploaded (demoWriter c d) 0 e)" "slMeta sl = Some (companion (demoWriter c d))"
  shows "readNext (\<lambda>_. ''now'') 0 SOk sl RStat = Some (RMeta (uploaded (demoWriter c d) 0 e) [''Etag'' \<mapsto> [[CHR 0x22, c, CHR 0x22]]], sl)"
    "readNext (\<lambda>_. ''now'') 0 SOk sl (RMeta (uploaded (demoWriter c d) 0 e) [''Etag'' \<mapsto> [[CHR 0x22, c, CHR 0x22]]]) =
       Some (RFound (uploaded (demoWriter c d) 0 e) [''Etag'' \<mapsto> [[CHR 0x22, c, CHR 0x22]], ''Last-Modified'' \<mapsto> [''now'']] (companion (demoWriter c d)), sl)"
proof -
  have "metaGet (wrMetadata (demoWriter c d)) ''Headers'' = encodeHeaders [''Etag'' \<mapsto> [[CHR 0x22, c, CHR 0x22]]]"
    by (simp add: demoWriter_def metaGet_def)
  then show "readNext (\<lambda>_. ''now'') 0 SOk sl RStat = Some (RMeta (uploaded (demoWriter c d) 0 e) [''Etag'' \<mapsto> [[CHR 0x22, c, CHR 0x22]]], sl)"
    using assms(1) by (simp add: uploaded_def encodeHeaders_not_Nil decode_encode_headers)
  have "statDecide (\<lambda>_. ''now'') 0 (uploaded (demoWriter c d) 0 e) [''Etag'' \<mapsto> [[CHR 0x22, c, CHR 0x22]]] (companion (demoWriter c d)) =
      StatFound [''Etag'' \<mapsto> [[CHR 0x22, c, CHR 0x22]], ''Last-Modified'' \<mapsto> [''now'']] (companion (demoWriter c d))"
    by (simp add: statDecide_def uploaded_def companion_def hGet_def hSet_def Let_def)
  then show "readNext (\<lambda>_. ''now'') 0 SOk sl (RMeta (uploaded (demoWriter c d) 0 e) [''Etag'' \<mapsto> [[CHR 0x22, c, CHR 0x22]]]) =
       Some (RFound (uploaded (demoWriter c d) 0 e) [''Etag'' \<mapsto> [[CHR 0x22, c, CHR 0x22]], ''Last-Modified'' \<mapsto> [''now'']] (companion (demoWriter c d)), sl)"
    using assms(2) by simp
qed

lemma demo_found: "s3Run demoS3 (\<lambda>_. ''now'') demoEvents (emptyWorld 0) = Some demoFound"
  by (simp add: demoEvents_def emptyWorld_def demo_create demo_stat demoFound_def del: readNext.simps)

lemma s3Run_append: "s3Run config httpTime (a @ b) W = (case s3Run config httpTime a W of None \<Rightarrow> None | Some W1 \<Rightarrow> s3Run config httpTime b W1)"
  by (induction a arbitrary: W) (auto split: option.splits)


definition demoAborted :: "s3Event list" where
  "demoAborted = [NewWriter ''a'' ''a'' False Map.empty 0 [], WriteTo 0 0 [] [1], CancelCtx 0, StartClose 0,
     WriterStep 0 ''e1'' SOk, WriterStep 0 ''e1'' SOk, WriterStep 0 ''e1'' SOk, WriterStep 0 ''e1'' SOk]"

lemma demo_aborted:
  "s3Run demoS3 (\<lambda>_. ''now'') demoAborted (emptyWorld 0) =
   Some ((emptyWorld 0)\<lparr>wWriters := [((demoWriter (CHR ''a'') [1])\<lparr>wrCancelled := True\<rparr>, WEnd [])], wUploads := [''a'' \<mapsto> 0]\<rparr>)"
  by (simp add: demoAborted_def emptyWorld_def demo_create uploaded_def errJoin_def)

theorem s3_abort_clean_witness:
  "\<exists>W. s3Run demoS3 (\<lambda>_. ''now'') demoAborted (emptyWorld 0) = Some W \<and> wUploads W ''a'' = Some 0 \<and>
     (\<forall>ob. slData (wSlot W) = Some ob \<longrightarrow> metaGet (obMeta ob) ''Tag'' \<noteq> ''a'')"
  using s3_abort_clean [OF demo_aborted, of "(demoWriter (CHR ''a'') [1])\<lparr>wrCancelled := True\<rparr>"] demo_aborted
  by (simp add: emptyWorld_def)

text \<open>
  C40: an object that fits in one part is read without its revision.  \<^verbatim>\<open>Open\<close> takes the headers from the object it has looked up but then requests
  the body without \<^verbatim>\<open>If-Match\<close>: when another writer commits in between, the reader gets the ETag and the length of the
  old object with the data of the new one, and no error.
\<close>

theorem s3_unpinned_read:
  "\<exists>W ob h m h'. s3Run demoS3 (\<lambda>_. ''now'') (demoEvents @ demoReplace) (emptyWorld 0) = Some W \<and> wReaders W ! 0 = RFound ob h m \<and>
     obData ob = [1] \<and> S3OpenReply demoS3 ob h [] = (h', GetWhole) \<and> hGet h' ETagKey = [CHR 0x22, CHR ''a'', CHR 0x22] \<and>
     hGet h' ''Content-Length'' = ''1'' \<and> concat (bBlocks (getWhole SOk (wSlot W))) = [2, 3] \<and> bErr (getWhole SOk (wSlot W)) = []"
proof -
  obtain ob h m where r: "wReaders demoFound = [RFound ob h m]" and ob: "obData ob = [1]" and h: "hGet h ETagKey = [CHR 0x22, CHR ''a'', CHR 0x22]"
    by (simp add: demoFound_def uploaded_def hGet_def demoWriter_def)
  have "\<exists>W. s3Run demoS3 (\<lambda>_. ''now'') demoReplace demoFound = Some W \<and> wReaders W = wReaders demoFound \<and>
      slData (wSlot W) = Some (uploaded (demoWriter (CHR ''b'') [2, 3]) 0 ''e2'')"
    by (simp add: demoReplace_def demoFound_def demo_create)
  then obtain W where W: "s3Run demoS3 (\<lambda>_. ''now'') (demoEvents @ demoReplace) (emptyWorld 0) = Some W" "wReaders W = [RFound ob h m]"
      "slData (wSlot W) = Some (uploaded (demoWriter (CHR ''b'') [2, 3]) 0 ''e2'')"
    using demo_found r by (auto simp: s3Run_append)
  have opts: "Check zeroOptions et = []" "ResolveRange zeroOptions sz et = (0, sz, RangeFull)" for et sz
    by (simp_all add: zeroOptions_def Check_def ResolveRange_def)
  have "\<exists>h'. S3OpenReply demoS3 ob h [] = (h', GetWhole) \<and> hGet h' ETagKey = hGet h ETagKey \<and> hGet h' ''Content-Length'' = FormatInt 1"
    by (simp add: S3OpenReply_def conditionalShortCircuit_def rangeShortCircuit_def NewRequestOptions_def opts errIs_def parallelGetReader_def demoS3_def ob
        hGet_hDel hGet_hSet Let_def)
  moreover have "FormatInt 1 = ''1''" by code_simp
  moreover have "getWhole SOk (wSlot W) = bytesReader [2, 3]" by (simp add: getWhole_def W(3) uploaded_def demoWriter_def)
  ultimately show ?thesis using W(1,2) ob h by (auto simp: bytesReader_def)
qed

end
